(* ===== verification/Prelude.thy ===== *)
theory Prelude
  imports Main "HOL-Library.Word"
begin

section \<open>Prelude: outcomes, loops, bytes and words\<close>

text \<open>
  What every component of the model shares.

  \<^item> A kernel function is a HOL function from the state to an \<open>outcome\<close>: it returns a value
    and a state (\<open>Ok\<close>), it calls \<open>panic\<close> (\<open>Panic\<close>, with the message), it hands the hart to
    the scheduler through \<open>swtch\<close> (\<open>Switch\<close>, with the state at that moment), or it spins on
    something another hart or a device has to change (\<open>Spin\<close>).
    \<open>andthen\<close> is the C sequencing of two statements over outcomes.
  \<^item> \<open>forK\<close> is a \<open>for\<close> loop over a list of indices whose body may leave the loop early
    (\<open>break\<close>, \<open>return\<close>, \<open>goto\<close>) with a value.
  \<^item> \<open>partial\<close> and \<open>returns\<close> are the weakest-precondition style judgements (partial and total
    correctness) in which most component lemmas are proved; their rules are collected in
    \<open>wp_intros\<close>.
  \<^item> \<open>load64\<close> and \<open>store64\<close> read and write little-endian integers in a
    byte-addressed memory.
\<close>

unbundle bit_operations_syntax

named_theorems wp_intros \<open>introduction rules of the partial-correctness judgement\<close>
named_theorems word_range \<open>facts that bound machine words\<close>

subsection \<open>Machine types\<close>

type_synonym byte = "8 word"
type_synonym uint16 = "16 word"
type_synonym uint32 = "32 word"
type_synonym uint64 = "64 word"
type_synonym memory = "uint64 \<Rightarrow> byte"

subsection \<open>Outcomes of kernel code\<close>

datatype ('a, 's) outcome =
    Ok 'a 's
  | Panic string
  | Switch 's
  | Spin 's

primrec andthen ::
  "('a, 's) outcome \<Rightarrow> ('a \<Rightarrow> 's \<Rightarrow> ('b, 's) outcome) \<Rightarrow> ('b, 's) outcome" where
  "andthen (Ok x s) f = f x s"
| "andthen (Panic m) f = Panic m"
| "andthen (Switch s) f = Switch s"
| "andthen (Spin s) f = Spin s"

lemma andthen_assoc:
  "andthen (andthen r f) g = andthen r (\<lambda>x s. andthen (f x s) g)"
  by (cases r) simp_all

lemma andthen_Ok_right [simp]: "andthen r Ok = r"
  by (cases r) simp_all

lemma andthen_eq_Ok_iff:
  "andthen r f = Ok y t \<longleftrightarrow> (\<exists>x s. r = Ok x s \<and> f x s = Ok y t)"
  by (cases r) auto

lemma andthen_eq_Panic_iff:
  "andthen r f = Panic m \<longleftrightarrow> r = Panic m \<or> (\<exists>x s. r = Ok x s \<and> f x s = Panic m)"
  by (cases r) auto

lemma andthen_cong [fundef_cong]:
  "r = r' \<Longrightarrow> (\<And>x s. r' = Ok x s \<Longrightarrow> f x s = g x s) \<Longrightarrow> andthen r f = andthen r' g"
  by (cases r') auto

text \<open>
  Dereferencing a pointer that may be null.  Page 0 is not mapped in the kernel page table, so
  the access faults, and \<open>kerneltrap\<close> panics because \<open>devintr\<close> does not know the cause.
\<close>

definition deref :: "'b option \<Rightarrow> ('b \<Rightarrow> ('a, 's) outcome) \<Rightarrow> ('a, 's) outcome" where
  "deref p f = (case p of None \<Rightarrow> Panic ''kerneltrap'' | Some x \<Rightarrow> f x)"

lemma deref_simps [simp]: "deref None f = Panic ''kerneltrap''" "deref (Some x) f = f x"
  by (simp_all add: deref_def)

subsection \<open>Loops with early exit\<close>

fun forK ::
  "nat list \<Rightarrow> (nat \<Rightarrow> 's \<Rightarrow> ('r option, 's) outcome) \<Rightarrow> 's \<Rightarrow> ('r option, 's) outcome" where
  "forK [] f s = Ok None s"
| "forK (i # is) f s =
     andthen (f i s) (\<lambda>r s. case r of Some x \<Rightarrow> Ok (Some x) s | None \<Rightarrow> forK is f s)"

text \<open>A loop over a list without an early exit.\<close>

primrec for_each :: "('a \<Rightarrow> 's \<Rightarrow> (unit, 's) outcome) \<Rightarrow> 'a list \<Rightarrow> 's \<Rightarrow> (unit, 's) outcome" where
  "for_each f [] s = Ok () s"
| "for_each f (x # xs) s = andthen (f x s) (\<lambda>_ s. for_each f xs s)"

lemma forK_append:
  "forK (is @ js) f s =
     andthen (forK is f s) (\<lambda>r s. case r of Some x \<Rightarrow> Ok (Some x) s | None \<Rightarrow> forK js f s)"
proof (induction "is" arbitrary: s)
  case Nil
  show ?case by simp
next
  case (Cons i "is")
  show ?case
    by (cases "f i s") (auto simp: Cons.IH andthen_assoc split: option.splits)
qed

text \<open>A loop whose body never leaves early is a fold over the indices.\<close>

lemma forK_fold:
  assumes "\<And>i s. i \<in> set is \<Longrightarrow> P s \<Longrightarrow> f i s = Ok None (g i s) \<and> P (g i s)"
    and "P s"
  shows "forK is f s = Ok None (fold g is s) \<and> P (fold g is s)"
  using assms
proof (induction "is" arbitrary: s)
  case Nil
  then show ?case by simp
next
  case (Cons i "is")
  from Cons.prems(1) [of i s] Cons.prems(2)
  have "f i s = Ok None (g i s)" "P (g i s)" by auto
  with Cons show ?case by simp
qed

text \<open>A search loop: the body does nothing until the first index that satisfies a test.\<close>

lemma forK_search_none:
  assumes "\<And>i. i \<in> set is \<Longrightarrow> f i s = Ok None s"
  shows "forK is f s = Ok None s"
  using assms by (induction "is") auto

lemma forK_search_found:
  assumes "\<And>j. j < k \<Longrightarrow> f j s = Ok None s"
    and "k < n" and "f k s = Ok (Some r) t"
  shows "forK [0..<n] f s = Ok (Some r) t"
proof -
  have "forK [0..<k] f s = Ok None s"
    using assms(1) by (intro forK_search_none) simp
  then have "forK ([0..<k] @ k # [Suc k..<n]) f s = Ok (Some r) t"
    using assms(3) by (subst forK_append) simp
  moreover have "[0..<n] = [0..<k] @ k # [Suc k..<n]"
    using \<open>k < n\<close> by (metis le_add_diff_inverse less_imp_le_nat upt_add_eq_append
        upt_conv_Cons zero_le)
  ultimately show ?thesis by simp
qed

lemma forK_find:
  assumes "\<And>i. i \<in> set is \<Longrightarrow> f i s = (if Q i then x i else Ok None s)"
    and "\<And>i t. x i \<noteq> Ok None t"
  shows "forK is f s = (case find Q is of None \<Rightarrow> Ok None s | Some i \<Rightarrow> x i)"
  using assms(1)
proof (induction "is")
  case (Cons i "is")
  show ?case
  proof (cases "Q i")
    case True
    then have "f i s = x i" using Cons.prems [of i] by simp
    with True show ?thesis using assms(2) [of i] by (cases "x i") (auto split: option.splits)
  next
    case False
    then have "f i s = Ok None s" using Cons.prems [of i] by simp
    with False Cons show ?thesis by simp
  qed
qed simp

subsection \<open>Judgements on outcomes\<close>

definition partial :: "('a, 's) outcome \<Rightarrow> ('a \<Rightarrow> 's \<Rightarrow> bool) \<Rightarrow> bool" where
  "partial r Q \<longleftrightarrow> (\<forall>x s. r = Ok x s \<longrightarrow> Q x s)"

definition returns :: "('a, 's) outcome \<Rightarrow> ('a \<Rightarrow> 's \<Rightarrow> bool) \<Rightarrow> bool" where
  "returns r Q \<longleftrightarrow> (\<exists>x s. r = Ok x s \<and> Q x s)"

lemma partialD: "partial r Q \<Longrightarrow> r = Ok x s \<Longrightarrow> Q x s"
  by (simp add: partial_def)

lemma returns_partial: "returns r Q \<Longrightarrow> partial r Q"
  by (auto simp: returns_def partial_def)

lemma partial_Ok [simp]: "partial (Ok x s) Q = Q x s"
  by (simp add: partial_def)

lemma partial_no_return [simp]: "partial (Panic m) Q" "partial (Switch s) Q" "partial (Spin s) Q"
  by (simp_all add: partial_def)

lemma returns_simps [simp]:
  "returns (Ok x s) Q = Q x s" "\<not> returns (Panic m) Q" "\<not> returns (Switch s) Q"
  "\<not> returns (Spin s) Q"
  by (simp_all add: returns_def)

lemma partial_andthen [wp_intros]:
  "partial r (\<lambda>x s. partial (f x s) Q) \<Longrightarrow> partial (andthen r f) Q"
  by (cases r) auto

lemma returns_andthen:
  "returns r (\<lambda>x s. returns (f x s) Q) \<Longrightarrow> returns (andthen r f) Q"
  by (cases r) auto

lemma partial_mono: "partial r Q \<Longrightarrow> (\<And>x s. Q x s \<Longrightarrow> R x s) \<Longrightarrow> partial r R"
  by (simp add: partial_def)

lemma returns_mono: "returns r Q \<Longrightarrow> (\<And>x s. Q x s \<Longrightarrow> R x s) \<Longrightarrow> returns r R"
  by (auto simp: returns_def)

lemma partial_if [wp_intros]:
  "(b \<Longrightarrow> partial r Q) \<Longrightarrow> (\<not> b \<Longrightarrow> partial r' Q) \<Longrightarrow> partial (if b then r else r') Q"
  by simp

lemma partial_option [wp_intros]:
  "(v = None \<Longrightarrow> partial r Q) \<Longrightarrow> (\<And>x. v = Some x \<Longrightarrow> partial (f x) Q) \<Longrightarrow>
   partial (case v of None \<Rightarrow> r | Some x \<Rightarrow> f x) Q"
  by (cases v) simp_all

lemma partial_deref [wp_intros]: "(\<And>x. p = Some x \<Longrightarrow> partial (f x) Q) \<Longrightarrow> partial (deref p f) Q"
  by (cases p) (simp_all add: partial_def)

text \<open>A loop keeps whatever every run of its body keeps.\<close>

lemma partial_forK:
  assumes "\<And>i s. i \<in> set is \<Longrightarrow> I s \<Longrightarrow> partial (f i s) (\<lambda>r s. I s)"
    and "I s"
  shows "partial (forK is f s) (\<lambda>r s. I s)"
  using assms
proof (induction "is" arbitrary: s)
  case Nil
  then show ?case by simp
next
  case (Cons i "is")
  show ?case
  proof (cases "f i s")
    case (Ok r t)
    with Cons.prems have "I t" by (metis partialD list.set_intros(1))
    with Cons Ok show ?thesis by (auto split: option.splits)
  qed simp_all
qed

subsection \<open>C conversions between integers\<close>

text \<open>
  The kernel is compiled for RISC-V, where plain \<open>char\<close> is unsigned and \<open>int\<close> has 32 bits.
  A C \<open>int\<close> is an \<open>int\<close> of the model (signed overflow is undefined in C and is not given
  a meaning here); converting an unsigned value to \<open>int\<close> takes its low 32 bits as two's complement.
\<close>

definition int_of_u64 :: "uint64 \<Rightarrow> int" where
  "int_of_u64 x = sint (ucast x :: uint32)"

definition u64_of_int :: "int \<Rightarrow> uint64" where
  "u64_of_int i = word_of_int i"

lemma int_of_u64_range [word_range]: "- (2 ^ 31) \<le> int_of_u64 x" "int_of_u64 x < 2 ^ 31"
  using sint_range_size [of "ucast x :: uint32"] by (auto simp: int_of_u64_def word_size)

lemma int_of_u64_of_int:
  assumes "- (2 ^ 31) \<le> i" "i < 2 ^ 31"
  shows "int_of_u64 (u64_of_int i) = i"
proof -
  have "(ucast (word_of_int i :: uint64) :: uint32) = word_of_int i"
    by (simp add: ucast_eq word_of_int_eq_iff take_bit_eq_mod mod_mod_cancel
        uint_word_of_int)
  then show ?thesis
    using assms by (simp add: int_of_u64_def u64_of_int_def sint_sbintrunc' signed_take_bit_int_eq_self)
qed

subsection \<open>Words and naturals\<close>

lemma sint_word_of_int_32: "- (2 ^ 31) \<le> i \<Longrightarrow> i < 2 ^ 31 \<Longrightarrow> sint (word_of_int i :: uint32) = i"
  by (simp add: sint_sbintrunc' signed_take_bit_int_eq_self)

lemma unat_of_nat_64: "k < 2 ^ 64 \<Longrightarrow> unat (of_nat k :: uint64) = k"
  by (simp add: unsigned_of_nat take_bit_nat_eq_self)

lemma unat_of_nat_32: "k < 2 ^ 32 \<Longrightarrow> unat (of_nat k :: uint32) = k"
  by (simp add: unsigned_of_nat take_bit_nat_eq_self)

lemma unat_64_bound [word_range]: "unat (x :: uint64) < 2 ^ 64"
  using unsigned_less [of x] by simp

lemma unat_32_bound [word_range]: "unat (x :: uint32) < 2 ^ 32"
  using unsigned_less [of x] by simp

lemma unat_ucast_32_64: "unat (ucast (n :: uint32) :: uint64) = unat n"
  using unat_32_bound [of n] by (simp add: unsigned_ucast_eq take_bit_nat_eq_self)

lemma of_nat_unat_32_64: "of_nat (unat (n :: uint32)) = (ucast n :: uint64)"
  by (rule of_nat_unat)

lemma unat_add_64: "unat a + unat b < 2 ^ 64 \<Longrightarrow> unat (a + b) = unat a + unat b" for a b :: uint64
  by (simp add: unat_word_ariths)

lemma unat_add_32: "unat a + unat b < 2 ^ 32 \<Longrightarrow> unat (a + b) = unat a + unat b" for a b :: uint32
  by (simp add: unat_word_ariths)

text \<open>Two multiples of \<open>m\<close> that differ, differ by \<open>m\<close> at least.\<close>

lemma multiples_apart: "a mod m = 0 \<Longrightarrow> b mod m = 0 \<Longrightarrow> a < b \<Longrightarrow> a + m \<le> b" for a b m :: nat
proof -
  assume "a mod m = 0" "b mod m = 0" "a < b"
  then obtain k l where "a = m * k" "b = m * l" "k < l"
    by (auto simp: mod_eq_0_iff_dvd elim!: dvdE)
  then have "m * (k + 1) \<le> m * l" by (intro mult_le_mono2) simp
  with \<open>a = m * k\<close> \<open>b = m * l\<close> show ?thesis by simp
qed

subsection \<open>Little-endian integers in memory\<close>

definition byte_of :: "nat \<Rightarrow> uint64 \<Rightarrow> byte" where
  "byte_of i x = ucast (drop_bit (8 * i) x)"

definition load64 :: "memory \<Rightarrow> uint64 \<Rightarrow> uint64" where
  "load64 m a =
     (ucast (m a) OR push_bit 8 (ucast (m (a + 1)))) OR
     (push_bit 16 (ucast (m (a + 2))) OR push_bit 24 (ucast (m (a + 3)))) OR
     (push_bit 32 (ucast (m (a + 4))) OR push_bit 40 (ucast (m (a + 5)))) OR
     (push_bit 48 (ucast (m (a + 6))) OR push_bit 56 (ucast (m (a + 7))))"

definition store64 :: "memory \<Rightarrow> uint64 \<Rightarrow> uint64 \<Rightarrow> memory" where
  "store64 m a x =
     m(a := byte_of 0 x, a + 1 := byte_of 1 x, a + 2 := byte_of 2 x, a + 3 := byte_of 3 x,
       a + 4 := byte_of 4 x, a + 5 := byte_of 5 x, a + 6 := byte_of 6 x, a + 7 := byte_of 7 x)"

lemma bit_ucast_byte_of:
  "bit (ucast (byte_of i x) :: uint64) n \<longleftrightarrow> n < 8 \<and> bit x (8 * i + n)"
  by (cases "8 * i + n < 64") (auto simp: byte_of_def bit_simps dest: bit_imp_le_length)

lemma load64_store64_same [simp]: "load64 (store64 m a x) a = x"
proof (rule bit_word_eqI)
  fix n :: nat assume n: "n < LENGTH(64)"
  have r: "load64 (store64 m a x) a =
     (ucast (byte_of 0 x) OR push_bit 8 (ucast (byte_of 1 x))) OR
     (push_bit 16 (ucast (byte_of 2 x)) OR push_bit 24 (ucast (byte_of 3 x))) OR
     (push_bit 32 (ucast (byte_of 4 x)) OR push_bit 40 (ucast (byte_of 5 x))) OR
     (push_bit 48 (ucast (byte_of 6 x)) OR push_bit 56 (ucast (byte_of 7 x)))"
    by (simp add: load64_def store64_def)
  have c: "n < 8 \<or> 8 \<le> n \<and> n < 16 \<or> 16 \<le> n \<and> n < 24 \<or> 24 \<le> n \<and> n < 32 \<or>
     32 \<le> n \<and> n < 40 \<or> 40 \<le> n \<and> n < 48 \<or> 48 \<le> n \<and> n < 56 \<or> 56 \<le> n \<and> n < 64"
    using n by simp linarith
  show "bit (load64 (store64 m a x) a) n = bit x n"
    unfolding r bit_or_iff bit_push_bit_iff bit_ucast_byte_of possible_bit_word
    using c n by (elim disjE conjE) (simp_all add: less_diff_conv2)
qed

end
