(* ===== verification/Riscv.thy ===== *)
theory Riscv
  imports Prelude
begin

section \<open>The machine: types, parameters, memory layout, registers\<close>

text \<open>
  The constants and macros of \<open>kernel/param.h\<close>, \<open>kernel/memlayout.h\<close> and the macro part of
  \<open>kernel/riscv.h\<close>, and the control and status registers that the accessors of
  \<open>kernel/riscv.h\<close> read and write.  Every hart has its own register file; \<open>cur\<close> is the hart
  that executes the code being modelled.  The registers hold whatever the hardware put in them:
  the model gives them no meaning beyond being read and written, except for the \<open>SIE\<close> bit
  that \<open>intr_on\<close>, \<open>intr_off\<close> and \<open>intr_get\<close> use.
\<close>

subsection \<open>Parameters (param.h)\<close>

definition NPROC :: nat where "NPROC = 64"
definition NCPU :: nat where "NCPU = 8"
definition NOFILE :: nat where "NOFILE = 16"
definition NFILE :: nat where "NFILE = 100"
definition NINODE :: nat where "NINODE = 50"
definition NDEV :: nat where "NDEV = 10"
definition ROOTDEV :: uint32 where "ROOTDEV = 1"
definition MAXARG :: nat where "MAXARG = 32"
definition MAXOPBLOCKS :: nat where "MAXOPBLOCKS = 10"
definition LOGBLOCKS :: nat where "LOGBLOCKS = MAXOPBLOCKS * 3"
definition NBUF :: nat where "NBUF = MAXOPBLOCKS * 3"
definition FSSIZE :: nat where "FSSIZE = 2000"
definition MAXPATH :: nat where "MAXPATH = 128"
definition USERSTACK :: uint64 where "USERSTACK = 1"

lemmas param_defs = NPROC_def NCPU_def NOFILE_def NFILE_def NINODE_def NDEV_def ROOTDEV_def
  MAXARG_def MAXOPBLOCKS_def LOGBLOCKS_def NBUF_def FSSIZE_def MAXPATH_def USERSTACK_def

subsection \<open>Pages and page-table entries (riscv.h)\<close>

definition PGSIZE :: uint64 where "PGSIZE = 4096"
definition PGSHIFT :: nat where "PGSHIFT = 12"

definition PGROUNDUP :: "uint64 \<Rightarrow> uint64" where
  "PGROUNDUP sz = (sz + PGSIZE - 1) AND NOT (PGSIZE - 1)"

definition PGROUNDDOWN :: "uint64 \<Rightarrow> uint64" where
  "PGROUNDDOWN a = a AND NOT (PGSIZE - 1)"

definition PTE_V :: uint64 where "PTE_V = push_bit 0 1"
definition PTE_R :: uint64 where "PTE_R = push_bit 1 1"
definition PTE_W :: uint64 where "PTE_W = push_bit 2 1"
definition PTE_X :: uint64 where "PTE_X = push_bit 3 1"
definition PTE_U :: uint64 where "PTE_U = push_bit 4 1"

definition PA2PTE :: "uint64 \<Rightarrow> uint64" where "PA2PTE pa = push_bit 10 (drop_bit 12 pa)"
definition PTE2PA :: "uint64 \<Rightarrow> uint64" where "PTE2PA pte = push_bit 12 (drop_bit 10 pte)"
definition PTE_FLAGS :: "uint64 \<Rightarrow> uint64" where "PTE_FLAGS pte = pte AND 0x3FF"

definition PXMASK :: uint64 where "PXMASK = 0x1FF"
definition PXSHIFT :: "nat \<Rightarrow> nat" where "PXSHIFT level = PGSHIFT + 9 * level"
definition PX :: "nat \<Rightarrow> uint64 \<Rightarrow> uint64" where
  "PX level va = drop_bit (PXSHIFT level) va AND PXMASK"

definition MAXVA :: uint64 where "MAXVA = push_bit (9 + 9 + 9 + 12 - 1) 1"

definition SATP_SV39 :: uint64 where "SATP_SV39 = push_bit 60 8"
definition MAKE_SATP :: "uint64 \<Rightarrow> uint64" where
  "MAKE_SATP pagetable = SATP_SV39 OR drop_bit 12 pagetable"

subsection \<open>Physical and virtual memory layout (memlayout.h)\<close>

definition UART0 :: uint64 where "UART0 = 0x10000000"
definition UART0_IRQ :: int where "UART0_IRQ = 10"
definition VIRTIO0 :: uint64 where "VIRTIO0 = 0x10001000"
definition VIRTIO0_IRQ :: int where "VIRTIO0_IRQ = 1"
definition PLIC :: uint64 where "PLIC = 0x0c000000"
definition PLIC_SENABLE :: "int \<Rightarrow> uint64" where
  "PLIC_SENABLE hart = PLIC + 0x2080 + word_of_int (hart * 0x100)"
definition PLIC_SPRIORITY :: "int \<Rightarrow> uint64" where
  "PLIC_SPRIORITY hart = PLIC + 0x201000 + word_of_int (hart * 0x2000)"
definition PLIC_SCLAIM :: "int \<Rightarrow> uint64" where
  "PLIC_SCLAIM hart = PLIC + 0x201004 + word_of_int (hart * 0x2000)"
definition KERNBASE :: uint64 where "KERNBASE = 0x80000000"
definition PHYSTOP :: uint64 where "PHYSTOP = KERNBASE + 128 * 1024 * 1024"
definition TRAMPOLINE :: uint64 where "TRAMPOLINE = MAXVA - PGSIZE"
definition KSTACK :: "nat \<Rightarrow> uint64" where
  "KSTACK p = TRAMPOLINE - (of_nat p + 1) * 2 * PGSIZE"
definition TRAPFRAME :: uint64 where "TRAPFRAME = TRAMPOLINE - PGSIZE"

lemmas page_defs = PGSIZE_def PGSHIFT_def PXMASK_def PXSHIFT_def MAXVA_def KERNBASE_def
  PHYSTOP_def TRAMPOLINE_def TRAPFRAME_def

lemmas pte_defs = PTE_V_def PTE_R_def PTE_W_def PTE_X_def PTE_U_def

subsection \<open>Control and status registers\<close>

text \<open>
  \<open>time\<close> and the trap registers are inputs: an interrupt or an exception sets them.
\<close>

record csrs =
  csr_mhartid :: uint64
  csr_mstatus :: uint64
  csr_mepc :: uint64
  csr_sstatus :: uint64
  csr_sip :: uint64
  csr_sie :: uint64
  csr_mie :: uint64
  csr_sepc :: uint64
  csr_medeleg :: uint64
  csr_mideleg :: uint64
  csr_stvec :: uint64
  csr_stimecmp :: uint64
  csr_menvcfg :: uint64
  csr_pmpcfg0 :: uint64
  csr_pmpaddr0 :: uint64
  csr_satp :: uint64
  csr_scause :: uint64
  csr_stval :: uint64
  csr_mcounteren :: uint64
  csr_time :: uint64
  csr_tp :: uint64

text \<open>Per-CPU kernel state, \<open>struct context\<close> and \<open>struct cpu\<close> of \<open>kernel/proc.h\<close>.\<close>

record kcontext =
  ctx_ra :: uint64
  ctx_sp :: uint64
  ctx_s0 :: uint64
  ctx_s1 :: uint64
  ctx_s2 :: uint64
  ctx_s3 :: uint64
  ctx_s4 :: uint64
  ctx_s5 :: uint64
  ctx_s6 :: uint64
  ctx_s7 :: uint64
  ctx_s8 :: uint64
  ctx_s9 :: uint64
  ctx_s10 :: uint64
  ctx_s11 :: uint64

record cpu =
  cpu_proc :: "nat option"
  cpu_context :: kcontext
  cpu_noff :: int
  cpu_intena :: bool

text \<open>The base of every kernel state: the harts and the hart that is executing.\<close>

record machine =
  cur :: nat
  regs :: "nat \<Rightarrow> csrs"
  cpus :: "nat \<Rightarrow> cpu"

abbreviation myregs :: "'a machine_scheme \<Rightarrow> csrs" where
  "myregs s \<equiv> regs s (cur s)"

definition set_myregs :: "(csrs \<Rightarrow> csrs) \<Rightarrow> 'a machine_scheme \<Rightarrow> 'a machine_scheme" where
  "set_myregs f s = s\<lparr>regs := (regs s)(cur s := f (regs s (cur s)))\<rparr>"

definition r_mhartid :: "'a machine_scheme \<Rightarrow> uint64" where
  "r_mhartid s = csr_mhartid (myregs s)"

definition r_mstatus :: "'a machine_scheme \<Rightarrow> uint64" where
  "r_mstatus s = csr_mstatus (myregs s)"

definition w_mstatus :: "uint64 \<Rightarrow> 'a machine_scheme \<Rightarrow> 'a machine_scheme" where
  "w_mstatus x s = set_myregs (\<lambda>r. r\<lparr>csr_mstatus := x\<rparr>) s"

definition w_mepc :: "uint64 \<Rightarrow> 'a machine_scheme \<Rightarrow> 'a machine_scheme" where
  "w_mepc x s = set_myregs (\<lambda>r. r\<lparr>csr_mepc := x\<rparr>) s"

definition r_sstatus :: "'a machine_scheme \<Rightarrow> uint64" where
  "r_sstatus s = csr_sstatus (myregs s)"

definition w_sstatus :: "uint64 \<Rightarrow> 'a machine_scheme \<Rightarrow> 'a machine_scheme" where
  "w_sstatus x s = set_myregs (\<lambda>r. r\<lparr>csr_sstatus := x\<rparr>) s"

definition r_sip :: "'a machine_scheme \<Rightarrow> uint64" where
  "r_sip s = csr_sip (myregs s)"

definition w_sip :: "uint64 \<Rightarrow> 'a machine_scheme \<Rightarrow> 'a machine_scheme" where
  "w_sip x s = set_myregs (\<lambda>r. r\<lparr>csr_sip := x\<rparr>) s"

definition r_sie :: "'a machine_scheme \<Rightarrow> uint64" where
  "r_sie s = csr_sie (myregs s)"

definition w_sie :: "uint64 \<Rightarrow> 'a machine_scheme \<Rightarrow> 'a machine_scheme" where
  "w_sie x s = set_myregs (\<lambda>r. r\<lparr>csr_sie := x\<rparr>) s"

definition r_mie :: "'a machine_scheme \<Rightarrow> uint64" where
  "r_mie s = csr_mie (myregs s)"

definition w_mie :: "uint64 \<Rightarrow> 'a machine_scheme \<Rightarrow> 'a machine_scheme" where
  "w_mie x s = set_myregs (\<lambda>r. r\<lparr>csr_mie := x\<rparr>) s"

definition r_sepc :: "'a machine_scheme \<Rightarrow> uint64" where
  "r_sepc s = csr_sepc (myregs s)"

definition w_sepc :: "uint64 \<Rightarrow> 'a machine_scheme \<Rightarrow> 'a machine_scheme" where
  "w_sepc x s = set_myregs (\<lambda>r. r\<lparr>csr_sepc := x\<rparr>) s"

definition r_medeleg :: "'a machine_scheme \<Rightarrow> uint64" where
  "r_medeleg s = csr_medeleg (myregs s)"

definition w_medeleg :: "uint64 \<Rightarrow> 'a machine_scheme \<Rightarrow> 'a machine_scheme" where
  "w_medeleg x s = set_myregs (\<lambda>r. r\<lparr>csr_medeleg := x\<rparr>) s"

definition r_mideleg :: "'a machine_scheme \<Rightarrow> uint64" where
  "r_mideleg s = csr_mideleg (myregs s)"

definition w_mideleg :: "uint64 \<Rightarrow> 'a machine_scheme \<Rightarrow> 'a machine_scheme" where
  "w_mideleg x s = set_myregs (\<lambda>r. r\<lparr>csr_mideleg := x\<rparr>) s"

definition r_stvec :: "'a machine_scheme \<Rightarrow> uint64" where
  "r_stvec s = csr_stvec (myregs s)"

definition w_stvec :: "uint64 \<Rightarrow> 'a machine_scheme \<Rightarrow> 'a machine_scheme" where
  "w_stvec x s = set_myregs (\<lambda>r. r\<lparr>csr_stvec := x\<rparr>) s"

definition r_stimecmp :: "'a machine_scheme \<Rightarrow> uint64" where
  "r_stimecmp s = csr_stimecmp (myregs s)"

definition w_stimecmp :: "uint64 \<Rightarrow> 'a machine_scheme \<Rightarrow> 'a machine_scheme" where
  "w_stimecmp x s = set_myregs (\<lambda>r. r\<lparr>csr_stimecmp := x\<rparr>) s"

definition r_menvcfg :: "'a machine_scheme \<Rightarrow> uint64" where
  "r_menvcfg s = csr_menvcfg (myregs s)"

definition w_menvcfg :: "uint64 \<Rightarrow> 'a machine_scheme \<Rightarrow> 'a machine_scheme" where
  "w_menvcfg x s = set_myregs (\<lambda>r. r\<lparr>csr_menvcfg := x\<rparr>) s"

definition w_pmpcfg0 :: "uint64 \<Rightarrow> 'a machine_scheme \<Rightarrow> 'a machine_scheme" where
  "w_pmpcfg0 x s = set_myregs (\<lambda>r. r\<lparr>csr_pmpcfg0 := x\<rparr>) s"

definition w_pmpaddr0 :: "uint64 \<Rightarrow> 'a machine_scheme \<Rightarrow> 'a machine_scheme" where
  "w_pmpaddr0 x s = set_myregs (\<lambda>r. r\<lparr>csr_pmpaddr0 := x\<rparr>) s"

definition r_satp :: "'a machine_scheme \<Rightarrow> uint64" where
  "r_satp s = csr_satp (myregs s)"

definition w_satp :: "uint64 \<Rightarrow> 'a machine_scheme \<Rightarrow> 'a machine_scheme" where
  "w_satp x s = set_myregs (\<lambda>r. r\<lparr>csr_satp := x\<rparr>) s"

definition r_scause :: "'a machine_scheme \<Rightarrow> uint64" where
  "r_scause s = csr_scause (myregs s)"

definition r_stval :: "'a machine_scheme \<Rightarrow> uint64" where
  "r_stval s = csr_stval (myregs s)"

definition r_mcounteren :: "'a machine_scheme \<Rightarrow> uint64" where
  "r_mcounteren s = csr_mcounteren (myregs s)"

definition w_mcounteren :: "uint64 \<Rightarrow> 'a machine_scheme \<Rightarrow> 'a machine_scheme" where
  "w_mcounteren x s = set_myregs (\<lambda>r. r\<lparr>csr_mcounteren := x\<rparr>) s"

definition r_time :: "'a machine_scheme \<Rightarrow> uint64" where
  "r_time s = csr_time (myregs s)"

definition r_tp :: "'a machine_scheme \<Rightarrow> uint64" where
  "r_tp s = csr_tp (myregs s)"

definition w_tp :: "uint64 \<Rightarrow> 'a machine_scheme \<Rightarrow> 'a machine_scheme" where
  "w_tp x s = set_myregs (\<lambda>r. r\<lparr>csr_tp := x\<rparr>) s"

lemmas csr_reads =
  r_mhartid_def r_mstatus_def r_sstatus_def r_sip_def r_sie_def r_mie_def r_sepc_def r_medeleg_def r_mideleg_def r_stvec_def r_stimecmp_def r_menvcfg_def r_satp_def r_scause_def r_stval_def r_mcounteren_def r_time_def r_tp_def

lemmas csr_writes =
  w_mstatus_def w_mepc_def w_sstatus_def w_sip_def w_sie_def w_mie_def w_sepc_def w_medeleg_def w_mideleg_def w_stvec_def w_stimecmp_def w_menvcfg_def w_pmpcfg0_def w_pmpaddr0_def w_satp_def w_mcounteren_def w_tp_def set_myregs_def

subsection \<open>Interrupt enable\<close>

definition SSTATUS_SPP :: uint64 where "SSTATUS_SPP = push_bit 8 1"
definition SSTATUS_SPIE :: uint64 where "SSTATUS_SPIE = push_bit 5 1"
definition SSTATUS_SIE :: uint64 where "SSTATUS_SIE = push_bit 1 1"
definition SIE_SEIE :: uint64 where "SIE_SEIE = push_bit 9 1"
definition SIE_STIE :: uint64 where "SIE_STIE = push_bit 5 1"
definition MIE_STIE :: uint64 where "MIE_STIE = push_bit 5 1"
definition MSTATUS_MPP_MASK :: uint64 where "MSTATUS_MPP_MASK = push_bit 11 3"
definition MSTATUS_MPP_S :: uint64 where "MSTATUS_MPP_S = push_bit 11 1"

definition intr_on :: "'a machine_scheme \<Rightarrow> 'a machine_scheme" where
  "intr_on s = w_sstatus (r_sstatus s OR SSTATUS_SIE) s"

definition intr_off :: "'a machine_scheme \<Rightarrow> 'a machine_scheme" where
  "intr_off s = w_sstatus (r_sstatus s AND NOT SSTATUS_SIE) s"

definition intr_get :: "'a machine_scheme \<Rightarrow> bool" where
  "intr_get s \<longleftrightarrow> r_sstatus s AND SSTATUS_SIE \<noteq> 0"

lemma intr_get_bit: "intr_get s \<longleftrightarrow> bit (csr_sstatus (myregs s)) 1"
proof -
  have "x AND 2 = 0 \<longleftrightarrow> \<not> bit x 1" for x :: uint64
    using and_exp_eq_0_iff_not_bit [of x 1] by simp
  then show ?thesis by (simp add: intr_get_def r_sstatus_def SSTATUS_SIE_def)
qed

end
