(* ===== verification/Spinlock.thy ===== *)
theory Spinlock
  imports Riscv
begin

section \<open>Spin locks and interrupt nesting (spinlock.c)\<close>

text \<open>
  \<open>struct spinlock\<close>, \<open>push_off\<close>/\<open>pop_off\<close>, \<open>acquire\<close>, \<open>release\<close> and \<open>holding\<close>, and the
  \<open>cpuid\<close>/\<open>mycpu\<close> of \<open>proc.c\<close> they use.  \<open>acquire\<close> and \<open>release\<close> are composed of the pieces
  between which other harts can run; the sequential reading is used by all other components,
  the pieces by the step relation of several harts at the end, on which mutual exclusion is proved.
\<close>

datatype sleeplock_id = SL_buf nat | SL_inode nat

datatype lock_id =
    L_kmem | L_pid | L_wait | L_proc nat | L_bcache | L_sleep sleeplock_id | L_log | L_itable
  | L_ftable | L_pipe uint64 | L_cons | L_tx | L_pr | L_ticks | L_vdisk

record spinlock =
  lk_locked :: bool
  lk_name :: string
  lk_cpu :: "nat option"

record lock_state = machine +
  spin :: "lock_id \<Rightarrow> spinlock"

definition cpuid :: "'a machine_scheme \<Rightarrow> int" where
  "cpuid s = int_of_u64 (r_tp s)"

definition mycpu :: "'a machine_scheme \<Rightarrow> nat" where
  "mycpu s = nat (cpuid s)"

abbreviation set_cpu :: "nat \<Rightarrow> (cpu \<Rightarrow> cpu) \<Rightarrow> 'a machine_scheme \<Rightarrow> 'a machine_scheme" where
  "set_cpu c f s \<equiv> s\<lparr>cpus := (cpus s)(c := f (cpus s c))\<rparr>"

abbreviation noff :: "'a machine_scheme \<Rightarrow> int" where
  "noff s \<equiv> cpu_noff (cpus s (mycpu s))"

abbreviation intena :: "'a machine_scheme \<Rightarrow> bool" where
  "intena s \<equiv> cpu_intena (cpus s (mycpu s))"

definition push_off :: "'a machine_scheme \<Rightarrow> 'a machine_scheme" where
  "push_off s =
     (let old = intr_get s;
          s = intr_off s;
          s = (if noff s = 0 then set_cpu (mycpu s) (\<lambda>c. c\<lparr>cpu_intena := old\<rparr>) s else s)
      in set_cpu (mycpu s) (\<lambda>c. c\<lparr>cpu_noff := cpu_noff c + 1\<rparr>) s)"

definition pop_off :: "'a machine_scheme \<Rightarrow> (unit, 'a machine_scheme) outcome" where
  "pop_off s =
     (if intr_get s then Panic ''pop_off - interruptible''
      else if noff s < 1 then Panic ''pop_off''
      else let s = set_cpu (mycpu s) (\<lambda>c. c\<lparr>cpu_noff := cpu_noff c - 1\<rparr>) s
           in Ok () (if noff s = 0 \<and> intena s then intr_on s else s))"

definition initlock :: "lock_id \<Rightarrow> string \<Rightarrow> 'a lock_state_scheme \<Rightarrow> 'a lock_state_scheme" where
  "initlock lk name s =
     s\<lparr>spin := (spin s)(lk := \<lparr>lk_locked = False, lk_name = name, lk_cpu = None\<rparr>)\<rparr>"

definition holding :: "lock_id \<Rightarrow> 'a lock_state_scheme \<Rightarrow> bool" where
  "holding lk s \<longleftrightarrow> lk_locked (spin s lk) \<and> lk_cpu (spin s lk) = Some (mycpu s)"

abbreviation set_lock ::
  "lock_id \<Rightarrow> (spinlock \<Rightarrow> spinlock) \<Rightarrow> 'a lock_state_scheme \<Rightarrow> 'a lock_state_scheme" where
  "set_lock lk f s \<equiv> s\<lparr>spin := (spin s)(lk := f (spin s lk))\<rparr>"

text \<open>
  The pieces of \<open>acquire\<close>: the check (with interrupts off), one round of the atomic swap, and
  the note of the owner.  The pieces of \<open>release\<close>: clearing the owner and the atomic store.
\<close>

definition acquire_check :: "lock_id \<Rightarrow> 'a lock_state_scheme \<Rightarrow> (unit, 'a lock_state_scheme) outcome" where
  "acquire_check lk s =
     (let s = push_off s in if holding lk s then Panic ''acquire'' else Ok () s)"

definition test_and_set :: "lock_id \<Rightarrow> 'a lock_state_scheme \<Rightarrow> bool \<times> 'a lock_state_scheme" where
  "test_and_set lk s =
     (lk_locked (spin s lk), set_lock lk (\<lambda>l. l\<lparr>lk_locked := True\<rparr>) s)"

definition note_owner :: "lock_id \<Rightarrow> 'a lock_state_scheme \<Rightarrow> 'a lock_state_scheme" where
  "note_owner lk s = set_lock lk (\<lambda>l. l\<lparr>lk_cpu := Some (mycpu s)\<rparr>) s"

definition acquire :: "lock_id \<Rightarrow> 'a lock_state_scheme \<Rightarrow> (unit, 'a lock_state_scheme) outcome" where
  "acquire lk s =
     andthen (acquire_check lk s) (\<lambda>_ s.
       let (old, s) = test_and_set lk s
       in if old then Spin s else Ok () (note_owner lk s))"

definition clear_owner :: "lock_id \<Rightarrow> 'a lock_state_scheme \<Rightarrow> (unit, 'a lock_state_scheme) outcome" where
  "clear_owner lk s =
     (if \<not> holding lk s then Panic ''release''
      else Ok () (set_lock lk (\<lambda>l. l\<lparr>lk_cpu := None\<rparr>) s))"

definition lock_release :: "lock_id \<Rightarrow> 'a lock_state_scheme \<Rightarrow> 'a lock_state_scheme" where
  "lock_release lk s = set_lock lk (\<lambda>l. l\<lparr>lk_locked := False\<rparr>) s"

definition release :: "lock_id \<Rightarrow> 'a lock_state_scheme \<Rightarrow> (unit, 'a lock_state_scheme) outcome" where
  "release lk s =
     andthen (clear_owner lk s) (\<lambda>_ s. pop_off (lock_release lk s))"


subsection \<open>Interrupt bit\<close>

lemma SIE_bits [simp]:
  "bit (x AND NOT SSTATUS_SIE) (Suc 0) = False" "bit (x OR SSTATUS_SIE) (Suc 0)"
  by (simp_all add: SSTATUS_SIE_def bit_simps)

lemma SIE_off_on: "bit x 1 \<Longrightarrow> x AND NOT SSTATUS_SIE OR SSTATUS_SIE = x"
  by (rule bit_word_eqI) (auto simp: SSTATUS_SIE_def bit_simps)

lemma SIE_off_idle: "\<not> bit x 1 \<Longrightarrow> x AND NOT SSTATUS_SIE = x"
  by (rule bit_word_eqI) (auto simp: SSTATUS_SIE_def bit_simps)

subsection \<open>Closed forms of acquire and release\<close>

text \<open>
  \<open>acquire\<close> and \<open>release\<close> touch three fields of the state.  Their effect is written as functions
  of these fields alone, so that the simplifier can cancel a \<open>release\<close> against its \<open>acquire\<close>
  whatever was done to the other fields in between.
\<close>

definition me :: "nat \<Rightarrow> (nat \<Rightarrow> csrs) \<Rightarrow> nat" where
  "me c R = nat (int_of_u64 (csr_tp (R c)))"

definition acq_regs :: "nat \<Rightarrow> (nat \<Rightarrow> csrs) \<Rightarrow> nat \<Rightarrow> csrs" where
  "acq_regs c R = R(c := (R c)\<lparr>csr_sstatus := csr_sstatus (R c) AND NOT SSTATUS_SIE\<rparr>)"

definition acq_cpus :: "nat \<Rightarrow> (nat \<Rightarrow> csrs) \<Rightarrow> (nat \<Rightarrow> cpu) \<Rightarrow> nat \<Rightarrow> cpu" where
  "acq_cpus c R C = C(me c R := (C (me c R))\<lparr>
     cpu_intena := (if cpu_noff (C (me c R)) = 0 then bit (csr_sstatus (R c)) 1
                    else cpu_intena (C (me c R))),
     cpu_noff := cpu_noff (C (me c R)) + 1\<rparr>)"

definition acq_spin :: "lock_id \<Rightarrow> nat \<Rightarrow> (nat \<Rightarrow> csrs) \<Rightarrow> (lock_id \<Rightarrow> spinlock) \<Rightarrow> lock_id \<Rightarrow> spinlock" where
  "acq_spin lk c R S = S(lk := (S lk)\<lparr>lk_locked := True, lk_cpu := Some (me c R)\<rparr>)"

definition rel_regs :: "nat \<Rightarrow> (nat \<Rightarrow> csrs) \<Rightarrow> (nat \<Rightarrow> cpu) \<Rightarrow> nat \<Rightarrow> csrs" where
  "rel_regs c R C =
     (if cpu_noff (C (me c R)) = 1 \<and> cpu_intena (C (me c R))
      then R(c := (R c)\<lparr>csr_sstatus := csr_sstatus (R c) OR SSTATUS_SIE\<rparr>) else R)"

definition rel_cpus :: "nat \<Rightarrow> (nat \<Rightarrow> csrs) \<Rightarrow> (nat \<Rightarrow> cpu) \<Rightarrow> nat \<Rightarrow> cpu" where
  "rel_cpus c R C = C(me c R := (C (me c R))\<lparr>cpu_noff := cpu_noff (C (me c R)) - 1\<rparr>)"

definition rel_spin :: "lock_id \<Rightarrow> (lock_id \<Rightarrow> spinlock) \<Rightarrow> lock_id \<Rightarrow> spinlock" where
  "rel_spin lk S = S(lk := (S lk)\<lparr>lk_cpu := None, lk_locked := False\<rparr>)"

definition lk_free :: "lock_id \<Rightarrow> (lock_id \<Rightarrow> spinlock) \<Rightarrow> bool" where
  "lk_free lk S \<longleftrightarrow> \<not> lk_locked (S lk) \<and> lk_cpu (S lk) = None"

definition lk_held :: "lock_id \<Rightarrow> nat \<Rightarrow> (nat \<Rightarrow> csrs) \<Rightarrow> (lock_id \<Rightarrow> spinlock) \<Rightarrow> bool" where
  "lk_held lk c R S \<longleftrightarrow> lk_locked (S lk) \<and> lk_cpu (S lk) = Some (me c R)"

definition intr_masked :: "nat \<Rightarrow> (nat \<Rightarrow> csrs) \<Rightarrow> (nat \<Rightarrow> cpu) \<Rightarrow> bool" where
  "intr_masked c R C \<longleftrightarrow> 1 \<le> cpu_noff (C (me c R)) \<and> \<not> bit (csr_sstatus (R c)) 1"

text \<open>
  A hart is settled when its interrupt bookkeeping is consistent: while locks are held
  (\<open>noff > 0\<close>) interrupts are off; with no lock held \<open>intena\<close> is the present setting.
\<close>

definition settled :: "nat \<Rightarrow> (nat \<Rightarrow> csrs) \<Rightarrow> (nat \<Rightarrow> cpu) \<Rightarrow> bool" where
  "settled c R C \<longleftrightarrow> 0 \<le> cpu_noff (C (me c R)) \<and>
     (cpu_noff (C (me c R)) = 0 \<longrightarrow> cpu_intena (C (me c R)) = bit (csr_sstatus (R c)) 1) \<and>
     (0 < cpu_noff (C (me c R)) \<longrightarrow> \<not> bit (csr_sstatus (R c)) 1)"

abbreviation ready :: "'a machine_scheme \<Rightarrow> bool" where
  "ready s \<equiv> settled (cur s) (regs s) (cpus s)"

abbreviation free_lock :: "lock_id \<Rightarrow> 'a lock_state_scheme \<Rightarrow> bool" where
  "free_lock lk s \<equiv> lk_free lk (spin s)"

lemma mycpu_me: "mycpu s = me (cur s) (regs s)"
  by (simp add: mycpu_def cpuid_def r_tp_def me_def)

lemma holding_iff: "holding lk s \<longleftrightarrow> lk_held lk (cur s) (regs s) (spin s)"
  by (simp add: holding_def lk_held_def mycpu_me)

lemma me_acq_regs [simp]: "me c (acq_regs c R) = me c R"
  by (simp add: me_def acq_regs_def)

lemma me_rel_regs [simp]: "me c (rel_regs c R C) = me c R"
  by (simp add: me_def rel_regs_def)

lemma push_off_eq:
  "push_off s = s\<lparr>regs := acq_regs (cur s) (regs s), cpus := acq_cpus (cur s) (regs s) (cpus s)\<rparr>"
proof -
  have "mycpu (intr_off s) = mycpu s"
    by (simp add: mycpu_me intr_off_def csr_writes me_def)
  moreover have "intr_off s = s\<lparr>regs := acq_regs (cur s) (regs s)\<rparr>"
    by (simp add: intr_off_def csr_writes acq_regs_def r_sstatus_def)
  ultimately show ?thesis
    by (simp add: push_off_def Let_def mycpu_me acq_cpus_def intr_get_bit)
qed

lemma pop_off_eq:
  "intr_masked (cur s) (regs s) (cpus s) \<Longrightarrow>
   pop_off s = Ok () (s\<lparr>regs := rel_regs (cur s) (regs s) (cpus s),
                        cpus := rel_cpus (cur s) (regs s) (cpus s)\<rparr>)"
  by (auto simp: pop_off_def Let_def mycpu_me intr_get_bit intr_masked_def rel_regs_def rel_cpus_def
      intr_on_def csr_writes r_sstatus_def)

lemma acquire_eq:
  "free_lock lk s \<Longrightarrow>
   acquire lk s = Ok () (s\<lparr>regs := acq_regs (cur s) (regs s),
     cpus := acq_cpus (cur s) (regs s) (cpus s), spin := acq_spin lk (cur s) (regs s) (spin s)\<rparr>)"
  by (simp add: acquire_def acquire_check_def Let_def push_off_eq holding_def lk_free_def
      test_and_set_def note_owner_def mycpu_me acq_spin_def)

lemma release_eq:
  "lk_held lk (cur s) (regs s) (spin s) \<Longrightarrow> intr_masked (cur s) (regs s) (cpus s) \<Longrightarrow>
   release lk s = Ok () (s\<lparr>regs := rel_regs (cur s) (regs s) (cpus s),
     cpus := rel_cpus (cur s) (regs s) (cpus s), spin := rel_spin lk (spin s)\<rparr>)"
  by (cases s) (simp add: release_def clear_owner_def holding_iff lock_release_def pop_off_eq
      rel_spin_def)

lemma settled_acq [simp]: "settled c R C \<Longrightarrow> settled c (acq_regs c R) (acq_cpus c R C)"
  by (simp add: settled_def acq_cpus_def) (simp add: acq_regs_def)

lemma intr_masked_acq [simp]: "settled c R C \<Longrightarrow> intr_masked c (acq_regs c R) (acq_cpus c R C)"
  by (simp add: settled_def intr_masked_def acq_cpus_def) (simp add: acq_regs_def)

lemma intr_masked_settled: "settled c R C \<Longrightarrow> 0 < cpu_noff (C (me c R)) \<Longrightarrow> intr_masked c R C"
  by (simp add: settled_def intr_masked_def)

lemma rel_acq_regs [simp]:
  "settled c R C \<Longrightarrow> rel_regs c (acq_regs c R) (acq_cpus c R C) = R"
  by (auto simp: settled_def rel_regs_def acq_cpus_def fun_eq_iff acq_regs_def me_def
      SIE_off_on SIE_off_idle)

lemma rel_acq_cpus [simp]:
  "settled c R C \<Longrightarrow> rel_cpus c (acq_regs c R) (acq_cpus c R C) = C"
  by (simp add: settled_def rel_cpus_def acq_cpus_def fun_eq_iff)

lemma rel_acq_spin [simp]: "lk_free lk S \<Longrightarrow> rel_spin lk (acq_spin lk c R S) = S"
  by (simp add: lk_free_def rel_spin_def acq_spin_def fun_eq_iff)

lemma lk_held_acq [simp]: "lk_held lk c R (acq_spin lk c R S)"
  by (simp add: lk_held_def acq_spin_def)

lemma lk_held_acq_other [simp]:
  "lk \<noteq> lk' \<Longrightarrow> lk_held lk c R (acq_spin lk' c R' S) = lk_held lk c R S"
  by (simp add: lk_held_def acq_spin_def)

lemma lk_held_acq_regs [simp]: "lk_held lk c (acq_regs c R) S = lk_held lk c R S"
  by (simp add: lk_held_def)

lemma lk_free_acq_other [simp]: "lk \<noteq> lk' \<Longrightarrow> lk_free lk (acq_spin lk' c R S) = lk_free lk S"
  by (simp add: lk_free_def acq_spin_def)

lemma rel_acq_spin_other [simp]:
  "lk \<noteq> lk' \<Longrightarrow> lk_free lk S \<Longrightarrow>
   rel_spin lk (acq_spin lk' c' R' (acq_spin lk c R S)) = acq_spin lk' c' R' S"
  by (auto simp: lk_free_def rel_spin_def acq_spin_def fun_eq_iff)

lemmas lock_simps = acquire_eq release_eq

text \<open>A lock taken and released leaves the state as it was.\<close>

lemma acquire_release:
  "ready s \<Longrightarrow> free_lock lk s \<Longrightarrow> andthen (acquire lk s) (\<lambda>_. release lk) = Ok () s"
  by (simp add: lock_simps)

subsection \<open>Nested push_off and pop_off\<close>

datatype off_op = PushOff | PopOff

fun run_off :: "off_op list \<Rightarrow> 'a machine_scheme \<Rightarrow> (unit, 'a machine_scheme) outcome" where
  "run_off [] s = Ok () s"
| "run_off (PushOff # ops) s = run_off ops (push_off s)"
| "run_off (PopOff # ops) s = andthen (pop_off s) (\<lambda>_. run_off ops)"

text \<open>The nesting depth after a sequence of calls; \<open>None\<close> when a \<open>pop_off\<close> has no partner.\<close>

fun off_depth :: "nat \<Rightarrow> off_op list \<Rightarrow> nat option" where
  "off_depth k [] = Some k"
| "off_depth k (PushOff # ops) = off_depth (Suc k) ops"
| "off_depth 0 (PopOff # ops) = None"
| "off_depth (Suc k) (PopOff # ops) = off_depth k ops"

definition off_state :: "bool \<Rightarrow> nat \<Rightarrow> 'a machine_scheme \<Rightarrow> bool" where
  "off_state on k s \<longleftrightarrow> noff s = int k \<and> intr_get s = (on \<and> k = 0) \<and> (0 < k \<longrightarrow> intena s = on)"

lemma off_state_push: "off_state on k s \<Longrightarrow> off_state on (Suc k) (push_off s)"
  by (auto simp: off_state_def push_off_eq mycpu_me intr_get_bit acq_cpus_def)
     (simp_all add: acq_regs_def)

lemma off_state_pop:
  assumes "off_state on (Suc k) s"
  shows "\<exists>t. pop_off s = Ok () t \<and> off_state on k t"
proof -
  have m: "intr_masked (cur s) (regs s) (cpus s)"
    using assms by (auto simp: off_state_def intr_masked_def mycpu_me intr_get_bit)
  show ?thesis
    unfolding pop_off_eq [OF m] using assms
    by (auto simp: off_state_def mycpu_me intr_get_bit rel_cpus_def)
       (auto simp: rel_regs_def split: if_splits)
qed

lemma run_off_state:
  "off_state on k s \<Longrightarrow> off_depth k ops = Some m \<Longrightarrow>
   \<exists>t. run_off ops s = Ok () t \<and> off_state on m t"
proof (induction k ops arbitrary: s rule: off_depth.induct)
  case (2 k ops)
  from "2.IH" [OF off_state_push] "2.prems" show ?case by simp
next
  case (4 k ops)
  then obtain t where "pop_off s = Ok () t" "off_state on k t"
    using off_state_pop by blast
  with 4 show ?case by auto
qed auto

subsection \<open>Several harts: mutual exclusion\<close>

text \<open>
  Any number of harts run \<open>acquire\<close> and \<open>release\<close> on any locks.  A step is one hart executing
  one piece of one of the two functions; the phase records how far a hart has got on a lock.
\<close>

datatype phase = Outside | Trying | Swapped | Critical | Releasing

record hart_system =
  hs_state :: lock_state
  hs_phase :: "nat \<Rightarrow> lock_id \<Rightarrow> phase"

abbreviation on_hart :: "nat \<Rightarrow> hart_system \<Rightarrow> lock_state" where
  "on_hart h y \<equiv> (hs_state y)\<lparr>cur := h\<rparr>"

abbreviation go :: "hart_system \<Rightarrow> nat \<Rightarrow> lock_id \<Rightarrow> phase \<Rightarrow> lock_state \<Rightarrow> hart_system" where
  "go y h lk ph s \<equiv>
     \<lparr>hs_state = s, hs_phase = (hs_phase y)(h := (hs_phase y h)(lk := ph))\<rparr>"

inductive hart_step :: "hart_system \<Rightarrow> hart_system \<Rightarrow> bool" where
  check: "h < NCPU \<Longrightarrow> hs_phase y h lk = Outside \<Longrightarrow> acquire_check lk (on_hart h y) = Ok () s \<Longrightarrow>
    hart_step y (go y h lk Trying s)"
| spins: "h < NCPU \<Longrightarrow> hs_phase y h lk = Trying \<Longrightarrow> test_and_set lk (on_hart h y) = (True, s) \<Longrightarrow>
    hart_step y (go y h lk Trying s)"
| swaps: "h < NCPU \<Longrightarrow> hs_phase y h lk = Trying \<Longrightarrow> test_and_set lk (on_hart h y) = (False, s) \<Longrightarrow>
    hart_step y (go y h lk Swapped s)"
| owner: "h < NCPU \<Longrightarrow> hs_phase y h lk = Swapped \<Longrightarrow>
    hart_step y (go y h lk Critical (note_owner lk (on_hart h y)))"
| clear: "h < NCPU \<Longrightarrow> hs_phase y h lk = Critical \<Longrightarrow> clear_owner lk (on_hart h y) = Ok () s \<Longrightarrow>
    hart_step y (go y h lk Releasing s)"
| unlock: "h < NCPU \<Longrightarrow> hs_phase y h lk = Releasing \<Longrightarrow>
    pop_off (lock_release lk (on_hart h y)) = Ok () s \<Longrightarrow> hart_step y (go y h lk Outside s)"

text \<open>At the start every lock is free and every hart keeps its own number in \<open>tp\<close>.\<close>

definition harts_start :: "hart_system \<Rightarrow> bool" where
  "harts_start y \<longleftrightarrow> (\<forall>lk. lk_free lk (spin (hs_state y))) \<and> (\<forall>h lk. hs_phase y h lk = Outside) \<and>
     inj_on (\<lambda>h. me h (regs (hs_state y))) {..<NCPU}"

inductive harts_reach :: "hart_system \<Rightarrow> bool" where
  start: "harts_start y \<Longrightarrow> harts_reach y"
| step: "harts_reach y \<Longrightarrow> hart_step y z \<Longrightarrow> harts_reach z"

fun past_swap :: "phase \<Rightarrow> bool" where
  "past_swap Outside = False"
| "past_swap Trying = False"
| "past_swap Swapped = True"
| "past_swap Critical = True"
| "past_swap Releasing = True"

text \<open>
  The invariant of one lock, over its two fields, the phases of the harts on it and the harts'
  own numbers: the lock is set exactly while some hart is past its swap, only one hart is, and
  the owner field names that hart while it is in its critical section and nobody otherwise.
\<close>

definition lock_inv :: "bool \<Rightarrow> nat option \<Rightarrow> (nat \<Rightarrow> phase) \<Rightarrow> (nat \<Rightarrow> nat) \<Rightarrow> bool" where
  "lock_inv lckd cpu ph m \<longleftrightarrow>
     (if lckd
      then \<exists>h. past_swap (ph h) \<and> (\<forall>h'. h' \<noteq> h \<longrightarrow> \<not> past_swap (ph h')) \<and>
             cpu = (if ph h = Critical then Some (m h) else None)
      else cpu = None \<and> (\<forall>h. \<not> past_swap (ph h)))"

definition harts_inv :: "hart_system \<Rightarrow> bool" where
  "harts_inv y \<longleftrightarrow>
     (\<forall>lk. lock_inv (lk_locked (spin (hs_state y) lk)) (lk_cpu (spin (hs_state y) lk))
        (\<lambda>h. hs_phase y h lk) (\<lambda>h. me h (regs (hs_state y))))"

lemma lock_inv_free: "\<forall>h. ph h = Outside \<Longrightarrow> lock_inv False None ph m"
  by (simp add: lock_inv_def)

lemma lock_inv_owner:
  assumes "lock_inv b c ph m" "past_swap (ph h)"
  shows "b" "\<forall>h'. h' \<noteq> h \<longrightarrow> \<not> past_swap (ph h')" "c = (if ph h = Critical then Some (m h) else None)"
proof -
  show b using assms by (auto simp: lock_inv_def split: if_splits)
  then obtain g where g: "past_swap (ph g)" "\<forall>h'. h' \<noteq> g \<longrightarrow> \<not> past_swap (ph h')"
    "c = (if ph g = Critical then Some (m g) else None)"
    using assms(1) by (auto simp: lock_inv_def)
  with assms(2) have "g = h" by metis
  with g show "\<forall>h'. h' \<noteq> h \<longrightarrow> \<not> past_swap (ph h')"
    "c = (if ph h = Critical then Some (m h) else None)" by simp_all
qed

lemma lock_inv_owned:
  "past_swap p \<Longrightarrow> \<forall>h'. h' \<noteq> h \<longrightarrow> \<not> past_swap (ph h') \<Longrightarrow>
   lock_inv True (if p = Critical then Some (m h) else None) (ph(h := p)) m"
  by (auto simp: lock_inv_def intro!: exI [of _ h])

lemma lock_inv_try:
  assumes "lock_inv b c ph m" "\<not> past_swap (ph h)"
  shows "lock_inv b c (ph(h := Trying)) m"
proof (cases b)
  case True
  with assms(1) obtain g where g: "past_swap (ph g)" "\<forall>h'. h' \<noteq> g \<longrightarrow> \<not> past_swap (ph h')"
    "c = (if ph g = Critical then Some (m g) else None)"
    by (auto simp: lock_inv_def)
  with assms(2) have "g \<noteq> h" by metis
  with True g show ?thesis by (auto simp: lock_inv_def intro!: exI [of _ g])
next
  case False
  with assms show ?thesis by (auto simp: lock_inv_def)
qed

lemma lock_inv_swap:
  assumes "lock_inv False c ph m" shows "lock_inv True c (ph(h := Swapped)) m"
  using lock_inv_owned [of Swapped h ph m] assms by (auto simp: lock_inv_def)

lemma lock_inv_own:
  assumes "lock_inv b c ph m" "ph h = Swapped"
  shows "lock_inv b (Some (m h)) (ph(h := Critical)) m"
  using lock_inv_owner [OF assms(1), of h] lock_inv_owned [of Critical h ph m] assms(2) by simp

lemma lock_inv_clear:
  assumes "lock_inv b c ph m" "ph h = Critical"
  shows "lock_inv b None (ph(h := Releasing)) m"
  using lock_inv_owner [OF assms(1), of h] lock_inv_owned [of Releasing h ph m] assms(2) by simp

lemma lock_inv_unlock:
  assumes "lock_inv b c ph m" "ph h = Releasing"
  shows "lock_inv False c (ph(h := Outside)) m"
  using lock_inv_owner [OF assms(1), of h] assms(2) by (auto simp: lock_inv_def)

lemma me_push_off [simp]: "me h (regs (push_off s)) = me h (regs s)"
  by (simp add: push_off_eq acq_regs_def me_def)

lemma push_off_spin [simp]: "spin (push_off s) = spin s"
  by (simp add: push_off_eq)

lemma pop_off_frame:
  "pop_off s = Ok () t \<Longrightarrow> spin t = spin s \<and> me h (regs t) = me h (regs s)"
  by (auto simp: pop_off_def Let_def intr_on_def csr_writes me_def split: if_splits)

text \<open>A step on one lock keeps the invariant of the others.\<close>

lemma harts_inv_go:
  assumes "harts_inv y" and "\<And>l. l \<noteq> lk \<Longrightarrow> spin s l = spin (hs_state y) l"
    and "\<And>i. me i (regs s) = me i (regs (hs_state y))"
    and "lock_inv (lk_locked (spin s lk)) (lk_cpu (spin s lk)) ((\<lambda>h. hs_phase y h lk)(h := ph))
           (\<lambda>h. me h (regs (hs_state y)))"
  shows "harts_inv (go y h lk ph s)"
proof -
  have "lock_inv (lk_locked (spin s l)) (lk_cpu (spin s l))
          (\<lambda>i. ((hs_phase y)(h := (hs_phase y h)(lk := ph))) i l) (\<lambda>i. me i (regs s))" for l
  proof (cases "l = lk")
    case True
    have "(\<lambda>i. ((hs_phase y)(h := (hs_phase y h)(lk := ph))) i lk) =
          (\<lambda>h. hs_phase y h lk)(h := ph)"
      by auto
    with True assms(3,4) show ?thesis by simp
  next
    case False
    then have "(\<lambda>i. ((hs_phase y)(h := (hs_phase y h)(lk := ph))) i l) = (\<lambda>h. hs_phase y h l)"
      by auto
    with False assms(1-3) show ?thesis by (simp add: harts_inv_def)
  qed
  then show ?thesis by (simp add: harts_inv_def)
qed

lemma harts_invD:
  "harts_inv y \<Longrightarrow> lock_inv (lk_locked (spin (hs_state y) lk)) (lk_cpu (spin (hs_state y) lk))
     (\<lambda>h. hs_phase y h lk) (\<lambda>h. me h (regs (hs_state y)))"
  by (simp add: harts_inv_def)

lemma harts_inv_step: "hart_step y z \<Longrightarrow> harts_inv y \<Longrightarrow> harts_inv z"
proof (induction rule: hart_step.induct)
  case (check h y lk s)
  then have s: "s = push_off (on_hart h y)"
    by (auto simp: acquire_check_def Let_def split: if_splits)
  from lock_inv_try [OF harts_invD [OF check(4)]] check(2,4) show ?case
    by (intro harts_inv_go) (simp_all add: s)
next
  case (spins h y lk s)
  then have l: "lk_locked (spin (hs_state y) lk)"
    and s: "s = set_lock lk (\<lambda>l. l\<lparr>lk_locked := True\<rparr>) (on_hart h y)"
    by (simp_all add: test_and_set_def)
  from lock_inv_try [OF harts_invD [OF spins(4)], of h lk] spins(2,4) l show ?case
    by (intro harts_inv_go) (simp_all add: s)
next
  case (swaps h y lk s)
  then have l: "\<not> lk_locked (spin (hs_state y) lk)"
    and s: "s = set_lock lk (\<lambda>l. l\<lparr>lk_locked := True\<rparr>) (on_hart h y)"
    by (simp_all add: test_and_set_def)
  from harts_invD [OF swaps(4), of lk] l swaps(4) show ?case
    by (intro harts_inv_go) (simp_all add: s lock_inv_swap)
next
  case (owner h y lk)
  from lock_inv_own [OF harts_invD [OF owner(3)], of h lk] owner show ?case
    by (intro harts_inv_go) (simp_all add: note_owner_def mycpu_me)
next
  case (clear h y lk s)
  then have s: "s = set_lock lk (\<lambda>l. l\<lparr>lk_cpu := None\<rparr>) (on_hart h y)"
    by (simp add: clear_owner_def split: if_splits)
  from lock_inv_clear [OF harts_invD [OF clear(4)], of h lk] clear(2,4) show ?case
    by (intro harts_inv_go) (simp_all add: s)
next
  case (unlock h y lk s)
  note f = pop_off_frame [OF unlock(3)]
  from lock_inv_unlock [OF harts_invD [OF unlock(4)], of h lk] unlock(2,4) f show ?case
    by (intro harts_inv_go) (simp_all add: lock_release_def)
qed

lemma harts_reach_inv: "harts_reach y \<Longrightarrow> harts_inv y"
proof (induction rule: harts_reach.induct)
  case (start y)
  then show ?case
    by (auto simp: harts_start_def harts_inv_def lk_free_def lock_inv_free)
qed (rule harts_inv_step)

lemma hart_step_me: "hart_step y z \<Longrightarrow> me i (regs (hs_state z)) = me i (regs (hs_state y))"
proof (induction rule: hart_step.induct)
  case (unlock h y lk s)
  then show ?case using pop_off_frame [OF unlock(3), of i] by (simp add: lock_release_def)
qed (auto simp: acquire_check_def Let_def test_and_set_def note_owner_def clear_owner_def
      split: if_splits)

lemma harts_reach_inj: "harts_reach y \<Longrightarrow> inj_on (\<lambda>h. me h (regs (hs_state y))) {..<NCPU}"
proof (induction rule: harts_reach.induct)
  case (start y)
  then show ?case by (simp add: harts_start_def)
next
  case (step y z)
  then show ?case by (simp add: hart_step_me)
qed

lemma harts_reach_outside: "harts_reach y \<Longrightarrow> NCPU \<le> h \<Longrightarrow> hs_phase y h lk = Outside"
proof (induction rule: harts_reach.induct)
  case (start y)
  then show ?case by (simp add: harts_start_def)
next
  case (step y z)
  from step.hyps(2) step.IH [OF step.prems] step.prems show ?case
    by (induction rule: hart_step.induct) auto
qed

text \<open>A concrete system: the harts with their numbers in \<open>tp\<close>, every lock free.\<close>

definition sample_csrs :: "uint64 \<Rightarrow> csrs" where
  "sample_csrs h = \<lparr>csr_mhartid = h, csr_mstatus = 0, csr_mepc = 0, csr_sstatus = 2, csr_sip = 0,
     csr_sie = 0, csr_mie = 0, csr_sepc = 0, csr_medeleg = 0, csr_mideleg = 0, csr_stvec = 0,
     csr_stimecmp = 0, csr_menvcfg = 0, csr_pmpcfg0 = 0, csr_pmpaddr0 = 0, csr_satp = 0,
     csr_scause = 0, csr_stval = 0, csr_mcounteren = 0, csr_time = 0, csr_tp = h\<rparr>"

definition zero_context :: kcontext where
  "zero_context = \<lparr>ctx_ra = 0, ctx_sp = 0, ctx_s0 = 0, ctx_s1 = 0, ctx_s2 = 0, ctx_s3 = 0,
     ctx_s4 = 0, ctx_s5 = 0, ctx_s6 = 0, ctx_s7 = 0, ctx_s8 = 0, ctx_s9 = 0, ctx_s10 = 0,
     ctx_s11 = 0\<rparr>"

definition sample_cpu :: cpu where
  "sample_cpu = \<lparr>cpu_proc = Some 0, cpu_context = zero_context, cpu_noff = 0, cpu_intena = True\<rparr>"

definition sample_locks :: lock_state where
  "sample_locks = \<lparr>cur = 0, regs = (\<lambda>h. sample_csrs (of_nat h)), cpus = (\<lambda>_. sample_cpu),
     spin = (\<lambda>_. \<lparr>lk_locked = False, lk_name = [], lk_cpu = None\<rparr>)\<rparr>"

text \<open>
  C19. Interrupt masking nests.  From a hart with no \<open>push_off\<close> outstanding, every sequence of
  \<open>push_off\<close> and \<open>pop_off\<close> calls in which no \<open>pop_off\<close> is unmatched runs without panicking; at
  every moment \<open>noff\<close> is the nesting depth, interrupts are off while the depth is positive, and
  they are back at their initial setting when it is zero.
\<close>

theorem push_pop_nesting:
  assumes "noff s = 0" and "off_depth 0 ops = Some k"
  shows "\<exists>t. run_off ops s = Ok () t \<and> noff t = int k \<and> (intr_get t \<longleftrightarrow> k = 0 \<and> intr_get s)"
proof -
  have "off_state (intr_get s) 0 s" using assms(1) by (simp add: off_state_def)
  from run_off_state [OF this assms(2)] show ?thesis by (auto simp: off_state_def)
qed

theorem push_pop_nesting_witness:
  "\<exists>t. run_off [PushOff, PushOff, PopOff, PopOff] sample_locks = Ok () t \<and> intr_get t"
proof -
  have "noff sample_locks = 0"
    by (simp add: sample_locks_def sample_cpu_def)
  moreover have "off_depth 0 [PushOff, PushOff, PopOff, PopOff] = Some 0" by simp
  moreover have "intr_get sample_locks"
    by (simp add: intr_get_bit sample_locks_def sample_csrs_def)
  ultimately show ?thesis using push_pop_nesting [of sample_locks] by fastforce
qed

text \<open>
  C1. Mutual exclusion.  In every state that any number of harts can reach by running the pieces
  of \<open>acquire\<close> and \<open>release\<close> in any interleaving, when one hart has won a lock and not yet given
  it back, no other hart has.
\<close>

theorem spinlock_mutual_exclusion:
  assumes "harts_reach y" and "past_swap (hs_phase y h lk)" and "h' \<noteq> h"
  shows "\<not> past_swap (hs_phase y h' lk)"
  using lock_inv_owner(2) [OF harts_invD [OF harts_reach_inv [OF assms(1)]] assms(2)] assms(3)
  by simp

text \<open>
  C18. \<open>holding\<close> is accurate: in every reachable state of several harts it answers true on a hart
  exactly when that hart is in its critical section for the lock.  So \<open>release\<close> never panics
  there, and \<open>acquire\<close> panics only when the hart already holds the lock.
\<close>

theorem holding_accurate:
  assumes "harts_reach y" and "h < NCPU"
  shows "holding lk (on_hart h y) \<longleftrightarrow> hs_phase y h lk = Critical"
proof -
  note i = harts_invD [OF harts_reach_inv [OF assms(1)], of lk]
  show ?thesis
  proof
    assume "hs_phase y h lk = Critical"
    then show "holding lk (on_hart h y)"
      using lock_inv_owner [OF i, of h] by (simp add: holding_iff lk_held_def)
  next
    assume "holding lk (on_hart h y)"
    with i obtain g where g: "hs_phase y g lk = Critical"
      "me g (regs (hs_state y)) = me h (regs (hs_state y))"
      by (auto simp: holding_iff lk_held_def lock_inv_def split: if_splits)
    moreover have "g < NCPU"
      using g(1) harts_reach_outside [OF assms(1), of g lk] by (cases "g < NCPU") simp_all
    ultimately have "g = h"
      using harts_reach_inj [OF assms(1)] assms(2) by (auto dest: inj_onD)
    with g show "hs_phase y h lk = Critical" by simp
  qed
qed

text \<open>Hart 0 checks the kernel-memory lock, wins the swap and notes itself as the owner.\<close>

definition sample_harts :: "phase \<Rightarrow> lock_state \<Rightarrow> hart_system" where
  "sample_harts p s = \<lparr>hs_state = s, hs_phase = (\<lambda>_ _. Outside)(0 := (\<lambda>_. Outside)(L_kmem := p))\<rparr>"

lemma go_sample [simp]:
  "go (sample_harts p s) 0 L_kmem q s' = sample_harts q s'"
  "hs_state (sample_harts p s) = s" "hs_phase (sample_harts p s) 0 L_kmem = p"
  by (simp_all add: sample_harts_def fun_eq_iff)

lemma me_sample: "h < NCPU \<Longrightarrow> me h (regs sample_locks) = h"
proof -
  assume "h < NCPU"
  then have "h = 0 \<or> h = 1 \<or> h = 2 \<or> h = 3 \<or> h = 4 \<or> h = 5 \<or> h = 6 \<or> h = 7"
    by (simp add: NCPU_def) linarith
  then show ?thesis
    by (elim disjE) (simp_all add: me_def sample_locks_def sample_csrs_def int_of_u64_def)
qed

lemma sample_harts_reach:
  "\<exists>s. harts_reach (sample_harts Critical s) \<and> spin s L_kmem = \<lparr>lk_locked = True, lk_name = [], lk_cpu = Some 0\<rparr>"
proof -
  let ?s1 = "push_off sample_locks"
  let ?s2 = "snd (test_and_set L_kmem ?s1)"
  let ?s3 = "note_owner L_kmem ?s2"
  have c: "cur sample_locks = 0" "cur ?s1 = 0" "cur ?s2 = 0"
    by (simp_all add: sample_locks_def push_off_eq test_and_set_def)
  then have on: "sample_locks\<lparr>cur := 0\<rparr> = sample_locks" "?s1\<lparr>cur := 0\<rparr> = ?s1" "?s2\<lparr>cur := 0\<rparr> = ?s2"
    by simp_all
  have unl: "spin sample_locks L_kmem = \<lparr>lk_locked = False, lk_name = [], lk_cpu = None\<rparr>"
    by (simp add: sample_locks_def)
  have "harts_start (sample_harts Outside sample_locks)"
    using me_sample by (auto simp: harts_start_def sample_harts_def lk_free_def sample_locks_def inj_on_def)
  then have "harts_reach (sample_harts Outside sample_locks)" by (rule harts_reach.start)
  moreover have "acquire_check L_kmem sample_locks = Ok () ?s1"
    by (simp add: acquire_check_def Let_def holding_def unl)
  then have "hart_step (sample_harts Outside sample_locks) (sample_harts Trying ?s1)"
    using hart_step.check [of 0 "sample_harts Outside sample_locks" L_kmem ?s1] on
    by (simp add: NCPU_def)
  moreover have "test_and_set L_kmem ?s1 = (False, ?s2)"
    by (simp add: test_and_set_def unl)
  then have "hart_step (sample_harts Trying ?s1) (sample_harts Swapped ?s2)"
    using hart_step.swaps [of 0 "sample_harts Trying ?s1" L_kmem ?s2] on
    by (simp add: NCPU_def)
  moreover have "hart_step (sample_harts Swapped ?s2) (sample_harts Critical ?s3)"
    using hart_step.owner [of 0 "sample_harts Swapped ?s2" L_kmem] on
    by (simp add: NCPU_def)
  moreover have "spin ?s3 L_kmem = \<lparr>lk_locked = True, lk_name = [], lk_cpu = Some 0\<rparr>"
    using me_sample [of 0] by (simp add: note_owner_def test_and_set_def mycpu_me push_off_eq NCPU_def)
      (simp add: sample_locks_def)
  ultimately show ?thesis by (blast intro: harts_reach.step)
qed

theorem spinlock_mutual_exclusion_witness:
  "\<exists>s. harts_reach (sample_harts Critical s) \<and> \<not> past_swap (hs_phase (sample_harts Critical s) 1 L_kmem)"
proof -
  obtain s where s: "harts_reach (sample_harts Critical s)" using sample_harts_reach by blast
  have "past_swap (hs_phase (sample_harts Critical s) 0 L_kmem)" by (simp add: sample_harts_def)
  from spinlock_mutual_exclusion [OF s this, of 1] s show ?thesis by auto
qed

theorem holding_accurate_witness:
  "\<exists>s. harts_reach (sample_harts Critical s) \<and> holding L_kmem (on_hart 0 (sample_harts Critical s))"
proof -
  obtain s where s: "harts_reach (sample_harts Critical s)" using sample_harts_reach by blast
  from holding_accurate [OF s, of 0 L_kmem] s show ?thesis
    by (auto simp: sample_harts_def NCPU_def)
qed

end
