(* ===== verification/Cstring.thy ===== *)
theory Cstring
  imports Prelude
begin

section \<open>Memory and string routines (string.c)\<close>

text \<open>
  The routines of \<open>kernel/string.c\<close>.  \<open>memset\<close>, \<open>memmove\<close>, \<open>memcpy\<close> and \<open>memcmp\<close> work on the
  byte-addressed memory, because overlapping operands matter; the string routines work on byte
  lists, a list standing for a C array whose bytes are followed by a NUL byte (so reading at the
  end of the list yields NUL, as the terminator of a string literal does).  Destination arrays
  are at least as long as the count the callers pass.
\<close>

subsection \<open>Blocks of memory\<close>

text \<open>One iteration of each loop per unit of the byte count.\<close>

primrec memset_loop :: "nat \<Rightarrow> uint64 \<Rightarrow> byte \<Rightarrow> memory \<Rightarrow> memory" where
  "memset_loop 0 p c m = m"
| "memset_loop (Suc k) p c m = memset_loop k (p + 1) c (m(p := c))"

definition memset :: "uint64 \<Rightarrow> int \<Rightarrow> uint32 \<Rightarrow> memory \<Rightarrow> memory" where
  "memset dst c n m = memset_loop (unat n) dst (word_of_int c) m"

primrec memcmp_loop :: "nat \<Rightarrow> uint64 \<Rightarrow> uint64 \<Rightarrow> memory \<Rightarrow> int" where
  "memcmp_loop 0 s1 s2 m = 0"
| "memcmp_loop (Suc k) s1 s2 m =
     (if m s1 \<noteq> m s2 then uint (m s1) - uint (m s2) else memcmp_loop k (s1 + 1) (s2 + 1) m)"

definition memcmp :: "uint64 \<Rightarrow> uint64 \<Rightarrow> uint32 \<Rightarrow> memory \<Rightarrow> int" where
  "memcmp v1 v2 n m = memcmp_loop (unat n) v1 v2 m"

primrec copy_forward :: "nat \<Rightarrow> uint64 \<Rightarrow> uint64 \<Rightarrow> memory \<Rightarrow> memory" where
  "copy_forward 0 d s m = m"
| "copy_forward (Suc k) d s m = copy_forward k (d + 1) (s + 1) (m(d := m s))"

primrec copy_backward :: "nat \<Rightarrow> uint64 \<Rightarrow> uint64 \<Rightarrow> memory \<Rightarrow> memory" where
  "copy_backward 0 d s m = m"
| "copy_backward (Suc k) d s m = copy_backward k (d - 1) (s - 1) (m(d - 1 := m (s - 1)))"

definition memmove :: "uint64 \<Rightarrow> uint64 \<Rightarrow> uint32 \<Rightarrow> memory \<Rightarrow> memory" where
  "memmove dst src n m =
     (if n = 0 then m
      else if src < dst \<and> src + ucast n > dst
      then copy_backward (unat n) (dst + ucast n) (src + ucast n) m
      else copy_forward (unat n) dst src m)"

definition memcpy :: "uint64 \<Rightarrow> uint64 \<Rightarrow> uint32 \<Rightarrow> memory \<Rightarrow> memory" where
  "memcpy dst src n m = memmove dst src n m"

text \<open>
  Copies between memory and a kernel object that the model does not keep in memory: \<open>memmove\<close> with
  one side given as the list of its bytes.
\<close>

definition read_bytes :: "memory \<Rightarrow> uint64 \<Rightarrow> nat \<Rightarrow> byte list" where
  "read_bytes m a n = map (\<lambda>i. m (a + of_nat i)) [0..<n]"

primrec write_bytes :: "memory \<Rightarrow> uint64 \<Rightarrow> byte list \<Rightarrow> memory" where
  "write_bytes m a [] = m"
| "write_bytes m a (b # bs) = write_bytes (m(a := b)) (a + 1) bs"

text \<open>The bytes of a 32-bit integer in memory, and the integer at the front of a list of bytes.\<close>

definition bytes32 :: "uint32 \<Rightarrow> byte list" where
  "bytes32 x = [ucast x, ucast (drop_bit 8 x), ucast (drop_bit 16 x), ucast (drop_bit 24 x)]"

definition word32 :: "byte list \<Rightarrow> uint32" where
  "word32 bs = ucast (bs ! 0) OR push_bit 8 (ucast (bs ! 1)) OR push_bit 16 (ucast (bs ! 2)) OR
     push_bit 24 (ucast (bs ! 3))"

lemma length_bytes32 [simp]: "length (bytes32 x) = 4"
  by (simp add: bytes32_def)

lemma word32_bytes32 [simp]: "word32 (bytes32 x @ bs) = x"
proof (rule bit_word_eqI)
  fix n :: nat assume "n < LENGTH(32)"
  then have n: "n < 8 \<or> 8 \<le> n \<and> n < 16 \<or> 16 \<le> n \<and> n < 24 \<or> 24 \<le> n \<and> n < 32" by simp linarith
  have b: "bit (ucast (ucast (drop_bit k x) :: byte) :: uint32) i \<longleftrightarrow> i < 8 \<and> bit x (k + i)" for k i
    by (cases "k + i < 32") (auto simp: bit_simps dest: bit_imp_le_length)
  from n show "bit (word32 (bytes32 x @ bs)) n = bit x n"
    using b [of 0] b [of 8] b [of 16] b [of 24]
    by (elim disjE conjE) (simp_all add: word32_def bytes32_def bit_or_iff bit_push_bit_iff possible_bit_word less_diff_conv2)
qed

lemma write_bytes_eq:
  "length bs < 2 ^ 64 \<Longrightarrow>
   write_bytes m a bs = (\<lambda>b. if unat (b - a) < length bs then bs ! unat (b - a) else m b)"
proof (induction bs arbitrary: m a)
  case (Cons c bs)
  have "write_bytes (m(a := c)) (a + 1) bs b =
      (if unat (b - a) < length (c # bs) then (c # bs) ! unat (b - a) else m b)" for b
  proof (cases "b = a")
    case True
    have "unat (- 1 :: uint64) = 2 ^ 64 - 1" by (simp add: unsigned_minus_1_eq_mask mask_eq_exp_minus_1)
    then have "\<not> unat (b - (a + 1)) < length bs" using Cons.prems True by simp
    with True Cons show ?thesis by simp
  next
    case False
    then have "unat (b - a) = Suc (unat (b - (a + 1)))"
      using unat_minus_one [of "b - a"] by (simp add: unat_gt_0 diff_diff_eq)
    with False Cons show ?thesis by simp
  qed
  then show ?case by (simp add: fun_eq_iff)
qed simp

lemma length_read_bytes [simp]: "length (read_bytes m a n) = n"
  by (simp add: read_bytes_def)

lemma nth_read_bytes [simp]: "i < n \<Longrightarrow> read_bytes m a n ! i = m (a + of_nat i)"
  by (simp add: read_bytes_def)

lemma read_bytes_append:
  "read_bytes m a (k + n) = read_bytes m a k @ read_bytes m (a + of_nat k) n"
  by (rule nth_equalityI) (auto simp: nth_append add.assoc simp flip: of_nat_add)

lemma read_write_bytes: "length bs < 2 ^ 64 \<Longrightarrow> read_bytes (write_bytes m a bs) a (length bs) = bs"
  by (rule nth_equalityI) (auto simp: write_bytes_eq unat_of_nat_64)

subsection \<open>Strings\<close>

definition hd0 :: "byte list \<Rightarrow> byte" where
  "hd0 xs = (case xs of [] \<Rightarrow> 0 | x # _ \<Rightarrow> x)"

lemma hd0_simps [simp]: "hd0 [] = 0" "hd0 (x # xs) = x"
  by (simp_all add: hd0_def)

fun strncmp :: "byte list \<Rightarrow> byte list \<Rightarrow> nat \<Rightarrow> int" where
  "strncmp p q 0 = 0"
| "strncmp p q (Suc n) =
     (if hd0 p \<noteq> 0 \<and> hd0 p = hd0 q then strncmp (tl p) (tl q) n
      else uint (hd0 p) - uint (hd0 q))"

primrec zero_fill :: "nat \<Rightarrow> byte list \<Rightarrow> byte list" where
  "zero_fill 0 s = s"
| "zero_fill (Suc n) s = 0 # zero_fill n (tl s)"

primrec strncpy :: "nat \<Rightarrow> byte list \<Rightarrow> byte list \<Rightarrow> byte list" where
  "strncpy 0 s t = s"
| "strncpy (Suc n) s t =
     hd0 t # (if hd0 t \<noteq> 0 then strncpy n (tl s) (tl t) else zero_fill n (tl s))"

text \<open>
  In \<open>safestrcpy\<close> the loop advances \<open>s\<close> past the NUL it has just copied, so the final store
  writes a second NUL behind it.
\<close>

fun safestrcpy :: "nat \<Rightarrow> byte list \<Rightarrow> byte list \<Rightarrow> byte list" where
  "safestrcpy 0 s t = s"
| "safestrcpy (Suc 0) s t = 0 # tl s"
| "safestrcpy (Suc (Suc n)) s t =
     hd0 t # (if hd0 t \<noteq> 0 then safestrcpy (Suc n) (tl s) (tl t) else 0 # tl (tl s))"

primrec strlen :: "byte list \<Rightarrow> nat" where
  "strlen [] = 0"
| "strlen (c # s) = (if c \<noteq> 0 then Suc (strlen s) else 0)"

subsection \<open>What they compute\<close>

text \<open>The string an array holds: its bytes up to the first NUL.\<close>

definition cstr :: "byte list \<Rightarrow> byte list" where
  "cstr xs = takeWhile (\<lambda>c. c \<noteq> 0) xs"

lemma cstr_simps [simp]: "cstr [] = []" "cstr (c # xs) = (if c = 0 then [] else c # cstr xs)"
  by (simp_all add: cstr_def)

lemma strlen_cstr: "strlen xs = length (cstr xs)"
  by (induction xs) auto

text \<open>The addresses \<open>k\<close> bytes long from \<open>p\<close>, one step at a time.\<close>

lemma offset_Suc: "unat (a - p) < Suc k \<longleftrightarrow> a = p \<or> unat (a - (p + 1)) < k" for a p :: uint64
proof (cases "a = p")
  case False
  then have "a - p \<noteq> 0" by simp
  then have "unat (a - p - 1) = unat (a - p) - 1" "0 < unat (a - p)"
    by (simp_all add: unat_minus_one unat_gt_0)
  then show ?thesis using False by (simp add: diff_diff_add) linarith
qed simp

lemma offset_Suc': "unat (a - p) < Suc k \<longleftrightarrow> unat (a - p) < k \<or> a = p + of_nat k"
  if "k < 2 ^ 64" for a p :: uint64
proof -
  have "unat (a - p) = k \<longleftrightarrow> a - p = of_nat k"
    using that by (metis unat_of_nat_64 word_unat_eq_iff)
  also have "\<dots> \<longleftrightarrow> a = p + of_nat k" by (auto simp: algebra_simps)
  finally have "unat (a - p) = k \<longleftrightarrow> a = p + of_nat k" .
  then show ?thesis by (auto simp: less_Suc_eq)
qed

lemma memset_loop_eq:
  "memset_loop k p c m = (\<lambda>a. if unat (a - p) < k then c else m a)"
proof (induction k arbitrary: p m)
  case (Suc k)
  then show ?case by (auto simp: fun_eq_iff offset_Suc)
qed simp

lemma memset_eq:
  "memset dst c n m = (\<lambda>a. if unat (a - dst) < unat n then word_of_int c else m a)"
  by (simp add: memset_def memset_loop_eq)

text \<open>Forward copying is right unless the destination starts inside the source.\<close>

lemma copy_forward_eq:
  assumes "unat d + k \<le> 2 ^ 64" "unat s + k \<le> 2 ^ 64" "\<not> (unat s < unat d \<and> unat d < unat s + k)"
  shows "copy_forward k d s m = (\<lambda>a. if unat (a - d) < k then m (s + (a - d)) else m a)"
  using assms
proof (induction k arbitrary: d s m)
  case 0
  then show ?case by simp
next
  case (Suc k)
  show ?case
  proof (cases "k = 0")
    case True
    then show ?thesis by (auto simp: fun_eq_iff unat_eq_zero)
  next
    case False
    with Suc.prems have u: "unat (d + 1) = unat d + 1" "unat (s + 1) = unat s + 1"
      by (simp_all add: unat_add_64)
    have IH: "copy_forward k (d + 1) (s + 1) (m(d := m s)) =
      (\<lambda>a. if unat (a - (d + 1)) < k then (m(d := m s)) (s + 1 + (a - (d + 1))) else (m(d := m s)) a)"
      using Suc.prems u by (intro Suc.IH) auto
    have ne: "s + (a - d) \<noteq> d" if "unat (a - d) < Suc k" "a \<noteq> d" for a
    proof
      assume e: "s + (a - d) = d"
      have "unat d = unat s + unat (a - d)"
        using that Suc.prems(2) by (subst e [symmetric]) (simp add: unat_add_64)
      moreover have "0 < unat (a - d)" using that(2) by (simp add: unat_gt_0)
      ultimately show False using that Suc.prems(3) by simp
    qed
    have sh: "s + 1 + (a - (d + 1)) = s + (a - d)" for a by simp
    show ?thesis
    proof
      fix a
      have "copy_forward (Suc k) d s m a =
        (if unat (a - (d + 1)) < k then (m(d := m s)) (s + (a - d)) else (m(d := m s)) a)"
        using fun_cong [OF IH, of a] by (simp only: copy_forward.simps sh)
      also have "\<dots> = (if unat (a - d) < Suc k then m (s + (a - d)) else m a)"
      proof (cases "a = d")
        case True
        have "unat (- 1 :: uint64) = 2 ^ 64 - 1"
          by (simp add: unsigned_minus_1_eq_mask mask_eq_exp_minus_1)
        then have "\<not> unat (d - (d + 1)) < k"
          using Suc.prems(1) by simp
        with True show ?thesis by simp
      next
        case False
        with ne [of a] offset_Suc [of a d k] show ?thesis by auto
      qed
      finally show "copy_forward (Suc k) d s m a = \<dots>" .
    qed
  qed
qed

lemma copy_backward_eq:
  assumes "unat d + k < 2 ^ 64" "unat s + k < 2 ^ 64" "unat s < unat d"
  shows "copy_backward k (d + of_nat k) (s + of_nat k) m =
    (\<lambda>a. if unat (a - d) < k then m (s + (a - d)) else m a)"
  using assms
proof (induction k arbitrary: m)
  case 0
  then show ?case by simp
next
  case (Suc k)
  let ?m = "m(d + of_nat k := m (s + of_nat k))"
  have k: "k < 2 ^ 64" "unat (of_nat k :: uint64) = k"
    using Suc.prems by (simp_all add: unat_of_nat_64)
  have IH: "copy_backward k (d + of_nat k) (s + of_nat k) ?m =
    (\<lambda>a. if unat (a - d) < k then ?m (s + (a - d)) else ?m a)"
    using Suc.prems by (intro Suc.IH) auto
  have ne: "s + (a - d) \<noteq> d + of_nat k" if "unat (a - d) < k" for a
  proof
    assume e: "s + (a - d) = d + of_nat k"
    have "unat (s + (a - d)) = unat s + unat (a - d)" "unat (d + of_nat k) = unat d + k"
      using that Suc.prems k by (simp_all add: unat_add_64)
    with arg_cong [OF e, of unat] that Suc.prems(3) show False by linarith
  qed
  show ?case
  proof
    fix a
    have "copy_backward (Suc k) (d + of_nat (Suc k)) (s + of_nat (Suc k)) m a =
      (if unat (a - d) < k then ?m (s + (a - d)) else ?m a)"
      using fun_cong [OF IH, of a] by (simp add: algebra_simps)
    also have "\<dots> = (if unat (a - d) < Suc k then m (s + (a - d)) else m a)"
      using ne [of a] offset_Suc' [OF k(1), of a d] by auto
    finally show "copy_backward (Suc k) (d + of_nat (Suc k)) (s + of_nat (Suc k)) m a = \<dots>" .
  qed
qed

lemma memmove_eq:
  assumes "unat dst + unat n < 2 ^ 64" "unat src + unat n < 2 ^ 64"
  shows "memmove dst src n m = (\<lambda>a. if unat (a - dst) < unat n then m (src + (a - dst)) else m a)"
proof -
  note n = unat_ucast_32_64 [of n] of_nat_unat_32_64 [of n]
  have "unat (src + ucast n) = unat src + unat n"
    using assms(2) n by (simp add: unat_add_64)
  then have c: "src < dst \<and> src + ucast n > dst \<longleftrightarrow> unat src < unat dst \<and> unat dst < unat src + unat n"
    by (simp add: word_less_nat_alt)
  show ?thesis
  proof (cases "src < dst \<and> src + ucast n > dst")
    case True
    with c copy_backward_eq [OF assms, of m] n show ?thesis
      by (simp add: memmove_def)
  next
    case False
    with c copy_forward_eq [of dst "unat n" src m] assms show ?thesis
      by (auto simp: memmove_def)
  qed
qed


lemma strncmp_zero_iff:
  "strncmp p q n = 0 \<longleftrightarrow> cstr (take n p) = cstr (take n q)"
proof (induction p q n rule: strncmp.induct)
  case (1 p q)
  show ?case by simp
next
  case (2 p q n)
  have eq: "uint (hd0 p) - uint (hd0 q) = 0 \<longleftrightarrow> hd0 p = hd0 q" by (simp add: word_uint_eq_iff)
  show ?case
  proof (cases p)
    case Nil
    then show ?thesis using eq by (cases q) auto
  next
    case (Cons a p')
    then show ?thesis using 2 eq by (cases q) (auto split: if_splits)
  qed
qed

lemma zero_fill_eq: "zero_fill n s = replicate n 0 @ drop n s"
  by (induction n arbitrary: s) (simp_all add: drop_Suc)

lemma strncpy_eq:
  "strncpy n s t = take n (cstr t) @ replicate (n - length (cstr t)) 0 @ drop n s"
proof (induction n arbitrary: s t)
  case (Suc n)
  show ?case
  proof (cases t)
    case Nil
    then show ?thesis by (simp add: zero_fill_eq drop_Suc)
  next
    case (Cons c t')
    then show ?thesis by (auto simp: Suc.IH zero_fill_eq drop_Suc)
  qed
qed simp

lemma cstr_safestrcpy: "0 < n \<Longrightarrow> cstr (safestrcpy n s t) = take (n - 1) (cstr t)"
proof (induction n s t rule: safestrcpy.induct)
  case (3 n s t)
  then show ?case by (cases t) auto
qed simp_all

lemma length_safestrcpy: "n \<le> length s \<Longrightarrow> length (safestrcpy n s t) = length s"
proof (induction n s t rule: safestrcpy.induct)
  case (3 n s t)
  then have "n \<le> length (tl s) - 1" "Suc (Suc n) \<le> length s" by simp_all
  with 3 show ?case by (cases s) (auto simp: Suc_le_eq)
qed simp_all

lemma safestrcpy_nul: "0 < n \<Longrightarrow> n \<le> length s \<Longrightarrow> \<exists>i < n. safestrcpy n s t ! i = 0"
proof (induction n s t rule: safestrcpy.induct)
  case (2 s t)
  then show ?case by auto
next
  case (3 n s t)
  show ?case
  proof (cases "hd0 t = 0")
    case True
    then show ?thesis by (intro exI [of _ 0]) simp
  next
    case False
    from 3 have "Suc n \<le> length (tl s)" by simp
    with 3 False obtain i where "i < Suc n" "safestrcpy (Suc n) (tl s) (tl t) ! i = 0" by auto
    then show ?thesis using False by (intro exI [of _ "Suc i"]) simp
  qed
qed simp

lemma safestrcpy_keeps: "n \<le> i \<Longrightarrow> i < length s \<Longrightarrow> safestrcpy n s t ! i = s ! i"
proof (induction n s t arbitrary: i rule: safestrcpy.induct)
  case (2 s t)
  then show ?case by (cases s; cases i) auto
next
  case (3 n s t)
  then obtain j where j: "i = Suc j" "Suc n \<le> j" by (cases i) auto
  from 3 have l: "j < length (tl s)" "tl s ! j = s ! i" using j by (cases s; simp)+
  show ?case
  proof (cases "hd0 t = 0")
    case True
    with l j show ?thesis by (cases "tl s"; cases j) auto
  next
    case False
    with 3 l j show ?thesis by simp
  qed
qed simp

text \<open>
  C17. \<open>memmove\<close> copies correctly whatever the overlap of source and destination: every
  destination byte becomes the old source byte at the same offset, and all other bytes are kept.
\<close>

theorem memmove_correct:
  assumes "unat dst + unat n < 2 ^ 64" and "unat src + unat n < 2 ^ 64"
  shows "memmove dst src n m a =
    (if \<exists>k < unat n. a = dst + of_nat k then m (src + (a - dst)) else m a)"
proof -
  have "unat (a - dst) < unat n" if "k < unat n" "a = dst + of_nat k" for k
  proof -
    have "k < 2 ^ 64" using that(1) unat_32_bound [of n] by simp
    with that show ?thesis by (simp add: unat_of_nat_64)
  qed
  moreover have "a = dst + of_nat (unat (a - dst))" by simp
  ultimately have "unat (a - dst) < unat n \<longleftrightarrow> (\<exists>k < unat n. a = dst + of_nat k)" by blast
  with memmove_eq [OF assms, of m] show ?thesis by simp
qed

text \<open>Moving \<open>[1,2,3,4]\<close> at address 8 one byte up: the ranges overlap.\<close>

theorem memmove_correct_witness:
  "memmove 9 8 4 (\<lambda>a. ucast (a - 7)) 12 = 4"
  using memmove_correct [of 9 4 8 "\<lambda>a. ucast (a - 7)" 12]
  by (simp add: exI [of _ 3])

text \<open>
  \<open>safestrcpy\<close> into an array of at least \<open>n > 0\<close> bytes always leaves a NUL among its first
  \<open>n\<close> bytes, stores the longest prefix of the source string that fits, keeps the array's length
  and writes nothing beyond its first \<open>n\<close> bytes.
\<close>

lemma safestrcpy_correct:
  assumes "0 < n" and "n \<le> length s"
  shows "(\<exists>i < n. safestrcpy n s t ! i = 0) \<and> cstr (safestrcpy n s t) = take (n - 1) (cstr t) \<and>
    length (safestrcpy n s t) = length s \<and> drop n (safestrcpy n s t) = drop n s"
proof -
  have "drop n (safestrcpy n s t) = drop n s"
    by (rule nth_equalityI) (use assms(2) in \<open>simp_all add: length_safestrcpy safestrcpy_keeps\<close>)
  with assms show ?thesis
    by (simp add: safestrcpy_nul cstr_safestrcpy length_safestrcpy)
qed

text \<open>
  \<open>strncmp\<close> decides equality of strings up to \<open>n\<close> bytes: it returns zero exactly when the two
  arrays hold the same string once both are cut at \<open>n\<close> bytes and at their first NUL.
\<close>

lemma strncmp_correct: "strncmp p q n = 0 \<longleftrightarrow> cstr (take n p) = cstr (take n q)"
  by (rule strncmp_zero_iff)

text \<open>
  \<open>strncpy\<close> of \<open>n\<close> bytes stores exactly the first \<open>n\<close> bytes of the source string padded
  with NULs, so comparing the stored name with the source by \<open>strncmp\<close> over the same \<open>n\<close> bytes finds
  them equal.
\<close>

lemma strncpy_strncmp_roundtrip: "strncmp (strncpy n s t) t n = 0"
proof -
  have c: "cstr (xs @ replicate k 0) = cstr xs" for xs k
    by (induction xs) (auto simp: cstr_def)
  have "take n (strncpy n s t) = take n (cstr t) @ replicate (n - length (cstr t)) 0"
    by (simp add: strncpy_eq)
  moreover have "cstr (take n (cstr t)) = cstr (take n t)"
    by (induction t arbitrary: n) (auto simp: take_Cons split: nat.splits)
  ultimately show ?thesis by (simp add: strncmp_zero_iff c)
qed

end
