(* ===== verification/Printf.thy ===== *)
theory Printf
  imports Spinlock Cstring
begin

section \<open>Console output and kernel printf (uart.c, console.c, printf.c)\<close>

text \<open>
  The output half of the UART driver, \<open>consputc\<close>, and the formatted output of \<open>printf.c\<close>.
  The 16550 is outside the sources: its line status register is a value of the state
  (\<open>uart_lsr\<close>), set by the device, and \<open>uart_thr\<close> collects, in order, the bytes the driver
  writes to the transmit holding register.  \<open>panic\<close> does not return; a function that calls it
  has the outcome \<open>Panic\<close>.
\<close>

record uart_state = lock_state +
  uart_lsr :: byte
  uart_thr :: "byte list"
  uart_rhr :: "byte list"
  tx_busy :: bool
  panicking :: bool
  panicked :: bool

datatype uart_bit =
    IER_RX_ENABLE | IER_TX_ENABLE | FCR_FIFO_ENABLE | FCR_FIFO_CLEAR | LCR_EIGHT_BITS | LCR_BAUD_LATCH
  | LSR_RX_READY | LSR_TX_IDLE

primrec uart_bits :: "uart_bit \<Rightarrow> byte" where
  "uart_bits IER_RX_ENABLE = push_bit 0 1"
| "uart_bits IER_TX_ENABLE = push_bit 1 1"
| "uart_bits FCR_FIFO_ENABLE = push_bit 0 1"
| "uart_bits FCR_FIFO_CLEAR = push_bit 1 3"
| "uart_bits LCR_EIGHT_BITS = push_bit 0 3"
| "uart_bits LCR_BAUD_LATCH = push_bit 7 1"
| "uart_bits LSR_RX_READY = push_bit 0 1"
| "uart_bits LSR_TX_IDLE = push_bit 5 1"

declare uart_bits.simps [simp del]

definition write_thr :: "byte \<Rightarrow> 'a uart_state_scheme \<Rightarrow> 'a uart_state_scheme" where
  "write_thr c s = s\<lparr>uart_thr := uart_thr s @ [c]\<rparr>"

definition uartputc_sync :: "int \<Rightarrow> 'a uart_state_scheme \<Rightarrow> (unit, 'a uart_state_scheme) outcome" where
  "uartputc_sync c s =
     (let s = (if \<not> panicking s then push_off s else s)
      in if panicked s then Spin s
         else if uart_lsr s AND uart_bits LSR_TX_IDLE = 0 then Spin s
         else let s = write_thr (word_of_int c) s
              in if \<not> panicking s then pop_off s else Ok () s)"

definition BACKSPACE :: int where "BACKSPACE = 0x100"

definition consputc :: "int \<Rightarrow> 'a uart_state_scheme \<Rightarrow> (unit, 'a uart_state_scheme) outcome" where
  "consputc c s =
     (if c = BACKSPACE
      then andthen (uartputc_sync 8 s) (\<lambda>_ s.
             andthen (uartputc_sync 32 s) (\<lambda>_ s. uartputc_sync 8 s))
      else uartputc_sync c s)"

subsection \<open>Integers\<close>

definition digits :: "string" where "digits = ''0123456789abcdef''"

definition digit_char :: "string \<Rightarrow> uint64 \<Rightarrow> byte" where
  "digit_char ds d = of_char (ds ! unat d)"

lemma word_div_shrinks:
  fixes x b :: uint64
  assumes "x div b \<noteq> 0" "\<not> b < 2"
  shows "unat (x div b) < unat x"
proof -
  have "2 \<le> unat b" using assms(2) by (simp add: word_less_nat_alt)
  moreover have "0 < unat x" using assms(1) by (metis div_0 unat_gt_0 word_div_def)
  ultimately show ?thesis by (simp add: unat_div)
qed

text \<open>
  The digit loop of \<open>printint\<close>, least significant digit first.  The callers pass base 10 or 16;
  a base below 2, for which the C loop would not end or would divide by zero, stops at once.
\<close>

function digit_loop :: "string \<Rightarrow> uint64 \<Rightarrow> uint64 \<Rightarrow> byte list" where
  "digit_loop ds x base =
     digit_char ds (x mod base) #
       (if x div base = 0 \<or> base < 2 then [] else digit_loop ds (x div base) base)"
  by pat_completeness auto
termination
  by (relation "measure (\<lambda>(ds, x, b). unat x)") (auto simp: word_div_shrinks)

declare digit_loop.simps [simp del]

text \<open>The characters \<open>printint\<close> writes, in the order it writes them.\<close>

definition printint :: "uint64 \<Rightarrow> uint64 \<Rightarrow> bool \<Rightarrow> byte list" where
  "printint xx base sign =
     (let neg = sign \<and> sint xx < 0;
          x = (if neg then - xx else xx);
          buf = digit_loop digits x base;
          buf = (if neg then buf @ [of_char CHR ''-''] else buf)
      in rev buf)"

primrec ptr_digits :: "nat \<Rightarrow> uint64 \<Rightarrow> byte list" where
  "ptr_digits 0 x = []"
| "ptr_digits (Suc k) x = digit_char digits (drop_bit 60 x) # ptr_digits k (push_bit 4 x)"

definition printptr :: "uint64 \<Rightarrow> byte list" where
  "printptr x = of_char CHR ''0'' # of_char CHR ''x'' # ptr_digits 16 x"

subsection \<open>Formats\<close>

text \<open>
  The variable arguments: machine words, and strings (\<open>None\<close> is the null pointer).  A directive
  that does not fit its argument is undefined behaviour in C; here it reads 0 or the empty string.
\<close>

datatype varg = Arg uint64 | ArgStr "byte list option"

fun va_word :: "varg list \<Rightarrow> uint64" where
  "va_word (Arg x # _) = x"
| "va_word _ = 0"

fun va_str :: "varg list \<Rightarrow> byte list" where
  "va_str (ArgStr (Some s) # _) = cstr s"
| "va_str (ArgStr None # _) = map of_char ''(null)''"
| "va_str _ = []"

definition va_int :: "varg list \<Rightarrow> uint64" where
  "va_int ap = u64_of_int (int_of_u64 (va_word ap))"

definition va_uint32 :: "varg list \<Rightarrow> uint64" where
  "va_uint32 ap = ucast (ucast (va_word ap) :: uint32)"

definition chr0 :: "string \<Rightarrow> byte" where
  "chr0 f = (case f of [] \<Rightarrow> 0 | c # _ \<Rightarrow> of_char c)"

text \<open>
  One directive, at the character behind the percent sign: what is printed, how many characters
  of the format it uses, and whether it takes an argument; \<open>None\<close> at the end of the format.
\<close>

definition directive :: "string \<Rightarrow> varg list \<Rightarrow> (byte list \<times> nat \<times> bool) option" where
  "directive f ap =
     (let c0 = chr0 f;
          c1 = (if c0 \<noteq> 0 then chr0 (drop 1 f) else 0);
          c2 = (if c1 \<noteq> 0 then chr0 (drop 2 f) else 0);
          d = of_char CHR ''d''; l = of_char CHR ''l''; u = of_char CHR ''u''; x = of_char CHR ''x''
      in if c0 = d then Some (printint (va_int ap) 10 True, 1, True)
         else if c0 = l \<and> c1 = d then Some (printint (va_word ap) 10 True, 2, True)
         else if c0 = l \<and> c1 = l \<and> c2 = d then Some (printint (va_word ap) 10 True, 3, True)
         else if c0 = u then Some (printint (va_uint32 ap) 10 False, 1, True)
         else if c0 = l \<and> c1 = u then Some (printint (va_word ap) 10 False, 2, True)
         else if c0 = l \<and> c1 = l \<and> c2 = u then Some (printint (va_word ap) 10 False, 3, True)
         else if c0 = x then Some (printint (va_uint32 ap) 16 False, 1, True)
         else if c0 = l \<and> c1 = x then Some (printint (va_word ap) 16 False, 2, True)
         else if c0 = l \<and> c1 = l \<and> c2 = x then Some (printint (va_word ap) 16 False, 3, True)
         else if c0 = of_char CHR ''p'' then Some (printptr (va_word ap), 1, True)
         else if c0 = of_char CHR ''c'' then 
           Some (if sint (ucast (va_word ap) :: uint32) = BACKSPACE then [8, 32, 8]
                 else [ucast (va_word ap)], 1, True)
         else if c0 = of_char CHR ''s'' then Some (va_str ap, 1, True)
         else if c0 = of_char CHR ''%'' then Some ([of_char CHR ''%''], 1, False)
         else if c0 = 0 then None
         else Some ([of_char CHR ''%'', c0], 1, False))"

function printf_chars :: "string \<Rightarrow> varg list \<Rightarrow> byte list" where
  "printf_chars fmt ap =
     (if chr0 fmt = 0 then []
      else if chr0 fmt \<noteq> of_char CHR ''%'' then chr0 fmt # printf_chars (tl fmt) ap
      else (case directive (tl fmt) ap of
              None \<Rightarrow> []
            | Some (out, used, takes) \<Rightarrow>
                out @ printf_chars (drop used (tl fmt)) (if takes then tl ap else ap)))"
  by pat_completeness auto
termination
proof (relation "measure (\<lambda>(fmt, ap). length fmt)", goal_cases)
  case (2 fmt ap)
  then show ?case by (cases fmt) (auto simp: chr0_def)
next
  case (3 fmt ap)
  then show ?case by (cases fmt) (auto simp: chr0_def)
qed simp

declare printf_chars.simps [simp del]

primrec put_all :: "byte list \<Rightarrow> 'a uart_state_scheme \<Rightarrow> (unit, 'a uart_state_scheme) outcome" where
  "put_all [] s = Ok () s"
| "put_all (c # cs) s = andthen (consputc (uint c) s) (\<lambda>_. put_all cs)"

definition printf :: "string \<Rightarrow> varg list \<Rightarrow> 'a uart_state_scheme \<Rightarrow> (unit, 'a uart_state_scheme) outcome" where
  "printf fmt ap s =
     andthen (if \<not> panicking s then acquire L_pr s else Ok () s) (\<lambda>_ s.
     andthen (put_all (printf_chars fmt ap) s) (\<lambda>_ s.
     if \<not> panicking s then release L_pr s else Ok () s))"

subsection \<open>Output reaches the device in order\<close>

definition uart_idle :: "'a uart_state_scheme \<Rightarrow> bool" where
  "uart_idle s \<longleftrightarrow> \<not> panicking s \<and> \<not> panicked s \<and> uart_lsr s AND uart_bits LSR_TX_IDLE \<noteq> 0"

lemma uartputc_sync_eq:
  assumes "ready s" "uart_idle s"
  shows "uartputc_sync c s = Ok () (s\<lparr>uart_thr := uart_thr s @ [word_of_int c]\<rparr>)"
  using assms
  by (simp add: uartputc_sync_def uart_idle_def push_off_eq write_thr_def Let_def pop_off_eq)

lemma uart_idle_upd [simp]: "uart_idle (s\<lparr>uart_thr := x\<rparr>) = uart_idle s"
  by (simp add: uart_idle_def)

lemma consputc_byte_eq:
  assumes "ready s" "uart_idle s"
  shows "consputc (uint c) s = Ok () (s\<lparr>uart_thr := uart_thr s @ [c]\<rparr>)"
proof -
  have "uint c < 256" using unsigned_less [of c] by simp
  then have "uint c \<noteq> BACKSPACE" by (simp add: BACKSPACE_def)
  with uartputc_sync_eq [OF assms, of "uint c"] show ?thesis by (simp add: consputc_def)
qed

lemma put_all_eq:
  "ready s \<Longrightarrow> uart_idle s \<Longrightarrow> put_all cs s = Ok () (s\<lparr>uart_thr := uart_thr s @ cs\<rparr>)"
proof (induction cs arbitrary: s)
  case (Cons c cs)
  then show ?case by (simp add: consputc_byte_eq)
qed simp

lemma uart_idle_locks [simp]:
  "uart_idle (s\<lparr>regs := a\<rparr>) = uart_idle s" "uart_idle (s\<lparr>cpus := b\<rparr>) = uart_idle s"
  "uart_idle (s\<lparr>spin := c\<rparr>) = uart_idle s"
  by (simp_all add: uart_idle_def)

lemma printf_eq:
  assumes "ready s" "uart_idle s" "free_lock L_pr s"
  shows "printf fmt ap s = Ok () (s\<lparr>uart_thr := uart_thr s @ printf_chars fmt ap\<rparr>)"
proof -
  have p: "\<not> panicking s" using assms(2) by (simp add: uart_idle_def)
  with assms show ?thesis by (simp add: printf_def lock_simps put_all_eq)
qed

subsection \<open>Numbers are printed correctly and fit the buffer\<close>

lemma digit_loop_length:
  "0 < n \<Longrightarrow> unat x < unat b ^ n \<Longrightarrow> length (digit_loop ds x b) \<le> n"
proof (induction n arbitrary: x)
  case (Suc n)
  show ?case
  proof (cases "x div b = 0 \<or> b < 2")
    case True
    then show ?thesis by (subst digit_loop.simps) simp
  next
    case False
    have "n \<noteq> 0"
    proof
      assume "n = 0"
      with Suc.prems have "unat x < unat b" by simp
      then have "x div b = 0" by (simp add: unat_div word_unat_eq_iff)
      with False show False by simp
    qed
    moreover have "unat (x div b) < unat b ^ n"
      using Suc.prems(2) by (simp add: unat_div less_mult_imp_div_less mult.commute)
    ultimately have "length (digit_loop ds (x div b) b) \<le> n" by (intro Suc.IH) simp_all
    with False show ?thesis by (subst digit_loop.simps) simp
  qed
qed simp

text \<open>Reading digits back: the value of one digit and of a list, least significant first.\<close>

definition digit_value :: "byte \<Rightarrow> nat" where
  "digit_value c = (if unat c < 58 then unat c - 48 else unat c - 87)"

definition digits_value :: "nat \<Rightarrow> byte list \<Rightarrow> nat" where
  "digits_value b cs = foldr (\<lambda>c v. digit_value c + b * v) cs 0"

lemma digit_value_char: "d < 16 \<Longrightarrow> digit_value (of_char (digits ! d)) = d"
proof -
  assume "d < 16"
  then have "d \<in> set [0..<16]" by simp
  moreover have "\<forall>d \<in> set [0..<16]. digit_value (of_char (digits ! d)) = d"
    by (simp add: upt_rec digits_def digit_value_def)
  ultimately show ?thesis by blast
qed

lemma digits_value_loop:
  "2 \<le> unat b \<Longrightarrow> unat b \<le> 16 \<Longrightarrow> ds = digits \<Longrightarrow>
   digits_value (unat b) (digit_loop ds x b) = unat x"
proof (induction ds x b rule: digit_loop.induct)
  case (1 ds x b)
  have "unat x mod unat b < 16"
    using 1 by (metis gr0I le_zero_eq mod_less_divisor nat.simps(3) numeral_2_eq_2 order_less_le_trans)
  then have d: "digit_value (digit_char digits (x mod b)) = unat x mod unat b"
    by (simp add: digit_char_def unat_mod digit_value_char)
  have b: "\<not> b < 2" using "1.prems"(1) by (simp add: word_less_nat_alt)
  show ?case
  proof (cases "x div b = 0")
    case True
    then have "unat x div unat b = 0" by (metis unat_0 unat_div)
    then have "unat x mod unat b = unat x" by (metis add.right_neutral mult_0_right mod_div_mult_eq mult.commute)
    with True d 1 show ?thesis by (subst digit_loop.simps) (simp add: digits_value_def)
  next
    case False
    with 1 b have "digits_value (unat b) (digit_loop digits (x div b) b) = unat x div unat b"
      by (simp add: unat_div)
    with False b d 1 show ?thesis
      by (subst digit_loop.simps) (simp add: digits_value_def)
  qed
qed

lemma unat_uminus_negative:
  fixes x :: uint64
  assumes "sint x < 0"
  shows "unat (- x) \<le> 2 ^ 63"
proof -
  have b: "- (2 ^ 63) \<le> sint x" using sint_ge [of x] by simp
  have "(2::int) ^ 63 < 2 ^ 64" by simp
  with b have b': "- sint x < 2 ^ 64" by linarith
  have e: "- x = word_of_int (- sint x)" by simp
  have "uint (- x) = (- sint x) mod 2 ^ 64"
    by (subst e) (simp only: uint_word_of_int len_bit0 len_num1 mult_1_right, simp)
  also have "\<dots> = - sint x"
    by (rule mod_pos_pos_trivial) (use assms b' in linarith)+
  finally have "uint (- x) \<le> 2 ^ 63" using b by linarith
  then have "nat (uint (- x)) \<le> nat (2 ^ 63)" by (rule nat_mono)
  then show ?thesis by (simp only: unat_eq_nat_uint nat_power_eq nat_numeral zero_le_numeral)
qed

lemma printint_unsigned: "printint x base False = rev (digit_loop digits x base)"
  by (simp add: printint_def Let_def)

text \<open>
  \<open>printint\<close> never overruns its 20-byte buffer, for any 64-bit value, signed or unsigned, in
  base 10 and in base 16.
\<close>

lemma printint_fits:
  assumes "base = 10 \<or> base = 16"
  shows "length (printint xx base sign) \<le> 20"
proof -
  have u: "unat x < 2 ^ 64" for x :: uint64 by (rule unat_64_bound)
  have b20: "length (digit_loop digits x base) \<le> 20" for x
    using assms u [of x] by (intro digit_loop_length) auto
  have "length (digit_loop digits (- xx) base) \<le> 19" if "sint xx < 0"
  proof -
    have "unat (- xx) \<le> 2 ^ 63" using that by (rule unat_uminus_negative)
    with assms show ?thesis by (intro digit_loop_length) auto
  qed
  with b20 show ?thesis by (auto simp: printint_def Let_def)
qed



end
