(* ===== verification/Kalloc.thy ===== *)
theory Kalloc
  imports Printf
begin

section \<open>The physical page allocator (kalloc.c)\<close>

text \<open>
  Physical memory is a map from addresses to bytes.  The free list is the linked list of the
  source: \<open>kmem.freelist\<close> holds the address of the first free page, and the first eight bytes of
  a free page hold the address of the next one.  The addresses the linker script defines
  (\<open>end\<close>, \<open>etext\<close>, \<open>trampoline\<close> and the entry points in assembly) are not in the sources; they are
  fields of the state that no operation writes.
\<close>

record phys_state = uart_state +
  mem :: memory
  kmem_freelist :: uint64
  sym_end :: uint64
  sym_etext :: uint64
  sym_trampoline :: uint64
  sym_uservec :: uint64
  sym_userret :: uint64
  sym_kernelvec :: uint64
  sym_usertrap :: uint64
  sym_forkret :: uint64

definition kfree :: "uint64 \<Rightarrow> 'a phys_state_scheme \<Rightarrow> (unit, 'a phys_state_scheme) outcome" where
  "kfree pa s =
     (if pa mod PGSIZE \<noteq> 0 \<or> pa < sym_end s \<or> pa \<ge> PHYSTOP then Panic ''kfree''
      else let s = s\<lparr>mem := memset pa 1 (ucast PGSIZE) (mem s)\<rparr>
           in andthen (acquire L_kmem s) (\<lambda>_ s.
              let s = s\<lparr>mem := store64 (mem s) pa (kmem_freelist s)\<rparr>;
                  s = s\<lparr>kmem_freelist := pa\<rparr>
              in release L_kmem s))"

definition kalloc :: "'a phys_state_scheme \<Rightarrow> (uint64, 'a phys_state_scheme) outcome" where
  "kalloc s =
     andthen (acquire L_kmem s) (\<lambda>_ s.
     let r = kmem_freelist s;
         s = (if r \<noteq> 0 then s\<lparr>kmem_freelist := load64 (mem s) r\<rparr> else s)
     in andthen (release L_kmem s) (\<lambda>_ s.
        Ok r (if r \<noteq> 0 then s\<lparr>mem := memset r 5 (ucast PGSIZE) (mem s)\<rparr> else s)))"

text \<open>
  The loop of \<open>freerange\<close> ends because \<open>kfree\<close> returns only for a page below \<open>PHYSTOP\<close>, so the
  pointer never wraps around.
\<close>

lemma kfree_Ok_bound: "kfree pa s = Ok x t \<Longrightarrow> pa < PHYSTOP"
  by (auto simp: kfree_def split: if_splits)

function freerange_loop ::
  "uint64 \<Rightarrow> uint64 \<Rightarrow> 'a phys_state_scheme \<Rightarrow> (unit, 'a phys_state_scheme) outcome" where
  "freerange_loop p pa_end s =
     (if p + PGSIZE \<le> pa_end
      then andthen (kfree p s) (\<lambda>_ s. freerange_loop (p + PGSIZE) pa_end s)
      else Ok () s)"
  by pat_completeness auto
termination
proof (relation "measure (\<lambda>(p, e, s). 2 ^ 64 - unat p)", goal_cases)
  case (2 p pa_end s x t)
  then have "unat p < unat PHYSTOP" by (simp add: word_less_nat_alt [symmetric] kfree_Ok_bound)
  then show ?case by (simp add: page_defs unat_add_64)
qed simp

declare freerange_loop.simps [simp del]

definition freerange ::
  "uint64 \<Rightarrow> uint64 \<Rightarrow> 'a phys_state_scheme \<Rightarrow> (unit, 'a phys_state_scheme) outcome" where
  "freerange pa_start pa_end s = freerange_loop (PGROUNDUP pa_start) pa_end s"

definition kinit :: "'a phys_state_scheme \<Rightarrow> (unit, 'a phys_state_scheme) outcome" where
  "kinit s = freerange (sym_end s) PHYSTOP (initlock L_kmem ''kmem'' s)"

subsection \<open>Pages do not overlap\<close>

definition page_aligned :: "uint64 \<Rightarrow> bool" where
  "page_aligned a \<longleftrightarrow> a mod PGSIZE = 0"

definition in_page :: "uint64 \<Rightarrow> uint64 \<Rightarrow> bool" where
  "in_page p a \<longleftrightarrow> unat (a - p) < 4096"

lemma page_aligned_nat: "page_aligned a \<longleftrightarrow> unat a mod 4096 = 0"
  by (simp add: page_aligned_def PGSIZE_def word_unat_eq_iff unat_mod)

lemma page_aligned_diff: "page_aligned a \<Longrightarrow> page_aligned b \<Longrightarrow> page_aligned (a - b)"
proof -
  assume a: "page_aligned a" "page_aligned b"
  have "(2::nat) ^ 64 mod 4096 = 0" by simp
  then show ?thesis using a unsigned_less [of b]
    unfolding page_aligned_nat unat_sub_if'
    by (auto simp: mod_eq_0_iff_dvd intro!: dvd_diff_nat dvd_add)
qed

lemma in_page_distinct:
  assumes "page_aligned p" "page_aligned q" "p \<noteq> q" "in_page q a"
  shows "\<not> in_page p a"
proof -
  let ?d = "q - p" and ?j = "a - q"
  have d: "unat ?d mod 4096 = 0" "0 < unat ?d"
    using page_aligned_diff [OF assms(2,1)] assms(3) by (auto simp: page_aligned_nat unat_gt_0)
  have j: "unat ?j < 4096" using assms(4) by (simp add: in_page_def)
  have "unat ?d + 4096 \<le> 2 ^ 64"
    using d(1) unat_64_bound [of ?d] by (intro multiples_apart) simp_all
  then have "unat (?d + ?j) = unat ?d + unat ?j" using j by (intro unat_add_64) simp
  moreover have "0 + 4096 \<le> unat ?d" using d by (intro multiples_apart) simp_all
  moreover have "?d + ?j = a - p" by simp
  ultimately show ?thesis by (simp add: in_page_def)
qed

lemma in_page_offset: "unat j < 4096 \<Longrightarrow> in_page p (p + j)"
  by (simp add: in_page_def)

lemma memset_page: "memset p c (ucast PGSIZE) m = (\<lambda>a. if in_page p a then word_of_int c else m a)"
  by (simp add: memset_eq in_page_def PGSIZE_def)

lemma load64_cong:
  "(\<And>j. j < 8 \<Longrightarrow> m (a + j) = m' (a + j)) \<Longrightarrow> load64 m a = load64 m' a"
proof -
  assume e: "\<And>j. j < 8 \<Longrightarrow> m (a + j) = m' (a + j)"
  then have "m a = m' a" using e [of 0] by simp
  with e show ?thesis by (simp add: load64_def)
qed


lemma small_offset: "j < 8 \<Longrightarrow> unat j < 4096" for j :: uint64
  by (simp add: word_less_nat_alt)

text \<open>Writing one page leaves the words of every other page alone.\<close>

lemma load64_other_page:
  assumes "page_aligned p" "page_aligned q" "p \<noteq> q" "\<And>a. \<not> in_page p a \<Longrightarrow> m' a = m a"
  shows "load64 m' q = load64 m q"
  using assms by (intro load64_cong) (metis in_page_distinct in_page_offset small_offset)

lemma store64_outside:
  assumes "\<not> in_page p a"
  shows "store64 m p x a = m a"
proof -
  have "a \<noteq> p + j" if "unat j < 4096" for j using assms that in_page_offset by blast
  from this [of 0] this [of 1] this [of 2] this [of 3] this [of 4] this [of 5] this [of 6] this [of 7]
  show ?thesis by (simp add: store64_def)
qed

subsection \<open>The free list\<close>

fun flist :: "memory \<Rightarrow> uint64 \<Rightarrow> uint64 list \<Rightarrow> bool" where
  "flist m p [] \<longleftrightarrow> p = 0"
| "flist m p (a # as) \<longleftrightarrow> p = a \<and> a \<noteq> 0 \<and> flist m (load64 m a) as"

definition page_ok :: "'a phys_state_scheme \<Rightarrow> uint64 \<Rightarrow> bool" where
  "page_ok s a \<longleftrightarrow> page_aligned a \<and> sym_end s \<le> a \<and> a < PHYSTOP"

text \<open>
  The allocator holds exactly the pages \<open>xs\<close>, in this order: the list in memory is \<open>xs\<close>, its
  pages are whole pages of the allocatable range, and no page occurs twice.
\<close>

definition kmem_inv :: "'a phys_state_scheme \<Rightarrow> uint64 list \<Rightarrow> bool" where
  "kmem_inv s xs \<longleftrightarrow> 0 < sym_end s \<and> flist (mem s) (kmem_freelist s) xs \<and> distinct xs \<and>
     (\<forall>a \<in> set xs. page_ok s a)"

lemma page_ok_nonzero: "0 < sym_end s \<Longrightarrow> page_ok s a \<Longrightarrow> a \<noteq> 0"
  by (auto simp: page_ok_def)

lemma flist_other_page:
  assumes "page_aligned p" "\<And>a. \<not> in_page p a \<Longrightarrow> m' a = m a"
    and "flist m q xs" "p \<notin> set xs" "\<forall>a \<in> set xs. page_aligned a"
  shows "flist m' q xs"
  using assms(3-5)
proof (induction xs arbitrary: q)
  case (Cons a xs)
  have "load64 m' a = load64 m a"
    using assms(1,2) Cons.prems by (intro load64_other_page) auto
  with Cons show ?case by simp
qed simp

text \<open>Closed forms, with the lock cancelled.\<close>

lemma kfree_eq:
  assumes "ready s" "free_lock L_kmem s" "page_ok s pa"
  shows "kfree pa s = Ok () (s\<lparr>mem := store64 (memset pa 1 (ucast PGSIZE) (mem s)) pa (kmem_freelist s),
                              kmem_freelist := pa\<rparr>)"
  using assms
  by (simp add: kfree_def Let_def lock_simps page_ok_def page_aligned_def not_less not_le)

lemma kalloc_eq:
  assumes "ready s" "free_lock L_kmem s"
  shows "kalloc s = (let r = kmem_freelist s in
    Ok r (if r \<noteq> 0 then s\<lparr>kmem_freelist := load64 (mem s) r, mem := memset r 5 (ucast PGSIZE) (mem s)\<rparr>
          else s))"
  using assms by (simp add: kalloc_def Let_def lock_simps)

lemma kfree_spec:
  assumes "ready s" "free_lock L_kmem s" "kmem_inv s xs" "page_ok s a" "a \<notin> set xs"
  shows "\<exists>m. kfree a s = Ok () (s\<lparr>mem := m, kmem_freelist := a\<rparr>) \<and>
    kmem_inv (s\<lparr>mem := m, kmem_freelist := a\<rparr>) (a # xs) \<and> (\<forall>b. \<not> in_page a b \<longrightarrow> m b = mem s b)"
proof -
  let ?m = "store64 (memset a 1 (ucast PGSIZE) (mem s)) a (kmem_freelist s)"
  have out: "\<not> in_page a b \<Longrightarrow> ?m b = mem s b" for b
    by (simp add: store64_outside memset_page)
  have "flist ?m (kmem_freelist s) xs"
    using assms by (intro flist_other_page [OF _ out]) (auto simp: kmem_inv_def page_ok_def)
  moreover have "a \<noteq> 0" using assms(3,4) page_ok_nonzero [of s a] by (simp add: kmem_inv_def)
  ultimately have "kmem_inv (s\<lparr>mem := ?m, kmem_freelist := a\<rparr>) (a # xs)"
    using assms by (auto simp: kmem_inv_def page_ok_def)
  with kfree_eq [OF assms(1,2,4)] out show ?thesis by blast
qed

lemma kalloc_spec_none:
  assumes "ready s" "free_lock L_kmem s" "kmem_inv s []"
  shows "kalloc s = Ok 0 s"
  using assms by (simp add: kalloc_eq kmem_inv_def)

lemma kalloc_spec_some:
  assumes "ready s" "free_lock L_kmem s" "kmem_inv s (a # xs)"
  shows "\<exists>m p. kalloc s = Ok a (s\<lparr>kmem_freelist := p, mem := m\<rparr>) \<and>
    kmem_inv (s\<lparr>kmem_freelist := p, mem := m\<rparr>) xs \<and> page_ok s a \<and> a \<noteq> 0 \<and> a \<notin> set xs \<and>
    (\<forall>b. m b = (if in_page a b then 5 else mem s b))"
proof -
  let ?m = "memset a 5 (ucast PGSIZE) (mem s)"
  have out: "\<not> in_page a b \<Longrightarrow> ?m b = mem s b" for b by (simp add: memset_page)
  have f: "kmem_freelist s = a" "a \<noteq> 0" "flist (mem s) (load64 (mem s) a) xs"
    using assms(3) by (auto simp: kmem_inv_def)
  have "flist ?m (load64 (mem s) a) xs"
    using assms f by (intro flist_other_page [OF _ out]) (auto simp: kmem_inv_def page_ok_def)
  then have "kmem_inv (s\<lparr>kmem_freelist := load64 (mem s) a, mem := ?m\<rparr>) xs"
    using assms by (auto simp: kmem_inv_def page_ok_def)
  moreover have "kalloc s = Ok a (s\<lparr>kmem_freelist := load64 (mem s) a, mem := ?m\<rparr>)"
    using f by (simp add: kalloc_eq [OF assms(1,2)] Let_def)
  moreover have "\<forall>b. ?m b = (if in_page a b then 5 else mem s b)" by (simp add: memset_page)
  moreover have "page_ok s a" "a \<notin> set xs" using assms(3) by (simp_all add: kmem_inv_def)
  ultimately show ?thesis using f(2) by blast
qed


subsection \<open>The allocator as its clients see it\<close>

text \<open>
  A client asks for pages and gives back pages it holds.  \<open>run_pages\<close> runs such a sequence over
  any pair of an allocating and a freeing operation and collects the pages the client holds.
\<close>

datatype page_op = AllocPage | FreePage uint64

fun run_pages ::
  "('s \<Rightarrow> (uint64, 's) outcome) \<Rightarrow> (uint64 \<Rightarrow> 's \<Rightarrow> (unit, 's) outcome) \<Rightarrow>
   page_op list \<Rightarrow> uint64 list \<Rightarrow> 's \<Rightarrow> (uint64 list, 's) outcome" where
  "run_pages al fr [] held s = Ok held s"
| "run_pages al fr (AllocPage # ops) held s =
     andthen (al s) (\<lambda>r s. run_pages al fr ops (if r = 0 then held else r # held) s)"
| "run_pages al fr (FreePage a # ops) held s =
     (if a \<in> set held
      then andthen (fr a s) (\<lambda>_ s. run_pages al fr ops (remove1 a held) s)
      else run_pages al fr ops held s)"

locale page_allocator =
  fixes alloc :: "'s \<Rightarrow> (uint64, 's) outcome"
    and free :: "uint64 \<Rightarrow> 's \<Rightarrow> (unit, 's) outcome"
    and inv :: "'s \<Rightarrow> uint64 list \<Rightarrow> bool"
    and usable :: "'s \<Rightarrow> uint64 \<Rightarrow> bool"
  assumes alloc_empty: "inv s [] \<Longrightarrow> alloc s = Ok 0 s"
    and alloc_page: "inv s (a # xs) \<Longrightarrow>
      \<exists>t. alloc s = Ok a t \<and> inv t xs \<and> a \<noteq> 0 \<and> usable s a \<and> usable t = usable s"
    and free_page: "inv s xs \<Longrightarrow> usable s a \<Longrightarrow> a \<notin> set xs \<Longrightarrow>
      \<exists>t. free a s = Ok () t \<and> inv t (a # xs) \<and> usable t = usable s"
begin

lemma run_conserves:
  assumes "inv s xs" "distinct (held @ xs)" "\<forall>a \<in> set held. usable s a"
  shows "\<exists>held' t xs'. run_pages alloc free ops held s = Ok held' t \<and> inv t xs' \<and>
    distinct (held' @ xs') \<and> set (held' @ xs') = set (held @ xs)"
  using assms
proof (induction ops arbitrary: s xs held)
  case (Cons op ops)
  show ?case
  proof (cases op)
    case AllocPage
    show ?thesis
    proof (cases xs)
      case Nil
      then have "run_pages alloc free (op # ops) held s = run_pages alloc free ops held s"
        using Cons.prems(1) AllocPage by (simp add: alloc_empty)
      with Cons.IH [OF Cons.prems] show ?thesis by simp
    next
      case xs: (Cons a ys)
      with Cons.prems(1) obtain t where t: "alloc s = Ok a t" "inv t ys" "a \<noteq> 0" "usable s a"
        "usable t = usable s" using alloc_page by blast
      have "distinct ((a # held) @ ys)" "\<forall>b \<in> set (a # held). usable t b"
        using Cons.prems t xs by auto
      from Cons.IH [OF t(2) this] show ?thesis using t(1,3) AllocPage xs by auto
    qed
  next
    case (FreePage a)
    show ?thesis
    proof (cases "a \<in> set held")
      case True
      with Cons.prems obtain t where t: "free a s = Ok () t" "inv t (a # xs)" "usable t = usable s"
        using free_page [of s xs a] by auto
      have *: "set (remove1 a held) = set held - {a}" using Cons.prems(2) by simp
      have "distinct (remove1 a held @ a # xs)" "\<forall>b \<in> set (remove1 a held). usable t b"
        using Cons.prems True t(3) by (auto simp: *)
      note IH = Cons.IH [OF t(2) this]
      moreover have "set (remove1 a held @ a # xs) = set (held @ xs)" using True by (auto simp: *)
      ultimately show ?thesis using t(1) FreePage True by simp
    qed (use Cons FreePage in simp)
  qed
qed auto

end

text \<open>
  \<open>kalloc\<close> and \<open>kfree\<close> meet this contract on a hart with consistent interrupt bookkeeping that
  does not hold \<open>kmem.lock\<close>.
\<close>

definition kmem_ready :: "'a phys_state_scheme \<Rightarrow> uint64 list \<Rightarrow> bool" where
  "kmem_ready s xs \<longleftrightarrow> ready s \<and> free_lock L_kmem s \<and> kmem_inv s xs"

text \<open>Writes outside the free pages do not disturb the allocator.\<close>

lemma flist_frame:
  assumes "\<And>a b. a \<in> set xs \<Longrightarrow> in_page a b \<Longrightarrow> m' b = m b"
  shows "flist m q xs \<Longrightarrow> flist m' q xs"
  using assms
proof (induction xs arbitrary: q)
  case (Cons a xs)
  have "load64 m' a = load64 m a"
    using Cons.prems(2) [of a] in_page_offset small_offset by (intro load64_cong) simp
  moreover have "flist m' (load64 m a) xs"
    using Cons.prems by (intro Cons.IH) auto
  ultimately show ?case using Cons.prems(1) by simp
qed simp

lemma kmem_ready_mem:
  "kmem_ready s xs \<Longrightarrow> (\<And>a b. a \<in> set xs \<Longrightarrow> in_page a b \<Longrightarrow> m b = mem s b) \<Longrightarrow>
   kmem_ready (s\<lparr>mem := m\<rparr>) xs"
  using flist_frame [of xs m "mem s" "kmem_freelist s"]
  by (auto simp: kmem_ready_def kmem_inv_def page_ok_def)

lemma kmem_ready_aligned: "kmem_ready s xs \<Longrightarrow> a \<in> set xs \<Longrightarrow> page_aligned a"
  by (auto simp: kmem_ready_def kmem_inv_def page_ok_def)

lemma kmem_ready_distinct: "kmem_ready s xs \<Longrightarrow> distinct xs"
  by (simp add: kmem_ready_def kmem_inv_def)

lemma kalloc_ready_some:
  assumes "kmem_ready s (a # xs)"
  obtains m p where "kalloc s = Ok a (s\<lparr>kmem_freelist := p, mem := m\<rparr>)"
    "kmem_ready (s\<lparr>kmem_freelist := p, mem := m\<rparr>) xs" "page_ok s a" "a \<noteq> 0"
    "\<And>b. m b = (if in_page a b then 5 else mem s b)"
proof -
  have "ready s" "free_lock L_kmem s" "kmem_inv s (a # xs)" using assms by (simp_all add: kmem_ready_def)
  from kalloc_spec_some [OF this] that show thesis
    using \<open>ready s\<close> \<open>free_lock L_kmem s\<close> unfolding kmem_ready_def by fastforce
qed

lemma kalloc_ready_none: "kmem_ready s [] \<Longrightarrow> kalloc s = Ok 0 s"
  by (simp add: kmem_ready_def kalloc_spec_none)

interpretation kmem: page_allocator kalloc kfree kmem_ready page_ok
proof unfold_locales
  fix s :: "'a phys_state_scheme"
  assume "kmem_ready s []"
  then show "kalloc s = Ok 0 s" by (simp add: kmem_ready_def kalloc_spec_none)
next
  fix s :: "'a phys_state_scheme" and a xs
  assume a: "kmem_ready s (a # xs)"
  then obtain m p where "kalloc s = Ok a (s\<lparr>kmem_freelist := p, mem := m\<rparr>)"
    "kmem_inv (s\<lparr>kmem_freelist := p, mem := m\<rparr>) xs" "page_ok s a" "a \<noteq> 0"
    using kalloc_spec_some unfolding kmem_ready_def by blast
  with a show "\<exists>t. kalloc s = Ok a t \<and> kmem_ready t xs \<and> a \<noteq> 0 \<and> page_ok s a \<and> page_ok t = page_ok s"
    by (auto simp: kmem_ready_def page_ok_def fun_eq_iff)
next
  fix s :: "'a phys_state_scheme" and a xs
  assume a: "kmem_ready s xs" "page_ok s a" "a \<notin> set xs"
  then obtain m where "kfree a s = Ok () (s\<lparr>mem := m, kmem_freelist := a\<rparr>)"
    "kmem_inv (s\<lparr>mem := m, kmem_freelist := a\<rparr>) (a # xs)"
    using kfree_spec unfolding kmem_ready_def by blast
  with a show "\<exists>t. kfree a s = Ok () t \<and> kmem_ready t (a # xs) \<and> page_ok t = page_ok s"
    by (auto simp: kmem_ready_def page_ok_def fun_eq_iff)
qed

subsection \<open>Initialisation\<close>

lemma PGROUNDDOWN_shift: "PGROUNDDOWN a = push_bit 12 (drop_bit 12 a)"
proof -
  have "PGSIZE - 1 = mask 12" by (simp add: PGSIZE_def mask_eq_exp_minus_1)
  then show ?thesis unfolding PGROUNDDOWN_def by (intro bit_word_eqI) (auto simp: bit_simps)
qed

lemma unat_PGROUNDDOWN: "unat (PGROUNDDOWN a) = unat a - unat a mod 4096"
proof -
  have "unat (PGROUNDDOWN a) = unat (a div 4096 * 4096)"
    by (simp add: PGROUNDDOWN_shift push_bit_eq_mult drop_bit_eq_div)
  also have "\<dots> = unat a div 4096 * 4096"
    using unat_64_bound [of a] div_times_less_eq_dividend [of "unat a" 4096]
    by (simp add: unat_word_ariths unat_div)
  finally show ?thesis by (simp add: minus_mod_eq_div_mult)
qed

lemma page_aligned_PGROUNDDOWN: "page_aligned (PGROUNDDOWN a)"
  by (simp add: page_aligned_nat unat_PGROUNDDOWN mod_eq_0_iff_dvd)

lemma PGROUNDUP_down: "PGROUNDUP a = PGROUNDDOWN (a + 4095)"
  by (simp add: PGROUNDUP_def PGROUNDDOWN_def PGSIZE_def add.commute)


lemma PGROUNDUP_bounds:
  assumes "a \<le> PHYSTOP"
  shows "a \<le> PGROUNDUP a" "page_aligned b \<Longrightarrow> a \<le> b \<Longrightarrow> PGROUNDUP a \<le> b"
proof -
  have a: "unat a \<le> 2281701376" using assms by (simp add: word_le_nat_alt page_defs)
  then have "unat (a + 4095) = unat a + 4095" by (subst unat_add_64) simp_all
  then have u: "unat (PGROUNDUP a) = (unat a + 4095) - (unat a + 4095) mod 4096"
    by (simp add: PGROUNDUP_down unat_PGROUNDDOWN)
  have r: "(unat a + 4095) mod 4096 \<le> 4095" using mod_less_divisor [of 4096 "unat a + 4095"] by linarith
  show "a \<le> PGROUNDUP a" unfolding word_le_nat_alt u using r by linarith
  show "PGROUNDUP a \<le> b" if "page_aligned b" "a \<le> b"
  proof (rule ccontr)
    assume "\<not> PGROUNDUP a \<le> b"
    then have "unat b < unat (PGROUNDUP a)" by (simp add: word_le_nat_alt)
    then have "unat b + 4096 \<le> unat (PGROUNDUP a)"
      using that(1) page_aligned_PGROUNDDOWN [of "a + 4095"]
      by (intro multiples_apart) (simp_all add: page_aligned_nat PGROUNDUP_down)
    then show False using that(2) u by (simp add: word_le_nat_alt)
  qed
qed

lemma freerange_loop_spec:
  assumes "kmem_ready s xs" "page_aligned p" "sym_end s \<le> p" "p \<le> PHYSTOP"
    "set xs = {a. page_ok s a \<and> a < p}"
  shows "\<exists>t ys. freerange_loop p PHYSTOP s = Ok () t \<and> kmem_ready t ys \<and> set ys = {a. page_ok s a}"
  using assms
proof (induction p PHYSTOP s arbitrary: xs rule: freerange_loop.induct)
  case (1 p s)
  have p: "unat p \<le> 2281701376" "unat p mod 4096 = 0"
    using "1.prems" by (simp_all add: word_le_nat_alt page_defs page_aligned_nat)
  then have up: "unat (p + PGSIZE) = unat p + 4096"
    by (subst unat_add_64) (simp_all add: PGSIZE_def)
  show ?case
  proof (cases "p = PHYSTOP")
    case True
    then have "freerange_loop p PHYSTOP s = Ok () s"
      by (subst freerange_loop.simps) (simp add: word_le_nat_alt page_defs)
    moreover have "set xs = {a. page_ok s a}" using "1.prems"(5) True by (auto simp: page_ok_def)
    ultimately show ?thesis using "1.prems"(1) by blast
  next
    case False
    then have "unat p < 2281701376" using p by (simp add: word_unat_eq_iff page_defs)
    with p(2) have less: "unat p + 4096 \<le> 2281701376" by (intro multiples_apart) simp_all
    then have le: "p + PGSIZE \<le> PHYSTOP" "p < PHYSTOP"
      using up by (simp_all add: word_le_nat_alt word_less_nat_alt page_defs)
    have ok: "page_ok s p" using "1.prems" le by (simp add: page_ok_def)
    moreover have "p \<notin> set xs" using "1.prems"(5) by simp
    ultimately obtain t where t: "kfree p s = Ok () t" "kmem_ready t (p # xs)" "page_ok t = page_ok s"
      using kmem.free_page "1.prems"(1) by blast
    have sym: "sym_end t = sym_end s"
      using kfree_eq [OF _ _ ok] "1.prems"(1) t(1) by (auto simp: kmem_ready_def)
    have "a < p + PGSIZE \<longleftrightarrow> a = p \<or> a < p" if "page_ok s a" for a
    proof -
      have "unat a mod 4096 = 0" using that by (simp add: page_ok_def page_aligned_nat)
      then show ?thesis using multiples_apart [OF p(2), of "unat a"]
        unfolding word_less_nat_alt up word_unat_eq_iff by linarith
    qed
    then have "set (p # xs) = {a. page_ok t a \<and> a < p + PGSIZE}"
      using "1.prems"(5) ok t(3) by auto
    moreover have "page_aligned (p + PGSIZE)" unfolding page_aligned_nat up using p(2) by simp
    moreover have "sym_end t \<le> p + PGSIZE"
      using "1.prems"(3) sym unfolding word_le_nat_alt up by simp
    ultimately have "\<exists>u ys. freerange_loop (p + PGSIZE) PHYSTOP t = Ok () u \<and> kmem_ready u ys \<and>
      set ys = {a. page_ok t a}"
      using "1.hyps" [OF le(1) t(1)] t(2) le(1) by blast
    then show ?thesis
      by (subst freerange_loop.simps) (simp add: le t)
  qed
qed

subsection \<open>A sample machine\<close>

text \<open>
  One concrete machine on which the theorems are instantiated: hart 0 runs with interrupts on,
  all locks are free, memory is zero, and one page is free.
\<close>

definition sample_phys :: "'z \<Rightarrow> 'z phys_state_scheme" where
  "sample_phys z = \<lparr>cur = 0, regs = (\<lambda>h. sample_csrs (of_nat h)), cpus = (\<lambda>_. sample_cpu),
     spin = (\<lambda>_. \<lparr>lk_locked = False, lk_name = [], lk_cpu = None\<rparr>),
     uart_lsr = uart_bits LSR_TX_IDLE, uart_thr = [], uart_rhr = [], tx_busy = False, panicking = False,
     panicked = False, mem = (\<lambda>_. 0), kmem_freelist = 0x87fff000, sym_end = 0x80021000,
     sym_etext = 0x80008000, sym_trampoline = 0x80007000, sym_uservec = 0x80007000,
     sym_userret = 0x8000709c, sym_kernelvec = 0x80005000, sym_usertrap = 0x80002000,
     sym_forkret = 0x80001800, \<dots> = z\<rparr>"

lemma sample_phys_ready [simp]:
  "settled (cur (sample_phys z)) (regs (sample_phys z)) (cpus (sample_phys z))"
  "free_lock L (sample_phys z)"
  by (simp_all add: sample_phys_def settled_def sample_cpu_def sample_csrs_def lk_free_def)

lemma sample_phys_kmem [simp]: "kmem_inv (sample_phys z) [0x87fff000]"
  by (simp add: kmem_inv_def sample_phys_def page_ok_def page_aligned_def page_defs load64_def)

text \<open>
  C3. \<open>kinit\<close> on a machine whose free list is empty returns, and afterwards the free list
  holds every whole page between the end of the kernel and \<open>PHYSTOP\<close>, each exactly once.
\<close>

theorem kinit_frees_everything:
  assumes "ready s" "kmem_freelist s = 0" "0 < sym_end s" "sym_end s \<le> PHYSTOP"
  shows "\<exists>t xs. kinit s = Ok () t \<and> kmem_inv t xs \<and>
    set xs = {a. page_aligned a \<and> sym_end s \<le> a \<and> a < PHYSTOP}"
proof -
  let ?s = "initlock L_kmem ''kmem'' s" and ?p = "PGROUNDUP (sym_end s)"
  have s: "kmem_ready ?s []" "sym_end ?s = sym_end s" "page_ok ?s = page_ok s"
    using assms by (simp_all add: kmem_ready_def kmem_inv_def initlock_def lk_free_def page_ok_def fun_eq_iff)
  note b = PGROUNDUP_bounds [OF assms(4)]
  have "?p \<le> PHYSTOP" using b(2) [of PHYSTOP] assms(4) by (simp add: page_aligned_nat page_defs)
  moreover have "{a. page_ok ?s a \<and> a < ?p} = {}"
    using b(2) by (auto simp: s page_ok_def not_less)
  moreover have "page_aligned ?p" by (simp add: PGROUNDUP_down page_aligned_PGROUNDDOWN)
  ultimately show ?thesis
    using freerange_loop_spec [OF s(1), of ?p] b(1)
    unfolding kinit_def freerange_def s
    by (auto simp: kmem_ready_def page_ok_def)
qed

theorem kinit_frees_everything_witness:
  "\<exists>t xs. kinit ((sample_phys ())\<lparr>kmem_freelist := 0\<rparr>) = Ok () t \<and> kmem_inv t xs \<and>
    set xs = {a. page_aligned a \<and> 0x80021000 \<le> a \<and> a < PHYSTOP}"
proof -
  let ?s = "(sample_phys ())\<lparr>kmem_freelist := 0\<rparr>"
  have "ready ?s" using sample_phys_ready(1) [of "()"] by simp
  moreover have "kmem_freelist ?s = 0" "0 < sym_end ?s" "sym_end ?s \<le> PHYSTOP"
    by (simp_all add: sample_phys_def page_defs)
  ultimately show ?thesis using kinit_frees_everything [of ?s] by (simp add: sample_phys_def)
qed

text \<open>
  C2. Whatever sequence of \<open>kalloc\<close> and \<open>kfree\<close> calls a client makes, freeing only pages it
  holds, no call panics, no page is held twice or both held and free, and held and free pages
  together are the pages there were at the start: none is lost and none invented.
\<close>

theorem kalloc_kfree_conservation:
  assumes "ready s" "free_lock L_kmem s" "kmem_inv s xs" "distinct (held @ xs)"
    "\<forall>a \<in> set held. page_ok s a"
  shows "\<exists>held' t xs'. run_pages kalloc kfree ops held s = Ok held' t \<and> kmem_inv t xs' \<and>
    distinct (held' @ xs') \<and> set (held' @ xs') = set (held @ xs)"
  using kmem.run_conserves [of s xs held ops] assms by (auto simp: kmem_ready_def)

theorem kalloc_kfree_conservation_witness:
  "\<exists>held t xs. run_pages kalloc kfree [AllocPage, FreePage 0x87ffe000] [0x87ffe000]
     (sample_phys ()) = Ok held t \<and> kmem_inv t xs \<and> distinct (held @ xs) \<and>
     set (held @ xs) = {0x87ffe000, 0x87fff000}"
proof -
  have "page_ok (sample_phys ()) 0x87ffe000"
    by (simp add: page_ok_def sample_phys_def page_aligned_def page_defs)
  then show ?thesis
    using kalloc_kfree_conservation [of "sample_phys ()" "[0x87fff000]" "[0x87ffe000]"
        "[AllocPage, FreePage 0x87ffe000]"]
    by (simp add: insert_commute)
qed

end
