(* ===== verification/Proctab.thy ===== *)
theory Proctab
  imports Kalloc
begin

section \<open>The process table: sleeping, waking, scheduling, killing (proc.c)\<close>

text \<open>
  \<open>struct proc\<close>, the process table and the operations on it that do not touch user memory or
  files.  A process pointer is an index into \<open>proc[]\<close> or \<open>None\<close> for the null pointer.

  \<open>swtch\<close> (assembly) leaves the calling thread: \<open>sched\<close> ends in the outcome \<open>Switch\<close>, with the
  state at that moment.  What a thread does once it runs again are definitions of their own,
  \<open>sched_resume\<close>, \<open>sleep_resume\<close> and \<open>yield_resume\<close>; the other side of the switch is \<open>scheduler\<close>,
  whose loop is split at its \<open>swtch\<close> in the same way.
\<close>

datatype procstate = UNUSED | USED | SLEEPING | RUNNABLE | RUNNING | ZOMBIE

text \<open>A sleep channel is the address of a kernel object; only its identity matters.\<close>

datatype chan =
    Ch_proc nat | Ch_ticks | Ch_log | Ch_sleeplock sleeplock_id | Ch_cons | Ch_tx
  | Ch_pipe_read uint64 | Ch_pipe_write uint64 | Ch_disk_free | Ch_buf nat

record proc =
  p_state :: procstate
  p_chan :: "chan option"
  p_killed :: int
  p_xstate :: int
  p_pid :: int
  p_parent :: "nat option"
  p_kstack :: uint64
  p_sz :: uint64
  p_pagetable :: uint64
  p_trapframe :: uint64
  p_context :: kcontext
  p_ofile :: "nat \<Rightarrow> nat option"
  p_cwd :: "nat option"
  p_name :: "byte list"

record proc_state = phys_state +
  procs :: "nat \<Rightarrow> proc"
  nextpid :: int
  initproc :: "nat option"
  forkret_first :: bool

text \<open>The trapframe is a page of its own in memory; its fields are read and written at offsets.\<close>

datatype tf_field = TF_kernel_satp | TF_kernel_sp | TF_kernel_trap | TF_epc | TF_kernel_hartid | TF_sp | TF_a nat

primrec tf_offset :: "tf_field \<Rightarrow> uint64" where
  "tf_offset TF_kernel_satp = 0"
| "tf_offset TF_kernel_sp = 8"
| "tf_offset TF_kernel_trap = 16"
| "tf_offset TF_epc = 24"
| "tf_offset TF_kernel_hartid = 32"
| "tf_offset TF_sp = 48"
| "tf_offset (TF_a n) = 112 + 8 * of_nat n"

declare tf_offset.simps [simp del]

definition sizeof_trapframe :: uint32 where "sizeof_trapframe = 288"

abbreviation set_proc :: "nat \<Rightarrow> (proc \<Rightarrow> proc) \<Rightarrow> 'a proc_state_scheme \<Rightarrow> 'a proc_state_scheme" where
  "set_proc i f s \<equiv> s\<lparr>procs := (procs s)(i := f (procs s i))\<rparr>"

subsection \<open>The current process\<close>

definition myproc :: "'a machine_scheme \<Rightarrow> (nat option, 'a machine_scheme) outcome" where
  "myproc s =
     (let s = push_off s; c = mycpu s; p = cpu_proc (cpus s c)
      in andthen (pop_off s) (\<lambda>_ s. Ok p s))"

definition procinit_loop :: "nat list \<Rightarrow> 'a proc_state_scheme \<Rightarrow> 'a proc_state_scheme" where
  "procinit_loop = fold (\<lambda>i s.
     set_proc i (\<lambda>p. p\<lparr>p_state := UNUSED, p_kstack := KSTACK i\<rparr>) (initlock (L_proc i) ''proc'' s))"

definition procinit :: "'a proc_state_scheme \<Rightarrow> 'a proc_state_scheme" where
  "procinit s =
     procinit_loop [0..<NPROC] (initlock L_wait ''wait_lock'' (initlock L_pid ''nextpid'' s))"

definition allocpid :: "'a proc_state_scheme \<Rightarrow> (int, 'a proc_state_scheme) outcome" where
  "allocpid s =
     andthen (acquire L_pid s) (\<lambda>_ s.
     let pid = nextpid s; s = s\<lparr>nextpid := nextpid s + 1\<rparr>
     in andthen (release L_pid s) (\<lambda>_ s. Ok pid s))"

subsection \<open>Giving up the hart\<close>

definition sched :: "'a proc_state_scheme \<Rightarrow> (unit, 'a proc_state_scheme) outcome" where
  "sched s =
     andthen (myproc s) (\<lambda>p s. deref p (\<lambda>p.
       if \<not> holding (L_proc p) s then Panic ''sched p->lock''
       else if noff s \<noteq> 1 then Panic ''sched locks''
       else if p_state (procs s p) = RUNNING then Panic ''sched RUNNING''
       else if intr_get s then Panic ''sched interruptible''
       else Switch s))"

text \<open>\<open>intena\<close> is the local variable of \<open>sched\<close>, kept on the stack of the thread.\<close>

definition sched_resume :: "bool \<Rightarrow> 'a proc_state_scheme \<Rightarrow> 'a proc_state_scheme" where
  "sched_resume intena0 s = set_cpu (mycpu s) (\<lambda>c. c\<lparr>cpu_intena := intena0\<rparr>) s"

definition yield :: "'a proc_state_scheme \<Rightarrow> (unit, 'a proc_state_scheme) outcome" where
  "yield s =
     andthen (myproc s) (\<lambda>p s. deref p (\<lambda>p.
     andthen (acquire (L_proc p) s) (\<lambda>_ s.
     sched (set_proc p (\<lambda>q. q\<lparr>p_state := RUNNABLE\<rparr>) s))))"

definition yield_resume :: "nat \<Rightarrow> bool \<Rightarrow> 'a proc_state_scheme \<Rightarrow> (unit, 'a proc_state_scheme) outcome" where
  "yield_resume p intena0 s = release (L_proc p) (sched_resume intena0 s)"

definition sleep :: "chan option \<Rightarrow> lock_id \<Rightarrow> 'a proc_state_scheme \<Rightarrow> (unit, 'a proc_state_scheme) outcome" where
  "sleep ch lk s =
     andthen (myproc s) (\<lambda>p s. deref p (\<lambda>p.
     andthen (acquire (L_proc p) s) (\<lambda>_ s.
     andthen (release lk s) (\<lambda>_ s.
     sched (set_proc p (\<lambda>q. q\<lparr>p_chan := ch, p_state := SLEEPING\<rparr>) s)))))"

definition sleep_resume ::
  "nat \<Rightarrow> bool \<Rightarrow> lock_id \<Rightarrow> 'a proc_state_scheme \<Rightarrow> (unit, 'a proc_state_scheme) outcome" where
  "sleep_resume p intena0 lk s =
     (let s = set_proc p (\<lambda>q. q\<lparr>p_chan := None\<rparr>) (sched_resume intena0 s)
      in andthen (release (L_proc p) s) (\<lambda>_ s. acquire lk s))"

subsection \<open>The scheduler\<close>

text \<open>
  One pass over the table from index \<open>i\<close>; it ends in \<open>Switch\<close> at the first runnable process.
\<close>

definition scheduler_scan :: "nat \<Rightarrow> 'a proc_state_scheme \<Rightarrow> (unit option, 'a proc_state_scheme) outcome" where
  "scheduler_scan i s = forK [i..<NPROC] (\<lambda>p s.
     andthen (acquire (L_proc p) s) (\<lambda>_ s.
       if p_state (procs s p) = RUNNABLE
       then let s = set_proc p (\<lambda>q. q\<lparr>p_state := RUNNING\<rparr>) s
            in Switch (set_cpu (mycpu s) (\<lambda>c. c\<lparr>cpu_proc := Some p\<rparr>) s)
       else andthen (release (L_proc p) s) (\<lambda>_ s. Ok None s))) s"

text \<open>A round that finds nothing waits for an interrupt (\<open>wfi\<close>).\<close>

definition scheduler_round :: "'a proc_state_scheme \<Rightarrow> (unit, 'a proc_state_scheme) outcome" where
  "scheduler_round s = andthen (scheduler_scan 0 (intr_off (intr_on s))) (\<lambda>_ s. Spin s)"

definition scheduler :: "'a proc_state_scheme \<Rightarrow> (unit, 'a proc_state_scheme) outcome" where
  "scheduler s = scheduler_round (set_cpu (mycpu s) (\<lambda>c. c\<lparr>cpu_proc := None\<rparr>) s)"

text \<open>The rest of the loop once process \<open>p\<close> has switched back.\<close>

definition scheduler_back :: "nat \<Rightarrow> 'a proc_state_scheme \<Rightarrow> (unit, 'a proc_state_scheme) outcome" where
  "scheduler_back p s =
     (let s = set_cpu (mycpu s) (\<lambda>c. c\<lparr>cpu_proc := None\<rparr>) s
      in andthen (release (L_proc p) s) (\<lambda>_ s.
         andthen (scheduler_scan (Suc p) s) (\<lambda>_ s. scheduler_round s)))"

subsection \<open>Waking, killing, orphans\<close>

definition wakeup :: "chan option \<Rightarrow> 'a proc_state_scheme \<Rightarrow> (unit, 'a proc_state_scheme) outcome" where
  "wakeup ch s =
     andthen (forK [0..<NPROC] (\<lambda>p s.
       andthen (myproc s) (\<lambda>me s.
         if Some p \<noteq> me then
           andthen (acquire (L_proc p) s) (\<lambda>_ s.
           let s = (if p_state (procs s p) = SLEEPING \<and> p_chan (procs s p) = ch
                    then set_proc p (\<lambda>q. q\<lparr>p_state := RUNNABLE\<rparr>) s else s)
           in andthen (release (L_proc p) s) (\<lambda>_ s. Ok (None :: unit option) s))
         else Ok None s)) s) (\<lambda>_ s. Ok () s)"

definition kkill :: "int \<Rightarrow> 'a proc_state_scheme \<Rightarrow> (int, 'a proc_state_scheme) outcome" where
  "kkill pid s =
     andthen (forK [0..<NPROC] (\<lambda>p s.
       andthen (acquire (L_proc p) s) (\<lambda>_ s.
         if p_pid (procs s p) = pid then
           let s = set_proc p (\<lambda>q. q\<lparr>p_killed := 1\<rparr>) s;
               s = (if p_state (procs s p) = SLEEPING
                    then set_proc p (\<lambda>q. q\<lparr>p_state := RUNNABLE\<rparr>) s else s)
           in andthen (release (L_proc p) s) (\<lambda>_ s. Ok (Some 0) s)
         else andthen (release (L_proc p) s) (\<lambda>_ s. Ok None s))) s)
     (\<lambda>r s. Ok (case r of Some v \<Rightarrow> v | None \<Rightarrow> - 1) s)"

definition setkilled :: "nat \<Rightarrow> 'a proc_state_scheme \<Rightarrow> (unit, 'a proc_state_scheme) outcome" where
  "setkilled p s =
     andthen (acquire (L_proc p) s) (\<lambda>_ s.
     release (L_proc p) (set_proc p (\<lambda>q. q\<lparr>p_killed := 1\<rparr>) s))"

definition killed :: "nat \<Rightarrow> 'a proc_state_scheme \<Rightarrow> (int, 'a proc_state_scheme) outcome" where
  "killed p s =
     andthen (acquire (L_proc p) s) (\<lambda>_ s.
     let k = p_killed (procs s p)
     in andthen (release (L_proc p) s) (\<lambda>_ s. Ok k s))"

definition reparent :: "nat \<Rightarrow> 'a proc_state_scheme \<Rightarrow> (unit, 'a proc_state_scheme) outcome" where
  "reparent p s =
     andthen (forK [0..<NPROC] (\<lambda>pp s.
       if p_parent (procs s pp) = Some p
       then let s = set_proc pp (\<lambda>q. q\<lparr>p_parent := initproc s\<rparr>) s
            in andthen (wakeup (map_option Ch_proc (initproc s)) s) (\<lambda>_ s. Ok (None :: unit option) s)
       else Ok None s) s) (\<lambda>_ s. Ok () s)"

subsection \<open>The process listing on the console\<close>

definition state_name :: "procstate \<Rightarrow> string" where
  "state_name st = (case st of UNUSED \<Rightarrow> ''unused'' | USED \<Rightarrow> ''used'' | SLEEPING \<Rightarrow> ''sleep ''
     | RUNNABLE \<Rightarrow> ''runble'' | RUNNING \<Rightarrow> ''run   '' | ZOMBIE \<Rightarrow> ''zombie'')"

definition procdump :: "'a proc_state_scheme \<Rightarrow> (unit, 'a proc_state_scheme) outcome" where
  "procdump s =
     andthen (printf [CHR 0x0A] [] s) (\<lambda>_ s.
     andthen (forK [0..<NPROC] (\<lambda>p s.
       if p_state (procs s p) = UNUSED then Ok (None :: unit option) s
       else andthen (printf ''%d %s %s'' [Arg (u64_of_int (p_pid (procs s p))),
               ArgStr (Some (map of_char (state_name (p_state (procs s p))))),
               ArgStr (Some (p_name (procs s p)))] s) (\<lambda>_ s.
            andthen (printf [CHR 0x0A] [] s) (\<lambda>_ s. Ok None s))) s)
     (\<lambda>_ s. Ok () s))"


subsection \<open>Closed forms\<close>

abbreviation curproc :: "'a machine_scheme \<Rightarrow> nat option" where
  "curproc s \<equiv> cpu_proc (cpus s (me (cur s) (regs s)))"

lemma cpu_proc_acq [simp]: "cpu_proc (acq_cpus c R C i) = cpu_proc (C i)"
  by (simp add: acq_cpus_def)

lemma noff_acq [simp]: "cpu_noff (acq_cpus c R C (me c R)) = cpu_noff (C (me c R)) + 1"
  by (simp add: acq_cpus_def)

lemma myproc_eq: "ready s \<Longrightarrow> myproc s = Ok (curproc s) s"
  by (simp add: myproc_def Let_def push_off_eq pop_off_eq mycpu_me)

lemma lk_held_rel_other [simp]:
  "lk \<noteq> lk' \<Longrightarrow> lk_held lk c R (rel_spin lk' S) = lk_held lk c R S"
  by (simp add: lk_held_def rel_spin_def)

lemma lk_free_rel [simp]: "lk_free lk (rel_spin lk S)"
  by (simp add: lk_free_def rel_spin_def)

lemma lk_free_rel_other [simp]: "lk \<noteq> lk' \<Longrightarrow> lk_free lk (rel_spin lk' S) = lk_free lk S"
  by (simp add: lk_free_def rel_spin_def)

text \<open>The process locks a sweep of the table takes: all, or all but that of one process.\<close>

definition proc_locks_free :: "nat option \<Rightarrow> (lock_id \<Rightarrow> spinlock) \<Rightarrow> bool" where
  "proc_locks_free self S \<longleftrightarrow> (\<forall>i < NPROC. Some i \<noteq> self \<longrightarrow> lk_free (L_proc i) S)"

lemma proc_locks_freeD: "proc_locks_free self S \<Longrightarrow> i < NPROC \<Longrightarrow> Some i \<noteq> self \<Longrightarrow> lk_free (L_proc i) S"
  by (simp add: proc_locks_free_def)

lemma proc_locks_free_acq [simp]:
  "(\<And>i. lk \<noteq> L_proc i) \<Longrightarrow> proc_locks_free self (acq_spin lk c R S) = proc_locks_free self S"
  unfolding proc_locks_free_def by (metis lk_free_acq_other)

text \<open>A loop over the table that rewrites each entry on its own.\<close>

lemma forK_sweep:
  assumes "\<And>i X. i < n \<Longrightarrow> f i (s\<lparr>procs := X\<rparr>) = Ok None (s\<lparr>procs := X(i := h i (X i))\<rparr>)"
  shows "forK [0..<n] f s = Ok None (s\<lparr>procs := (\<lambda>i. if i < n then h i (procs s i) else procs s i)\<rparr>)"
  using assms
proof (induction n)
  case (Suc n)
  let ?X = "\<lambda>i. if i < n then h i (procs s i) else procs s i"
  have "forK [0..<n] f s = Ok None (s\<lparr>procs := ?X\<rparr>)" using Suc by simp
  moreover have "f n (s\<lparr>procs := ?X\<rparr>) = Ok None (s\<lparr>procs := ?X(n := h n (?X n))\<rparr>)"
    by (rule Suc.prems) simp
  moreover have "?X(n := h n (?X n)) = (\<lambda>i. if i < Suc n then h i (procs s i) else procs s i)"
    by (auto simp: fun_eq_iff less_Suc_eq)
  ultimately show ?case by (simp add: forK_append)
qed simp

definition wake :: "chan option \<Rightarrow> nat option \<Rightarrow> (nat \<Rightarrow> proc) \<Rightarrow> nat \<Rightarrow> proc" where
  "wake ch self P = (\<lambda>i.
     if i < NPROC \<and> Some i \<noteq> self \<and> p_state (P i) = SLEEPING \<and> p_chan (P i) = ch
     then (P i)\<lparr>p_state := RUNNABLE\<rparr> else P i)"

lemma wakeup_eq:
  assumes "ready s" "proc_locks_free (curproc s) (spin s)"
  shows "wakeup ch s = Ok () (s\<lparr>procs := wake ch (curproc s) (procs s)\<rparr>)"
proof -
  let ?h = "\<lambda>i q. if Some i \<noteq> curproc s \<and> p_state q = SLEEPING \<and> p_chan q = ch
                  then q\<lparr>p_state := RUNNABLE\<rparr> else q"
  have "(\<lambda>i. if i < NPROC then ?h i (procs s i) else procs s i) = wake ch (curproc s) (procs s)"
    by (auto simp: wake_def fun_eq_iff)
  moreover have "forK [0..<NPROC] (\<lambda>p s.
       andthen (myproc s) (\<lambda>me s.
         if Some p \<noteq> me then
           andthen (acquire (L_proc p) s) (\<lambda>_ s.
           let s = (if p_state (procs s p) = SLEEPING \<and> p_chan (procs s p) = ch
                    then set_proc p (\<lambda>q. q\<lparr>p_state := RUNNABLE\<rparr>) s else s)
           in andthen (release (L_proc p) s) (\<lambda>_ s. Ok (None :: unit option) s))
         else Ok None s)) s =
     Ok None (s\<lparr>procs := (\<lambda>i. if i < NPROC then ?h i (procs s i) else procs s i)\<rparr>)"
    using assms by (intro forK_sweep) (auto simp: myproc_eq Let_def lock_simps proc_locks_freeD)
  ultimately show ?thesis by (simp add: wakeup_def)
qed

lemma wake_twice [simp]: "wake ch self (wake ch self P) = wake ch self P"
  by (auto simp: wake_def fun_eq_iff)

lemma setkilled_eq:
  "ready s \<Longrightarrow> free_lock (L_proc p) s \<Longrightarrow>
   setkilled p s = Ok () (set_proc p (\<lambda>q. q\<lparr>p_killed := 1\<rparr>) s)"
  by (simp add: setkilled_def lock_simps)

lemma killed_eq:
  "ready s \<Longrightarrow> free_lock (L_proc p) s \<Longrightarrow> killed p s = Ok (p_killed (procs s p)) s"
  by (simp add: killed_def lock_simps Let_def)

lemma allocpid_eq:
  "ready s \<Longrightarrow> free_lock L_pid s \<Longrightarrow> allocpid s = Ok (nextpid s) (s\<lparr>nextpid := nextpid s + 1\<rparr>)"
  by (simp add: allocpid_def lock_simps Let_def)


lemma sched_eq:
  assumes "ready s" "curproc s = Some p" "lk_held (L_proc p) (cur s) (regs s) (spin s)"
    "noff s = 1" "p_state (procs s p) \<noteq> RUNNING"
  shows "sched s = Switch s"
  using assms by (simp add: sched_def myproc_eq holding_iff mycpu_me intr_get_bit settled_def)

text \<open>
  A process that holds only \<open>lk\<close> goes to sleep: \<open>lk\<close> is free again, the lock of the process is
  held, and its entry in the table says where it sleeps.
\<close>

lemma sleep_eq:
  assumes "ready s" "curproc s = Some p" "noff s = 1" "free_lock (L_proc p) s"
    "lk_held lk (cur s) (regs s) (spin s)" "lk \<noteq> L_proc p"
  shows "sleep ch lk s =
    Switch (s\<lparr>spin := rel_spin lk (acq_spin (L_proc p) (cur s) (regs s) (spin s)),
      procs := (procs s)(p := (procs s p)\<lparr>p_chan := ch, p_state := SLEEPING\<rparr>)\<rparr>)"
proof -
  have "sleep ch lk s = sched (s\<lparr>spin := rel_spin lk (acq_spin (L_proc p) (cur s) (regs s) (spin s)),
      procs := (procs s)(p := (procs s p)\<lparr>p_chan := ch, p_state := SLEEPING\<rparr>)\<rparr>)"
    using assms by (simp add: sleep_def myproc_eq lock_simps)
  also have "\<dots> = Switch (s\<lparr>spin := rel_spin lk (acq_spin (L_proc p) (cur s) (regs s) (spin s)),
      procs := (procs s)(p := (procs s p)\<lparr>p_chan := ch, p_state := SLEEPING\<rparr>)\<rparr>)"
    using assms by (intro sched_eq) (auto simp: mycpu_me)
  finally show ?thesis .
qed

lemma sleep_resume_eq:
  fixes s :: "'a proc_state_scheme"
  assumes "curproc s = Some p" "noff s = 1" "\<not> intr_get s" "holding (L_proc p) s" "free_lock lk s" "lk \<noteq> L_proc p"
  shows "\<exists>R C. sleep_resume p intena0 lk s = Ok () (s\<lparr>regs := acq_regs (cur s) R, cpus := acq_cpus (cur s) R C,
      spin := acq_spin lk (cur s) R (rel_spin (L_proc p) (spin s)), procs := (procs s)(p := (procs s p)\<lparr>p_chan := None\<rparr>)\<rparr>) \<and>
    settled (cur s) R C \<and> cpu_proc (C (me (cur s) R)) = Some p"
proof -
  let ?t = "set_proc p (\<lambda>q. q\<lparr>p_chan := None\<rparr>) (sched_resume intena0 s)"
  have m: "intr_masked (cur ?t) (regs ?t) (cpus ?t)" "lk_held (L_proc p) (cur ?t) (regs ?t) (spin ?t)" "regs ?t = regs s" "cur ?t = cur s"
    using assms by (simp_all add: intr_masked_def sched_resume_def mycpu_me intr_get_bit holding_iff)
  let ?R = "rel_regs (cur ?t) (regs ?t) (cpus ?t)" and ?C = "rel_cpus (cur ?t) (regs ?t) (cpus ?t)"
  have "sleep_resume p intena0 lk s = acquire lk (?t\<lparr>regs := ?R, cpus := ?C, spin := rel_spin (L_proc p) (spin ?t)\<rparr>)"
    using m release_eq [of "L_proc p" ?t] by (simp add: sleep_resume_def Let_def)
  moreover have "free_lock lk (?t\<lparr>regs := ?R, cpus := ?C, spin := rel_spin (L_proc p) (spin ?t)\<rparr>)"
    using assms(5,6) by (simp add: sched_resume_def)
  moreover have "settled (cur s) ?R ?C" "cpu_proc (?C (me (cur s) ?R)) = Some p"
    using assms by (auto simp: settled_def rel_cpus_def rel_regs_def sched_resume_def mycpu_me intr_get_bit me_def)
  ultimately show ?thesis
    by (intro exI [of _ ?R] exI [of _ ?C]) (simp add: acquire_eq sched_resume_def)
qed

lemma kkill_eq:
  assumes "ready s" "proc_locks_free None (spin s)"
  shows "kkill pid s = (case find (\<lambda>p. p_pid (procs s p) = pid) [0..<NPROC] of
    None \<Rightarrow> Ok (- 1) s
  | Some p \<Rightarrow> Ok 0 (set_proc p (\<lambda>q. q\<lparr>p_killed := 1,
      p_state := (if p_state q = SLEEPING then RUNNABLE else p_state q)\<rparr>) s))"
proof -
  have "forK [0..<NPROC] (\<lambda>p s.
       andthen (acquire (L_proc p) s) (\<lambda>_ s.
         if p_pid (procs s p) = pid then
           let s = set_proc p (\<lambda>q. q\<lparr>p_killed := 1\<rparr>) s;
               s = (if p_state (procs s p) = SLEEPING
                    then set_proc p (\<lambda>q. q\<lparr>p_state := RUNNABLE\<rparr>) s else s)
           in andthen (release (L_proc p) s) (\<lambda>_ s. Ok (Some 0) s)
         else andthen (release (L_proc p) s) (\<lambda>_ s. Ok None s))) s =
     (case find (\<lambda>p. p_pid (procs s p) = pid) [0..<NPROC] of None \<Rightarrow> Ok None s
      | Some p \<Rightarrow> Ok (Some (0 :: int)) (set_proc p (\<lambda>q. q\<lparr>p_killed := 1,
          p_state := (if p_state q = SLEEPING then RUNNABLE else p_state q)\<rparr>) s))"
    using assms by (intro forK_find) (auto simp: lock_simps Let_def proc_locks_freeD)
  then show ?thesis by (simp add: kkill_def split: option.splits)
qed

subsubsection \<open>Orphans\<close>

definition adopt :: "nat option \<Rightarrow> nat \<Rightarrow> nat \<Rightarrow> (nat \<Rightarrow> proc) \<Rightarrow> nat \<Rightarrow> proc" where
  "adopt init p n P = (\<lambda>i.
     if i < n \<and> p_parent (P i) = Some p then (P i)\<lparr>p_parent := init\<rparr> else P i)"

lemma adopt_state [simp]:
  "p_state (adopt init p n P i) = p_state (P i)" "p_chan (adopt init p n P i) = p_chan (P i)"
  by (simp_all add: adopt_def)

lemma wake_parent [simp]: "p_parent (wake ch self P i) = p_parent (P i)"
  by (simp add: wake_def)

lemma wake_idem: "wake ch self (wake ch self P) = wake ch self P"
  by (auto simp: wake_def fun_eq_iff)

lemma wake_upd_parent:
  "wake ch self (P(n := (P n)\<lparr>p_parent := x\<rparr>)) =
   (wake ch self P)(n := (wake ch self P n)\<lparr>p_parent := x\<rparr>)"
  by (auto simp: wake_def fun_eq_iff)

text \<open>
  After the first \<open>n\<close> entries: their orphans are adopted, and \<open>init\<close> is woken if there was one.
\<close>

lemma reparent_loop:
  assumes "ready s" "proc_locks_free (curproc s) (spin s)" "n \<le> NPROC"
  shows "forK [0..<n] (\<lambda>pp s.
       if p_parent (procs s pp) = Some p
       then let s = set_proc pp (\<lambda>q. q\<lparr>p_parent := initproc s\<rparr>) s
            in andthen (wakeup (map_option Ch_proc (initproc s)) s) (\<lambda>_ s. Ok (None :: unit option) s)
       else Ok None s) s =
     Ok None (s\<lparr>procs := (if \<exists>i < n. p_parent (procs s i) = Some p
        then wake (map_option Ch_proc (initproc s)) (curproc s) (adopt (initproc s) p n (procs s))
        else adopt (initproc s) p n (procs s))\<rparr>)" (is "forK _ ?f s = Ok None (?r n)")
  using assms(3)
proof (induction n)
  case 0
  then show ?case by (simp add: adopt_def)
next
  case (Suc n)
  let ?P = "procs (?r n)"
  have ad: "p_parent (procs s n) = Some p \<Longrightarrow>
      adopt (initproc s) p (Suc n) (procs s) =
      (adopt (initproc s) p n (procs s))(n := (adopt (initproc s) p n (procs s) n)\<lparr>p_parent := initproc s\<rparr>)"
    "p_parent (procs s n) \<noteq> Some p \<Longrightarrow> adopt (initproc s) p (Suc n) (procs s) = adopt (initproc s) p n (procs s)"
    by (auto simp: adopt_def fun_eq_iff less_Suc_eq)
  have par: "p_parent (?P n) = p_parent (procs s n)" by (simp add: adopt_def)
  have "?f n (?r n) = Ok None (?r (Suc n))"
  proof (cases "p_parent (procs s n) = Some p")
    case True
    let ?ch = "map_option Ch_proc (initproc s)" and ?A = "adopt (initproc s) p n (procs s)"
    have w: "wakeup ch (s\<lparr>procs := X\<rparr>) = Ok () (s\<lparr>procs := wake ch (curproc s) X\<rparr>)" for ch X
      using wakeup_eq [of "s\<lparr>procs := X\<rparr>"] assms by simp
    have "wake ?ch (curproc s) (?P(n := (?P n)\<lparr>p_parent := initproc s\<rparr>)) =
      wake ?ch (curproc s) (?A(n := (?A n)\<lparr>p_parent := initproc s\<rparr>))"
      by (cases "\<exists>i < n. p_parent (procs s i) = Some p") (simp_all add: wake_upd_parent wake_idem)
    then have "?f n (?r n) = Ok None (s\<lparr>procs := wake ?ch (curproc s) (adopt (initproc s) p (Suc n) (procs s))\<rparr>)"
      using par True by (simp add: Let_def w ad(1) del: wake_parent)
    then show ?thesis using True by auto
  next
    case False
    then have "(\<exists>i < Suc n. p_parent (procs s i) = Some p) = (\<exists>i < n. p_parent (procs s i) = Some p)"
      by (auto simp: less_Suc_eq)
    with False par show ?thesis by (auto simp: ad)
  qed
  with Suc show ?case by (simp add: forK_append)
qed

lemma reparent_eq:
  assumes "ready s" "proc_locks_free (curproc s) (spin s)"
  shows "reparent p s = Ok () (s\<lparr>procs := (if \<exists>i < NPROC. p_parent (procs s i) = Some p
     then wake (map_option Ch_proc (initproc s)) (curproc s) (adopt (initproc s) p NPROC (procs s))
     else adopt (initproc s) p NPROC (procs s))\<rparr>)"
  unfolding reparent_def reparent_loop [OF assms order_refl] by simp


subsubsection \<open>The scheduler\<close>

text \<open>
  With no lock held, \<open>acquire\<close> notes the present interrupt setting, whatever the stale value of
  \<open>intena\<close> was.
\<close>

definition settle :: "'a machine_scheme \<Rightarrow> 'a machine_scheme" where
  "settle s = set_cpu (mycpu s) (\<lambda>c. c\<lparr>cpu_intena := bit (csr_sstatus (regs s (cur s))) 1\<rparr>) s"

lemma acquire_settle:
  "noff s = 0 \<Longrightarrow> free_lock lk s \<Longrightarrow> acquire lk s = acquire lk (settle s)"
  by (simp add: acquire_eq settle_def mycpu_me acq_cpus_def)

lemma settle_ready: "noff s = 0 \<Longrightarrow> ready (settle s)"
  by (simp add: settle_def settled_def mycpu_me)

lemma settle_fields [simp]:
  "cur (settle s) = cur s" "regs (settle s) = regs s"
  by (simp_all add: settle_def)

lemma settle_state [simp]:
  "spin (settle s) = spin s" "procs (settle t) = procs t"
  by (simp_all add: settle_def)

definition run_state :: "nat \<Rightarrow> 'a proc_state_scheme \<Rightarrow> 'a proc_state_scheme" where
  "run_state p s = s\<lparr>regs := acq_regs (cur s) (regs s),
     cpus := (acq_cpus (cur s) (regs s) (cpus s))(me (cur s) (regs s) :=
       (acq_cpus (cur s) (regs s) (cpus s) (me (cur s) (regs s)))\<lparr>cpu_proc := Some p\<rparr>),
     spin := acq_spin (L_proc p) (cur s) (regs s) (spin s),
     procs := (procs s)(p := (procs s p)\<lparr>p_state := RUNNING\<rparr>)\<rparr>"

lemma scheduler_scan_eq:
  assumes "noff s = 0" "proc_locks_free None (spin s)" "i < NPROC"
  shows "scheduler_scan i s = (case find (\<lambda>p. p_state (procs s p) = RUNNABLE) [i..<NPROC] of
    None \<Rightarrow> Ok None (settle s) | Some p \<Rightarrow> Switch (run_state p (settle s)))"
proof -
  let ?f = "\<lambda>p s. andthen (acquire (L_proc p) s) (\<lambda>_ s.
       if p_state (procs s p) = RUNNABLE
       then let s = set_proc p (\<lambda>q. q\<lparr>p_state := RUNNING\<rparr>) s
            in Switch (set_cpu (mycpu s) (\<lambda>c. c\<lparr>cpu_proc := Some p\<rparr>) s)
       else andthen (release (L_proc p) s) (\<lambda>_ s. Ok (None :: unit option) s))"
  have first: "[i..<NPROC] = i # [Suc i..<NPROC]" using assms(3) by (rule upt_conv_Cons)
  have "forK [i..<NPROC] ?f s = forK [i..<NPROC] ?f (settle s)"
    using acquire_settle [OF assms(1), of "L_proc i"] assms
    by (simp add: first proc_locks_freeD)
  also have "\<dots> = (case find (\<lambda>p. p_state (procs s p) = RUNNABLE) [i..<NPROC] of
    None \<Rightarrow> Ok None (settle s) | Some p \<Rightarrow> Switch (run_state p (settle s)))"
    using assms settle_ready [OF assms(1)]
    by (intro forK_find) (auto simp: lock_simps proc_locks_freeD Let_def run_state_def mycpu_me)
  finally show ?thesis by (simp add: scheduler_scan_def)
qed

lemma intr_on_off:
  "intr_off (intr_on s) = s\<lparr>regs := acq_regs (cur s) (regs s)\<rparr>"
proof -
  have "(x OR SSTATUS_SIE) AND NOT SSTATUS_SIE = x AND NOT SSTATUS_SIE" for x
    by (rule bit_word_eqI) (auto simp: bit_simps)
  then show ?thesis by (simp add: intr_off_def intr_on_def csr_writes r_sstatus_def acq_regs_def)
qed

lemma scheduler_round_eq:
  assumes "noff s = 0" "proc_locks_free None (spin s)"
  shows "scheduler_round s =
    (let u = settle (s\<lparr>regs := acq_regs (cur s) (regs s)\<rparr>)
     in case find (\<lambda>p. p_state (procs s p) = RUNNABLE) [0..<NPROC] of
          None \<Rightarrow> Spin u | Some p \<Rightarrow> Switch (run_state p u))"
  using scheduler_scan_eq [of "s\<lparr>regs := acq_regs (cur s) (regs s)\<rparr>" 0] assms
  by (simp add: scheduler_round_def intr_on_off mycpu_me NPROC_def Let_def split: option.splits)

lemma find_least:
  "find Q [0..<n] = Some p \<longleftrightarrow> p < n \<and> Q p \<and> (\<forall>j < p. \<not> Q j)"
proof -
  have "find Q [0..<n] = Some p \<longleftrightarrow> (\<exists>i < n. Q i \<and> p = i \<and> (\<forall>j < i. \<not> Q j))"
    unfolding find_Some_iff by auto
  then show ?thesis by auto
qed

lemma run_state_facts:
  assumes "noff u = 0" "\<not> bit (csr_sstatus (regs u (cur u))) 1"
  shows "holding (L_proc p) (run_state p u)" "noff (run_state p u) = 1" "\<not> intr_get (run_state p u)"
    "curproc (run_state p u) = Some p" "lk \<noteq> L_proc p \<Longrightarrow> spin (run_state p u) lk = spin u lk"
  using assms
  by (simp_all add: run_state_def holding_iff mycpu_me intr_get_bit)
     (simp_all add: acq_regs_def acq_spin_def)


subsection \<open>A sample process table\<close>

text \<open>Process 0 (\<open>init\<close>) runs on hart 0; process 1, its child, waits to run; the rest are unused.\<close>

definition blank_proc :: proc where
  "blank_proc = \<lparr>p_state = UNUSED, p_chan = None, p_killed = 0, p_xstate = 0, p_pid = 0,
     p_parent = None, p_kstack = 0, p_sz = 0, p_pagetable = 0, p_trapframe = 0,
     p_context = zero_context, p_ofile = (\<lambda>_. None), p_cwd = None, p_name = replicate 16 0\<rparr>"

definition sample_procs :: "'z \<Rightarrow> 'z proc_state_scheme" where
  "sample_procs z = sample_phys \<lparr>procs = (\<lambda>_. blank_proc)
       (0 := blank_proc\<lparr>p_state := RUNNING, p_pid := 1\<rparr>,
        Suc 0 := blank_proc\<lparr>p_state := RUNNABLE, p_pid := 2, p_parent := Some 0\<rparr>),
     nextpid = 3, initproc = Some 0, forkret_first = False, \<dots> = z\<rparr>"

lemma sample_procs_fields [simp]:
  "cur (sample_procs z) = 0" "regs (sample_procs z) = (\<lambda>h. sample_csrs (of_nat h))"
  "cpus (sample_procs z) = (\<lambda>_. sample_cpu)"
  "spin (sample_procs z) = (\<lambda>_. \<lparr>lk_locked = False, lk_name = [], lk_cpu = None\<rparr>)"
  "mem (sample_procs z) = (\<lambda>_. 0)" "initproc (sample_procs z) = Some 0" "nextpid (sample_procs z) = 3"
  "procs (sample_procs z) = (\<lambda>_. blank_proc)
       (0 := blank_proc\<lparr>p_state := RUNNING, p_pid := 1\<rparr>,
        Suc 0 := blank_proc\<lparr>p_state := RUNNABLE, p_pid := 2, p_parent := Some 0\<rparr>)"
  by (simp_all add: sample_procs_def sample_phys_def)

lemma me_samples [simp]: "me 0 (\<lambda>h. sample_csrs (of_nat h)) = 0"
  by (simp add: me_def sample_csrs_def int_of_u64_def)

lemma sample_cpu_fields [simp]:
  "cpu_proc sample_cpu = Some 0" "cpu_noff sample_cpu = 0" "cpu_intena sample_cpu"
  by (simp_all add: sample_cpu_def)

lemma sample_ready [simp]: "settled 0 (\<lambda>h. sample_csrs (of_nat h)) (\<lambda>_. sample_cpu)"
  by (simp add: settled_def sample_cpu_def sample_csrs_def)

lemma lk_free_samples [simp]:
  "lk_free lk (\<lambda>_. \<lparr>lk_locked = False, lk_name = [], lk_cpu = None\<rparr>)"
  "proc_locks_free self (\<lambda>_. \<lparr>lk_locked = False, lk_name = [], lk_cpu = None\<rparr>)"
  by (simp_all add: lk_free_def proc_locks_free_def)

subsection \<open>Properties\<close>


text \<open>The sample machine with \<open>tickslock\<close> held by hart 0.\<close>

definition sample_ticking :: "'z \<Rightarrow> 'z proc_state_scheme" where
  "sample_ticking z = (sample_procs z)\<lparr>regs := acq_regs 0 (\<lambda>h. sample_csrs (of_nat h)),
     cpus := acq_cpus 0 (\<lambda>h. sample_csrs (of_nat h)) (\<lambda>_. sample_cpu),
     spin := acq_spin L_ticks 0 (\<lambda>h. sample_csrs (of_nat h))
       (\<lambda>_. \<lparr>lk_locked = False, lk_name = [], lk_cpu = None\<rparr>)\<rparr>"

lemma sample_ticking_acquire: "acquire L_ticks (sample_procs z) = Ok () (sample_ticking z)"
  by (simp add: acquire_eq sample_ticking_def)


text \<open>
  C26. A scheduler that holds no lock switches to the first runnable process of the table: its state
  becomes \<open>RUNNING\<close>, it is the current process of the hart, the hart holds its lock and no other,
  interrupts are off, and nothing else in the table changes.
\<close>

theorem scheduler_picks_first:
  assumes "noff s = 0" "proc_locks_free None (spin s)"
    "p < NPROC" "p_state (procs s p) = RUNNABLE" "\<And>j. j < p \<Longrightarrow> p_state (procs s j) \<noteq> RUNNABLE"
  shows "\<exists>t. scheduler s = Switch t \<and> procs t = (procs s)(p := (procs s p)\<lparr>p_state := RUNNING\<rparr>) \<and>
    curproc t = Some p \<and> holding (L_proc p) t \<and> noff t = 1 \<and> \<not> intr_get t \<and>
    (\<forall>lk. lk \<noteq> L_proc p \<longrightarrow> spin t lk = spin s lk)"
proof -
  let ?s = "set_cpu (mycpu s) (\<lambda>c. c\<lparr>cpu_proc := None\<rparr>) s"
  let ?u = "settle (?s\<lparr>regs := acq_regs (cur s) (regs s)\<rparr>)"
  have "find (\<lambda>p. p_state (procs s p) = RUNNABLE) [0..<NPROC] = Some p"
    using assms by (simp add: find_least)
  then have "scheduler s = Switch (run_state p ?u)"
    using scheduler_round_eq [of ?s] assms by (simp add: scheduler_def mycpu_me)
  moreover have "noff ?u = 0" "\<not> bit (csr_sstatus (regs ?u (cur ?u))) 1"
    using assms(1) by (simp_all add: settle_def mycpu_me) (simp add: acq_regs_def)
  note run_state_facts [OF this, where p = p]
  moreover have "procs (run_state p ?u) = (procs s)(p := (procs s p)\<lparr>p_state := RUNNING\<rparr>)"
    by (simp add: run_state_def)
  ultimately show ?thesis by auto
qed

theorem scheduler_picks_first_witness:
  "\<exists>t. scheduler (sample_procs ()) = Switch t \<and> curproc t = Some 1 \<and> p_state (procs t 1) = RUNNING"
proof -
  obtain t where "scheduler (sample_procs ()) = Switch t" "curproc t = Some 1"
    "procs t = (procs (sample_procs ()))(1 := (procs (sample_procs ()) 1)\<lparr>p_state := RUNNING\<rparr>)"
    using scheduler_picks_first [of "sample_procs ()" 1] by (auto simp: NPROC_def blank_proc_def mycpu_me)
  then show ?thesis by simp
qed

text \<open>
  C27. \<open>kkill\<close> marks the first process of the table with the given pid as killed, makes it runnable if
  it slept, and returns 0; if no process has the pid it returns -1 and changes nothing.
\<close>

theorem kkill_correct:
  assumes "ready s" "proc_locks_free None (spin s)"
  shows "kkill pid s = (case find (\<lambda>p. p_pid (procs s p) = pid) [0..<NPROC] of
    None \<Rightarrow> Ok (- 1) s
  | Some p \<Rightarrow> Ok 0 (s\<lparr>procs := (procs s)(p := (procs s p)\<lparr>p_killed := 1,
      p_state := (if p_state (procs s p) = SLEEPING then RUNNABLE else p_state (procs s p))\<rparr>)\<rparr>))"
  by (rule kkill_eq [OF assms])

theorem kkill_correct_witness:
  "\<exists>t. kkill 2 (sample_procs ()) = Ok 0 t \<and> p_killed (procs t 1) = 1"
proof -
  have "find (\<lambda>p. p_pid (procs (sample_procs ()) p) = 2) [0..<NPROC] = Some (Suc 0)"
    by (simp add: find_least NPROC_def)
  then show ?thesis using kkill_correct [of "sample_procs ()" 2] by simp
qed

text \<open>
  C28. \<open>reparent\<close> gives exactly the children of the exiting process to \<open>init\<close>, and wakes \<open>init\<close> when
  it sleeps in \<open>wait\<close> and gained a child; no process is left with the exiting process as parent.
\<close>

theorem reparent_correct:
  assumes "ready s" "proc_locks_free (curproc s) (spin s)" "initproc s = Some i" "i \<noteq> p"
  shows "\<exists>t. reparent p s = Ok () t \<and>
    (\<forall>j < NPROC. p_parent (procs t j) =
       (if p_parent (procs s j) = Some p then Some i else p_parent (procs s j))) \<and>
    (\<forall>j < NPROC. p_parent (procs t j) \<noteq> Some p) \<and>
    (\<forall>j < NPROC. p_state (procs t j) \<noteq> p_state (procs s j) \<longrightarrow>
       p_state (procs s j) = SLEEPING \<and> p_chan (procs s j) = Some (Ch_proc i) \<and>
       p_state (procs t j) = RUNNABLE) \<and>
    (i < NPROC \<and> curproc s \<noteq> Some i \<and> p_state (procs s i) = SLEEPING \<and>
       p_chan (procs s i) = Some (Ch_proc i) \<and> (\<exists>j < NPROC. p_parent (procs s j) = Some p) \<longrightarrow>
       p_state (procs t i) = RUNNABLE)"
  unfolding reparent_eq [OF assms(1,2)] using assms(3,4)
  by (auto simp: wake_def adopt_def split: if_splits)

theorem reparent_correct_witness:
  "\<exists>t. reparent 1 (set_proc 2 (\<lambda>q. q\<lparr>p_parent := Some 1\<rparr>) (sample_procs ())) = Ok () t \<and>
     p_parent (procs t 2) = Some 0"
  using reparent_correct [of "set_proc 2 (\<lambda>q. q\<lparr>p_parent := Some 1\<rparr>) (sample_procs ())" 0 1]
  by (auto simp: NPROC_def)

end
