(* ===== verification/Vm.thy ===== *)
theory Vm
  imports Proctab
begin

section \<open>Virtual memory: operations (vm.c)\<close>

text \<open>
  Page tables live in the byte-addressed memory of the model, as in the source: a page-table page
  holds 512 entries of eight bytes.  \<open>walk\<close> returns the address of an entry, or 0.

  Kernel buffers that the copy routines read or fill are lists of bytes: \<open>copyout\<close> takes the
  bytes to copy, and \<open>copyin\<close> and \<open>copyinstr\<close> return their result code together with the bytes they
  stored in the destination.  The locations of user pages are physical addresses in memory.
\<close>

record vm_state = proc_state +
  kernel_pagetable :: uint64

abbreviation read_pte :: "'a phys_state_scheme \<Rightarrow> uint64 \<Rightarrow> uint64" where
  "read_pte s a \<equiv> load64 (mem s) a"

abbreviation write_pte :: "uint64 \<Rightarrow> uint64 \<Rightarrow> 'a phys_state_scheme \<Rightarrow> 'a phys_state_scheme" where
  "write_pte a x s \<equiv> s\<lparr>mem := store64 (mem s) a x\<rparr>"

abbreviation zero_page :: "uint64 \<Rightarrow> 'a phys_state_scheme \<Rightarrow> 'a phys_state_scheme" where
  "zero_page a s \<equiv> s\<lparr>mem := memset a 0 (ucast PGSIZE) (mem s)\<rparr>"

definition slot :: "uint64 \<Rightarrow> uint64 \<Rightarrow> uint64" where
  "slot pagetable i = pagetable + 8 * i"

subsection \<open>Walking and mapping\<close>

text \<open>The levels above 0; \<open>None\<close> is the early \<open>return 0\<close>.\<close>

primrec walk_loop ::
  "nat \<Rightarrow> uint64 \<Rightarrow> uint64 \<Rightarrow> bool \<Rightarrow> 'a phys_state_scheme \<Rightarrow> (uint64 option, 'a phys_state_scheme) outcome" where
  "walk_loop 0 pagetable va alloc s = Ok (Some pagetable) s"
| "walk_loop (Suc l) pagetable va alloc s =
     (let pte = slot pagetable (PX (Suc l) va)
      in if read_pte s pte AND PTE_V \<noteq> 0 then walk_loop l (PTE2PA (read_pte s pte)) va alloc s
         else if \<not> alloc then Ok None s
         else andthen (kalloc s) (\<lambda>pagetable s.
              if pagetable = 0 then Ok None s
              else let s = zero_page pagetable s;
                       s = write_pte pte (PA2PTE pagetable OR PTE_V) s
                   in walk_loop l pagetable va alloc s))"

definition walk ::
  "uint64 \<Rightarrow> uint64 \<Rightarrow> bool \<Rightarrow> 'a phys_state_scheme \<Rightarrow> (uint64, 'a phys_state_scheme) outcome" where
  "walk pagetable va alloc s =
     (if va \<ge> MAXVA then Panic ''walk''
      else andthen (walk_loop 2 pagetable va alloc s) (\<lambda>r s.
           Ok (case r of None \<Rightarrow> 0 | Some pagetable \<Rightarrow> slot pagetable (PX 0 va)) s))"

definition walkaddr :: "uint64 \<Rightarrow> uint64 \<Rightarrow> 'a phys_state_scheme \<Rightarrow> (uint64, 'a phys_state_scheme) outcome" where
  "walkaddr pagetable va s =
     (if va \<ge> MAXVA then Ok 0 s
      else andthen (walk pagetable va False s) (\<lambda>pte s.
           if pte = 0 then Ok 0 s
           else if read_pte s pte AND PTE_V = 0 then Ok 0 s
           else if read_pte s pte AND PTE_U = 0 then Ok 0 s
           else Ok (PTE2PA (read_pte s pte)) s))"

lemma walk_Ok_bound: "walk pagetable va alloc s = Ok x t \<Longrightarrow> va < MAXVA"
  by (auto simp: walk_def split: if_splits)

text \<open>The loops over virtual pages end because \<open>walk\<close> panics beyond \<open>MAXVA\<close>.\<close>

lemma page_loop_measure: "a < MAXVA \<Longrightarrow> 2 ^ 64 - unat (a + PGSIZE) < 2 ^ 64 - unat a"
proof -
  assume "a < MAXVA"
  then have "unat a < 2 ^ 38" by (simp add: word_less_nat_alt page_defs push_bit_eq_mult)
  then show ?thesis by (simp add: PGSIZE_def unat_add_64)
qed

function mappages_loop ::
  "uint64 \<Rightarrow> uint64 \<Rightarrow> uint64 \<Rightarrow> uint64 \<Rightarrow> uint64 \<Rightarrow> 'a phys_state_scheme \<Rightarrow> (int, 'a phys_state_scheme) outcome" where
  "mappages_loop pagetable a lst pa perm s =
     andthen (walk pagetable a True s) (\<lambda>pte s.
       if pte = 0 then Ok (- 1) s
       else if read_pte s pte AND PTE_V \<noteq> 0 then Panic ''mappages: remap''
       else let s = write_pte pte (PA2PTE pa OR perm OR PTE_V) s
            in if a = lst then Ok 0 s
               else mappages_loop pagetable (a + PGSIZE) lst (pa + PGSIZE) perm s)"
  by pat_completeness auto
termination
  by (relation "measure (\<lambda>(pagetable, a, lst, pa, perm, s). 2 ^ 64 - unat a)")
     (auto dest!: walk_Ok_bound page_loop_measure)

declare mappages_loop.simps [simp del]

definition mappages ::
  "uint64 \<Rightarrow> uint64 \<Rightarrow> uint64 \<Rightarrow> uint64 \<Rightarrow> uint64 \<Rightarrow> 'a phys_state_scheme \<Rightarrow> (int, 'a phys_state_scheme) outcome" where
  "mappages pagetable va sz pa perm s =
     (if va mod PGSIZE \<noteq> 0 then Panic ''mappages: va not aligned''
      else if sz mod PGSIZE \<noteq> 0 then Panic ''mappages: size not aligned''
      else if sz = 0 then Panic ''mappages: size''
      else mappages_loop pagetable va (va + sz - PGSIZE) pa perm s)"

definition kvmmap ::
  "uint64 \<Rightarrow> uint64 \<Rightarrow> uint64 \<Rightarrow> uint64 \<Rightarrow> uint64 \<Rightarrow> 'a phys_state_scheme \<Rightarrow> (unit, 'a phys_state_scheme) outcome" where
  "kvmmap kpgtbl va pa sz perm s =
     andthen (mappages kpgtbl va sz pa perm s) (\<lambda>r s. if r \<noteq> 0 then Panic ''kvmmap'' else Ok () s)"

subsection \<open>The kernel page table\<close>

definition proc_mapstacks :: "uint64 \<Rightarrow> 'a phys_state_scheme \<Rightarrow> (unit, 'a phys_state_scheme) outcome" where
  "proc_mapstacks kpgtbl s =
     andthen (forK [0..<NPROC] (\<lambda>p s.
       andthen (kalloc s) (\<lambda>pa s.
         if pa = 0 then Panic ''kalloc''
         else andthen (kvmmap kpgtbl (KSTACK p) pa PGSIZE (PTE_R OR PTE_W) s) (\<lambda>_ s.
              Ok (None :: unit option) s))) s) (\<lambda>_ s. Ok () s)"

definition kvmmake :: "'a phys_state_scheme \<Rightarrow> (uint64, 'a phys_state_scheme) outcome" where
  "kvmmake s =
     andthen (kalloc s) (\<lambda>kpgtbl s.
     let s = zero_page kpgtbl s in
     andthen (kvmmap kpgtbl UART0 UART0 PGSIZE (PTE_R OR PTE_W) s) (\<lambda>_ s.
     andthen (kvmmap kpgtbl VIRTIO0 VIRTIO0 PGSIZE (PTE_R OR PTE_W) s) (\<lambda>_ s.
     andthen (kvmmap kpgtbl PLIC PLIC 0x4000000 (PTE_R OR PTE_W) s) (\<lambda>_ s.
     andthen (kvmmap kpgtbl KERNBASE KERNBASE (sym_etext s - KERNBASE) (PTE_R OR PTE_X) s) (\<lambda>_ s.
     andthen (kvmmap kpgtbl (sym_etext s) (sym_etext s) (PHYSTOP - sym_etext s) (PTE_R OR PTE_W) s) (\<lambda>_ s.
     andthen (kvmmap kpgtbl TRAMPOLINE (sym_trampoline s) PGSIZE (PTE_R OR PTE_X) s) (\<lambda>_ s.
     andthen (proc_mapstacks kpgtbl s) (\<lambda>_ s.
     Ok kpgtbl s))))))))"

definition kvminit :: "'a vm_state_scheme \<Rightarrow> (unit, 'a vm_state_scheme) outcome" where
  "kvminit s = andthen (kvmmake s) (\<lambda>k s. Ok () (s\<lparr>kernel_pagetable := k\<rparr>))"

definition kvminithart :: "'a vm_state_scheme \<Rightarrow> 'a vm_state_scheme" where
  "kvminithart s = w_satp (MAKE_SATP (kernel_pagetable s)) s"

subsection \<open>User page tables\<close>

definition uvmcreate :: "'a phys_state_scheme \<Rightarrow> (uint64, 'a phys_state_scheme) outcome" where
  "uvmcreate s =
     andthen (kalloc s) (\<lambda>pagetable s.
       if pagetable = 0 then Ok 0 s else Ok pagetable (zero_page pagetable s))"

function uvmunmap_loop ::
  "uint64 \<Rightarrow> uint64 \<Rightarrow> uint64 \<Rightarrow> bool \<Rightarrow> 'a phys_state_scheme \<Rightarrow> (unit, 'a phys_state_scheme) outcome" where
  "uvmunmap_loop pagetable a bound do_free s =
     (if a < bound
      then andthen (walk pagetable a False s) (\<lambda>pte s.
           if pte = 0 \<or> read_pte s pte AND PTE_V = 0
           then uvmunmap_loop pagetable (a + PGSIZE) bound do_free s
           else andthen (if do_free then kfree (PTE2PA (read_pte s pte)) s else Ok () s) (\<lambda>_ s.
                uvmunmap_loop pagetable (a + PGSIZE) bound do_free (write_pte pte 0 s)))
      else Ok () s)"
  by pat_completeness auto
termination
  by (relation "measure (\<lambda>(pagetable, a, bound, do_free, s). 2 ^ 64 - unat a)")
     (auto dest!: walk_Ok_bound page_loop_measure)

declare uvmunmap_loop.simps [simp del]

definition uvmunmap ::
  "uint64 \<Rightarrow> uint64 \<Rightarrow> uint64 \<Rightarrow> bool \<Rightarrow> 'a phys_state_scheme \<Rightarrow> (unit, 'a phys_state_scheme) outcome" where
  "uvmunmap pagetable va npages do_free s =
     (if va mod PGSIZE \<noteq> 0 then Panic ''uvmunmap: not aligned''
      else uvmunmap_loop pagetable va (va + npages * PGSIZE) do_free s)"

text \<open>The number of pages passes through the \<open>int\<close> variable \<open>npages\<close>.\<close>

definition uvmdealloc ::
  "uint64 \<Rightarrow> uint64 \<Rightarrow> uint64 \<Rightarrow> 'a phys_state_scheme \<Rightarrow> (uint64, 'a phys_state_scheme) outcome" where
  "uvmdealloc pagetable oldsz newsz s =
     (if newsz \<ge> oldsz then Ok oldsz s
      else andthen
        (if PGROUNDUP newsz < PGROUNDUP oldsz
         then let npages = int_of_u64 ((PGROUNDUP oldsz - PGROUNDUP newsz) div PGSIZE)
              in uvmunmap pagetable (PGROUNDUP newsz) (u64_of_int npages) True s
         else Ok () s) (\<lambda>_ s. Ok newsz s))"

lemma mappages_Ok_bound:
  "mappages pagetable a sz pa perm s = Ok x t \<Longrightarrow> a < MAXVA"
  by (auto simp: mappages_def mappages_loop.simps [of pagetable a] andthen_eq_Ok_iff
      split: if_splits dest: walk_Ok_bound)

function uvmalloc_loop ::
  "uint64 \<Rightarrow> uint64 \<Rightarrow> uint64 \<Rightarrow> uint64 \<Rightarrow> uint64 \<Rightarrow> 'a phys_state_scheme \<Rightarrow> (uint64, 'a phys_state_scheme) outcome" where
  "uvmalloc_loop pagetable a oldsz newsz xperm s =
     (if a < newsz
      then andthen (kalloc s) (\<lambda>p s.
           if p = 0 then andthen (uvmdealloc pagetable a oldsz s) (\<lambda>_ s. Ok 0 s)
           else let s = zero_page p s in
                andthen (mappages pagetable a PGSIZE p (PTE_R OR PTE_U OR xperm) s) (\<lambda>r s.
                if r \<noteq> 0
                then andthen (kfree p s) (\<lambda>_ s.
                     andthen (uvmdealloc pagetable a oldsz s) (\<lambda>_ s. Ok 0 s))
                else uvmalloc_loop pagetable (a + PGSIZE) oldsz newsz xperm s))
      else Ok newsz s)"
  by pat_completeness auto
termination
  by (relation "measure (\<lambda>(pagetable, a, oldsz, newsz, xperm, s). 2 ^ 64 - unat a)")
     (auto dest!: mappages_Ok_bound page_loop_measure)

declare uvmalloc_loop.simps [simp del]

definition uvmalloc ::
  "uint64 \<Rightarrow> uint64 \<Rightarrow> uint64 \<Rightarrow> uint64 \<Rightarrow> 'a phys_state_scheme \<Rightarrow> (uint64, 'a phys_state_scheme) outcome" where
  "uvmalloc pagetable oldsz newsz xperm s =
     (if newsz < oldsz then Ok oldsz s
      else uvmalloc_loop pagetable (PGROUNDUP oldsz) (PGROUNDUP oldsz) newsz xperm s)"

text \<open>
  \<open>freewalk\<close> calls itself on the tables below.  The depth bounds the recursion, which would not
  end on a cyclic structure; a page table has \<open>pt_levels\<close> levels.
\<close>

definition pt_levels :: nat where "pt_levels = 3"

primrec freewalk :: "nat \<Rightarrow> uint64 \<Rightarrow> 'a phys_state_scheme \<Rightarrow> (unit, 'a phys_state_scheme) outcome" where
  "freewalk 0 pagetable s = Spin s"
| "freewalk (Suc d) pagetable s =
     andthen (forK [0..<512] (\<lambda>i s.
       let a = slot pagetable (of_nat i); pte = read_pte s a
       in if pte AND PTE_V \<noteq> 0 \<and> pte AND (PTE_R OR PTE_W OR PTE_X) = 0
          then andthen (freewalk d (PTE2PA pte) s) (\<lambda>_ s. Ok (None :: unit option) (write_pte a 0 s))
          else if pte AND PTE_V \<noteq> 0 then Panic ''freewalk: leaf''
          else Ok None s) s) (\<lambda>_ s. kfree pagetable s)"

definition uvmfree :: "uint64 \<Rightarrow> uint64 \<Rightarrow> 'a phys_state_scheme \<Rightarrow> (unit, 'a phys_state_scheme) outcome" where
  "uvmfree pagetable sz s =
     andthen (if sz > 0 then uvmunmap pagetable 0 (PGROUNDUP sz div PGSIZE) True s else Ok () s)
       (\<lambda>_ s. freewalk pt_levels pagetable s)"

function uvmcopy_loop ::
  "uint64 \<Rightarrow> uint64 \<Rightarrow> uint64 \<Rightarrow> uint64 \<Rightarrow> 'a phys_state_scheme \<Rightarrow> (int, 'a phys_state_scheme) outcome" where
  "uvmcopy_loop old new i sz s =
     (if i < sz
      then andthen (walk old i False s) (\<lambda>pte s.
           if pte = 0 \<or> read_pte s pte AND PTE_V = 0 then uvmcopy_loop old new (i + PGSIZE) sz s
           else let pa = PTE2PA (read_pte s pte); flags = PTE_FLAGS (read_pte s pte) in
                andthen (kalloc s) (\<lambda>p s.
                if p = 0 then andthen (uvmunmap new 0 (i div PGSIZE) True s) (\<lambda>_ s. Ok (- 1) s)
                else let s = s\<lparr>mem := memmove p pa (ucast PGSIZE) (mem s)\<rparr> in
                     andthen (mappages new i PGSIZE p flags s) (\<lambda>r s.
                     if r \<noteq> 0
                     then andthen (kfree p s) (\<lambda>_ s.
                          andthen (uvmunmap new 0 (i div PGSIZE) True s) (\<lambda>_ s. Ok (- 1) s))
                     else uvmcopy_loop old new (i + PGSIZE) sz s)))
      else Ok 0 s)"
  by pat_completeness auto
termination
  by (relation "measure (\<lambda>(old, new, i, sz, s). 2 ^ 64 - unat i)")
     (auto dest!: walk_Ok_bound page_loop_measure)

declare uvmcopy_loop.simps [simp del]

definition uvmcopy ::
  "uint64 \<Rightarrow> uint64 \<Rightarrow> uint64 \<Rightarrow> 'a phys_state_scheme \<Rightarrow> (int, 'a phys_state_scheme) outcome" where
  "uvmcopy old new sz s = uvmcopy_loop old new 0 sz s"

definition uvmclear :: "uint64 \<Rightarrow> uint64 \<Rightarrow> 'a phys_state_scheme \<Rightarrow> (unit, 'a phys_state_scheme) outcome" where
  "uvmclear pagetable va s =
     andthen (walk pagetable va False s) (\<lambda>pte s.
       if pte = 0 then Panic ''uvmclear'' else Ok () (write_pte pte (read_pte s pte AND NOT PTE_U) s))"

definition ismapped :: "uint64 \<Rightarrow> uint64 \<Rightarrow> 'a phys_state_scheme \<Rightarrow> (bool, 'a phys_state_scheme) outcome" where
  "ismapped pagetable va s =
     andthen (walk pagetable va False s) (\<lambda>pte s.
       if pte = 0 then Ok False s
       else if read_pte s pte AND PTE_V \<noteq> 0 then Ok True s
       else Ok False s)"

text \<open>The page is mapped in \<open>p->pagetable\<close>, whichever table was asked about.\<close>

definition vmfault ::
  "uint64 \<Rightarrow> uint64 \<Rightarrow> bool \<Rightarrow> 'a proc_state_scheme \<Rightarrow> (uint64, 'a proc_state_scheme) outcome" where
  "vmfault pagetable va read s =
     andthen (myproc s) (\<lambda>p s. deref p (\<lambda>p.
       if va \<ge> p_sz (procs s p) then Ok 0 s
       else let va = PGROUNDDOWN va in
            andthen (ismapped pagetable va s) (\<lambda>b s.
            if b then Ok 0 s
            else andthen (kalloc s) (\<lambda>pa s.
                 if pa = 0 then Ok 0 s
                 else let s = zero_page pa s in
                      andthen (mappages (p_pagetable (procs s p)) va PGSIZE pa
                                 (PTE_W OR PTE_U OR PTE_R) s) (\<lambda>r s.
                      if r \<noteq> 0 then andthen (kfree pa s) (\<lambda>_ s. Ok 0 s)
                      else Ok pa s)))))"

subsection \<open>Copying between kernel and user space\<close>

lemma page_offset: "unat (a - PGROUNDDOWN a) = unat a mod 4096"
proof -
  have "PGROUNDDOWN a \<le> a" by (simp add: word_le_nat_alt unat_PGROUNDDOWN)
  then have "unat (a - PGROUNDDOWN a) = unat a - unat (PGROUNDDOWN a)"
    by (simp add: unat_sub_if' word_le_nat_alt)
  then show ?thesis by (simp add: unat_PGROUNDDOWN)
qed

lemma page_rest: "unat (PGSIZE - (a - PGROUNDDOWN a)) = 4096 - unat a mod 4096"
proof -
  have "unat (PGSIZE - x) = 4096 - unat x" if "unat x < 4096" for x
    using that by (simp add: unat_sub_if' PGSIZE_def)
  from this [of "a - PGROUNDDOWN a"] show ?thesis by (simp add: page_offset)
qed

function copyout ::
  "uint64 \<Rightarrow> uint64 \<Rightarrow> byte list \<Rightarrow> 'a proc_state_scheme \<Rightarrow> (int, 'a proc_state_scheme) outcome" where
  "copyout pagetable dstva src s =
     (if src = [] then Ok 0 s
      else let va0 = PGROUNDDOWN dstva in
           if va0 \<ge> MAXVA then Ok (- 1) s
           else andthen (walkaddr pagetable va0 s) (\<lambda>pa0 s.
                andthen (if pa0 = 0 then vmfault pagetable va0 False s else Ok pa0 s) (\<lambda>pa0 s.
                if pa0 = 0 then Ok (- 1) s
                else andthen (walk pagetable va0 False s) (\<lambda>pte s.
                     if pte = 0 then Panic ''kerneltrap''
                     else if read_pte s pte AND PTE_W = 0 then Ok (- 1) s
                     else let n = min (unat (PGSIZE - (dstva - va0))) (length src);
                              s = s\<lparr>mem := write_bytes (mem s) (pa0 + (dstva - va0)) (take n src)\<rparr>
                          in copyout pagetable (va0 + PGSIZE) (drop n src) s))))"
  by pat_completeness auto
termination
  by (relation "measure (\<lambda>(pagetable, dstva, src, s). length src)") (auto simp: page_rest)

declare copyout.simps [simp del]

function copyin ::
  "uint64 \<Rightarrow> uint64 \<Rightarrow> nat \<Rightarrow> 'a proc_state_scheme \<Rightarrow> (int \<times> byte list, 'a proc_state_scheme) outcome" where
  "copyin pagetable srcva len s =
     (if len = 0 then Ok (0, []) s
      else let va0 = PGROUNDDOWN srcva in
           andthen (walkaddr pagetable va0 s) (\<lambda>pa0 s.
           andthen (if pa0 = 0 then vmfault pagetable va0 False s else Ok pa0 s) (\<lambda>pa0 s.
           if pa0 = 0 then Ok (- 1, []) s
           else let n = min (unat (PGSIZE - (srcva - va0))) len;
                    bs = read_bytes (mem s) (pa0 + (srcva - va0)) n
                in andthen (copyin pagetable (va0 + PGSIZE) (len - n) s) (\<lambda>(r, rest) s.
                   Ok (r, bs @ rest) s))))"
  by pat_completeness auto
termination
  by (relation "measure (\<lambda>(pagetable, srcva, len, s). len)") (auto simp: page_rest)

declare copyin.simps [simp del]

text \<open>The inner loop of \<open>copyinstr\<close>: the bytes copied from one page, and whether a NUL ended it.\<close>

primrec copy_str :: "nat \<Rightarrow> uint64 \<Rightarrow> memory \<Rightarrow> byte list \<times> bool" where
  "copy_str 0 p m = ([], False)"
| "copy_str (Suc n) p m =
     (if m p = 0 then ([0], True)
      else let (bs, got_null) = copy_str n (p + 1) m in (m p # bs, got_null))"

function copyinstr ::
  "uint64 \<Rightarrow> uint64 \<Rightarrow> nat \<Rightarrow> 'a phys_state_scheme \<Rightarrow> (int \<times> byte list, 'a phys_state_scheme) outcome" where
  "copyinstr pagetable srcva max0 s =
     (if max0 = 0 then Ok (- 1, []) s
      else let va0 = PGROUNDDOWN srcva in
           andthen (walkaddr pagetable va0 s) (\<lambda>pa0 s.
           if pa0 = 0 then Ok (- 1, []) s
           else let n = min (unat (PGSIZE - (srcva - va0))) max0;
                    (bs, got_null) = copy_str n (pa0 + (srcva - va0)) (mem s)
                in if got_null then Ok (0, bs) s
                   else andthen (copyinstr pagetable (va0 + PGSIZE) (max0 - n) s) (\<lambda>(r, rest) s.
                        Ok (r, bs @ rest) s)))"
  by pat_completeness auto
termination
  by (relation "measure (\<lambda>(pagetable, srcva, max0, s). max0)") (auto simp: page_rest)

declare copyinstr.simps [simp del]

end
