(* ===== verification/Pagetable.thy ===== *)
theory Pagetable
  imports Vm
begin

section \<open>Page tables as address spaces\<close>

text \<open>
  The tree of page-table pages that \<open>walk\<close> follows through memory, the well-formedness of such a
  tree (its pages are distinct), and its meaning: the entry \<open>leafv\<close> a virtual address has.
  The operations of \<open>vm.c\<close> are shown to act on this meaning: \<open>walk\<close> with allocation adds table
  pages and changes no translation, \<open>mappages\<close> changes the entries of its range and no other,
  \<open>uvmunmap\<close> clears them, and \<open>copyout\<close> and \<open>copyin\<close> transfer bytes through it.
\<close>

subsection \<open>Bits of addresses and entries\<close>

lemma PX_bound [simp]: "PX l va < 512"
proof -
  have "PX l va \<le> PXMASK" unfolding PX_def by (rule word_and_le1)
  then show ?thesis by (simp add: PXMASK_def word_le_nat_alt word_less_nat_alt)
qed

definition flagword :: "uint64 \<Rightarrow> bool" where
  "flagword f \<longleftrightarrow> drop_bit 10 f = 0"

lemma flagword_bit: "flagword f \<Longrightarrow> bit f n \<Longrightarrow> n < 10"
proof (rule ccontr)
  assume "flagword f" "bit f n" "\<not> n < 10"
  then have "bit (drop_bit 10 f) (n - 10)" by (simp add: bit_drop_bit_eq)
  with \<open>flagword f\<close> show False by (simp add: flagword_def)
qed

lemma flagword_flags [simp]:
  "flagword PTE_V" "flagword PTE_R" "flagword PTE_W" "flagword PTE_X" "flagword PTE_U"
  "flagword f \<Longrightarrow> flagword g \<Longrightarrow> flagword (f OR g)"
  by (simp_all add: flagword_def pte_defs)

lemma page_aligned_bit: "page_aligned a \<Longrightarrow> bit a n \<Longrightarrow> 12 \<le> n"
proof (rule ccontr)
  assume a: "page_aligned a" "bit a n" "\<not> 12 \<le> n"
  have "take_bit 12 a = 0" using a(1) by (simp add: page_aligned_def PGSIZE_def take_bit_eq_mod)
  moreover have "bit (take_bit 12 a) n" using a by (simp add: bit_take_bit_iff)
  ultimately show False by simp
qed

lemma PTE2PA_PA2PTE:
  assumes "page_aligned pa" "flagword f"
  shows "PTE2PA (PA2PTE pa OR f) = pa"
proof (rule bit_word_eqI)
  fix n assume "n < LENGTH(64)"
  then show "bit (PTE2PA (PA2PTE pa OR f)) n = bit pa n"
    using page_aligned_bit [OF assms(1), of n] flagword_bit [OF assms(2), of "n - 2"]
    by (auto simp: PTE2PA_def PA2PTE_def bit_simps)
qed

lemma PTE_FLAGS_PA2PTE:
  assumes "flagword f"
  shows "PTE_FLAGS (PA2PTE pa OR f) = f"
proof (rule bit_word_eqI)
  have m: "(0x3FF :: uint64) = mask 10" by (simp add: mask_eq_exp_minus_1)
  fix n assume "n < LENGTH(64)"
  then show "bit (PTE_FLAGS (PA2PTE pa OR f)) n = bit f n"
    using flagword_bit [OF assms, of n]
    by (auto simp: PTE_FLAGS_def PA2PTE_def m bit_simps)
qed

lemma and_flag_iff: "(x AND PTE_V \<noteq> 0) = bit x 0" "(x AND PTE_R \<noteq> 0) = bit x 1"
  "(x AND PTE_W \<noteq> 0) = bit x 2" "(x AND PTE_X \<noteq> 0) = bit x 3" "(x AND PTE_U \<noteq> 0) = bit x 4"
  using and_exp_eq_0_iff_not_bit [of x 0] and_exp_eq_0_iff_not_bit [of x 1]
    and_exp_eq_0_iff_not_bit [of x 2] and_exp_eq_0_iff_not_bit [of x 3]
    and_exp_eq_0_iff_not_bit [of x 4]
  by (simp_all add: pte_defs push_bit_eq_mult)

lemma PA2PTE_low: "n < 10 \<Longrightarrow> \<not> bit (PA2PTE pa) n"
  by (simp add: PA2PTE_def bit_simps)

lemma PTE_V_nonzero [simp]: "PTE_V \<noteq> 0"
  by (simp add: PTE_V_def)

lemma valid_entry [simp]: "(PA2PTE pa OR f OR PTE_V) AND PTE_V \<noteq> 0" "(PA2PTE pa OR PTE_V) AND PTE_V \<noteq> 0"
  by (simp_all only: and_flag_iff) (simp_all add: bit_simps pte_defs)

subsection \<open>Entries within a page\<close>

lemma slot_offset:
  assumes "i < 512" "j < 8"
  shows "unat (slot pt i + j - pt) = 8 * unat i + unat j" "8 * unat i + unat j < 4096"
proof -
  have b: "unat i < 512" "unat j < 8" using assms by (simp_all add: word_less_nat_alt)
  then have m: "unat (8 * i) = 8 * unat i" by (simp add: unat_word_ariths)
  have "slot pt i + j - pt = 8 * i + j" by (simp add: slot_def)
  moreover have "unat (8 * i + j) = 8 * unat i + unat j" using b m by (subst unat_add_64) simp_all
  ultimately show "unat (slot pt i + j - pt) = 8 * unat i + unat j" by (simp only:)
  show "8 * unat i + unat j < 4096" using b by simp
qed

lemma slot_in_page: "i < 512 \<Longrightarrow> j < 8 \<Longrightarrow> in_page pt (slot pt i + j)"
  using slot_offset by (simp add: in_page_def)

lemma store64_other:
  assumes "\<And>j. j < 8 \<Longrightarrow> b \<noteq> a + j"
  shows "store64 m a x b = m b"
  using assms [of 0] assms [of 1] assms [of 2] assms [of 3] assms [of 4] assms [of 5] assms [of 6]
    assms [of 7] by (simp add: store64_def)

lemma store_slot_frame: "i < 512 \<Longrightarrow> \<not> in_page pt b \<Longrightarrow> store64 m (slot pt i) x b = m b"
  using slot_in_page by (intro store64_other) blast

lemma load_slot_cong:
  "i < 512 \<Longrightarrow> (\<And>b. in_page pt b \<Longrightarrow> m' b = m b) \<Longrightarrow> load64 m' (slot pt i) = load64 m (slot pt i)"
  using slot_in_page by (intro load64_cong) blast

lemma load_store_slot:
  assumes "i < 512" "i' < 512"
  shows "load64 (store64 m (slot pt i) x) (slot pt i') = (if i = i' then x else load64 m (slot pt i'))"
proof (cases "i = i'")
  case False
  have "slot pt i' + j' \<noteq> slot pt i + j" if j: "j < 8" "j' < 8" for j j'
  proof
    assume "slot pt i' + j' = slot pt i + j"
    then have "8 * unat i + unat j = 8 * unat i' + unat j'"
      using slot_offset(1) [OF assms(1) j(1), of pt] slot_offset(1) [OF assms(2) j(2), of pt] by simp
    moreover have "unat j < 8" "unat j' < 8" using j by (simp_all add: word_less_nat_alt)
    ultimately have "unat i = unat i'" by presburger
    with False show False by (simp add: word_unat_eq_iff)
  qed
  then have "load64 (store64 m (slot pt i) x) (slot pt i') = load64 m (slot pt i')"
    by (intro load64_cong store64_other) simp
  with False show ?thesis by simp
qed simp

subsection \<open>The tree of table pages\<close>

definition kid :: "memory \<Rightarrow> uint64 \<Rightarrow> uint64 \<Rightarrow> uint64 option" where
  "kid m pt i = (let e = load64 m (slot pt i) in if e AND PTE_V \<noteq> 0 then Some (PTE2PA e) else None)"

text \<open>The table of level 0 for a virtual address, and the entry there (0 where there is no table).\<close>

primrec lev0 :: "nat \<Rightarrow> memory \<Rightarrow> uint64 \<Rightarrow> uint64 \<Rightarrow> uint64 option" where
  "lev0 0 m pt va = Some pt"
| "lev0 (Suc l) m pt va = (case kid m pt (PX (Suc l) va) of None \<Rightarrow> None | Some c \<Rightarrow> lev0 l m c va)"

definition leafv :: "nat \<Rightarrow> memory \<Rightarrow> uint64 \<Rightarrow> uint64 \<Rightarrow> uint64" where
  "leafv l m pt va = (case lev0 l m pt va of None \<Rightarrow> 0 | Some q \<Rightarrow> load64 m (slot q (PX 0 va)))"

text \<open>The pages of the tables above level 0, and those of level 0.\<close>

primrec iset :: "nat \<Rightarrow> memory \<Rightarrow> uint64 \<Rightarrow> uint64 set" where
  "iset 0 m pt = {}"
| "iset (Suc l) m pt =
     insert pt (\<Union>i \<in> {i. i < 512}. case kid m pt i of None \<Rightarrow> {} | Some c \<Rightarrow> iset l m c)"

primrec lset :: "nat \<Rightarrow> memory \<Rightarrow> uint64 \<Rightarrow> uint64 set" where
  "lset 0 m pt = {pt}"
| "lset (Suc l) m pt = (\<Union>i \<in> {i. i < 512}. case kid m pt i of None \<Rightarrow> {} | Some c \<Rightarrow> lset l m c)"

definition tset :: "nat \<Rightarrow> memory \<Rightarrow> uint64 \<Rightarrow> uint64 set" where
  "tset l m pt = iset l m pt \<union> lset l m pt"

primrec twf :: "nat \<Rightarrow> memory \<Rightarrow> uint64 \<Rightarrow> bool" where
  "twf 0 m pt \<longleftrightarrow> page_aligned pt"
| "twf (Suc l) m pt \<longleftrightarrow> page_aligned pt \<and>
     (\<forall>i < 512. \<forall>c. kid m pt i = Some c \<longrightarrow> twf l m c \<and> pt \<notin> tset l m c \<and>
        (\<forall>j < 512. \<forall>d. kid m pt j = Some d \<and> i \<noteq> j \<longrightarrow> tset l m c \<inter> tset l m d = {}))"

lemma twf_root: "twf l m pt \<Longrightarrow> page_aligned pt"
  by (cases l) simp_all

lemma twf_kid: "twf (Suc l) m pt \<Longrightarrow> i < 512 \<Longrightarrow> kid m pt i = Some c \<Longrightarrow> twf l m c \<and> pt \<notin> tset l m c"
  by simp

lemma twf_disjoint:
  "twf (Suc l) m pt \<Longrightarrow> i < 512 \<Longrightarrow> kid m pt i = Some c \<Longrightarrow> j < 512 \<Longrightarrow> kid m pt j = Some d \<Longrightarrow>
   i \<noteq> j \<Longrightarrow> tset l m c \<inter> tset l m d = {}"
  by (simp only: twf.simps) blast

lemma twf_SucI:
  assumes "page_aligned pt"
    and "\<And>i c. i < 512 \<Longrightarrow> kid m pt i = Some c \<Longrightarrow> twf l m c \<and> pt \<notin> tset l m c"
    and "\<And>i c j d. i < 512 \<Longrightarrow> kid m pt i = Some c \<Longrightarrow> j < 512 \<Longrightarrow> kid m pt j = Some d \<Longrightarrow>
      i \<noteq> j \<Longrightarrow> tset l m c \<inter> tset l m d = {}"
  shows "twf (Suc l) m pt"
  using assms by (simp only: twf.simps) blast

declare twf.simps(2) [simp del]

lemma tset_0 [simp]: "tset 0 m pt = {pt}"
  by (simp add: tset_def)

lemma tset_Suc: "tset (Suc l) m pt =
  insert pt (\<Union>i \<in> {i. i < 512}. case kid m pt i of None \<Rightarrow> {} | Some c \<Rightarrow> tset l m c)"
  by (auto simp: tset_def split: option.splits)

lemma tset_kid: "i < 512 \<Longrightarrow> kid m pt i = Some c \<Longrightarrow> tset l m c \<subseteq> tset (Suc l) m pt"
  by (force simp: tset_Suc)

lemma iset_kid: "i < 512 \<Longrightarrow> kid m pt i = Some c \<Longrightarrow> iset l m c \<subseteq> iset (Suc l) m pt"
  by force

lemma root_tset: "pt \<in> tset l m pt"
  by (cases l) (simp_all add: tset_def)

lemma kid_cong:
  "i < 512 \<Longrightarrow> (\<And>b. in_page pt b \<Longrightarrow> m' b = m b) \<Longrightarrow> kid m' pt i = kid m pt i"
  unfolding kid_def using load_slot_cong [of i pt m' m] by (simp only:)

lemma twf_transfer:
  assumes "twf (Suc l) m pt" "\<And>i. i < 512 \<Longrightarrow> kid m' pt i = kid m pt i"
    and "\<And>i c. i < 512 \<Longrightarrow> kid m pt i = Some c \<Longrightarrow> twf l m' c"
    and "\<And>i c. i < 512 \<Longrightarrow> kid m pt i = Some c \<Longrightarrow> tset l m' c = tset l m c"
  shows "twf (Suc l) m' pt"
proof (rule twf_SucI)
  show "page_aligned pt" using assms(1) by (rule twf_root)
  show "twf l m' c \<and> pt \<notin> tset l m' c" if "i < 512" "kid m' pt i = Some c" for i c
    using that assms(2-4) twf_kid [OF assms(1)] by simp
  show "tset l m' c \<inter> tset l m' d = {}"
    if "i < 512" "kid m' pt i = Some c" "j < 512" "kid m' pt j = Some d" "i \<noteq> j" for i c j d
    using that assms(2,4) twf_disjoint [OF assms(1)] by simp
qed

text \<open>The tree depends on the pages above level 0 alone.\<close>

lemma tree_frame:
  assumes "\<And>q b. q \<in> iset l m pt \<Longrightarrow> in_page q b \<Longrightarrow> m' b = m b"
  shows "iset l m' pt = iset l m pt" "lset l m' pt = lset l m pt" "twf l m' pt = twf l m pt"
    "lev0 l m' pt va = lev0 l m pt va"
proof -
  have "iset l m' pt = iset l m pt \<and> lset l m' pt = lset l m pt \<and> twf l m' pt = twf l m pt \<and>
    (\<forall>va. lev0 l m' pt va = lev0 l m pt va)"
    using assms
  proof (induction l arbitrary: pt)
    case (Suc l)
    have k: "kid m' pt i = kid m pt i" if "i < 512" for i
      using that Suc.prems [of pt] by (intro kid_cong) auto
    have IH: "iset l m' c = iset l m c \<and> lset l m' c = lset l m c \<and> twf l m' c = twf l m c \<and>
      (\<forall>va. lev0 l m' c va = lev0 l m c va)" if "i < 512" "kid m pt i = Some c" for i c
      using iset_kid [OF that] by (intro Suc.IH) (meson Suc.prems subsetD)
    have "iset (Suc l) m' pt = iset (Suc l) m pt" "lset (Suc l) m' pt = lset (Suc l) m pt"
      using IH by (auto simp: k split: option.splits)
    moreover have t: "tset l m' c = tset l m c" if "i < 512" "kid m pt i = Some c" for i c
      using IH [OF that] by (simp add: tset_def)
    have "twf (Suc l) m' pt = twf (Suc l) m pt"
    proof
      assume a: "twf (Suc l) m pt"
      have "twf l m' c" if "i < 512" "kid m pt i = Some c" for i c
        using IH [OF that] twf_kid [OF a that] by simp
      from twf_transfer [OF a k this t] show "twf (Suc l) m' pt" .
    next
      assume a: "twf (Suc l) m' pt"
      have k': "kid m pt i = kid m' pt i" if "i < 512" for i using that by (simp add: k)
      have w: "twf l m c" if "i < 512" "kid m' pt i = Some c" for i c
        using IH [of i c] that twf_kid [OF a that] by (simp add: k)
      have "tset l m c = tset l m' c" if "i < 512" "kid m' pt i = Some c" for i c
        using that t [of i c] by (simp add: k)
      from twf_transfer [OF a k' w this] show "twf (Suc l) m pt" .
    qed
    moreover have "lev0 (Suc l) m' pt va = lev0 (Suc l) m pt va" for va
      using IH [OF PX_bound] by (auto simp: k split: option.splits)
    ultimately show ?case by (intro conjI allI)
  qed simp
  then show "iset l m' pt = iset l m pt" "lset l m' pt = lset l m pt" "twf l m' pt = twf l m pt"
    "lev0 l m' pt va = lev0 l m pt va" by auto
qed

lemma lev0_lset: "lev0 l m pt va = Some q \<Longrightarrow> q \<in> lset l m pt"
proof (induction l arbitrary: pt)
  case (Suc l)
  then obtain c where "kid m pt (PX (Suc l) va) = Some c" "lev0 l m c va = Some q"
    by (auto split: option.splits)
  with Suc.IH show ?case by (auto intro!: exI [of _ "PX (Suc l) va"])
qed simp

lemma tree_page_frame:
  assumes "\<And>q b. q \<in> tset l m pt \<Longrightarrow> in_page q b \<Longrightarrow> m' b = m b"
  shows "tset l m' pt = tset l m pt" "twf l m' pt = twf l m pt" "leafv l m' pt va = leafv l m pt va"
proof -
  have i: "q \<in> iset l m pt \<Longrightarrow> in_page q b \<Longrightarrow> m' b = m b" for q b
    using assms [of q b] by (simp add: tset_def)
  show "tset l m' pt = tset l m pt" "twf l m' pt = twf l m pt"
    using tree_frame [of l m pt m', OF i] by (simp_all add: tset_def)
  show "leafv l m' pt va = leafv l m pt va"
  proof (cases "lev0 l m pt va")
    case None
    with tree_frame(4) [of l m pt m' va, OF i] show ?thesis by (simp add: leafv_def)
  next
    case (Some q)
    then have "load64 m' (slot q (PX 0 va)) = load64 m (slot q (PX 0 va))"
      using assms [of q] lev0_lset [OF Some] by (intro load_slot_cong) (auto simp: tset_def)
    with Some tree_frame(4) [of l m pt m' va, OF i] show ?thesis by (simp add: leafv_def)
  qed
qed

lemma twf_aligned: "twf l m pt \<Longrightarrow> q \<in> tset l m pt \<Longrightarrow> page_aligned q"
proof (induction l arbitrary: pt)
  case (Suc l)
  have "page_aligned q" if "i < 512" "kid m pt i = Some c" "q \<in> tset l m c" for i c
    using that Suc.IH twf_kid [OF Suc.prems(1)] by blast
  with Suc.prems show ?case by (auto simp: tset_Suc twf_root split: option.splits)
qed simp

lemma iset_lset_disjoint: "twf l m pt \<Longrightarrow> iset l m pt \<inter> lset l m pt = {}"
proof (induction l arbitrary: pt)
  case (Suc l)
  have "False" if i: "i < 512" "kid m pt i = Some c" "q \<in> lset l m c"
    and q: "q = pt \<or> (\<exists>j < 512. \<exists>d. kid m pt j = Some d \<and> q \<in> iset l m d)" for i c q
  proof -
    have c: "twf l m c" "pt \<notin> tset l m c" using twf_kid [OF Suc.prems] i by auto
    from q consider "q = pt" | j d where "j < 512" "kid m pt j = Some d" "q \<in> iset l m d" by blast
    then show False
    proof cases
      case 1
      with c(2) i(3) show False by (simp add: tset_def)
    next
      case (2 j d)
      show False
      proof (cases "i = j")
        case True
        with 2 i Suc.IH [OF c(1)] show False by auto
      next
        case False
        then have "tset l m c \<inter> tset l m d = {}" using twf_disjoint [OF Suc.prems] i(1,2) 2 by auto
        with 2 i(3) show False by (auto simp: tset_def)
      qed
    qed
  qed
  note no = this
  show ?case
  proof (rule equals0I)
    fix q assume q: "q \<in> iset (Suc l) m pt \<inter> lset (Suc l) m pt"
    then obtain i c where "i < 512" "kid m pt i = Some c" "q \<in> lset l m c"
      by (auto split: option.splits)
    moreover have "q = pt \<or> (\<exists>j < 512. \<exists>d. kid m pt j = Some d \<and> q \<in> iset l m d)"
      using q by (auto split: option.splits)
    ultimately show False by (rule no)
  qed
qed simp

text \<open>Addresses that share their level-0 table have the same indices above level 0.\<close>

lemma lev0_inj:
  "twf l m pt \<Longrightarrow> lev0 l m pt va = Some q \<Longrightarrow> lev0 l m pt va' = Some q \<Longrightarrow> 0 < k \<Longrightarrow> k \<le> l \<Longrightarrow>
   PX k va = PX k va'"
proof (induction l arbitrary: pt)
  case (Suc l)
  obtain c d where c: "kid m pt (PX (Suc l) va) = Some c" "lev0 l m c va = Some q"
    and d: "kid m pt (PX (Suc l) va') = Some d" "lev0 l m d va' = Some q"
    using Suc.prems by (auto split: option.splits)
  have "q \<in> tset l m c" "q \<in> tset l m d"
    using lev0_lset [OF c(2)] lev0_lset [OF d(2)] by (simp_all add: tset_def)
  then have eq: "PX (Suc l) va = PX (Suc l) va'"
    using twf_disjoint [OF Suc.prems(1) PX_bound c(1) PX_bound d(1)] by blast
  moreover have "PX k va = PX k va'" if "k \<le> l"
    using Suc.IH [of c] Suc.prems c d eq that twf_kid [OF Suc.prems(1) PX_bound c(1)] by simp
  ultimately show ?case using Suc.prems(5) le_Suc_eq by auto
qed simp

subsection \<open>Writing an entry of level 0\<close>

lemma aligned_page_frame:
  assumes "page_aligned q" "page_aligned r" "q \<noteq> r" "in_page q b"
  shows "\<not> in_page r b"
  using in_page_distinct [OF assms(2,1)] assms(3,4) by blast

lemma leaf_write_tree:
  assumes "twf l m pt" "lev0 l m pt va = Some q" "i < 512"
  shows "twf l (store64 m (slot q i) x) pt" "tset l (store64 m (slot q i) x) pt = tset l m pt"
    "lev0 l (store64 m (slot q i) x) pt va' = lev0 l m pt va'"
proof -
  have q: "q \<in> lset l m pt" using assms(2) by (rule lev0_lset)
  have "store64 m (slot q i) x b = m b" if r: "r \<in> iset l m pt" "in_page r b" for r b
  proof (rule store_slot_frame [OF assms(3)])
    have "r \<noteq> q" using iset_lset_disjoint [OF assms(1)] r(1) q by blast
    moreover have "page_aligned r" "page_aligned q"
      using twf_aligned [OF assms(1)] r(1) q by (simp_all add: tset_def)
    ultimately show "\<not> in_page q b" using r(2) aligned_page_frame by blast
  qed
  note f = tree_frame [of l m pt "store64 m (slot q i) x", OF this]
  show "twf l (store64 m (slot q i) x) pt" "tset l (store64 m (slot q i) x) pt = tset l m pt"
    "lev0 l (store64 m (slot q i) x) pt va' = lev0 l m pt va'"
    using f assms(1) by (simp_all add: tset_def)
qed

definition same_index :: "nat \<Rightarrow> uint64 \<Rightarrow> uint64 \<Rightarrow> bool" where
  "same_index l va va' \<longleftrightarrow> (\<forall>k \<le> l. PX k va = PX k va')"

lemma lev0_same_index: "same_index l va va' \<Longrightarrow> lev0 l m pt va = lev0 l m pt va'"
proof (induction l arbitrary: pt)
  case (Suc l)
  then have "same_index l va va'" "PX (Suc l) va = PX (Suc l) va'" by (auto simp: same_index_def)
  with Suc.IH show ?case by (simp split: option.splits)
qed simp

lemma leaf_write_leafv:
  assumes "twf l m pt" "lev0 l m pt va = Some q"
  shows "leafv l (store64 m (slot q (PX 0 va)) x) pt va' =
    (if same_index l va va' then x else leafv l m pt va')"
proof (cases "lev0 l m pt va'")
  case None
  then have "\<not> same_index l va va'" using assms(2) lev0_same_index by fastforce
  with None show ?thesis by (simp add: leafv_def leaf_write_tree(3) [OF assms PX_bound])
next
  case (Some q')
  have lv: "leafv l (store64 m (slot q (PX 0 va)) x) pt va' =
      load64 (store64 m (slot q (PX 0 va)) x) (slot q' (PX 0 va'))"
    using Some by (simp add: leafv_def leaf_write_tree(3) [OF assms PX_bound])
  show ?thesis
  proof (cases "q' = q")
    case True
    then have "PX k va = PX k va'" if "0 < k" "k \<le> l" for k
      using lev0_inj [OF assms] Some that by blast
    then have "same_index l va va' \<longleftrightarrow> PX 0 va = PX 0 va'"
      by (metis same_index_def gr0I le0)
    then show ?thesis unfolding lv using True Some
      by (simp add: load_store_slot leafv_def)
  next
    case False
    then have "\<not> same_index l va va'" using Some assms(2) lev0_same_index by fastforce
    moreover have "load64 (store64 m (slot q (PX 0 va)) x) (slot q' (PX 0 va')) =
      load64 m (slot q' (PX 0 va'))"
    proof (rule load_slot_cong [OF PX_bound])
      fix b assume "in_page q' b"
      moreover have "page_aligned q" "page_aligned q'"
        using twf_aligned [OF assms(1)] lev0_lset Some assms(2) by (auto simp: tset_def)
      ultimately have "\<not> in_page q b" using False aligned_page_frame by blast
      then show "store64 m (slot q (PX 0 va)) x b = m b" by (simp add: store_slot_frame)
    qed
    ultimately show ?thesis using lv Some by (simp add: leafv_def)
  qed
qed

subsection \<open>Growing the tree\<close>

text \<open>
  The memory \<open>m'\<close> has the same tree as \<open>m\<close> plus the pages \<open>N\<close>, and the same translations; only
  pages of the tree and of \<open>N\<close> have changed.
\<close>

definition grows :: "nat \<Rightarrow> memory \<Rightarrow> uint64 \<Rightarrow> memory \<Rightarrow> uint64 set \<Rightarrow> bool" where
  "grows l m pt m' N \<longleftrightarrow> twf l m' pt \<and> tset l m' pt = tset l m pt \<union> N \<and>
     (\<forall>va. leafv l m' pt va = leafv l m pt va) \<and>
     (\<forall>b. (\<forall>q \<in> tset l m pt \<union> N. \<not> in_page q b) \<longrightarrow> m' b = m b)"

lemma grows_refl: "twf l m pt \<Longrightarrow> grows l m pt m {}"
  by (simp add: grows_def)

lemma grows_trans: "grows l m pt m' N \<Longrightarrow> grows l m' pt m'' N' \<Longrightarrow> grows l m pt m'' (N \<union> N')"
  by (auto simp: grows_def)

lemma grows_frame:
  assumes "grows l m pt m' N" "twf l m pt" "\<And>q. q \<in> N \<Longrightarrow> page_aligned q"
    "page_aligned r" "r \<notin> tset l m pt \<union> N" "in_page r b"
  shows "m' b = m b"
proof -
  have "\<not> in_page q b" if "q \<in> tset l m pt \<union> N" for q
    using that assms aligned_page_frame [of r q b] twf_aligned [OF assms(2)] by blast
  with assms(1) show ?thesis by (simp add: grows_def)
qed

text \<open>The tree grows when it does so below one entry and the other subtrees stay.\<close>

lemma grows_at:
  assumes wf: "twf (Suc l) m pt" and i: "i < 512"
    and k: "\<And>j. j < 512 \<Longrightarrow> kid m' pt j = (if j = i then Some c else kid m pt j)"
    and c: "twf l m' c" "tset l m' c = (case kid m pt i of None \<Rightarrow> {} | Some d \<Rightarrow> tset l m d) \<union> N"
    and v: "\<And>va. leafv l m' c va = (case kid m pt i of None \<Rightarrow> 0 | Some d \<Rightarrow> leafv l m d va)"
    and N: "N \<inter> tset (Suc l) m pt = {}"
    and same: "\<And>j d q b. j < 512 \<Longrightarrow> kid m pt j = Some d \<Longrightarrow> j \<noteq> i \<Longrightarrow> q \<in> tset l m d \<Longrightarrow>
      in_page q b \<Longrightarrow> m' b = m b"
    and fr: "\<And>b. \<forall>q \<in> tset (Suc l) m pt \<union> N. \<not> in_page q b \<Longrightarrow> m' b = m b"
  shows "grows (Suc l) m pt m' N"
proof -
  have other: "tset l m' d = tset l m d" "twf l m' d" "leafv l m' d va = leafv l m d va"
    if d: "j < 512" "kid m pt j = Some d" "j \<noteq> i" for j d va
  proof -
    note f = tree_page_frame [of l m d m', OF same [OF d]]
    show "tset l m' d = tset l m d" "leafv l m' d va = leafv l m d va" by (rule f; assumption)+
    have "twf l m' d = twf l m d" by (rule f; assumption)
    then show "twf l m' d" using twf_kid [OF wf d(1,2)] by simp
  qed
  have "(case kid m' pt j of None \<Rightarrow> {} | Some d \<Rightarrow> tset l m' d) =
      (case kid m pt j of None \<Rightarrow> {} | Some d \<Rightarrow> tset l m d) \<union> (if j = i then N else {})"
    if "j < 512" for j
    using that other(1) [of j] c(2) by (auto simp: k split: option.splits)
  then have "(\<Union>j \<in> {j. j < 512}. case kid m' pt j of None \<Rightarrow> {} | Some d \<Rightarrow> tset l m' d) =
      (\<Union>j \<in> {j. j < 512}. (case kid m pt j of None \<Rightarrow> {} | Some d \<Rightarrow> tset l m d) \<union> (if j = i then N else {}))"
    by (intro SUP_cong) auto
  also have "\<dots> = (\<Union>j \<in> {j. j < 512}. case kid m pt j of None \<Rightarrow> {} | Some d \<Rightarrow> tset l m d) \<union> N"
    using i by (auto split: if_splits)
  finally have t: "tset (Suc l) m' pt = tset (Suc l) m pt \<union> N" by (simp add: tset_Suc)
  have "twf (Suc l) m' pt"
  proof (rule twf_SucI)
    show "page_aligned pt" using wf by (rule twf_root)
    have "pt \<notin> tset l m' c"
      using c(2) N root_tset [of pt "Suc l" m] twf_kid [OF wf i] by (auto split: option.splits)
    then show "twf l m' d \<and> pt \<notin> tset l m' d" if "j < 512" "kid m' pt j = Some d" for j d
      using that other [of j d] c(1) twf_kid [OF wf, of j d] by (cases "j = i") (auto simp: k)
    have disj: "tset l m' d \<inter> tset l m' c = {}" if "j < 512" "kid m pt j = Some d" "j \<noteq> i" for j d
      using other(1) [OF that] c(2) twf_disjoint [OF wf that(1,2) i] that(3) N tset_kid [OF that(1,2), of l]
      by (auto split: option.splits)
    show "tset l m' d \<inter> tset l m' e = {}"
      if "j < 512" "kid m' pt j = Some d" "h < 512" "kid m' pt h = Some e" "j \<noteq> h" for j d h e
      using that disj [of j d] disj [of h e] other(1) [of j d] other(1) [of h e] twf_disjoint [OF wf, of j d h e]
      by (cases "j = i"; cases "h = i") (auto simp: k)
  qed
  moreover have "leafv (Suc l) m' pt va = leafv (Suc l) m pt va" for va
    using v [of va] other(3) [OF PX_bound, where va = va]
    by (auto simp: leafv_def k split: option.splits if_splits)
  ultimately show ?thesis using t fr unfolding grows_def by blast
qed

lemma grows_keeps_kid:
  assumes wf: "twf (Suc l) m pt" and i: "i < 512" "kid m pt i = Some c" "j < 512"
    and g: "grows l m c m' N" and N: "N \<inter> tset (Suc l) m pt = {}" "\<And>q. q \<in> N \<Longrightarrow> page_aligned q"
  shows "kid m' pt j = kid m pt j"
proof (rule kid_cong [OF i(3)])
  fix b assume "in_page pt b"
  then show "m' b = m b"
    using twf_kid [OF wf i(1,2)] N root_tset [of pt "Suc l" m] twf_root [OF wf]
    by (intro grows_frame [OF g, of pt]) auto
qed

lemma grows_kid:
  assumes wf: "twf (Suc l) m pt" and i: "i < 512" "kid m pt i = Some c"
    and g: "grows l m c m' N" and N: "N \<inter> tset (Suc l) m pt = {}" "\<And>q. q \<in> N \<Longrightarrow> page_aligned q"
  shows "grows (Suc l) m pt m' N"
proof (rule grows_at [OF wf i(1)])
  have c: "twf l m c" "pt \<notin> tset l m c" using twf_kid [OF wf i] by auto
  have same: "m' b = m b" if "r \<in> tset (Suc l) m pt" "r \<notin> tset l m c" "in_page r b" for r b
    using that N twf_aligned [OF wf] by (intro grows_frame [OF g c(1)]) auto
  show "kid m' pt j = (if j = i then Some c else kid m pt j)" if "j < 512" for j
    using grows_keeps_kid [OF wf i that g N] i(2) by simp
  show "m' b = m b" if "j < 512" "kid m pt j = Some d" "j \<noteq> i" "q \<in> tset l m d" "in_page q b" for j d q b
    using that tset_kid [OF that(1,2), of l] twf_disjoint [OF wf i that(1,2)] by (intro same) auto
  show "m' b = m b" if "\<forall>q \<in> tset (Suc l) m pt \<union> N. \<not> in_page q b" for b
    using that g tset_kid [OF i, of l] unfolding grows_def by blast
qed (use g i(2) N(1) in \<open>auto simp: grows_def\<close>)

text \<open>A fresh, zeroed table page hung into an empty entry.\<close>

lemma zero_entry: "(\<And>b. in_page r b \<Longrightarrow> m b = 0) \<Longrightarrow> j < 512 \<Longrightarrow> load64 m (slot r j) = 0"
  using load_slot_cong [of j r m "\<lambda>_. 0"] by (simp add: load64_def)

lemma zero_tree:
  assumes "\<And>b. in_page r b \<Longrightarrow> m b = 0" "page_aligned r"
  shows "twf l m r" "tset l m r = {r}" "leafv l m r va = 0"
proof -
  have e: "load64 m (slot r j) = 0" if "j < 512" for j using zero_entry assms(1) that by blast
  then have k: "kid m r j = None" if "j < 512" for j using that by (simp add: kid_def)
  show "twf l m r"
  proof (cases l)
    case (Suc l')
    show ?thesis unfolding Suc using assms(2) by (rule twf_SucI) (simp_all add: k)
  qed (use assms(2) in simp)
  show "tset l m r = {r}" by (cases l) (auto simp: tset_Suc k)
  show "leafv l m r va = 0" by (cases l) (simp_all add: leafv_def k e)
qed

lemma grows_new:
  assumes wf: "twf (Suc l) m pt" and i: "i < 512" "kid m pt i = None"
    and r: "page_aligned r" "r \<notin> tset (Suc l) m pt"
  defines "m' \<equiv> store64 (memset r 0 (ucast PGSIZE) m) (slot pt i) (PA2PTE r OR PTE_V)"
  shows "grows (Suc l) m pt m' {r}" "kid m' pt i = Some r"
proof -
  have pr: "pt \<noteq> r" "page_aligned pt" using r(2) root_tset [of pt "Suc l" m] twf_root [OF wf] by auto
  have ms: "memset r 0 (ucast PGSIZE) m b = (if in_page r b then 0 else m b)" for b
    by (simp add: memset_page)
  have out: "m' b = (if in_page r b then 0 else m b)" if "\<not> in_page pt b" for b
    using that i(1) by (simp add: m'_def store_slot_frame ms)
  have zero: "m' b = 0" if "in_page r b" for b
    using out [of b] that in_page_distinct [OF pr(2) r(1) pr(1) that] by simp
  have same: "m' b = m b" if "q \<in> tset (Suc l) m pt" "q \<noteq> pt" "in_page q b" for q b
  proof -
    have "page_aligned q" using twf_aligned [OF wf that(1)] .
    then have "\<not> in_page pt b" "\<not> in_page r b"
      using that r pr aligned_page_frame [of q _ b] by blast+
    then show ?thesis using out by simp
  qed
  have ld: "load64 m' (slot pt j) = (if i = j then PA2PTE r OR PTE_V else load64 m (slot pt j))"
    if j: "j < 512" for j
  proof -
    have "load64 (memset r 0 (ucast PGSIZE) m) (slot pt j) = load64 m (slot pt j)"
    proof (rule load_slot_cong [OF j])
      fix b assume "in_page pt b"
      then have "\<not> in_page r b" using aligned_page_frame [OF pr(2) r(1) pr(1)] by blast
      then show "memset r 0 (ucast PGSIZE) m b = m b" by (simp add: ms)
    qed
    then show ?thesis using load_store_slot [OF i(1) j] by (simp add: m'_def)
  qed
  show ki: "kid m' pt i = Some r"
    using ld [OF i(1)] by (simp add: kid_def PTE2PA_PA2PTE [OF r(1)])
  have k: "kid m' pt j = (if j = i then Some r else kid m pt j)" if "j < 512" for j
    using ld [OF that] ki by (cases "j = i") (auto simp: kid_def)
  note z = zero_tree [of r m', OF zero r(1)]
  show "grows (Suc l) m pt m' {r}"
  proof (rule grows_at [OF wf i(1)])
    show "m' b = m b" if "j < 512" "kid m pt j = Some d" "j \<noteq> i" "q \<in> tset l m d" "in_page q b" for j d q b
      using that tset_kid [OF that(1,2), of l] twf_kid [OF wf that(1,2)] by (intro same) auto
    show "m' b = m b" if "\<forall>q \<in> tset (Suc l) m pt \<union> {r}. \<not> in_page q b" for b
      using that root_tset [of pt "Suc l" m] out [of b] by auto
  qed (use k z i(2) r(2) in auto)
qed

subsection \<open>The walk\<close>

lemma walk_loop_lookup: "walk_loop l pt va False s = Ok (lev0 l (mem s) pt va) s"
  by (induction l arbitrary: pt) (simp_all add: Let_def kid_def)

lemma walk_lookup:
  "va < MAXVA \<Longrightarrow> walk pt va False s =
     Ok (case lev0 2 (mem s) pt va of None \<Rightarrow> 0 | Some q \<Rightarrow> slot q (PX 0 va)) s"
  by (simp add: walk_def walk_loop_lookup not_le)

lemma kid_None: "kid m pt i = None \<longleftrightarrow> load64 m (slot pt i) AND PTE_V = 0"
  by (simp add: kid_def Let_def)

lemma kid_Some: "kid m pt i = Some c \<longleftrightarrow> load64 m (slot pt i) AND PTE_V \<noteq> 0 \<and> c = PTE2PA (load64 m (slot pt i))"
  by (auto simp: kid_def Let_def)

text \<open>
  With allocation: the tree grows by the pages taken from the front of the free list, and the
  walk fails only when the free list is exhausted.
\<close>

definition walk_post ::
  "nat \<Rightarrow> uint64 \<Rightarrow> uint64 \<Rightarrow> memory \<Rightarrow> uint64 list \<Rightarrow> uint64 option \<Rightarrow> uint64 list \<Rightarrow> memory \<Rightarrow> bool" where
  "walk_post l pt va m xs r ys m' \<longleftrightarrow> (\<exists>k \<le> length xs. ys = drop k xs \<and> grows l m pt m' (set (take k xs))) \<and>
     (case r of None \<Rightarrow> ys = [] | Some q \<Rightarrow> lev0 l m' pt va = Some q)"

lemma walk_post_kid:
  assumes wf: "twf (Suc l) m pt" and c: "kid m pt (PX (Suc l) va) = Some c"
    and w: "walk_post l c va m xs r ys m'"
    and xs: "tset (Suc l) m pt \<inter> set xs = {}" "\<And>q. q \<in> set xs \<Longrightarrow> page_aligned q"
  shows "walk_post (Suc l) pt va m xs r ys m'"
proof -
  obtain k where k: "k \<le> length xs" "ys = drop k xs" "grows l m c m' (set (take k xs))"
    using w by (auto simp: walk_post_def)
  have N: "set (take k xs) \<inter> tset (Suc l) m pt = {}" "q \<in> set (take k xs) \<Longrightarrow> page_aligned q" for q
    using xs set_take_subset [of k xs] by auto
  have "grows (Suc l) m pt m' (set (take k xs))" using grows_kid [OF wf PX_bound c k(3) N] .
  moreover have "kid m' pt (PX (Suc l) va) = Some c"
    using grows_keeps_kid [OF wf PX_bound c PX_bound k(3) N] c by simp
  ultimately show ?thesis using w k(1,2) by (auto simp: walk_post_def split: option.splits)
qed

lemma walk_post_new:
  assumes "grows l m pt m1 {a}" "walk_post l pt va m1 xs r ys m'"
  shows "walk_post l pt va m (a # xs) r ys m'"
proof -
  obtain k where k: "k \<le> length xs" "ys = drop k xs" "grows l m1 pt m' (set (take k xs))"
    using assms(2) by (auto simp: walk_post_def)
  have "grows l m pt m' (set (take (Suc k) (a # xs)))" using grows_trans [OF assms(1) k(3)] by simp
  moreover have "Suc k \<le> length (a # xs)" "ys = drop (Suc k) (a # xs)" using k by simp_all
  ultimately have "\<exists>k \<le> length (a # xs). ys = drop k (a # xs) \<and> grows l m pt m' (set (take k (a # xs)))"
    by blast
  then show ?thesis using assms(2) by (simp add: walk_post_def)
qed

lemma walk_post_refl:
  "twf l m pt \<Longrightarrow> (case r of None \<Rightarrow> xs = [] | Some q \<Rightarrow> lev0 l m pt va = Some q) \<Longrightarrow>
   walk_post l pt va m xs r xs m"
  by (auto simp: walk_post_def grows_refl intro!: exI [of _ 0])

text \<open>One table page: the allocator and the tree after it is hung in.\<close>

lemma new_table_ready:
  assumes "kmem_ready (s\<lparr>kmem_freelist := p, mem := m0\<rparr>) ys" "twf (Suc l) (mem s) pt"
    "tset (Suc l) (mem s) pt \<inter> set (a # ys) = {}" "page_aligned a" "a \<notin> set ys" "i < 512"
    "\<And>b. m0 b = (if in_page a b then 5 else mem s b)"
  shows "kmem_ready (s\<lparr>kmem_freelist := p,
    mem := store64 (memset a 0 (ucast PGSIZE) (mem s)) (slot pt i) x\<rparr>) ys"
proof -
  let ?m1 = "store64 (memset a 0 (ucast PGSIZE) (mem s)) (slot pt i) x"
  have "?m1 b = m0 b" if q: "q \<in> set ys" "in_page q b" for q b
  proof -
    have "q \<noteq> a" "q \<noteq> pt" using q assms(3,5) root_tset [of pt "Suc l" "mem s"] by auto
    then have "\<not> in_page a b" "\<not> in_page pt b"
      using aligned_page_frame [of q _ b] q kmem_ready_aligned [OF assms(1)] assms(4) twf_root [OF assms(2)]
      by blast+
    then show ?thesis by (simp add: store_slot_frame assms(6,7) memset_page)
  qed
  then show ?thesis using kmem_ready_mem [OF assms(1), of ?m1] by simp
qed

lemma walk_loop_alloc:
  assumes "kmem_ready s xs" "twf l (mem s) pt" "tset l (mem s) pt \<inter> set xs = {}"
  shows "\<exists>r ys m p. walk_loop l pt va True s = Ok r (s\<lparr>kmem_freelist := p, mem := m\<rparr>) \<and>
    kmem_ready (s\<lparr>kmem_freelist := p, mem := m\<rparr>) ys \<and> walk_post l pt va (mem s) xs r ys m"
  using assms
proof (induction l arbitrary: s xs pt)
  case 0
  then have "walk_post 0 pt va (mem s) xs (Some pt) xs (mem s)" by (intro walk_post_refl) simp_all
  with 0 show ?case
    by (intro exI [of _ "Some pt"] exI [of _ xs] exI [of _ "mem s"] exI [of _ "kmem_freelist s"]) simp
next
  case (Suc l)
  let ?m = "mem s" and ?i = "PX (Suc l) va"
  have al: "page_aligned q" if "q \<in> set xs" for q using that kmem_ready_aligned Suc.prems(1) by blast
  show ?case
  proof (cases "kid ?m pt ?i")
    case (Some c)
    have "twf l ?m c" "tset l ?m c \<inter> set xs = {}"
      using twf_kid [OF Suc.prems(2) PX_bound Some] tset_kid [OF PX_bound Some, of l] Suc.prems(3) by auto
    then obtain r ys m p where r: "walk_loop l c va True s = Ok r (s\<lparr>kmem_freelist := p, mem := m\<rparr>)"
      "kmem_ready (s\<lparr>kmem_freelist := p, mem := m\<rparr>) ys" "walk_post l c va ?m xs r ys m"
      using Suc.IH [OF Suc.prems(1)] by blast
    have "walk_post (Suc l) pt va ?m xs r ys m"
      using walk_post_kid [OF Suc.prems(2) Some r(3) Suc.prems(3) al] .
    moreover have "walk_loop (Suc l) pt va True s = walk_loop l c va True s"
      using Some by (simp add: kid_Some)
    ultimately show ?thesis using r(1,2) by auto
  next
    case None
    show ?thesis
    proof (cases xs)
      case Nil
      then have "walk_loop (Suc l) pt va True s = Ok None s"
        using None Suc.prems(1) by (simp add: kid_None kalloc_ready_none)
      moreover have "walk_post (Suc l) pt va ?m xs None xs ?m"
        using Nil Suc.prems(2) by (intro walk_post_refl) simp_all
      ultimately show ?thesis using Suc.prems(1)
        by (intro exI [of _ None] exI [of _ xs] exI [of _ "mem s"] exI [of _ "kmem_freelist s"]) simp
    next
      case (Cons a zs)
      obtain m0 p0 where a0: "kalloc s = Ok a (s\<lparr>kmem_freelist := p0, mem := m0\<rparr>)"
        "kmem_ready (s\<lparr>kmem_freelist := p0, mem := m0\<rparr>) zs" "a \<noteq> 0"
        "\<And>b. m0 b = (if in_page a b then 5 else ?m b)"
        using kalloc_ready_some Suc.prems(1) Cons by metis
      let ?m1 = "store64 (memset a 0 (ucast PGSIZE) ?m) (slot pt ?i) (PA2PTE a OR PTE_V)"
      let ?s1 = "s\<lparr>kmem_freelist := p0, mem := ?m1\<rparr>"
      have a: "page_aligned a" "a \<notin> tset (Suc l) ?m pt" "a \<notin> set zs"
        using al Cons Suc.prems(3) kmem_ready_distinct [OF Suc.prems(1)] by auto
      note n = grows_new [OF Suc.prems(2) PX_bound None a(1,2)]
      have ms: "memset a 0 (ucast PGSIZE) m0 = memset a 0 (ucast PGSIZE) ?m"
        by (simp add: memset_page a0(4) fun_eq_iff)
      have run: "walk_loop (Suc l) pt va True s = walk_loop l a va True ?s1"
        using None a0(1,3) by (simp add: kid_None Let_def ms)
      have k1: "kmem_ready ?s1 zs"
        using new_table_ready [OF a0(2) Suc.prems(2) _ a(1,3) PX_bound a0(4)] Suc.prems(3) Cons by simp
      have t1: "twf (Suc l) ?m1 pt" "tset (Suc l) ?m1 pt \<inter> set zs = {}"
        using n(1) a(3) Suc.prems(3) Cons by (auto simp: grows_def)
      have "twf l (mem ?s1) a" "tset l (mem ?s1) a \<inter> set zs = {}"
        using twf_kid [OF t1(1) PX_bound n(2)] tset_kid [OF PX_bound n(2), of l] t1(2) by auto
      from Suc.IH [OF k1 this] obtain r ys m p
        where r: "walk_loop l a va True ?s1 = Ok r (s\<lparr>kmem_freelist := p, mem := m\<rparr>)"
          "kmem_ready (s\<lparr>kmem_freelist := p, mem := m\<rparr>) ys" "walk_post l a va ?m1 zs r ys m"
        by auto
      have "walk_post (Suc l) pt va ?m1 zs r ys m"
        using al Cons by (intro walk_post_kid [OF t1(1) n(2) r(3) t1(2)]) auto
      then have "walk_post (Suc l) pt va ?m xs r ys m" unfolding Cons by (rule walk_post_new [OF n(1)])
      with r(1,2) run show ?thesis by auto
    qed
  qed
qed

subsection \<open>Virtual page numbers\<close>

lemma unat_drop_bit_div: "unat (drop_bit n a) = unat a div 2 ^ n" for a :: uint64
  by (simp only: unat_drop_bit_eq) (simp add: drop_bit_eq_div)

lemma MAXVA_nat: "va < MAXVA \<longleftrightarrow> unat va < 2 ^ 38"
  by (simp add: word_less_nat_alt MAXVA_def push_bit_eq_mult)

lemma MAXVA_bit: "va < MAXVA \<Longrightarrow> bit va n \<Longrightarrow> n < 38"
proof (rule ccontr)
  assume a: "va < MAXVA" "bit va n" "\<not> n < 38"
  then have "unat (drop_bit 38 va) = 0" by (simp only: MAXVA_nat unat_drop_bit_div) simp
  then have "drop_bit 38 va = 0" by (simp add: word_unat_eq_iff)
  moreover have "bit (drop_bit 38 va) (n - 38)" using a by (simp add: bit_drop_bit_eq)
  ultimately show False by simp
qed

lemma bit_PX: "bit (PX l va) j \<longleftrightarrow> j < 9 \<and> bit va (12 + 9 * l + j)"
proof -
  have m: "PXMASK = mask 9" by (simp add: PXMASK_def mask_eq_exp_minus_1)
  show ?thesis
    by (auto simp: PX_def m PXSHIFT_def PGSHIFT_def bit_simps dest: bit_imp_le_length)
qed

lemma same_index_page:
  assumes "va < MAXVA" "va' < MAXVA"
  shows "same_index 2 va va' \<longleftrightarrow> unat va div 4096 = unat va' div 4096"
proof -
  have "same_index 2 va va' \<longleftrightarrow> drop_bit 12 va = drop_bit 12 va'"
  proof
    assume s: "same_index 2 va va'"
    show "drop_bit 12 va = drop_bit 12 va'"
    proof (rule bit_word_eqI)
      fix n :: nat
      have "bit va (12 + n) = bit va' (12 + n)" if "n < 27"
      proof -
        have "n div 9 \<le> 2" using that by simp
        then have "PX (n div 9) va = PX (n div 9) va'" using s by (simp add: same_index_def)
        then have "bit (PX (n div 9) va) (n mod 9) = bit (PX (n div 9) va') (n mod 9)" by simp
        moreover have "12 + 9 * (n div 9) + n mod 9 = 12 + n" by simp
        ultimately show ?thesis by (simp add: bit_PX)
      qed
      moreover have "\<not> bit va (12 + n)" "\<not> bit va' (12 + n)" if "\<not> n < 27"
        using that MAXVA_bit [OF assms(1), of "12 + n"] MAXVA_bit [OF assms(2), of "12 + n"] by auto
      ultimately show "bit (drop_bit 12 va) n = bit (drop_bit 12 va') n"
        by (cases "n < 27") (simp_all add: bit_drop_bit_eq)
    qed
  next
    assume d: "drop_bit 12 va = drop_bit 12 va'"
    have "PX k va = PX k va'" for k
    proof -
      have "PX k x = drop_bit (9 * k) (drop_bit 12 x) AND PXMASK" for x :: uint64
        by (simp add: PX_def PXSHIFT_def PGSHIFT_def add.commute)
      then show ?thesis by (simp only: d)
    qed
    then show "same_index 2 va va'" by (simp add: same_index_def)
  qed
  also have "\<dots> \<longleftrightarrow> unat va div 4096 = unat va' div 4096"
    using unat_drop_bit_div [of 12 va] unat_drop_bit_div [of 12 va'] by (simp add: word_unat_eq_iff)
  finally show ?thesis .
qed

text \<open>The addresses of \<open>n\<close> pages from \<open>a\<close> on.\<close>

definition in_pages :: "uint64 \<Rightarrow> nat \<Rightarrow> uint64 \<Rightarrow> bool" where
  "in_pages a n va \<longleftrightarrow> unat a \<le> unat va \<and> unat va < unat a + 4096 * n"

lemma in_pages_one:
  assumes "page_aligned a" "a < MAXVA" "va < MAXVA"
  shows "in_pages a 1 va \<longleftrightarrow> same_index 2 a va"
proof -
  obtain k where "unat a = 4096 * k" using assms(1) by (auto simp: page_aligned_nat mod_eq_0_iff_dvd)
  then have "in_pages a 1 va \<longleftrightarrow> k = unat va div 4096"
    unfolding in_pages_def by (auto simp: div_nat_eqI)
  then show ?thesis using \<open>unat a = 4096 * k\<close> same_index_page [OF assms(2,3)] by simp
qed

lemma in_pages_round:
  assumes "page_aligned a" "in_pages a 1 va"
  shows "PGROUNDDOWN va = a"
proof -
  obtain k where k: "unat a = 4096 * k" using assms(1) by (auto simp: page_aligned_nat mod_eq_0_iff_dvd)
  then have "unat va div 4096 = k" using assms(2) unfolding in_pages_def by (auto simp: div_nat_eqI)
  then have "unat (PGROUNDDOWN va) = unat a"
    using k by (simp add: unat_PGROUNDDOWN minus_mod_eq_mult_div)
  then show ?thesis by (simp add: word_unat_eq_iff)
qed

lemma page_step:
  assumes "unat a + 4096 \<le> 2 ^ 38"
  shows "unat (a + PGSIZE) = unat a + 4096" "page_aligned (a + PGSIZE) = page_aligned a"
    "in_pages a (Suc n) va \<longleftrightarrow> in_pages a 1 va \<or> in_pages (a + PGSIZE) n va"
proof -
  show u: "unat (a + PGSIZE) = unat a + 4096"
    using assms by (subst unat_add_64) (simp_all add: PGSIZE_def)
  show "page_aligned (a + PGSIZE) = page_aligned a" by (simp add: page_aligned_nat u)
  show "in_pages a (Suc n) va \<longleftrightarrow> in_pages a 1 va \<or> in_pages (a + PGSIZE) n va"
    by (auto simp: in_pages_def u)
qed

subsection \<open>Mapping pages\<close>

text \<open>
  A page table \<open>pt\<close> beside a free list \<open>xs\<close>: the table is well formed, none of its pages is
  page 0 or on the free list.
\<close>

definition space :: "'a phys_state_scheme \<Rightarrow> uint64 \<Rightarrow> uint64 list \<Rightarrow> bool" where
  "space s pt xs \<longleftrightarrow> kmem_ready s xs \<and> twf 2 (mem s) pt \<and> 0 \<notin> tset 2 (mem s) pt \<and>
     tset 2 (mem s) pt \<inter> set xs = {}"

abbreviation entry :: "'a phys_state_scheme \<Rightarrow> uint64 \<Rightarrow> uint64 \<Rightarrow> uint64" where
  "entry s pt va \<equiv> leafv 2 (mem s) pt va"

text \<open>
  What an operation on the table may change of the rest of the state: it takes pages \<open>N\<close> for
  new tables, and memory outside the tables stays.
\<close>

definition table_step :: "'a phys_state_scheme \<Rightarrow> uint64 \<Rightarrow> 'a phys_state_scheme \<Rightarrow> uint64 set \<Rightarrow> bool" where
  "table_step s pt t N \<longleftrightarrow> t = s\<lparr>kmem_freelist := kmem_freelist t, mem := mem t\<rparr> \<and>
     tset 2 (mem t) pt = tset 2 (mem s) pt \<union> N \<and>
     (\<forall>b. (\<forall>q \<in> tset 2 (mem s) pt \<union> N. \<not> in_page q b) \<longrightarrow> mem t b = mem s b)"

lemma table_step_refl: "table_step s pt s {}"
  by (simp add: table_step_def)

lemma table_step_trans:
  assumes "table_step s pt t N" "table_step t pt u M"
  shows "table_step s pt u (N \<union> M)"
proof -
  have "t = s\<lparr>kmem_freelist := kmem_freelist t, mem := mem t\<rparr>"
    "u = t\<lparr>kmem_freelist := kmem_freelist u, mem := mem u\<rparr>"
    using assms by (simp_all add: table_step_def)
  then have "u = s\<lparr>kmem_freelist := kmem_freelist u, mem := mem u\<rparr>"
    by (cases s, cases t, cases u) simp
  then show ?thesis using assms by (auto simp: table_step_def)
qed

lemma kmem_ready_nonzero: "kmem_ready s xs \<Longrightarrow> 0 \<notin> set xs"
  using page_ok_nonzero by (auto simp: kmem_ready_def kmem_inv_def)

lemma slot_nonzero:
  assumes "page_aligned q" "q \<noteq> 0" "i < 512"
  shows "slot q i \<noteq> 0"
proof
  assume "slot q i = 0"
  then have "in_page q 0" using slot_in_page [OF assms(3), of 0 q] by simp
  moreover have "in_page 0 0" "page_aligned 0" by (simp_all add: in_page_def page_aligned_nat)
  ultimately show False using in_page_distinct [of q 0 0] assms by auto
qed

lemma walk_alloc:
  assumes sp: "space s pt xs" and va: "va < MAXVA"
  shows "\<exists>pte t k. walk pt va True s = Ok pte t \<and> k \<le> length xs \<and> space t pt (drop k xs) \<and>
    table_step s pt t (set (take k xs)) \<and> (\<forall>va'. entry t pt va' = entry s pt va') \<and>
    (if pte = 0 then drop k xs = [] else \<exists>q. lev0 2 (mem t) pt va = Some q \<and> pte = slot q (PX 0 va))"
proof -
  obtain r ys m p where w: "walk_loop 2 pt va True s = Ok r (s\<lparr>kmem_freelist := p, mem := m\<rparr>)"
    "kmem_ready (s\<lparr>kmem_freelist := p, mem := m\<rparr>) ys" "walk_post 2 pt va (mem s) xs r ys m"
    using walk_loop_alloc [of s xs 2 pt va] sp by (auto simp: space_def)
  let ?t = "s\<lparr>kmem_freelist := p, mem := m\<rparr>"
  obtain k where k: "k \<le> length xs" "ys = drop k xs" "grows 2 (mem s) pt m (set (take k xs))"
    using w(3) by (auto simp: walk_post_def)
  have xs: "0 \<notin> set xs" "distinct xs" using kmem_ready_nonzero kmem_ready_distinct sp by (auto simp: space_def)
  then have "set (take k xs) \<inter> set (drop k xs) = {}" by (simp add: set_take_disj_set_drop_if_distinct)
  then have sp': "space ?t pt (drop k xs)"
    using w(2) k sp xs(1) set_take_subset [of k xs] set_drop_subset [of k xs]
    by (auto simp: space_def grows_def)
  have st: "table_step s pt ?t (set (take k xs))" using k(3) by (simp add: table_step_def grows_def)
  have en: "\<forall>va'. entry ?t pt va' = entry s pt va'" using k(3) by (simp add: grows_def)
  show ?thesis
  proof (cases r)
    case None
    then have "walk pt va True s = Ok 0 ?t" "drop k xs = []"
      using w k(2) va by (simp_all add: walk_def walk_post_def not_le)
    then show ?thesis using sp' st en k(1) by (intro exI [of _ 0] exI [of _ ?t] exI [of _ k]) simp
  next
    case (Some q)
    then have "walk pt va True s = Ok (slot q (PX 0 va)) ?t" and l: "lev0 2 m pt va = Some q"
      using w va by (simp_all add: walk_def walk_post_def not_le)
    moreover have "q \<in> tset 2 m pt" using lev0_lset [OF l] by (simp add: tset_def)
    then have "page_aligned q" "q \<noteq> 0" using sp' twf_aligned [of 2 m pt q] by (auto simp: space_def)
    then have "slot q (PX 0 va) \<noteq> 0" by (intro slot_nonzero PX_bound)
    ultimately show ?thesis using sp' st en k(1)
      by (intro exI [of _ "slot q (PX 0 va)"] exI [of _ ?t] exI [of _ k]) simp
  qed
qed

lemma write_entry:
  fixes s :: "'a phys_state_scheme" and x :: uint64
  assumes "space s pt xs" "lev0 2 (mem s) pt va = Some q"
  defines "t \<equiv> write_pte (slot q (PX 0 va)) x s"
  shows "space t pt xs" "table_step s pt t {}" "entry t pt va' = (if same_index 2 va va' then x else entry s pt va')"
proof -
  have wf: "twf 2 (mem s) pt" using assms(1) by (simp add: space_def)
  note w = leaf_write_tree [OF wf assms(2) PX_bound]
  have q: "q \<in> tset 2 (mem s) pt" using lev0_lset [OF assms(2)] by (simp add: tset_def)
  have out: "mem t b = mem s b" if "\<not> in_page q b" for b
    using that by (simp add: t_def store_slot_frame)
  have "kmem_ready t xs"
    unfolding t_def
  proof (rule kmem_ready_mem)
    show "kmem_ready s xs" using assms(1) by (simp add: space_def)
    fix a b assume a: "a \<in> set xs" "in_page a b"
    have "\<not> in_page q b"
      using aligned_page_frame [of a q b] a q twf_aligned [OF wf q] assms(1) kmem_ready_aligned
      by (auto simp: space_def)
    then show "store64 (mem s) (slot q (PX 0 va)) x b = mem s b" by (simp add: store_slot_frame)
  qed
  then show "space t pt xs" using assms(1) w by (simp add: space_def t_def)
  show "table_step s pt t {}" using q out w by (auto simp: table_step_def t_def)
  show "entry t pt va' = (if same_index 2 va va' then x else entry s pt va')"
    by (simp add: t_def leaf_write_leafv [OF wf assms(2)])
qed

lemma read_entry: "lev0 2 (mem s) pt va = Some q \<Longrightarrow> read_pte s (slot q (PX 0 va)) = entry s pt va"
  by (simp add: leafv_def)

text \<open>
  The result of mapping \<open>n\<close> pages from \<open>a\<close>: either every page of the range has its entry, or
  -1 is returned because memory ran out; outside the range no entry changes.
\<close>

definition mapped :: "'a phys_state_scheme \<Rightarrow> uint64 \<Rightarrow> uint64 \<Rightarrow> nat \<Rightarrow> uint64 \<Rightarrow> uint64 \<Rightarrow> int \<Rightarrow>
    'a phys_state_scheme \<Rightarrow> bool" where
  "mapped s pt a n pa perm r t \<longleftrightarrow>
     (\<forall>va. va < MAXVA \<longrightarrow> \<not> in_pages a n va \<longrightarrow> entry t pt va = entry s pt va) \<and>
     (r = 0 \<longrightarrow> (\<forall>va. va < MAXVA \<longrightarrow> in_pages a n va \<longrightarrow>
        entry t pt va = PA2PTE (pa + (PGROUNDDOWN va - a)) OR perm OR PTE_V))"

lemma mappages_one:
  assumes "space s pt xs" "page_aligned a" "a < MAXVA" "entry s pt a AND PTE_V = 0"
  obtains (fail) t k where "mappages_loop pt a lst pa perm s = Ok (- 1) t" "k \<le> length xs"
      "space t pt (drop k xs)" "table_step s pt t (set (take k xs))" "drop k xs = []"
      "\<And>va. entry t pt va = entry s pt va"
  | (step) t k where "mappages_loop pt a lst pa perm s =
       (if a = lst then Ok 0 t else mappages_loop pt (a + PGSIZE) lst (pa + PGSIZE) perm t)"
      "k \<le> length xs" "space t pt (drop k xs)" "table_step s pt t (set (take k xs))"
      "\<And>va. va < MAXVA \<Longrightarrow>
        entry t pt va = (if in_pages a 1 va then PA2PTE pa OR perm OR PTE_V else entry s pt va)"
proof -
  obtain pte t k where w: "walk pt a True s = Ok pte t" "k \<le> length xs" "space t pt (drop k xs)"
    "table_step s pt t (set (take k xs))" "\<And>va'. entry t pt va' = entry s pt va'"
    "if pte = 0 then drop k xs = [] else \<exists>q. lev0 2 (mem t) pt a = Some q \<and> pte = slot q (PX 0 a)"
    using walk_alloc [OF assms(1,3)] by blast
  show thesis
  proof (cases "pte = 0")
    case True
    with w have "mappages_loop pt a lst pa perm s = Ok (- 1) t" by (simp add: mappages_loop.simps)
    with w True show thesis by (intro fail [of t k]) simp_all
  next
    case False
    with w(6) obtain q where q: "lev0 2 (mem t) pt a = Some q" "pte = slot q (PX 0 a)" by auto
    let ?u = "write_pte pte (PA2PTE pa OR perm OR PTE_V) t"
    note we = write_entry [OF w(3) q(1), where x = "PA2PTE pa OR perm OR PTE_V", folded q(2)]
    have "mappages_loop pt a lst pa perm s =
       (if a = lst then Ok 0 ?u else mappages_loop pt (a + PGSIZE) lst (pa + PGSIZE) perm ?u)"
      using w(1,5) False assms(4) read_entry [OF q(1)] q(2) by (subst mappages_loop.simps) (simp add: Let_def)
    moreover have "entry ?u pt va = (if in_pages a 1 va then PA2PTE pa OR perm OR PTE_V else entry s pt va)"
      if "va < MAXVA" for va
      using we(3) [of va] w(5) in_pages_one [OF assms(2,3) that] by simp
    moreover have "table_step s pt ?u (set (take k xs))" using table_step_trans [OF w(4) we(2)] by simp
    ultimately show thesis using w(2) we(1) by (intro step [of ?u k])
  qed
qed

lemma mapped_fail: "(\<And>va. entry t pt va = entry s pt va) \<Longrightarrow> mapped s pt a n pa perm (- 1) t"
  by (simp add: mapped_def)

lemma mapped_one:
  assumes "page_aligned a" "\<And>va. va < MAXVA \<Longrightarrow>
    entry t pt va = (if in_pages a 1 va then PA2PTE pa OR perm OR PTE_V else entry s pt va)"
  shows "mapped s pt a 1 pa perm 0 t"
  using assms by (simp add: mapped_def in_pages_round)

lemma mapped_Suc:
  assumes a: "page_aligned a" "unat a + 4096 \<le> 2 ^ 38"
    and t: "\<And>va. va < MAXVA \<Longrightarrow>
      entry t pt va = (if in_pages a 1 va then PA2PTE pa OR perm OR PTE_V else entry s pt va)"
    and u: "mapped t pt (a + PGSIZE) n (pa + PGSIZE) perm r u"
  shows "mapped s pt a (Suc n) pa perm r u"
proof -
  note st = page_step [OF a(2)]
  have "entry u pt va = entry s pt va" if "va < MAXVA" "\<not> in_pages a (Suc n) va" for va
    using u t that st(3) [of n va] by (auto simp: mapped_def)
  moreover have "entry u pt va = PA2PTE (pa + (PGROUNDDOWN va - a)) OR perm OR PTE_V"
    if "r = 0" "va < MAXVA" "in_pages a (Suc n) va" for va
  proof (cases "in_pages a 1 va")
    case True
    then have "\<not> in_pages (a + PGSIZE) n va" by (simp add: in_pages_def st(1))
    then show ?thesis using True u t that by (simp add: mapped_def in_pages_round [OF a(1) True])
  next
    case False
    then have "in_pages (a + PGSIZE) n va" using that(3) st(3) [of n va] by blast
    then have "entry u pt va = PA2PTE (pa + PGSIZE + (PGROUNDDOWN va - (a + PGSIZE))) OR perm OR PTE_V"
      using u that by (simp add: mapped_def)
    then show ?thesis by simp
  qed
  ultimately show ?thesis by (simp add: mapped_def)
qed

lemma pages_nonzero:
  assumes "4096 * n \<le> 2 ^ 38" "0 < n"
  shows "of_nat n * PGSIZE \<noteq> (0 :: uint64)"
proof -
  have "(of_nat n :: uint64) * PGSIZE = of_nat (n * 4096)" by (simp add: PGSIZE_def)
  moreover have "unat (of_nat (n * 4096) :: uint64) = n * 4096" using assms(1) by (intro unat_of_nat_64) simp
  ultimately show ?thesis using assms(2) by (metis mult_is_0 neq0_conv unat_0 zero_neq_numeral)
qed

lemma mappages_loop_spec:
  assumes "space s pt xs" "page_aligned a" "unat a + 4096 * Suc n \<le> 2 ^ 38"
    "lst = a + of_nat n * PGSIZE"
    "\<And>va. va < MAXVA \<Longrightarrow> in_pages a (Suc n) va \<Longrightarrow> entry s pt va AND PTE_V = 0"
  shows "\<exists>r t k. mappages_loop pt a lst pa perm s = Ok r t \<and> k \<le> length xs \<and> space t pt (drop k xs) \<and>
    table_step s pt t (set (take k xs)) \<and> (r = 0 \<or> r = - 1 \<and> drop k xs = []) \<and>
    mapped s pt a (Suc n) pa perm r t"
  using assms
proof (induction n arbitrary: s xs a pa)
  case (0 s xs a pa)
  have a: "a < MAXVA" "in_pages a 1 a" using "0.prems"(3) by (simp_all add: MAXVA_nat in_pages_def)
  have "entry s pt a AND PTE_V = 0" using "0.prems"(5) a by simp
  from "0.prems"(1,2) a(1) this show ?case
  proof (cases rule: mappages_one [of s pt xs a lst pa perm])
    case (fail t k)
    then show ?thesis
      using mapped_fail [OF fail(6)] by (intro exI [of _ "- 1"] exI [of _ t] exI [of _ k]) simp
  next
    case (step t k)
    then show ?thesis using mapped_one [OF "0.prems"(2) step(5)] "0.prems"(4)
      by (intro exI [of _ 0] exI [of _ t] exI [of _ k]) simp
  qed
next
  case (Suc n s xs a pa)
  have b: "unat a + 4096 \<le> 2 ^ 38" "a < MAXVA" using Suc.prems(3) by (simp_all add: MAXVA_nat)
  note st = page_step [OF b(1)]
  have "entry s pt a AND PTE_V = 0" using Suc.prems(5) b by (simp add: in_pages_def)
  from Suc.prems(1,2) b(2) this show ?case
  proof (cases rule: mappages_one [of s pt xs a lst pa perm])
    case (fail t k)
    then show ?thesis
      using mapped_fail [OF fail(6)] by (intro exI [of _ "- 1"] exI [of _ t] exI [of _ k]) simp
  next
    case (step t k)
    have ne: "a \<noteq> lst" using Suc.prems(3,4) pages_nonzero [of "Suc n"] by simp
    have "entry t pt va AND PTE_V = 0" if "va < MAXVA" "in_pages (a + PGSIZE) (Suc n) va" for va
    proof -
      have "\<not> in_pages a 1 va" using that(2) st(1) by (simp add: in_pages_def)
      then show ?thesis using step(5) [of va] that Suc.prems(5) [of va] st(3) [of "Suc n" va] by auto
    qed
    moreover have "unat (a + PGSIZE) + 4096 * Suc n \<le> 2 ^ 38" using Suc.prems(3) unfolding st(1) by simp
    moreover have "page_aligned (a + PGSIZE)" using Suc.prems(2) unfolding st(2) .
    moreover have "lst = a + PGSIZE + of_nat n * PGSIZE" unfolding Suc.prems(4) by (simp add: distrib_right)
    ultimately obtain r u j where u: "mappages_loop pt (a + PGSIZE) lst (pa + PGSIZE) perm t = Ok r u"
      "j \<le> length (drop k xs)" "space u pt (drop j (drop k xs))" "table_step t pt u (set (take j (drop k xs)))"
      "r = 0 \<or> r = - 1 \<and> drop j (drop k xs) = []" "mapped t pt (a + PGSIZE) (Suc n) (pa + PGSIZE) perm r u"
      using Suc.IH [OF step(3), of "a + PGSIZE" "pa + PGSIZE"] by blast
    have "table_step s pt u (set (take (k + j) xs))"
      using table_step_trans [OF step(4) u(4)] by (simp add: take_add)
    then show ?thesis
      using u step(1,2) ne mapped_Suc [OF Suc.prems(2) b(1) step(5) u(6)]
      by (intro exI [of _ r] exI [of _ u] exI [of _ "k + j"]) (simp add: add.commute)
  qed
qed

subsection \<open>Looking up\<close>

lemma walk_entry:
  assumes "twf 2 (mem s) pt" "0 \<notin> tset 2 (mem s) pt" "va < MAXVA"
  obtains (none) "walk pt va False s = Ok 0 s" "entry s pt va = 0"
  | (some) q where "walk pt va False s = Ok (slot q (PX 0 va)) s" "lev0 2 (mem s) pt va = Some q"
      "slot q (PX 0 va) \<noteq> 0"
proof (cases "lev0 2 (mem s) pt va")
  case None
  with assms(3) show thesis by (intro none) (simp_all add: walk_lookup leafv_def)
next
  case (Some q)
  have "q \<in> tset 2 (mem s) pt" using lev0_lset [OF Some] by (simp add: tset_def)
  then have "slot q (PX 0 va) \<noteq> 0"
    using assms(1,2) twf_aligned slot_nonzero PX_bound by metis
  with Some assms(3) show thesis by (intro some) (simp_all add: walk_lookup)
qed

lemma walkaddr_eq:
  assumes "twf 2 (mem s) pt" "0 \<notin> tset 2 (mem s) pt" "va < MAXVA"
  shows "walkaddr pt va s = Ok (if entry s pt va AND PTE_V \<noteq> 0 \<and> entry s pt va AND PTE_U \<noteq> 0
    then PTE2PA (entry s pt va) else 0) s"
  using assms
proof (cases rule: walk_entry)
  case none
  with assms(3) show ?thesis by (simp add: walkaddr_def)
next
  case (some q)
  have "\<not> va \<ge> MAXVA" using assms(3) by simp
  with some show ?thesis unfolding walkaddr_def by (simp add: read_entry)
qed

subsection \<open>Properties\<close>

text \<open>
  C24. \<open>mappages\<close> over a range of pages none of which is mapped never panics.  If it returns 0, the
  entry of every address of the range points to the matching physical page with the given
  permissions; if it returns -1, the free list is exhausted.  In both cases no entry outside the
  range changes, and the table stays well formed and disjoint from the free list.
\<close>

theorem mappages_correct:
  assumes "space s pt xs" "page_aligned va" "0 < n" "unat va + 4096 * n \<le> 2 ^ 38"
    "\<And>v. v < MAXVA \<Longrightarrow> in_pages va n v \<Longrightarrow> entry s pt v AND PTE_V = 0"
  shows "\<exists>r t ys. mappages pt va (of_nat n * PGSIZE) pa perm s = Ok r t \<and> space t pt ys \<and>
    (r = 0 \<or> r = - 1 \<and> ys = []) \<and>
    (\<forall>v < MAXVA. \<not> in_pages va n v \<longrightarrow> entry t pt v = entry s pt v) \<and>
    (r = 0 \<longrightarrow> (\<forall>v < MAXVA. in_pages va n v \<longrightarrow>
       entry t pt v = PA2PTE (pa + (PGROUNDDOWN v - va)) OR perm OR PTE_V))"
proof -
  obtain k where k: "n = Suc k" using assms(3) by (cases n) auto
  have sz: "of_nat n * PGSIZE \<noteq> 0" using assms(3,4) by (intro pages_nonzero) simp_all
  have "(of_nat n * PGSIZE) mod PGSIZE = (0 :: uint64)"
  proof -
    have "page_aligned (of_nat (n * 4096))"
      using assms(4) unfolding page_aligned_nat by (subst unat_of_nat_64) simp_all
    then show ?thesis by (simp add: page_aligned_def PGSIZE_def)
  qed
  moreover have e: "va + of_nat n * PGSIZE - PGSIZE = va + of_nat k * PGSIZE"
    by (simp add: k distrib_right)
  ultimately have "mappages pt va (of_nat n * PGSIZE) pa perm s =
      mappages_loop pt va (va + of_nat k * PGSIZE) pa perm s"
    using assms(2) sz unfolding mappages_def e page_aligned_def by simp
  then show ?thesis
    using mappages_loop_spec [OF assms(1,2) _ refl, of k pa perm] assms(4,5)
    unfolding k mapped_def by fastforce
qed

text \<open>An empty page table in the sample machine.\<close>

lemma sample_space: "space (sample_phys z) 0x87ffe000 [0x87fff000]"
proof -
  have "mem (sample_phys z) = (\<lambda>_. 0)" by (simp add: sample_phys_def)
  moreover have "page_aligned 0x87ffe000" by (simp add: page_aligned_def PGSIZE_def)
  note zero_tree [of "0x87ffe000" "\<lambda>_. 0" 2, OF _ this]
  ultimately show ?thesis by (simp add: space_def kmem_ready_def)
qed

lemma sample_entry: "entry (sample_phys z) 0x87ffe000 va = 0"
  using zero_tree(3) [of "0x87ffe000" "\<lambda>_. 0" 2 va] by (simp add: sample_phys_def page_aligned_def PGSIZE_def)

theorem mappages_correct_witness:
  "\<exists>r t ys. mappages 0x87ffe000 0 (of_nat 1 * PGSIZE) 0x80300000 (PTE_R OR PTE_U) (sample_phys ()) = Ok r t \<and>
    space t 0x87ffe000 ys \<and> (r = 0 \<or> r = - 1 \<and> ys = [])"
proof -
  have "page_aligned 0" by (simp add: page_aligned_def)
  then show ?thesis
    using mappages_correct [OF sample_space, of 0 1 "()" "0x80300000" "PTE_R OR PTE_U"]
    by (auto simp: sample_entry)
qed

end
