(* ===== verification/Uservm.thy ===== *)
theory Uservm
  imports Pagetable
begin

section \<open>User memory through a page table\<close>

text \<open>
  The user's view of memory through a page table, and what the routines of \<open>vm.c\<close> that work on user
  memory do to it: \<open>copyout\<close> writes it, \<open>copyin\<close> reads it back, \<open>uvmunmap\<close> clears mappings and returns
  the pages to the allocator.
\<close>

text \<open>The physical address a virtual address translates to.\<close>

definition uaddr :: "memory \<Rightarrow> uint64 \<Rightarrow> uint64 \<Rightarrow> uint64" where
  "uaddr m pt va = PTE2PA (leafv 2 m pt va) + (va - PGROUNDDOWN va)"

text \<open>A range of \<open>n\<close> bytes is present: each of its pages is a mapped user page.\<close>

definition present :: "memory \<Rightarrow> uint64 \<Rightarrow> uint64 \<Rightarrow> nat \<Rightarrow> bool" where
  "present m pt va n \<longleftrightarrow> unat va + n \<le> 2 ^ 38 \<and>
     (\<forall>i < n. let e = leafv 2 m pt (va + of_nat i)
              in e AND PTE_V \<noteq> 0 \<and> e AND PTE_U \<noteq> 0 \<and> PTE2PA e \<noteq> 0)"

lemma page_aligned_PTE2PA: "page_aligned (PTE2PA e)"
proof -
  have "take_bit 12 (PTE2PA e) = 0" unfolding PTE2PA_def by (rule bit_word_eqI) (simp add: bit_simps)
  then show ?thesis by (simp add: page_aligned_def PGSIZE_def take_bit_eq_mod)
qed

lemma unat_plus_small: "unat va + i \<le> 2 ^ 38 \<Longrightarrow> unat (va + of_nat i) = unat va + i" for va :: uint64
proof -
  assume a: "unat va + i \<le> 2 ^ 38"
  then have "i < 2 ^ 64" by simp
  then have u: "unat (of_nat i :: uint64) = i" by (rule unat_of_nat_64)
  then show ?thesis using a by (subst unat_add_64) simp_all
qed

lemma leafv_same_page:
  assumes "va < MAXVA" "va' < MAXVA" "unat va div 4096 = unat va' div 4096"
  shows "leafv 2 m pt va = leafv 2 m pt va'"
proof -
  have s: "same_index 2 va va'" using same_index_page [OF assms(1,2)] assms(3) by simp
  then have "PX 0 va = PX 0 va'" by (simp add: same_index_def)
  then show ?thesis by (simp add: leafv_def lev0_same_index [OF s] split: option.splits)
qed

text \<open>The number of bytes from an address to the end of its page.\<close>

definition page_left :: "uint64 \<Rightarrow> nat" where
  "page_left va = 4096 - unat va mod 4096"

lemma page_left_pos [simp]: "0 < page_left va"
  by (simp add: page_left_def)

lemma page_left_rest: "unat (PGSIZE - (va - PGROUNDDOWN va)) = page_left va"
  by (simp add: page_rest page_left_def)

lemma page_left_div: "i < page_left va \<Longrightarrow> (unat va + i) div 4096 = unat va div 4096"
proof (rule div_nat_eqI)
  assume i: "i < page_left va"
  show "4096 * (unat va div 4096) \<le> unat va + i" by (rule le_trans [OF times_div_less_eq_dividend]) simp
  have "unat va = 4096 * (unat va div 4096) + unat va mod 4096" by simp
  moreover have "unat va mod 4096 < 4096" by simp
  ultimately show "unat va + i < 4096 * Suc (unat va div 4096)"
    using i unfolding page_left_def mult_Suc_right by linarith
qed

text \<open>Positions within the first page of a range.\<close>

lemma first_page:
  assumes "unat va + n \<le> 2 ^ 38" "i < n" "i < page_left va"
  shows "leafv 2 m pt (va + of_nat i) = leafv 2 m pt va" "PGROUNDDOWN (va + of_nat i) = PGROUNDDOWN va"
    "uaddr m pt (va + of_nat i) = uaddr m pt va + of_nat i"
proof -
  have u: "unat (va + of_nat i) = unat va + i" using assms by (intro unat_plus_small) simp
  have d: "(unat va + i) div 4096 = unat va div 4096" using assms(3) by (rule page_left_div)
  have "va < MAXVA" "va + of_nat i < MAXVA" using u assms by (simp_all add: MAXVA_nat)
  then show l: "leafv 2 m pt (va + of_nat i) = leafv 2 m pt va"
    using d u by (intro leafv_same_page) simp_all
  have "unat (PGROUNDDOWN (va + of_nat i)) = unat (PGROUNDDOWN va)"
    using d u by (simp add: unat_PGROUNDDOWN minus_mod_eq_mult_div)
  then show r: "PGROUNDDOWN (va + of_nat i) = PGROUNDDOWN va" by (simp add: word_unat_eq_iff)
  show "uaddr m pt (va + of_nat i) = uaddr m pt va + of_nat i"
    unfolding uaddr_def l r by (simp add: algebra_simps)
qed

lemma in_page_uaddr: "in_page (PTE2PA (leafv 2 m pt va)) (uaddr m pt va)"
proof -
  have "unat va mod 4096 < 4096" by simp
  then show ?thesis by (simp add: uaddr_def in_page_def page_offset)
qed

text \<open>The rest of a range starts at the next page.\<close>

lemma next_page:
  assumes "unat va + n \<le> 2 ^ 38" "page_left va < n"
  shows "PGROUNDDOWN va + PGSIZE = va + of_nat (page_left va)"
    "unat (PGROUNDDOWN va + PGSIZE) = unat va + page_left va"
proof -
  have u: "unat (va + of_nat (page_left va)) = unat va + page_left va"
    using assms by (intro unat_plus_small) simp
  have "unat va mod 4096 < 4096" "unat va mod 4096 \<le> unat va" by simp_all
  moreover have "unat (PGROUNDDOWN va + PGSIZE) = unat va - unat va mod 4096 + 4096"
    using assms by (subst unat_add_64) (simp_all add: unat_PGROUNDDOWN PGSIZE_def)
  ultimately show v: "unat (PGROUNDDOWN va + PGSIZE) = unat va + page_left va"
    unfolding page_left_def by linarith
  then show "PGROUNDDOWN va + PGSIZE = va + of_nat (page_left va)" using u by (simp add: word_unat_eq_iff)
qed

lemma unat_div_PGROUNDDOWN: "unat (PGROUNDDOWN va) div 4096 = unat va div 4096"
  by (simp add: unat_PGROUNDDOWN minus_mod_eq_mult_div)

lemma present_first:
  assumes "present m pt va n" "0 < n"
  shows "PGROUNDDOWN va < MAXVA" "leafv 2 m pt (PGROUNDDOWN va) = leafv 2 m pt va"
    "leafv 2 m pt va AND PTE_V \<noteq> 0" "leafv 2 m pt va AND PTE_U \<noteq> 0" "PTE2PA (leafv 2 m pt va) \<noteq> 0"
proof -
  have va: "va < MAXVA" using assms by (simp add: present_def MAXVA_nat)
  then show r: "PGROUNDDOWN va < MAXVA" by (simp add: MAXVA_nat unat_PGROUNDDOWN)
  show "leafv 2 m pt (PGROUNDDOWN va) = leafv 2 m pt va"
    by (rule leafv_same_page [OF r va]) (rule unat_div_PGROUNDDOWN)
  show "leafv 2 m pt va AND PTE_V \<noteq> 0" "leafv 2 m pt va AND PTE_U \<noteq> 0" "PTE2PA (leafv 2 m pt va) \<noteq> 0"
    using assms by (auto simp: present_def Let_def dest!: spec [of _ 0])
qed

lemma present_rest:
  assumes "present m pt va n" "page_left va < n"
  shows "present m pt (PGROUNDDOWN va + PGSIZE) (n - page_left va)"
proof -
  have le: "unat va + n \<le> 2 ^ 38" using assms(1) by (simp add: present_def)
  note np = next_page [OF le assms(2)]
  have e: "va + of_nat (page_left va) + of_nat i = va + of_nat (page_left va + i)" for i
    by (simp only: of_nat_add add.assoc)
  show ?thesis using assms le np(2) unfolding present_def np(1) e by (simp add: Let_def del: of_nat_add)
qed

subsection \<open>copyin reads the user's view\<close>

lemma copyin_present:
  assumes "twf 2 (mem s) pt" "0 \<notin> tset 2 (mem s) pt" "present (mem s) pt va n"
  shows "copyin pt va n s = Ok (0, map (\<lambda>i. mem s (uaddr (mem s) pt (va + of_nat i))) [0..<n]) s"
  using assms(3)
proof (induction n arbitrary: va rule: less_induct)
  case (less n)
  show ?case
  proof (cases "n = 0")
    case True
    then show ?thesis by (simp add: copyin.simps)
  next
    case False
    let ?k = "page_left va"
    let ?j = "min ?k n"
    have k: "0 < ?k" by simp
    have le: "unat va + n \<le> 2 ^ 38" using less.prems by (simp add: present_def)
    note p = present_first [OF less.prems] False
    have pa: "walkaddr pt (PGROUNDDOWN va) s = Ok (PTE2PA (leafv 2 (mem s) pt va)) s"
      using walkaddr_eq [OF assms(1,2) p(1)] p False by simp
    have bs: "read_bytes (mem s) (PTE2PA (leafv 2 (mem s) pt va) + (va - PGROUNDDOWN va)) ?j =
        map (\<lambda>i. mem s (uaddr (mem s) pt (va + of_nat i))) [0..<?j]"
      using first_page(3) [OF le] by (auto simp: read_bytes_def uaddr_def [symmetric])
    have rest: "copyin pt (PGROUNDDOWN va + PGSIZE) (n - ?j) s =
        Ok (0, map (\<lambda>i. mem s (uaddr (mem s) pt (va + of_nat i))) [?j..<n]) s"
    proof (cases "?k < n")
      case True
      note np = next_page(1) [OF le True]
      have "copyin pt (PGROUNDDOWN va + PGSIZE) (n - ?k) s = Ok (0, map (\<lambda>i. mem s (uaddr (mem s) pt
          (PGROUNDDOWN va + PGSIZE + of_nat i))) [0..<n - ?k]) s"
        using present_rest [OF less.prems True] True k by (intro less.IH) simp_all
      also have "map (\<lambda>i. mem s (uaddr (mem s) pt (PGROUNDDOWN va + PGSIZE + of_nat i))) [0..<n - ?k] =
          map (\<lambda>i. mem s (uaddr (mem s) pt (va + of_nat i))) [?k..<n]"
        by (rule nth_equalityI) (simp_all add: np add.assoc flip: of_nat_add)
      finally show ?thesis using True by simp
    qed (simp add: copyin.simps)
    have "map f [0..<?j] @ map f [?j..<n] = map f [0..<n]" for f :: "nat \<Rightarrow> byte"
      using upt_add_eq_append [of 0 ?j "n - ?j"] by (simp flip: map_append)
    then show ?thesis
      using False pa p(5) rest bs
      by (subst copyin.simps) (simp add: Let_def page_left_rest)
  qed
qed

subsection \<open>copyout writes the user's view\<close>

text \<open>
  A range that can be written: present and writable, and its pages are neither page-table pages
  nor shared between different virtual pages of the range.
\<close>

definition target :: "memory \<Rightarrow> uint64 \<Rightarrow> uint64 \<Rightarrow> nat \<Rightarrow> bool" where
  "target m pt va n \<longleftrightarrow> present m pt va n \<and>
     (\<forall>i < n. leafv 2 m pt (va + of_nat i) AND PTE_W \<noteq> 0 \<and>
        PTE2PA (leafv 2 m pt (va + of_nat i)) \<notin> tset 2 m pt) \<and>
     (\<forall>i < n. \<forall>j < n. PTE2PA (leafv 2 m pt (va + of_nat i)) = PTE2PA (leafv 2 m pt (va + of_nat j)) \<longrightarrow>
        PGROUNDDOWN (va + of_nat i) = PGROUNDDOWN (va + of_nat j))"

lemma data_write:
  assumes "twf l m pt" "page_aligned p" "p \<notin> tset l m pt" "\<And>b. \<not> in_page p b \<Longrightarrow> m' b = m b"
  shows "twf l m' pt" "tset l m' pt = tset l m pt" "leafv l m' pt va = leafv l m pt va"
proof -
  have "m' b = m b" if "q \<in> tset l m pt" "in_page q b" for q b
    using that assms aligned_page_frame [of q p b] twf_aligned [OF assms(1), of q] by blast
  note f = tree_page_frame [of l m pt m', OF this]
  show "tset l m' pt = tset l m pt" "leafv l m' pt va = leafv l m pt va" by (rule f; assumption)+
  have "twf l m' pt = twf l m pt" by (rule f; assumption)
  then show "twf l m' pt" using assms(1) by simp
qed

lemma page_left_in_page:
  assumes "unat va + n \<le> 2 ^ 38" "x < n" "x < page_left va"
  shows "in_page (PTE2PA (leafv 2 m pt va)) (uaddr m pt va + of_nat x)"
  using in_page_uaddr [of m pt "va + of_nat x"] first_page [OF assms] by simp

text \<open>One page of \<open>copyout\<close>: the memory after the bytes that fit have been written.\<close>

lemma chunk_write:
  fixes m :: memory and pt :: uint64
  assumes le: "unat va + length src \<le> 2 ^ 38" and j: "j = min (page_left va) (length src)"
  defines "m1 \<equiv> write_bytes m (uaddr m pt va) (take j src)"
  shows "i < j \<Longrightarrow> m1 (uaddr m pt (va + of_nat i)) = src ! i"
    "(\<And>i. i < j \<Longrightarrow> b \<noteq> uaddr m pt (va + of_nat i)) \<Longrightarrow> m1 b = m b"
    "\<not> in_page (PTE2PA (leafv 2 m pt va)) b \<Longrightarrow> m1 b = m b"
proof -
  have len: "length (take j src) = j" "j < 2 ^ 64" using le j by simp_all
  then have m1: "m1 b = (if unat (b - uaddr m pt va) < j then src ! unat (b - uaddr m pt va) else m b)" for b
    using write_bytes_eq [of "take j src" m "uaddr m pt va"] by (simp add: m1_def)
  have ua: "uaddr m pt (va + of_nat i) = uaddr m pt va + of_nat i" if "i < j" for i
    using that j by (intro first_page(3) [OF le]) simp_all
  show "m1 (uaddr m pt (va + of_nat i)) = src ! i" if "i < j"
  proof -
    have "unat (of_nat i :: uint64) = i" using that len(2) by (intro unat_of_nat_64) simp
    then show ?thesis using that m1 ua by simp
  qed
  show out: "m1 b = m b" if "\<And>i. i < j \<Longrightarrow> b \<noteq> uaddr m pt (va + of_nat i)" for b
    using m1 [of b] that [of "unat (b - uaddr m pt va)"] ua [of "unat (b - uaddr m pt va)"] by auto
  show "m1 b = m b" if b: "\<not> in_page (PTE2PA (leafv 2 m pt va)) b"
  proof (rule out)
    fix i assume "i < j"
    then show "b \<noteq> uaddr m pt (va + of_nat i)"
      using page_left_in_page [OF le, of i m pt] b j ua [of i] by auto
  qed
qed

text \<open>
  The effect of a copy on memory: the bytes of the range have their new values, every other byte
  and the whole page table are as before.
\<close>

definition copied :: "memory \<Rightarrow> uint64 \<Rightarrow> uint64 \<Rightarrow> byte list \<Rightarrow> memory \<Rightarrow> bool" where
  "copied m pt va src m' \<longleftrightarrow> twf 2 m' pt \<and> tset 2 m' pt = tset 2 m pt \<and>
     (\<forall>v. leafv 2 m' pt v = leafv 2 m pt v) \<and>
     (\<forall>i < length src. m' (uaddr m pt (va + of_nat i)) = src ! i) \<and>
     (\<forall>b. (\<forall>i < length src. b \<noteq> uaddr m pt (va + of_nat i)) \<longrightarrow> m' b = m b)"

lemma uaddr_same: "(\<And>v. leafv 2 m' pt v = leafv 2 m pt v) \<Longrightarrow> uaddr m' pt v = uaddr m pt v"
  by (simp add: uaddr_def)

text \<open>Different addresses of a writable range are different bytes of memory.\<close>

lemma target_inj:
  assumes "target m pt va n" "i < n" "j < n" "uaddr m pt (va + of_nat i) = uaddr m pt (va + of_nat j)"
  shows "i = j"
proof -
  let ?p = "\<lambda>i. PTE2PA (leafv 2 m pt (va + of_nat i))"
  have le: "unat va + n \<le> 2 ^ 38" using assms(1) by (simp add: target_def present_def)
  have "?p i = ?p j"
    using in_page_uaddr [of m pt "va + of_nat i"] in_page_uaddr [of m pt "va + of_nat j"] assms(4)
      aligned_page_frame [OF page_aligned_PTE2PA page_aligned_PTE2PA] by metis
  moreover from this have "PGROUNDDOWN (va + of_nat i) = PGROUNDDOWN (va + of_nat j)"
    using assms(1-3) unfolding target_def by blast
  ultimately have "va + of_nat i = va + of_nat j" using assms(4) by (simp add: uaddr_def)
  then have "unat (va + of_nat i) = unat (va + of_nat j)" by simp
  then show ?thesis using unat_plus_small [of va i] unat_plus_small [of va j] assms(2,3) le by simp
qed

lemma copied_append:
  assumes tg: "target m pt va (length (xs @ ys))"
    and m1: "copied m pt va xs m1" and m': "copied m1 pt (va + of_nat (length xs)) ys m'"
  shows "copied m pt va (xs @ ys) m'"
proof -
  let ?j = "length xs"
  have ua: "uaddr m1 pt v = uaddr m pt v" for v using m1 by (intro uaddr_same) (simp add: copied_def)
  have np: "va + of_nat ?j + of_nat i = va + of_nat (?j + i)" for i by (simp add: add.assoc)
  have rest: "m' (uaddr m pt (va + of_nat (?j + i))) = ys ! i" if "i < length ys" for i
    using m' that by (simp add: copied_def np ua del: of_nat_add)
  have out: "m' b = m1 b" if "\<And>i. i < length ys \<Longrightarrow> b \<noteq> uaddr m pt (va + of_nat (?j + i))" for b
    using m' that by (simp add: copied_def np ua del: of_nat_add)
  have "m' (uaddr m pt (va + of_nat i)) = (xs @ ys) ! i" if i: "i < length (xs @ ys)" for i
  proof (cases "i < ?j")
    case True
    have "m' (uaddr m pt (va + of_nat i)) = m1 (uaddr m pt (va + of_nat i))"
    proof (rule out)
      fix h assume "h < length ys"
      then show "uaddr m pt (va + of_nat i) \<noteq> uaddr m pt (va + of_nat (?j + h))"
        using target_inj [OF tg i, of "?j + h"] True by (auto simp del: of_nat_add)
    qed
    then show ?thesis using m1 True by (simp add: copied_def nth_append)
  next
    case False
    then show ?thesis using rest [of "i - ?j"] i by (simp add: nth_append)
  qed
  moreover have "m' b = m b" if b: "\<forall>i < length (xs @ ys). b \<noteq> uaddr m pt (va + of_nat i)" for b
  proof -
    have "m' b = m1 b" using b by (intro out) (simp del: of_nat_add)
    also have "\<dots> = m b" using b m1 by (simp add: copied_def)
    finally show ?thesis .
  qed
  ultimately show ?thesis using m1 m' by (simp add: copied_def)
qed

lemma target_sub:
  assumes "target m pt va n" "k + l \<le> n"
  shows "target m pt (va + of_nat k) l"
proof -
  have le: "unat va + n \<le> 2 ^ 38" using assms(1) by (simp add: target_def present_def)
  then have u: "unat (va + of_nat k) = unat va + k" using assms(2) by (intro unat_plus_small) simp
  have e: "va + of_nat k + of_nat i = va + of_nat (k + i)" for i by (simp only: of_nat_add add.assoc)
  show ?thesis using assms le u unfolding target_def present_def e by (simp add: Let_def del: of_nat_add)
qed

lemma target_copied:
  assumes "copied m pt va' src m'" "target m pt va n"
  shows "target m' pt va n"
proof -
  have "leafv 2 m' pt = leafv 2 m pt \<and> tset 2 m' pt = tset 2 m pt"
    using assms(1) unfolding copied_def fun_eq_iff by (elim conjE) (intro conjI)
  then have "target m' pt va n = target m pt va n" by (simp only: target_def present_def)
  with assms(2) show ?thesis by simp
qed

text \<open>One round of the loop of \<open>copyout\<close> on such a range.\<close>

lemma copyout_round:
  assumes "twf 2 (mem s) pt" "0 \<notin> tset 2 (mem s) pt" "target (mem s) pt va (length src)" "src \<noteq> []"
    and j: "j = min (page_left va) (length src)"
  shows "copyout pt va src s = copyout pt (PGROUNDDOWN va + PGSIZE) (drop j src)
    (s\<lparr>mem := write_bytes (mem s) (uaddr (mem s) pt va) (take j src)\<rparr>)"
proof -
  let ?e = "leafv 2 (mem s) pt va"
  have pr: "present (mem s) pt va (length src)" "0 < length src" using assms(3,4) by (simp_all add: target_def)
  note p = present_first [OF pr]
  have w: "?e AND PTE_W \<noteq> 0" using assms(3) pr(2) by (auto simp: target_def dest!: spec [of _ 0])
  have pa: "walkaddr pt (PGROUNDDOWN va) s = Ok (PTE2PA ?e) s"
    using walkaddr_eq [OF assms(1,2) p(1)] p by simp
  have "\<exists>pte. walk pt (PGROUNDDOWN va) False s = Ok pte s \<and> pte \<noteq> 0 \<and> read_pte s pte = ?e"
    using assms(1,2) p(1)
  proof (cases rule: walk_entry)
    case none
    with p(2,3) show ?thesis by simp
  next
    case (some q)
    with p(2) show ?thesis by (auto simp: read_entry)
  qed
  then show ?thesis using assms(4) pa p(1,5) w
    by (subst copyout.simps) (auto simp: Let_def page_left_rest not_le j [symmetric] uaddr_def)
qed

lemma copyout_target:
  assumes "twf 2 (mem s) pt" "0 \<notin> tset 2 (mem s) pt" "target (mem s) pt va (length src)"
  shows "\<exists>m. copyout pt va src s = Ok 0 (s\<lparr>mem := m\<rparr>) \<and> copied (mem s) pt va src m"
  using assms
proof (induction "length src" arbitrary: va src s rule: less_induct)
  case less
  let ?m = "mem s"
  show ?case
  proof (cases "src = []")
    case True
    then show ?thesis using less.prems by (auto simp: copyout.simps copied_def intro!: exI [of _ ?m])
  next
    case False
    define j where "j = min (page_left va) (length src)"
    define m1 where "m1 = write_bytes ?m (uaddr ?m pt va) (take j src)"
    have le: "unat va + length src \<le> 2 ^ 38" using less.prems(3) by (simp add: target_def present_def)
    have pg: "PTE2PA (leafv 2 ?m pt va) \<notin> tset 2 ?m pt"
      using less.prems(3) False by (auto simp: target_def dest!: spec [of _ 0])
    note cw = chunk_write [OF le j_def, where m = ?m and pt = pt, folded m1_def]
    note dw = data_write [OF less.prems(1) page_aligned_PTE2PA pg, of m1, OF cw(3)]
    note run = copyout_round [OF less.prems False j_def, folded m1_def]
    show ?thesis
    proof (cases "page_left va < length src")
      case False
      then have j: "j = length src" by (simp add: j_def)
      then have "copyout pt va src s = Ok 0 (s\<lparr>mem := m1\<rparr>)" using run by (simp add: copyout.simps)
      moreover have "copied ?m pt va src m1" using dw cw(1,2) j by (simp add: copied_def)
      ultimately show ?thesis by blast
    next
      case True
      then have j: "j = page_left va" "j < length src" by (simp_all add: j_def)
      have np: "PGROUNDDOWN va + PGSIZE = va + of_nat j" using next_page(1) [OF le True] j by simp
      have c1: "copied ?m pt va (take j src) m1" using dw cw(1,2) j by (simp add: copied_def)
      have "target m1 pt (va + of_nat j) (length (drop j src))"
        using target_copied [OF c1 target_sub [OF less.prems(3), of j]] j by simp
      moreover have "length (drop j src) < length src" using False j by (simp add: diff_less)
      ultimately obtain m where m: "copyout pt (va + of_nat j) (drop j src) (s\<lparr>mem := m1\<rparr>) = Ok 0 (s\<lparr>mem := m\<rparr>)"
        "copied m1 pt (va + of_nat j) (drop j src) m"
        using less.hyps [of "drop j src" "s\<lparr>mem := m1\<rparr>" "va + of_nat j"] dw less.prems(2) by auto
      have "copied ?m pt va src m"
        using copied_append [of ?m pt va "take j src" "drop j src" m1 m] less.prems(3) c1 m(2) j by simp
      with m(1) run np show ?thesis by auto
    qed
  qed
qed

text \<open>
  C23. What \<open>copyout\<close> stores in user memory, \<open>copyin\<close> reads back: on a range of mapped, writable user
  pages, \<open>copyout\<close> returns 0, changes exactly the bytes the range translates to and no translation,
  and \<open>copyin\<close> of the same range then returns 0 and the bytes that were copied out, however many
  pages the range spans.
\<close>

theorem copyout_copyin_roundtrip:
  assumes "twf 2 (mem s) pt" "0 \<notin> tset 2 (mem s) pt" "target (mem s) pt va (length src)"
  shows "\<exists>t. copyout pt va src s = Ok 0 t \<and> copyin pt va (length src) t = Ok (0, src) t \<and>
    (\<forall>v. entry t pt v = entry s pt v) \<and>
    (\<forall>b. (\<forall>i < length src. b \<noteq> uaddr (mem s) pt (va + of_nat i)) \<longrightarrow> mem t b = mem s b)"
proof -
  obtain m where m: "copyout pt va src s = Ok 0 (s\<lparr>mem := m\<rparr>)" "copied (mem s) pt va src m"
    using copyout_target [OF assms] by blast
  have "present m pt va (length src)"
    using assms(3) m(2) by (simp add: target_def present_def copied_def)
  then have "copyin pt va (length src) (s\<lparr>mem := m\<rparr>) =
      Ok (0, map (\<lambda>i. m (uaddr m pt (va + of_nat i))) [0..<length src]) (s\<lparr>mem := m\<rparr>)"
    using copyin_present [of "s\<lparr>mem := m\<rparr>"] m(2) assms(2) by (simp add: copied_def)
  moreover have "map (\<lambda>i. m (uaddr m pt (va + of_nat i))) [0..<length src] = src"
    using m(2) by (intro nth_equalityI) (simp_all add: uaddr_def copied_def)
  ultimately show ?thesis using m by (intro exI [of _ "s\<lparr>mem := m\<rparr>"]) (simp add: copied_def)
qed

subsection \<open>A sample user page\<close>

text \<open>
  The sample machine with a user page table: root \<open>0x87ffe000\<close>, tables \<open>0x87ffd000\<close> and
  \<open>0x87ffc000\<close>, and virtual page 0 mapped to the page at \<open>0x87ffb000\<close>, which the user may read
  and write.
\<close>

definition sample_tables :: memory where
  "sample_tables =
     (let m1 = store64 (memset 0x87ffd000 0 (ucast PGSIZE) (\<lambda>_. 0)) (slot 0x87ffe000 0) (PA2PTE 0x87ffd000 OR PTE_V)
      in store64 (memset 0x87ffc000 0 (ucast PGSIZE) m1) (slot 0x87ffd000 0) (PA2PTE 0x87ffc000 OR PTE_V))"

definition sample_flags :: uint64 where
  "sample_flags = PTE_R OR PTE_W OR PTE_U OR PTE_V"

definition sample_umem :: memory where
  "sample_umem = store64 sample_tables (slot 0x87ffc000 0) (PA2PTE 0x87ffb000 OR sample_flags)"

lemma sample_aligned [simp]:
  "page_aligned 0x87ffe000" "page_aligned 0x87ffd000" "page_aligned 0x87ffc000" "page_aligned 0x87ffb000"
  "page_aligned 0x87fff000"
  by (simp_all add: page_aligned_def PGSIZE_def)

lemma sample_tables_grows:
  "twf 2 sample_tables 0x87ffe000" "tset 2 sample_tables 0x87ffe000 = {0x87ffe000, 0x87ffd000, 0x87ffc000}"
  "lev0 2 sample_tables 0x87ffe000 0 = Some 0x87ffc000" "leafv 2 sample_tables 0x87ffe000 va = 0"
proof -
  let ?r = "0x87ffe000" and ?a = "0x87ffd000" and ?b = "0x87ffc000" and ?z = "\<lambda>_ :: uint64. 0 :: byte"
  define m1 where "m1 = store64 (memset ?a 0 (ucast PGSIZE) ?z) (slot ?r 0) (PA2PTE ?a OR PTE_V)"
  note z = zero_tree [of ?r ?z, OF refl sample_aligned(1)]
  have e: "load64 ?z x = 0" for x by (simp add: load64_def)
  have "kid ?z ?r 0 = None" by (simp add: kid_def e)
  note n1 = grows_new [OF z(1) [of "Suc 1"] _ this sample_aligned(2), unfolded z(2), folded m1_def]
  have g1: "grows (Suc 1) ?z ?r m1 {?a}" "kid m1 ?r 0 = Some ?a" using n1 by simp_all
  then have w1: "twf (Suc 1) m1 ?r" "tset (Suc 1) m1 ?r = {?r, ?a}"
    using z(2) [of "Suc 1"] by (auto simp: grows_def)
  have a1: "m1 x = 0" if "in_page ?a x" for x
    using that in_page_distinct [OF sample_aligned(1,2), of x]
    by (simp add: m1_def store_slot_frame memset_page)
  have za: "twf l m1 ?a" "tset l m1 ?a = {?a}" for l
    using zero_tree(1,2) [of ?a m1 l] a1 by auto
  have "kid m1 ?a 0 = None" using zero_entry [of ?a m1 0, OF a1] by (simp add: kid_def)
  note n2 = grows_new [OF za(1) [of "Suc 0"] _ this sample_aligned(3), unfolded za(2)]
  have st: "sample_tables = store64 (memset ?b 0 (ucast PGSIZE) m1) (slot ?a 0) (PA2PTE ?b OR PTE_V)"
    by (simp add: sample_tables_def m1_def Let_def)
  have g2: "grows 1 m1 ?a sample_tables {?b}" "kid sample_tables ?a 0 = Some ?b"
    using n2 by (simp_all add: st)
  have N: "{?b} \<inter> tset (Suc 1) m1 ?r = {}" "q \<in> {?b} \<Longrightarrow> page_aligned q" for q using w1(2) by auto
  have g3: "grows (Suc 1) m1 ?r sample_tables {?b}"
    using grows_kid [OF w1(1) _ g1(2) g2(1) N] by simp
  have k: "kid sample_tables ?r 0 = Some ?a"
    using grows_keeps_kid [OF w1(1) _ g1(2) _ g2(1) N, of 0] g1(2) by simp
  have two: "2 = Suc 1" by simp
  note g = grows_trans [OF g1(1) g3]
  then show "twf 2 sample_tables ?r" "tset 2 sample_tables ?r = {?r, ?a, ?b}"
    "leafv 2 sample_tables ?r va = 0"
    unfolding two using z(2,3) [of "Suc 1"] by (auto simp: grows_def)
  have "PX n 0 = 0" for n by (simp add: PX_def)
  then show "lev0 2 sample_tables ?r 0 = Some ?b" unfolding two using k g2(2) by simp
qed

lemma sample_umem_facts:
  "twf 2 sample_umem 0x87ffe000" "tset 2 sample_umem 0x87ffe000 = {0x87ffe000, 0x87ffd000, 0x87ffc000}"
  "unat va < 4096 \<Longrightarrow> leafv 2 sample_umem 0x87ffe000 va = PA2PTE 0x87ffb000 OR sample_flags"
proof -
  note t = sample_tables_grows
  have px: "PX 0 0 = 0" by (simp add: PX_def)
  note w = leaf_write_tree [OF t(1,3), of 0, unfolded sample_umem_def [symmetric]]
  show "twf 2 sample_umem 0x87ffe000" "tset 2 sample_umem 0x87ffe000 = {0x87ffe000, 0x87ffd000, 0x87ffc000}"
    using w t(2) by (simp_all add: sample_umem_def)
  assume va: "unat va < 4096"
  then have "same_index 2 0 va" by (subst same_index_page) (simp_all add: MAXVA_nat)
  then show "leafv 2 sample_umem 0x87ffe000 va = PA2PTE 0x87ffb000 OR sample_flags"
    using leaf_write_leafv [OF t(1,3)] by (simp add: sample_umem_def px)
qed

lemma sample_flags_bits:
  "(PA2PTE pa OR sample_flags) AND PTE_V \<noteq> 0" "(PA2PTE pa OR sample_flags) AND PTE_U \<noteq> 0"
  "(PA2PTE pa OR sample_flags) AND PTE_W \<noteq> 0"
  by (simp_all only: and_flag_iff) (simp_all add: sample_flags_def bit_simps pte_defs)

lemma sample_pa: "PTE2PA (PA2PTE 0x87ffb000 OR sample_flags) = 0x87ffb000"
  by (rule PTE2PA_PA2PTE) (simp_all add: sample_flags_def)

lemma sample_target: "n \<le> 4096 \<Longrightarrow> target sample_umem 0x87ffe000 0 n"
proof -
  assume n: "n \<le> 4096"
  then have i: "unat (of_nat i :: uint64) = i" if "i < n" for i using that by (intro unat_of_nat_64) simp
  then have e: "leafv 2 sample_umem 0x87ffe000 (of_nat i) = PA2PTE 0x87ffb000 OR sample_flags" if "i < n" for i
    using that n by (intro sample_umem_facts(3)) simp
  have "PGROUNDDOWN (of_nat i) = 0" if "i < n" for i
    using that n i by (simp add: word_unat_eq_iff unat_PGROUNDDOWN)
  then show ?thesis using n
    by (simp add: target_def present_def Let_def e sample_pa sample_flags_bits sample_umem_facts(2))
qed

theorem copyout_copyin_roundtrip_witness:
  "\<exists>t. copyout 0x87ffe000 0 [104, 105] ((sample_procs ())\<lparr>mem := sample_umem\<rparr>) = Ok 0 t \<and>
     copyin 0x87ffe000 0 (length [104 :: byte, 105]) t = Ok (0, [104, 105]) t"
  using copyout_copyin_roundtrip [of "(sample_procs ())\<lparr>mem := sample_umem\<rparr>" "0x87ffe000" 0 "[104, 105]"]
    sample_target [of "length [104 :: byte, 105]"] sample_umem_facts(1,2)
  by auto

end
