(* ===== verification/Procmem.thy ===== *)
theory Procmem
  imports Uservm
begin

section \<open>Processes and their memory (proc.c)\<close>

text \<open>
  Allocating and freeing a process with its trapframe page and page table, growing its memory, and
  the copy routines that take either a user or a kernel address.
\<close>

definition proc_pagetable :: "nat \<Rightarrow> 'a proc_state_scheme \<Rightarrow> (uint64, 'a proc_state_scheme) outcome" where
  "proc_pagetable p s =
     andthen (uvmcreate s) (\<lambda>pagetable s.
     if pagetable = 0 then Ok 0 s
     else andthen (mappages pagetable TRAMPOLINE PGSIZE (sym_trampoline s) (PTE_R OR PTE_X) s) (\<lambda>r s.
          if r < 0 then andthen (uvmfree pagetable 0 s) (\<lambda>_ s. Ok 0 s)
          else andthen (mappages pagetable TRAPFRAME PGSIZE (p_trapframe (procs s p)) (PTE_R OR PTE_W) s) (\<lambda>r s.
               if r < 0
               then andthen (uvmunmap pagetable TRAMPOLINE 1 False s) (\<lambda>_ s.
                    andthen (uvmfree pagetable 0 s) (\<lambda>_ s. Ok 0 s))
               else Ok pagetable s)))"

definition proc_freepagetable :: "uint64 \<Rightarrow> uint64 \<Rightarrow> 'a phys_state_scheme \<Rightarrow> (unit, 'a phys_state_scheme) outcome" where
  "proc_freepagetable pagetable sz s =
     andthen (uvmunmap pagetable TRAMPOLINE 1 False s) (\<lambda>_ s.
     andthen (uvmunmap pagetable TRAPFRAME 1 False s) (\<lambda>_ s.
     uvmfree pagetable sz s))"

definition freeproc :: "nat \<Rightarrow> 'a proc_state_scheme \<Rightarrow> (unit, 'a proc_state_scheme) outcome" where
  "freeproc p s =
     andthen (if p_trapframe (procs s p) \<noteq> 0 then kfree (p_trapframe (procs s p)) s else Ok () s) (\<lambda>_ s.
     let s = set_proc p (\<lambda>q. q\<lparr>p_trapframe := 0\<rparr>) s in
     andthen (if p_pagetable (procs s p) \<noteq> 0
              then proc_freepagetable (p_pagetable (procs s p)) (p_sz (procs s p)) s else Ok () s) (\<lambda>_ s.
     Ok () (set_proc p (\<lambda>q. q\<lparr>p_pagetable := 0, p_sz := 0, p_pid := 0, p_parent := None,
       p_name := (p_name q)[0 := 0], p_chan := None, p_killed := 0, p_xstate := 0,
       p_state := UNUSED\<rparr>) s)))"

text \<open>The code of \<open>allocproc\<close> from the label \<open>found\<close> on; the lock of \<open>p\<close> is held.\<close>

definition allocproc_found :: "nat \<Rightarrow> 'a proc_state_scheme \<Rightarrow> (nat option, 'a proc_state_scheme) outcome" where
  "allocproc_found p s =
     andthen (allocpid s) (\<lambda>pid s.
     let s = set_proc p (\<lambda>q. q\<lparr>p_pid := pid, p_state := USED\<rparr>) s in
     andthen (kalloc s) (\<lambda>tf s.
     let s = set_proc p (\<lambda>q. q\<lparr>p_trapframe := tf\<rparr>) s in
     if tf = 0 then andthen (freeproc p s) (\<lambda>_ s. andthen (release (L_proc p) s) (\<lambda>_ s. Ok None s))
     else andthen (proc_pagetable p s) (\<lambda>pt s.
          let s = set_proc p (\<lambda>q. q\<lparr>p_pagetable := pt\<rparr>) s in
          if pt = 0 then andthen (freeproc p s) (\<lambda>_ s. andthen (release (L_proc p) s) (\<lambda>_ s. Ok None s))
          else Ok (Some p) (set_proc p (\<lambda>q. q\<lparr>p_context :=
                 zero_context\<lparr>ctx_ra := sym_forkret s, ctx_sp := p_kstack q + PGSIZE\<rparr>\<rparr>) s))))"

definition allocproc :: "'a proc_state_scheme \<Rightarrow> (nat option, 'a proc_state_scheme) outcome" where
  "allocproc s =
     andthen (forK [0..<NPROC] (\<lambda>p s.
       andthen (acquire (L_proc p) s) (\<lambda>_ s.
       if p_state (procs s p) = UNUSED then Ok (Some p) s
       else andthen (release (L_proc p) s) (\<lambda>_ s. Ok None s))) s) (\<lambda>r s.
     case r of None \<Rightarrow> Ok None s | Some p \<Rightarrow> allocproc_found p s)"

definition growproc :: "int \<Rightarrow> 'a proc_state_scheme \<Rightarrow> (int, 'a proc_state_scheme) outcome" where
  "growproc n s =
     andthen (myproc s) (\<lambda>p s. deref p (\<lambda>p.
     let sz = p_sz (procs s p); pt = p_pagetable (procs s p) in
     if n > 0 then
       if sz + u64_of_int n > TRAPFRAME then Ok (- 1) s
       else andthen (uvmalloc pt sz (sz + u64_of_int n) PTE_W s) (\<lambda>sz s.
            if sz = 0 then Ok (- 1) s else Ok 0 (set_proc p (\<lambda>q. q\<lparr>p_sz := sz\<rparr>) s))
     else if n < 0 then
       andthen (uvmdealloc pt sz (sz + u64_of_int n) s) (\<lambda>sz s.
       Ok 0 (set_proc p (\<lambda>q. q\<lparr>p_sz := sz\<rparr>) s))
     else Ok 0 (set_proc p (\<lambda>q. q\<lparr>p_sz := sz\<rparr>) s)))"

text \<open>
  The destination of \<open>either_copyout\<close>: a user address, a kernel address in memory, or a kernel
  object outside the modelled memory, given by the bytes stored into it so far.  The destination
  after the copy is returned, as the callers advance it.
\<close>

datatype copy_dst = UserDst uint64 | MemDst uint64 | BufDst "byte list"

fun dst_add :: "copy_dst \<Rightarrow> nat \<Rightarrow> copy_dst" where
  "dst_add (UserDst a) n = UserDst (a + of_nat n)"
| "dst_add (MemDst a) n = MemDst (a + of_nat n)"
| "dst_add (BufDst bs) n = BufDst bs"

definition either_copyout ::
  "copy_dst \<Rightarrow> byte list \<Rightarrow> 'a proc_state_scheme \<Rightarrow> (int \<times> copy_dst, 'a proc_state_scheme) outcome" where
  "either_copyout dst src s =
     andthen (myproc s) (\<lambda>p s.
     case dst of
       UserDst a \<Rightarrow> deref p (\<lambda>p. andthen (copyout (p_pagetable (procs s p)) a src s) (\<lambda>r s. Ok (r, dst) s))
     | MemDst a \<Rightarrow> Ok (0, dst) (s\<lparr>mem := write_bytes (mem s) a src\<rparr>)
     | BufDst bs \<Rightarrow> Ok (0, BufDst (bs @ src)) s)"

datatype copy_src = UserSrc uint64 | BufSrc "byte list"

fun src_add :: "copy_src \<Rightarrow> nat \<Rightarrow> copy_src" where
  "src_add (UserSrc a) n = UserSrc (a + of_nat n)"
| "src_add (BufSrc bs) n = BufSrc (drop n bs)"

definition either_copyin ::
  "copy_src \<Rightarrow> nat \<Rightarrow> 'a proc_state_scheme \<Rightarrow> (int \<times> byte list, 'a proc_state_scheme) outcome" where
  "either_copyin src len s =
     andthen (myproc s) (\<lambda>p s.
     case src of
       UserSrc a \<Rightarrow> deref p (\<lambda>p. copyin (p_pagetable (procs s p)) a len s)
     | BufSrc bs \<Rightarrow> Ok (0, take len bs) s)"

end
