(* ===== verification/Sysargs.thy ===== *)
theory Sysargs
  imports Procmem
begin

section \<open>System call arguments (syscall.c)\<close>

text \<open>
  Reading the saved user registers from the trapframe page of the current process, and fetching
  words and strings from its memory.  A fetched string is the list of bytes stored in the buffer.
\<close>

text \<open>Reading and writing a trapframe field of process \<open>p\<close>.\<close>

definition tf_read :: "nat \<Rightarrow> uint64 \<Rightarrow> 'a proc_state_scheme \<Rightarrow> (uint64, 'a proc_state_scheme) outcome" where
  "tf_read p off s =
     (if p_trapframe (procs s p) = 0 then Panic ''kerneltrap''
      else Ok (load64 (mem s) (p_trapframe (procs s p) + off)) s)"

definition tf_write :: "nat \<Rightarrow> uint64 \<Rightarrow> uint64 \<Rightarrow> 'a proc_state_scheme \<Rightarrow> (unit, 'a proc_state_scheme) outcome" where
  "tf_write p off x s =
     (if p_trapframe (procs s p) = 0 then Panic ''kerneltrap''
      else Ok () (s\<lparr>mem := store64 (mem s) (p_trapframe (procs s p) + off) x\<rparr>))"

definition fetchaddr :: "uint64 \<Rightarrow> 'a proc_state_scheme \<Rightarrow> (int \<times> byte list, 'a proc_state_scheme) outcome" where
  "fetchaddr addr s =
     andthen (myproc s) (\<lambda>p s. deref p (\<lambda>p.
     if addr \<ge> p_sz (procs s p) \<or> addr + 8 > p_sz (procs s p) then Ok (- 1, []) s
     else andthen (copyin (p_pagetable (procs s p)) addr 8 s) (\<lambda>(r, bs) s.
          if r \<noteq> 0 then Ok (- 1, bs) s else Ok (0, bs) s)))"

definition fetchstr :: "uint64 \<Rightarrow> nat \<Rightarrow> 'a proc_state_scheme \<Rightarrow> (int \<times> byte list, 'a proc_state_scheme) outcome" where
  "fetchstr addr max0 s =
     andthen (myproc s) (\<lambda>p s. deref p (\<lambda>p.
     andthen (copyinstr (p_pagetable (procs s p)) addr max0 s) (\<lambda>(r, buf) s.
     if r < 0 then Ok (- 1, buf) s else Ok (int (strlen buf), buf) s)))"

definition argraw :: "nat \<Rightarrow> 'a proc_state_scheme \<Rightarrow> (uint64, 'a proc_state_scheme) outcome" where
  "argraw n s =
     andthen (myproc s) (\<lambda>p s.
     if n \<le> 5 then deref p (\<lambda>p. tf_read p (tf_offset (TF_a n)) s) else Panic ''argraw'')"

definition argint :: "nat \<Rightarrow> 'a proc_state_scheme \<Rightarrow> (int, 'a proc_state_scheme) outcome" where
  "argint n s = andthen (argraw n s) (\<lambda>x s. Ok (int_of_u64 x) s)"

definition argaddr :: "nat \<Rightarrow> 'a proc_state_scheme \<Rightarrow> (uint64, 'a proc_state_scheme) outcome" where
  "argaddr n s = argraw n s"

definition argstr :: "nat \<Rightarrow> nat \<Rightarrow> 'a proc_state_scheme \<Rightarrow> (int \<times> byte list, 'a proc_state_scheme) outcome" where
  "argstr n max0 s = andthen (argaddr n s) (\<lambda>addr s. fetchstr addr max0 s)"

subsection \<open>Closed forms\<close>

text \<open>The saved argument registers of process \<open>p\<close>.\<close>

definition saved_arg :: "'a proc_state_scheme \<Rightarrow> nat \<Rightarrow> nat \<Rightarrow> uint64" where
  "saved_arg s p n = load64 (mem s) (p_trapframe (procs s p) + tf_offset (TF_a n))"

lemma argraw_eq:
  "ready s \<Longrightarrow> curproc s = Some p \<Longrightarrow> p_trapframe (procs s p) \<noteq> 0 \<Longrightarrow> n \<le> 5 \<Longrightarrow>
   argraw n s = Ok (saved_arg s p n) s"
  by (simp add: argraw_def myproc_eq tf_read_def saved_arg_def)

lemma argint_eq:
  "ready s \<Longrightarrow> curproc s = Some p \<Longrightarrow> p_trapframe (procs s p) \<noteq> 0 \<Longrightarrow> n \<le> 5 \<Longrightarrow>
   argint n s = Ok (int_of_u64 (saved_arg s p n)) s"
  by (simp add: argint_def argraw_eq)

lemma argaddr_eq:
  "ready s \<Longrightarrow> curproc s = Some p \<Longrightarrow> p_trapframe (procs s p) \<noteq> 0 \<Longrightarrow> n \<le> 5 \<Longrightarrow>
   argaddr n s = Ok (saved_arg s p n) s"
  by (simp add: argaddr_def argraw_eq)

lemmas arg_simps = argraw_eq argint_eq argaddr_eq

subsection \<open>Fetching strings\<close>

lemma copy_str_eq:
  "copy_str n p m = (let bs = read_bytes m p n in
     if 0 \<in> set bs then (takeWhile (\<lambda>b. b \<noteq> 0) bs @ [0], True) else (bs, False))"
proof (induction n arbitrary: p)
  case (Suc n)
  have "read_bytes m p (Suc n) = m p # read_bytes m (p + 1) n"
    using read_bytes_append [of m p 1 n] by (simp add: read_bytes_def)
  then show ?case using Suc by (auto simp: Let_def)
qed (simp add: read_bytes_def)

text \<open>
  On mapped user pages, \<open>copyinstr\<close> stores the bytes up to and including the first NUL of the first
  \<open>max0\<close> bytes, and fails when there is none.
\<close>

definition ustring :: "memory \<Rightarrow> uint64 \<Rightarrow> uint64 \<Rightarrow> nat \<Rightarrow> byte list" where
  "ustring m pt va n = map (\<lambda>i. m (uaddr m pt (va + of_nat i))) [0..<n]"

lemma ustring_split:
  assumes "unat va + n \<le> 2 ^ 38" "page_left va < n"
  shows "ustring m pt va n = ustring m pt va (page_left va) @
    ustring m pt (PGROUNDDOWN va + PGSIZE) (n - page_left va)"
  by (rule nth_equalityI)
     (use assms in \<open>auto simp: ustring_def nth_append next_page(1) [OF assms] add.assoc simp flip: of_nat_add\<close>)

lemma ustring_first:
  assumes "unat va + n \<le> 2 ^ 38" "k \<le> n" "k \<le> page_left va"
  shows "read_bytes m (uaddr m pt va) k = ustring m pt va k"
  using first_page(3) [OF assms(1)] assms(2,3) by (auto simp: read_bytes_def ustring_def)

lemma copyinstr_present:
  assumes "twf 2 (mem s) pt" "0 \<notin> tset 2 (mem s) pt" "present (mem s) pt va n"
  shows "copyinstr pt va n s = (let bs = ustring (mem s) pt va n in
    if 0 \<in> set bs then Ok (0, takeWhile (\<lambda>b. b \<noteq> 0) bs @ [0]) s else Ok (- 1, bs) s)"
  using assms(3)
proof (induction n arbitrary: va rule: less_induct)
  case (less n)
  show ?case
  proof (cases "n = 0")
    case True
    then show ?thesis by (simp add: copyinstr.simps ustring_def)
  next
    case False
    let ?k = "page_left va" and ?u = "ustring (mem s) pt"
    have le: "unat va + n \<le> 2 ^ 38" using less.prems by (simp add: present_def)
    note p = present_first [OF less.prems] False
    have pa: "walkaddr pt (PGROUNDDOWN va) s = Ok (PTE2PA (leafv 2 (mem s) pt va)) s"
      using walkaddr_eq [OF assms(1,2) p(1)] p False by simp
    have cs: "copy_str (min ?k n) (PTE2PA (leafv 2 (mem s) pt va) + (va - PGROUNDDOWN va)) (mem s) =
        (let bs = ?u va (min ?k n) in
         if 0 \<in> set bs then (takeWhile (\<lambda>b. b \<noteq> 0) bs @ [0], True) else (bs, False))"
      using ustring_first [OF le, of "min ?k n" "mem s" pt] by (simp add: copy_str_eq uaddr_def)
    show ?thesis
    proof (cases "?k < n")
      case True
      have IH: "copyinstr pt (PGROUNDDOWN va + PGSIZE) (n - ?k) s =
          (let bs = ?u (PGROUNDDOWN va + PGSIZE) (n - ?k) in
           if 0 \<in> set bs then Ok (0, takeWhile (\<lambda>b. b \<noteq> 0) bs @ [0]) s else Ok (- 1, bs) s)"
        using present_rest [OF less.prems True] True by (intro less.IH) simp_all
      have "min ?k n = ?k" using True by simp
      then show ?thesis using False pa p(5) cs IH ustring_split [OF le True, of "mem s" pt]
        by (subst copyinstr.simps) (auto simp: Let_def page_left_rest takeWhile_append)
    next
      case False
      then have "min ?k n = n" "n - min ?k n = 0" by simp_all
      then show ?thesis using \<open>n \<noteq> 0\<close> pa p(5) cs
        by (subst copyinstr.simps) (simp add: Let_def page_left_rest copyinstr.simps [of pt _ 0])
    qed
  qed
qed

text \<open>
  C22. \<open>fetchstr\<close> on mapped user memory returns the length of the string at the address, without the
  terminating NUL, and stores the string with its NUL; it returns -1 exactly when none of the first
  \<open>max0\<close> bytes is NUL.
\<close>

theorem fetchstr_correct:
  assumes "ready s" "curproc s = Some p" "twf 2 (mem s) (p_pagetable (procs s p))"
    "0 \<notin> tset 2 (mem s) (p_pagetable (procs s p))" "present (mem s) (p_pagetable (procs s p)) addr max0"
  shows "fetchstr addr max0 s =
    (let bs = ustring (mem s) (p_pagetable (procs s p)) addr max0; str = takeWhile (\<lambda>b. b \<noteq> 0) bs
     in if 0 \<in> set bs then Ok (int (length str), str @ [0]) s else Ok (- 1, bs) s)"
proof -
  let ?bs = "ustring (mem s) (p_pagetable (procs s p)) addr max0"
  have "strlen (takeWhile (\<lambda>b. b \<noteq> 0) bs @ [0]) = length (takeWhile (\<lambda>b. b \<noteq> 0) bs)" for bs :: "byte list"
    by (induction bs) auto
  then show ?thesis
    using copyinstr_present [OF assms(3-5)] assms(1,2)
    by (simp add: fetchstr_def myproc_eq Let_def)
qed

text \<open>The sample machine with process 0 owning the sample user page and a trapframe.\<close>

definition sample_user :: "'z \<Rightarrow> 'z proc_state_scheme" where
  "sample_user z = set_proc 0 (\<lambda>q. q\<lparr>p_pagetable := 0x87ffe000, p_sz := 4096, p_trapframe := 0x87ffa000\<rparr>)
     ((sample_procs z)\<lparr>mem := sample_umem\<rparr>)"

lemma sample_user_facts [simp]:
  "cur (sample_user z) = 0" "regs (sample_user z) = (\<lambda>h. sample_csrs (of_nat h))"
  "cpus (sample_user z) = (\<lambda>_. sample_cpu)"
  "spin (sample_user z) = (\<lambda>_. \<lparr>lk_locked = False, lk_name = [], lk_cpu = None\<rparr>)"
  "mem (sample_user z) = sample_umem" "p_pagetable (procs (sample_user z) 0) = 0x87ffe000"
  "p_trapframe (procs (sample_user z) 0) = 0x87ffa000" "p_sz (procs (sample_user z) 0) = 4096"
  by (simp_all add: sample_user_def)

theorem fetchstr_correct_witness:
  "\<exists>n buf. fetchstr 0 16 (sample_user ()) = Ok (n, buf) (sample_user ())"
proof -
  have "present sample_umem 0x87ffe000 0 16" using sample_target [of 16] by (simp add: target_def)
  then show ?thesis
    using fetchstr_correct [of "sample_user ()" 0 0 16] sample_umem_facts(1,2) by (simp add: Let_def)
qed

end
