(* ===== verification/Getprocs.thy ===== *)
theory Getprocs
  imports Sysargs
begin

section \<open>The getprocs system call (sysproc.c, pinfo.h)\<close>

text \<open>
  \<open>sys_getprocs\<close> copies one \<open>struct pinfo\<close> per used process to the caller's buffer, in table order, under
  \<open>wait_lock\<close>.  The structure is one local variable for the whole loop: \<open>safestrcpy\<close> leaves the bytes of
  the name after the NUL as they were, so what an iteration copies out there is what earlier
  iterations, or the uninitialised stack (the parameter \<open>stack\<close>), left behind.
\<close>

datatype pinfo_state = PINFO_UNUSED | PINFO_USED | PINFO_SLEEPING | PINFO_RUNNABLE | PINFO_RUNNING | PINFO_ZOMBIE

primrec pinfo_code :: "pinfo_state \<Rightarrow> int" where
  "pinfo_code PINFO_UNUSED = 0"
| "pinfo_code PINFO_USED = 1"
| "pinfo_code PINFO_SLEEPING = 2"
| "pinfo_code PINFO_RUNNABLE = 3"
| "pinfo_code PINFO_RUNNING = 4"
| "pinfo_code PINFO_ZOMBIE = 5"

text \<open>The value of an enumerator of \<open>enum procstate\<close> as an \<open>int\<close>.\<close>

definition state_value :: "procstate \<Rightarrow> int" where
  "state_value st = (case st of UNUSED \<Rightarrow> 0 | USED \<Rightarrow> 1 | SLEEPING \<Rightarrow> 2 | RUNNABLE \<Rightarrow> 3
     | RUNNING \<Rightarrow> 4 | ZOMBIE \<Rightarrow> 5)"

record pinfo =
  pi_pid :: int
  pi_ppid :: int
  pi_state :: int
  pi_name :: "byte list"

definition sizeof_pinfo :: nat where "sizeof_pinfo = 28"

text \<open>The bytes of the structure in memory, and the structure read back from them.\<close>

definition pinfo_bytes :: "pinfo \<Rightarrow> byte list" where
  "pinfo_bytes q = bytes32 (word_of_int (pi_pid q)) @ bytes32 (word_of_int (pi_ppid q)) @
     bytes32 (word_of_int (pi_state q)) @ pi_name q"

definition bytes_pinfo :: "byte list \<Rightarrow> pinfo" where
  "bytes_pinfo bs = \<lparr>pi_pid = sint (word32 bs), pi_ppid = sint (word32 (drop 4 bs)),
     pi_state = sint (word32 (drop 8 bs)), pi_name = take 16 (drop 12 bs)\<rparr>"

text \<open>Filling the structure for process \<open>p\<close>; \<open>nm\<close> is what its name field held before.\<close>

definition fill_pinfo :: "(nat \<Rightarrow> proc) \<Rightarrow> byte list \<Rightarrow> nat \<Rightarrow> pinfo" where
  "fill_pinfo P nm p = \<lparr>pi_pid = p_pid (P p),
     pi_ppid = (case p_parent (P p) of Some q \<Rightarrow> p_pid (P q) | None \<Rightarrow> - 1),
     pi_state = state_value (p_state (P p)), pi_name = safestrcpy 16 nm (p_name (P p))\<rparr>"

primrec getprocs_loop ::
  "nat list \<Rightarrow> uint64 \<Rightarrow> int \<Rightarrow> int \<Rightarrow> byte list \<Rightarrow> 'a proc_state_scheme \<Rightarrow> (int, 'a proc_state_scheme) outcome" where
  "getprocs_loop [] buf max_count count nm s = andthen (release L_wait s) (\<lambda>_ s. Ok count s)"
| "getprocs_loop (p # ps) buf max_count count nm s =
     (if \<not> count < max_count then andthen (release L_wait s) (\<lambda>_ s. Ok count s)
      else andthen (acquire (L_proc p) s) (\<lambda>_ s.
        if p_state (procs s p) = UNUSED
        then andthen (release (L_proc p) s) (\<lambda>_ s. getprocs_loop ps buf max_count count nm s)
        else let q = fill_pinfo (procs s) nm p
        in andthen (release (L_proc p) s) (\<lambda>_ s.
           andthen (myproc s) (\<lambda>i s. deref i (\<lambda>i.
           andthen (copyout (p_pagetable (procs s i)) (buf + u64_of_int count * of_nat sizeof_pinfo)
                     (pinfo_bytes q) s) (\<lambda>r s.
           if r < 0 then andthen (release L_wait s) (\<lambda>_ s. Ok (- 1) s)
           else getprocs_loop ps buf max_count (count + 1) (pi_name q) s))))))"

definition sys_getprocs :: "byte list \<Rightarrow> 'a proc_state_scheme \<Rightarrow> (int, 'a proc_state_scheme) outcome" where
  "sys_getprocs stack s =
     andthen (argaddr 0 s) (\<lambda>buf s.
     andthen (argint 1 s) (\<lambda>max_count s.
     if max_count \<le> 0 then Ok (- 1) s
     else andthen (acquire L_wait s) (\<lambda>_ s.
          getprocs_loop [0..<NPROC] buf max_count 0 stack s)))"

subsection \<open>What the loop copies out\<close>

primrec pinfos :: "(nat \<Rightarrow> proc) \<Rightarrow> byte list \<Rightarrow> nat list \<Rightarrow> pinfo list" where
  "pinfos P nm [] = []"
| "pinfos P nm (p # ps) = fill_pinfo P nm p # pinfos P (pi_name (fill_pinfo P nm p)) ps"

definition used_procs :: "(nat \<Rightarrow> proc) \<Rightarrow> nat list \<Rightarrow> nat list" where
  "used_procs P = filter (\<lambda>p. p_state (P p) \<noteq> UNUSED)"

lemma used_procs_simps [simp]:
  "used_procs P [] = []"
  "used_procs P (p # ps) = (if p_state (P p) = UNUSED then used_procs P ps else p # used_procs P ps)"
  by (simp_all add: used_procs_def)

lemma length_pinfos [simp]: "length (pinfos P nm ps) = length ps"
  by (induction ps arbitrary: nm) simp_all

lemma length_pinfo_bytes [simp]:
  "length nm = 16 \<Longrightarrow> length (pinfo_bytes (fill_pinfo P nm p)) = 28"
  by (simp add: pinfo_bytes_def fill_pinfo_def length_safestrcpy)

lemma length_pi_name [simp]: "length nm = 16 \<Longrightarrow> length (pi_name (fill_pinfo P nm p)) = 16"
  by (simp add: fill_pinfo_def length_safestrcpy)

lemma length_pinfos_bytes [simp]:
  "length nm = 16 \<Longrightarrow> length (concat (map pinfo_bytes (pinfos P nm ps))) = 28 * length ps"
  by (induction ps arbitrary: nm) simp_all

lemma concat_pinfos_nth:
  "length nm = 16 \<Longrightarrow> k < length ps \<Longrightarrow>
   take 28 (drop (28 * k) (concat (map pinfo_bytes (pinfos P nm ps)))) = pinfo_bytes (pinfos P nm ps ! k)"
  by (induction ps arbitrary: nm k) (auto simp: less_Suc_eq_0_disj)

text \<open>Every record describes its process, whatever the name field held before.\<close>

lemma pinfos_nth:
  assumes "k < length ps"
  shows "pi_pid (pinfos P nm ps ! k) = p_pid (P (ps ! k))"
    "pi_ppid (pinfos P nm ps ! k) = (case p_parent (P (ps ! k)) of Some q \<Rightarrow> p_pid (P q) | None \<Rightarrow> - 1)"
    "pi_state (pinfos P nm ps ! k) = state_value (p_state (P (ps ! k)))"
    "cstr (pi_name (pinfos P nm ps ! k)) = take 15 (cstr (p_name (P (ps ! k))))"
  using assms by (induction ps arbitrary: nm k)
    (auto simp: less_Suc_eq_0_disj fill_pinfo_def cstr_safestrcpy)

lemma pinfos_nth_length:
  "length nm = 16 \<Longrightarrow> k < length ps \<Longrightarrow> length (pi_name (pinfos P nm ps ! k)) = 16"
  by (induction ps arbitrary: nm k) (auto simp: less_Suc_eq_0_disj)

subsection \<open>The loop\<close>

lemma count_offset: "buf + u64_of_int (int c) * of_nat sizeof_pinfo = buf + of_nat (28 * c)"
  by (simp add: u64_of_int_def sizeof_pinfo_def)

lemma copied_refl: "twf 2 m pt \<Longrightarrow> copied m pt va [] m"
  by (simp add: copied_def)

text \<open>What one iteration does for a used process, up to the next iteration.\<close>

lemma getprocs_used:
  assumes "ready t" "curproc t = Some i" "lk_free (L_proc p) (spin t)"
    "copyout (p_pagetable (procs t i)) (buf + of_nat (28 * c)) (pinfo_bytes (fill_pinfo (procs t) nm p)) t =
       Ok 0 (t\<lparr>mem := m\<rparr>)"
    "p_state (procs t p) \<noteq> UNUSED" "int c < max_count"
  shows "getprocs_loop (p # ps) buf max_count (int c) nm t =
     getprocs_loop ps buf max_count (int (Suc c)) (pi_name (fill_pinfo (procs t) nm p)) (t\<lparr>mem := m\<rparr>)"
  using assms by (simp add: lock_simps myproc_eq Let_def count_offset del: of_nat_mult of_nat_Suc) (simp add: add.commute)

lemma getprocs_loop_eq:
  assumes "ready t" "curproc t = Some i" "proc_locks_free None (spin t)" "length nm = 16"
    "pt = p_pagetable (procs t i)" "twf 2 (mem t) pt" "0 \<notin> tset 2 (mem t) pt" "set ps \<subseteq> {..<NPROC}"
    "us = take (nat (max_count - int c)) (used_procs (procs t) ps)"
    "target (mem t) pt (buf + of_nat (28 * c)) (28 * length us)"
  shows "\<exists>m. getprocs_loop ps buf max_count (int c) nm t =
      andthen (release L_wait (t\<lparr>mem := m\<rparr>)) (\<lambda>_ s. Ok (int (c + length us)) s) \<and>
    copied (mem t) pt (buf + of_nat (28 * c)) (concat (map pinfo_bytes (pinfos (procs t) nm us))) m"
  using assms
proof (induction ps arbitrary: t nm c us)
  case Nil
  then show ?case by (auto intro!: exI [of _ "mem t"] copied_refl)
next
  case (Cons p ps)
  show ?case
  proof (cases "int c < max_count")
    case False
    then show ?thesis using Cons.prems by (auto intro!: exI [of _ "mem t"] copied_refl)
  next
    case True
    have lk: "lk_free (L_proc p) (spin t)" using Cons.prems(3,8) by (auto intro: proc_locks_freeD)
    show ?thesis
    proof (cases "p_state (procs t p) = UNUSED")
      case True
      then have "getprocs_loop (p # ps) buf max_count (int c) nm t = getprocs_loop ps buf max_count (int c) nm t"
        using Cons.prems(1) lk \<open>int c < max_count\<close> by (simp add: lock_simps)
      then show ?thesis using Cons.IH [of t nm us c] Cons.prems True by simp
    next
      case False
      let ?q = "fill_pinfo (procs t) nm p" and ?va = "buf + of_nat (28 * c)"
      define us' where "us' = take (nat (max_count - int (Suc c))) (used_procs (procs t) ps)"
      have "nat (max_count - int c) = Suc (nat (max_count - int (Suc c)))" using True by simp
      then have us: "us = p # us'" using Cons.prems(9) False by (simp add: us'_def)
      have len: "length (pinfo_bytes ?q) = 28" using Cons.prems(4) by simp
      have tg: "target (mem t) pt ?va (28 + 28 * length us')" using Cons.prems(10) us by simp
      obtain m1 where m1: "copyout pt ?va (pinfo_bytes ?q) t = Ok 0 (t\<lparr>mem := m1\<rparr>)"
          "copied (mem t) pt ?va (pinfo_bytes ?q) m1"
        using copyout_target [OF Cons.prems(6,7), of ?va "pinfo_bytes ?q"] target_sub [OF tg, of 0 28] len
        by auto
      have next1: "?va + of_nat 28 = buf + of_nat (28 * Suc c)" by (simp add: algebra_simps)
      have tg1: "target m1 pt (buf + of_nat (28 * Suc c)) (28 * length us')"
        using target_copied [OF m1(2) target_sub [OF tg, of 28]] unfolding next1 by simp
      have w1: "twf 2 m1 pt" "0 \<notin> tset 2 m1 pt" using m1(2) Cons.prems(7) by (simp_all add: copied_def)
      obtain m where m: "getprocs_loop ps buf max_count (int (Suc c)) (pi_name ?q) (t\<lparr>mem := m1\<rparr>) =
          andthen (release L_wait (t\<lparr>mem := m\<rparr>)) (\<lambda>_ s. Ok (int (Suc c + length us')) s)"
        "copied m1 pt (buf + of_nat (28 * Suc c)) (concat (map pinfo_bytes (pinfos (procs t) (pi_name ?q) us'))) m"
        using Cons.IH [of "t\<lparr>mem := m1\<rparr>" "pi_name ?q" us' "Suc c"] Cons.prems w1 tg1 us'_def by auto
      have "copied (mem t) pt ?va (pinfo_bytes ?q @ concat (map pinfo_bytes (pinfos (procs t) (pi_name ?q) us'))) m"
      proof (rule copied_append [OF _ m1(2)])
        show "copied m1 pt (?va + of_nat (length (pinfo_bytes ?q)))
            (concat (map pinfo_bytes (pinfos (procs t) (pi_name ?q) us'))) m"
          unfolding len next1 by (rule m(2))
      qed (use tg len Cons.prems(4) in simp)
      moreover have "getprocs_loop (p # ps) buf max_count (int c) nm t =
          andthen (release L_wait (t\<lparr>mem := m\<rparr>)) (\<lambda>_ s. Ok (int (c + length us)) s)"
        using getprocs_used [OF Cons.prems(1,2) lk _ False True, of buf nm m1 ps] m1(1) m(1) Cons.prems(5) us
        by simp
      ultimately show ?thesis using us by auto
    qed
  qed
qed

subsection \<open>Properties\<close>

definition c_int :: "int \<Rightarrow> bool" where
  "c_int i \<longleftrightarrow> - (2 ^ 31) \<le> i \<and> i < 2 ^ 31"

lemma bytes_pinfo_bytes:
  assumes "c_int (pi_pid q)" "c_int (pi_ppid q)" "c_int (pi_state q)" "length (pi_name q) = 16"
  shows "bytes_pinfo (pinfo_bytes q) = q"
proof -
  have "drop 4 (pinfo_bytes q) = bytes32 (word_of_int (pi_ppid q)) @ bytes32 (word_of_int (pi_state q)) @ pi_name q"
    "drop 8 (pinfo_bytes q) = bytes32 (word_of_int (pi_state q)) @ pi_name q" "drop 12 (pinfo_bytes q) = pi_name q"
    by (simp_all add: pinfo_bytes_def)
  then have "bytes_pinfo (pinfo_bytes q) = \<lparr>pi_pid = pi_pid q, pi_ppid = pi_ppid q, pi_state = pi_state q,
      pi_name = pi_name q\<rparr>"
    using assms by (simp add: bytes_pinfo_def c_int_def sint_word_of_int_32)
      (simp add: pinfo_bytes_def sint_word_of_int_32)
  then show ?thesis by simp
qed

text \<open>What \<open>copyin\<close> reads inside a range that has just been copied out.\<close>

lemma copyin_copied:
  assumes "copied (mem s) pt va src m" "0 \<notin> tset 2 (mem s) pt" "target (mem s) pt va (length src)"
    "k + n \<le> length src" "mem t = m"
  shows "copyin pt (va + of_nat k) n t = Ok (0, take n (drop k src)) t"
proof -
  have tg: "target m pt (va + of_nat k) n"
    using target_copied [OF assms(1) target_sub [OF assms(3,4)]] .
  have u: "uaddr m pt v = uaddr (mem s) pt v" for v
    using assms(1) by (intro uaddr_same) (simp add: copied_def)
  have e: "va + of_nat k + of_nat i = va + of_nat (k + i)" for i by (simp only: of_nat_add add.assoc)
  have "copyin pt (va + of_nat k) n t =
      Ok (0, map (\<lambda>i. mem t (uaddr (mem t) pt (va + of_nat k + of_nat i))) [0..<n]) t"
    using tg assms(1,2,5) by (intro copyin_present) (auto simp: copied_def target_def)
  moreover have "map (\<lambda>i. mem t (uaddr (mem t) pt (va + of_nat k + of_nat i))) [0..<n] = take n (drop k src)"
    unfolding assms(5) u e
    by (rule nth_equalityI) (use assms(1,4) in \<open>simp_all add: copied_def del: of_nat_add\<close>)
  ultimately show ?thesis by simp
qed

text \<open>The whole system call.\<close>

lemma getprocs_records:
  fixes s :: "'a proc_state_scheme"
  assumes "ready s" "curproc s = Some i" "p_trapframe (procs s i) \<noteq> 0"
    "free_lock L_wait s" "proc_locks_free None (spin s)" "length stack = 16"
    "twf 2 (mem s) (p_pagetable (procs s i))" "0 \<notin> tset 2 (mem s) (p_pagetable (procs s i))"
    "0 < max_count" "max_count = int_of_u64 (saved_arg s i 1)"
    "us = take (nat max_count) (filter (\<lambda>p. p_state (procs s p) \<noteq> UNUSED) [0..<NPROC])"
    "target (mem s) (p_pagetable (procs s i)) (saved_arg s i 0) (28 * length us)"
    "\<And>p. c_int (p_pid (procs s p))"
  shows "\<exists>m. sys_getprocs stack s = Ok (int (length us)) (s\<lparr>mem := m\<rparr>) \<and>
    (\<forall>k < length us. \<exists>bs. copyin (p_pagetable (procs s i)) (saved_arg s i 0 + of_nat (28 * k)) 28 (s\<lparr>mem := m\<rparr>) =
        Ok (0, bs) (s\<lparr>mem := m\<rparr>) \<and>
      pi_pid (bytes_pinfo bs) = p_pid (procs s (us ! k)) \<and>
      pi_ppid (bytes_pinfo bs) =
        (case p_parent (procs s (us ! k)) of Some q \<Rightarrow> p_pid (procs s q) | None \<Rightarrow> - 1) \<and>
      pi_state (bytes_pinfo bs) = state_value (p_state (procs s (us ! k))) \<and>
      cstr (pi_name (bytes_pinfo bs)) = take 15 (cstr (p_name (procs s (us ! k))))) \<and>
    (\<forall>b. (\<forall>j < 28 * length us. b \<noteq> uaddr (mem s) (p_pagetable (procs s i)) (saved_arg s i 0 + of_nat j)) \<longrightarrow>
       m b = mem s b)"
proof -
  let ?pt = "p_pagetable (procs s i)" and ?buf = "saved_arg s i 0" and ?P = "procs s"
  let ?t = "s\<lparr>regs := acq_regs (cur s) (regs s), cpus := acq_cpus (cur s) (regs s) (cpus s),
       spin := acq_spin L_wait (cur s) (regs s) (spin s)\<rparr>"
  have acq: "acquire L_wait s = Ok () ?t" using assms(1,4) by (simp add: acquire_eq)
  have "\<exists>m. getprocs_loop [0..<NPROC] ?buf max_count (int 0) stack ?t =
      andthen (release L_wait (?t\<lparr>mem := m\<rparr>)) (\<lambda>_ s. Ok (int (0 + length us)) s) \<and>
    copied (mem ?t) ?pt (?buf + of_nat (28 * 0)) (concat (map pinfo_bytes (pinfos (procs ?t) stack us))) m"
    by (rule getprocs_loop_eq [where i = i])
       (use assms in \<open>auto simp: used_procs_def\<close>)
  then obtain m where m: "getprocs_loop [0..<NPROC] ?buf max_count 0 stack ?t =
      andthen (release L_wait (?t\<lparr>mem := m\<rparr>)) (\<lambda>_ s. Ok (int (length us)) s)"
    and c: "copied (mem s) ?pt ?buf (concat (map pinfo_bytes (pinfos ?P stack us))) m"
    by auto
  have run: "sys_getprocs stack s = Ok (int (length us)) (s\<lparr>mem := m\<rparr>)"
    using assms(1-4,9,10) m acq by (simp add: sys_getprocs_def arg_simps release_eq)
  have "\<exists>bs. copyin ?pt (?buf + of_nat (28 * k)) 28 (s\<lparr>mem := m\<rparr>) = Ok (0, bs) (s\<lparr>mem := m\<rparr>) \<and>
      bytes_pinfo bs = pinfos ?P stack us ! k" if k: "k < length us" for k
  proof -
    let ?q = "pinfos ?P stack us ! k"
    have "c_int (- 1)" "c_int (state_value st)" for st
      by (simp_all add: c_int_def state_value_def split: procstate.splits)
    then have "bytes_pinfo (pinfo_bytes ?q) = ?q"
      using pinfos_nth [OF k, of ?P stack] pinfos_nth_length [OF assms(6) k] assms(13)
      by (intro bytes_pinfo_bytes) (auto split: option.splits)
    moreover have "copyin ?pt (?buf + of_nat (28 * k)) 28 (s\<lparr>mem := m\<rparr>) = Ok (0, pinfo_bytes ?q) (s\<lparr>mem := m\<rparr>)"
      using copyin_copied [OF c assms(8), of "28 * k" 28 "s\<lparr>mem := m\<rparr>"] assms(6,12) k
        concat_pinfos_nth [OF assms(6) k, of ?P] by simp
    ultimately show ?thesis by blast
  qed
  moreover have "m b = mem s b" if "\<forall>j < 28 * length us. b \<noteq> uaddr (mem s) ?pt (?buf + of_nat j)" for b
    using c that assms(6) by (simp add: copied_def)
  ultimately show ?thesis using run pinfos_nth [where P = ?P and nm = stack and ps = us]
    by (intro exI [of _ m]) metis
qed


text \<open>The sample machine in the middle of \<open>getprocs(0, 64)\<close>.\<close>

definition sample_argmem :: memory where
  "sample_argmem = store64 (store64 sample_umem (slot 0x87ffa000 14) 0) (slot 0x87ffa000 15) 64"

lemma sample_argmem_facts:
  "twf 2 sample_argmem 0x87ffe000" "tset 2 sample_argmem 0x87ffe000 = {0x87ffe000, 0x87ffd000, 0x87ffc000}"
  "leafv 2 sample_argmem 0x87ffe000 va = leafv 2 sample_umem 0x87ffe000 va"
proof -
  have "page_aligned 0x87ffa000" by (simp add: page_aligned_def PGSIZE_def)
  note w = data_write [OF sample_umem_facts(1) this, of sample_argmem]
  have a: "0x87ffa000 \<notin> tset 2 sample_umem 0x87ffe000" by (simp add: sample_umem_facts(2))
  have b: "sample_argmem b = sample_umem b" if "\<not> in_page 0x87ffa000 b" for b
    using that by (simp add: sample_argmem_def store_slot_frame)
  show "twf 2 sample_argmem 0x87ffe000" "tset 2 sample_argmem 0x87ffe000 = {0x87ffe000, 0x87ffd000, 0x87ffc000}"
    "leafv 2 sample_argmem 0x87ffe000 va = leafv 2 sample_umem 0x87ffe000 va"
    using w [OF a b] by (simp_all add: sample_umem_facts(2))
qed

lemma sample_argmem_target: "n \<le> 4096 \<Longrightarrow> target sample_argmem 0x87ffe000 0 n"
  using sample_target [of n]
  unfolding target_def present_def sample_argmem_facts(2,3) sample_umem_facts(2) .

definition sample_calling :: "proc_state" where
  "sample_calling = (sample_user ())\<lparr>mem := sample_argmem\<rparr>"

lemma sample_calling_facts:
  "ready sample_calling" "curproc sample_calling = Some 0" "p_trapframe (procs sample_calling 0) \<noteq> 0"
  "free_lock L_wait sample_calling" "proc_locks_free None (spin sample_calling)"
  "p_pagetable (procs sample_calling 0) = 0x87ffe000" "mem sample_calling = sample_argmem"
  "saved_arg sample_calling 0 0 = 0" "int_of_u64 (saved_arg sample_calling 0 1) = 64"
  "p_state (procs sample_calling 0) = RUNNING" "p_pid (procs sample_calling 0) = 1"
  "c_int (p_pid (procs sample_calling p))"
proof -
  have "0x87ffa000 + tf_offset (TF_a 1) = slot 0x87ffa000 15" "0x87ffa000 + tf_offset (TF_a 0) = slot 0x87ffa000 14"
    by (simp_all add: tf_offset.simps slot_def)
  then show "saved_arg sample_calling 0 0 = 0" "int_of_u64 (saved_arg sample_calling 0 1) = 64"
    by (simp_all add: sample_calling_def saved_arg_def sample_argmem_def load_store_slot int_of_u64_def)
qed (auto simp: sample_calling_def sample_user_def blank_proc_def c_int_def)


end
