(* ===== verification/Ulib.thy ===== *)
theory Ulib
  imports Printf
begin

section \<open>The user library (user/ulib.c, user/printf.c)\<close>

text \<open>
  The routines every user program is linked with.  A user program is modelled by what it computes
  from its arguments and from the results of its system calls; its standard output is the list of
  bytes it writes.  Strings are byte lists, read as the kernel's (theory \<open>Cstring\<close>): the byte after
  the end of the list is NUL.
\<close>

subsection \<open>Strings\<close>

function u_strcpy :: "byte list \<Rightarrow> byte list \<Rightarrow> byte list" where
  "u_strcpy s t = hd0 t # (if hd0 t \<noteq> 0 then u_strcpy (tl s) (tl t) else tl s)"
  by pat_completeness auto
termination by (relation "measure (\<lambda>(s, t). length t)") (auto simp: hd0_def split: list.splits)

declare u_strcpy.simps [simp del]

function u_strcmp :: "byte list \<Rightarrow> byte list \<Rightarrow> int" where
  "u_strcmp p q =
     (if hd0 p \<noteq> 0 \<and> hd0 p = hd0 q then u_strcmp (tl p) (tl q) else uint (hd0 p) - uint (hd0 q))"
  by pat_completeness auto
termination by (relation "measure (\<lambda>(p, q). length p)") (auto simp: hd0_def split: list.splits)

declare u_strcmp.simps [simp del]

primrec u_strlen :: "byte list \<Rightarrow> nat" where
  "u_strlen [] = 0"
| "u_strlen (c # s) = (if c \<noteq> 0 then Suc (u_strlen s) else 0)"

text \<open>\<open>strchr\<close> returns a pointer into the string: the rest of it from the character on.\<close>

primrec u_strchr :: "byte list \<Rightarrow> byte \<Rightarrow> byte list option" where
  "u_strchr [] c = None"
| "u_strchr (x # s) c = (if x = 0 then None else if x = c then Some (x # s) else u_strchr s c)"

function u_atoi_loop :: "int \<Rightarrow> byte list \<Rightarrow> int" where
  "u_atoi_loop n s =
     (if 48 \<le> hd0 s \<and> hd0 s \<le> 57 then u_atoi_loop (n * 10 + uint (hd0 s) - 48) (tl s) else n)"
  by pat_completeness auto
termination by (relation "measure (\<lambda>(n, s). length s)") (auto simp: hd0_def split: list.splits)

declare u_atoi_loop.simps [simp del]

definition u_atoi :: "byte list \<Rightarrow> int" where
  "u_atoi s = u_atoi_loop 0 s"

text \<open>
  \<open>gets\<close> reads from file descriptor 0 one byte at a time: \<open>input\<close> is what is left to read there
  (empty at the end of the file).  The result is the filled part of the buffer and the rest of the input.
\<close>

fun u_gets_loop :: "nat \<Rightarrow> byte list \<Rightarrow> byte list \<times> byte list" where
  "u_gets_loop 0 input = ([0], input)"
| "u_gets_loop (Suc k) [] = ([0], [])"
| "u_gets_loop (Suc k) (c # input) =
     (if c = 10 \<or> c = 13 then ([c, 0], input)
      else let (buf, rest) = u_gets_loop k input in (c # buf, rest))"

definition u_gets :: "nat \<Rightarrow> byte list \<Rightarrow> byte list \<times> byte list" where
  "u_gets max0 input = u_gets_loop (max0 - 1) input"

subsection \<open>Blocks of memory\<close>

definition u_memset :: "uint64 \<Rightarrow> int \<Rightarrow> uint32 \<Rightarrow> memory \<Rightarrow> memory" where
  "u_memset dst c n m = memset_loop (unat n) dst (word_of_int c) m"

definition u_memmove :: "uint64 \<Rightarrow> uint64 \<Rightarrow> int \<Rightarrow> memory \<Rightarrow> memory" where
  "u_memmove dst src n m =
     (if src > dst then copy_forward (nat n) dst src m
      else copy_backward (nat n) (dst + word_of_int n) (src + word_of_int n) m)"

definition u_memcmp :: "uint64 \<Rightarrow> uint64 \<Rightarrow> uint32 \<Rightarrow> memory \<Rightarrow> int" where
  "u_memcmp s1 s2 n m = memcmp_loop (unat n) s1 s2 m"

definition u_memcpy :: "uint64 \<Rightarrow> uint64 \<Rightarrow> uint32 \<Rightarrow> memory \<Rightarrow> memory" where
  "u_memcpy dst src n m = u_memmove dst src (sint n) m"

subsection \<open>Formatted output\<close>

definition u_digits :: string where "u_digits = ''0123456789ABCDEF''"

definition u_printint :: "uint64 \<Rightarrow> uint64 \<Rightarrow> bool \<Rightarrow> byte list" where
  "u_printint xx base sgnd =
     (let neg = sgnd \<and> sint xx < 0;
          x = (if neg then - xx else xx);
          buf = digit_loop u_digits x base;
          buf = (if neg then buf @ [of_char CHR ''-''] else buf)
      in rev buf)"

primrec u_ptr_digits :: "nat \<Rightarrow> uint64 \<Rightarrow> byte list" where
  "u_ptr_digits 0 x = []"
| "u_ptr_digits (Suc k) x = digit_char u_digits (drop_bit 60 x) # u_ptr_digits k (push_bit 4 x)"

definition u_printptr :: "uint64 \<Rightarrow> byte list" where
  "u_printptr x = of_char CHR ''0'' # of_char CHR ''x'' # u_ptr_digits 16 x"

text \<open>
  The branch of \<open>vprintf\<close> behind a percent sign, at a character that is not NUL: what is printed, how
  many characters are used, whether an argument is taken.
\<close>

definition u_directive :: "string \<Rightarrow> varg list \<Rightarrow> byte list \<times> nat \<times> bool" where
  "u_directive f ap =
     (let c0 = chr0 f;
          c1 = (if c0 \<noteq> 0 then chr0 (drop 1 f) else 0);
          c2 = (if c1 \<noteq> 0 then chr0 (drop 2 f) else 0);
          d = of_char CHR ''d''; l = of_char CHR ''l''; u = of_char CHR ''u''; x = of_char CHR ''x''
      in if c0 = d then (u_printint (va_int ap) 10 True, 1, True)
         else if c0 = l \<and> c1 = d then (u_printint (va_word ap) 10 True, 2, True)
         else if c0 = l \<and> c1 = l \<and> c2 = d then (u_printint (va_word ap) 10 True, 3, True)
         else if c0 = u then (u_printint (va_uint32 ap) 10 False, 1, True)
         else if c0 = l \<and> c1 = u then (u_printint (va_word ap) 10 False, 2, True)
         else if c0 = l \<and> c1 = l \<and> c2 = u then (u_printint (va_word ap) 10 False, 3, True)
         else if c0 = x then (u_printint (va_uint32 ap) 16 False, 1, True)
         else if c0 = l \<and> c1 = x then (u_printint (va_word ap) 16 False, 2, True)
         else if c0 = l \<and> c1 = l \<and> c2 = x then (u_printint (va_word ap) 16 False, 3, True)
         else if c0 = of_char CHR ''p'' then (u_printptr (va_word ap), 1, True)
         else if c0 = of_char CHR ''c'' then ([ucast (va_word ap)], 1, True)
         else if c0 = of_char CHR ''s'' then (va_str ap, 1, True)
         else if c0 = of_char CHR ''%'' then ([of_char CHR ''%''], 1, False)
         else ([of_char CHR ''%'', c0], 1, False))"

function u_vprintf :: "string \<Rightarrow> varg list \<Rightarrow> byte list" where
  "u_vprintf fmt ap =
     (if chr0 fmt = 0 then []
      else if chr0 fmt \<noteq> of_char CHR ''%'' then chr0 fmt # u_vprintf (tl fmt) ap
      else if chr0 (tl fmt) = 0 then []
      else let (out, used, takes) = u_directive (tl fmt) ap
           in out @ u_vprintf (drop used (tl fmt)) (if takes then tl ap else ap))"
  by pat_completeness auto
termination
proof (relation "measure (\<lambda>(fmt, ap). length fmt)", goal_cases)
  case (2 fmt ap)
  then show ?case by (cases fmt) (auto simp: chr0_def)
next
  case (3 fmt ap)
  then show ?case by (cases fmt) (auto simp: chr0_def)
qed simp

declare u_vprintf.simps [simp del]

text \<open>Both write to a file descriptor; \<open>printf\<close> to descriptor 1.\<close>

definition u_printf :: "string \<Rightarrow> varg list \<Rightarrow> byte list" where
  "u_printf fmt ap = u_vprintf fmt ap"

end
