(* ===== verification/Ptv.thy ===== *)
theory Ptv
  imports Getprocs Ulib
begin

section \<open>The process tree viewer (user/ptv.c)\<close>

text \<open>
  \<open>ptv\<close> asks the kernel for the process table with \<open>getprocs\<close>, finds \<open>init\<close> and prints the tree of its
  descendants by a recursive search of the table.  The table is the list of records \<open>procs[0..n-1]\<close>.

  The recursion of \<open>dfs\<close> ends only if the parent links form no cycle below the process it starts
  from, so \<open>dfs\<close> is a partial function: \<open>None\<close> stands for a run that does not end.
\<close>

text \<open>The box-drawing prefix of the source, in the UTF-8 encoding it is compiled to.\<close>

definition branch_fmt :: string where
  "branch_fmt = [CHR '' '', CHR '' '', CHR 0xE2, CHR 0x94, CHR 0x94, CHR 0xE2, CHR 0x94, CHR 0x80,
     CHR 0xE2, CHR 0x94, CHR 0x80, CHR '' '']"

primrec print_indent :: "nat \<Rightarrow> nat \<Rightarrow> byte list" where
  "print_indent 0 depth = []"
| "print_indent (Suc k) depth =
     (let i = depth - Suc k
      in (if i = depth - 1 then u_printf branch_fmt [] else u_printf ''      '' []) @ print_indent k depth)"

text \<open>The arguments of the calls \<open>printf("%s(%d...", p->name, p->pid)\<close>.\<close>

definition name_pid :: "pinfo \<Rightarrow> varg list" where
  "name_pid p = [ArgStr (Some (pi_name p)), Arg (u64_of_int (pi_pid p))]"

definition print_process :: "pinfo \<Rightarrow> nat \<Rightarrow> int \<Rightarrow> byte list" where
  "print_process p depth is_root =
     print_indent depth depth @
     (if pi_state p = pinfo_code PINFO_ZOMBIE then u_printf (''%s(%d,ZOMBIE)'' @ [CHR 0x0A]) (name_pid p)
      else if pi_state p = pinfo_code PINFO_RUNNING then u_printf (''%s(%d,RUN)'' @ [CHR 0x0A]) (name_pid p)
      else if pi_state p = pinfo_code PINFO_SLEEPING then u_printf (''%s(%d,SLEEP)'' @ [CHR 0x0A]) (name_pid p)
      else if pi_state p = pinfo_code PINFO_RUNNABLE then u_printf (''%s(%d,RDY)'' @ [CHR 0x0A]) (name_pid p)
      else u_printf (''%s(%d)'' @ [CHR 0x0A]) (name_pid p))"

text \<open>
  \<open>dfs\<close> at iteration \<open>i\<close> of its loop.  The pair holds \<open>*count\<close> and what has been printed so far.
\<close>

partial_function (option) dfs_from ::
  "pinfo list \<Rightarrow> nat \<Rightarrow> int \<Rightarrow> nat \<Rightarrow> int \<times> byte list \<Rightarrow> (int \<times> byte list) option" where
  "dfs_from ps i parent_pid depth co =
     (if i \<ge> length ps then Some co
      else if pi_ppid (ps ! i) = parent_pid
      then Option.bind (dfs_from ps 0 (pi_pid (ps ! i)) (depth + 1)
               (fst co + 1, snd co @ print_process (ps ! i) depth 0))
             (\<lambda>co. dfs_from ps (Suc i) parent_pid depth co)
      else dfs_from ps (Suc i) parent_pid depth co)"

definition dfs :: "int \<Rightarrow> nat \<Rightarrow> pinfo list \<Rightarrow> int \<times> byte list \<Rightarrow> (int \<times> byte list) option" where
  "dfs parent_pid depth ps co = dfs_from ps 0 parent_pid depth co"

text \<open>The line \<open>main\<close> prints for \<open>init\<close> itself.\<close>

definition print_init :: "pinfo \<Rightarrow> byte list" where
  "print_init init =
     u_printf ''%s(%d'' (name_pid init) @
     (if pi_state init = pinfo_code PINFO_ZOMBIE then u_printf '',ZOMBIE'' []
      else if pi_state init = pinfo_code PINFO_RUNNING then u_printf '',RUN'' []
      else if pi_state init = pinfo_code PINFO_SLEEPING then u_printf '',SLEEP'' []
      else if pi_state init = pinfo_code PINFO_RUNNABLE then u_printf '',RDY'' []
      else []) @ u_printf ('')'' @ [CHR 0x0A]) []"

text \<open>
  \<open>main\<close>: \<open>n\<close> is what \<open>getprocs\<close> returned and \<open>tab\<close> the array it filled.  The result is the output and
  the exit status.
\<close>

definition ptv_main :: "int \<Rightarrow> pinfo list \<Rightarrow> (byte list \<times> int) option" where
  "ptv_main n tab =
     (if n < 0 then Some (u_printf (''ptv: getprocs failed'' @ [CHR 0x0A]) [], 1)
      else if n = 0 then Some (u_printf (''No processes found'' @ [CHR 0x0A]) [], 0)
      else let ps = take (nat n) tab in
        case find (\<lambda>p. pi_pid p = 1) ps of
          None \<Rightarrow> Some (u_printf (''ptv: init process not found'' @ [CHR 0x0A]) [], 1)
        | Some init \<Rightarrow> Option.bind (dfs 1 1 ps (1, print_init init)) (\<lambda>(total_count, out).
            Some (out @ u_printf (''Total: %d processes'' @ [CHR 0x0A]) [Arg (u64_of_int total_count)], 0)))"

subsection \<open>The tree below a process\<close>

text \<open>Entry \<open>i\<close> of the table lies \<open>d\<close> levels below the process with the given pid.\<close>

inductive below :: "pinfo list \<Rightarrow> int \<Rightarrow> nat \<Rightarrow> nat \<Rightarrow> bool" for ps where
  child: "i < length ps \<Longrightarrow> pi_ppid (ps ! i) = pid \<Longrightarrow> below ps pid 0 i"
| deeper: "j < length ps \<Longrightarrow> pi_ppid (ps ! j) = pid \<Longrightarrow> below ps (pi_pid (ps ! j)) d i \<Longrightarrow> below ps pid (Suc d) i"

text \<open>
  No cycles: a rank that grows from parent to child.  It follows from the kernel's table whenever
  every process is created after its parent.
\<close>

definition ranked :: "pinfo list \<Rightarrow> (int \<Rightarrow> nat) \<Rightarrow> bool" where
  "ranked ps r \<longleftrightarrow> (\<forall>p \<in> set ps. r (pi_ppid p) < r (pi_pid p))"

text \<open>
  The reference: the visits of the search in preorder, each an entry and its depth, with the
  recursion bounded by the greatest rank.
\<close>

primrec preorder :: "nat \<Rightarrow> pinfo list \<Rightarrow> int \<Rightarrow> nat \<Rightarrow> (nat \<times> nat) list" where
  "preorder 0 ps pid d = []"
| "preorder (Suc k) ps pid d =
     concat (map (\<lambda>i. if pi_ppid (ps ! i) = pid then (i, d) # preorder k ps (pi_pid (ps ! i)) (d + 1) else [])
       [0..<length ps])"

abbreviation lines :: "pinfo list \<Rightarrow> (nat \<times> nat) list \<Rightarrow> byte list" where
  "lines ps vs \<equiv> concat (map (\<lambda>(i, d). print_process (ps ! i) d 0) vs)"

definition max_rank :: "pinfo list \<Rightarrow> (int \<Rightarrow> nat) \<Rightarrow> nat" where
  "max_rank ps r = Max (insert 0 ((\<lambda>p. r (pi_pid p)) ` set ps))"

lemma max_rank: "p \<in> set ps \<Longrightarrow> r (pi_pid p) \<le> max_rank ps r"
  by (simp add: max_rank_def)

text \<open>On an acyclic table the search returns, and prints the preorder.\<close>

lemma dfs_from_preorder:
  assumes IH: "\<And>i co d. i < length ps \<Longrightarrow> pi_ppid (ps ! i) = pid \<Longrightarrow>
      dfs_from ps 0 (pi_pid (ps ! i)) d co =
        (let vs = preorder k ps (pi_pid (ps ! i)) d in Some (fst co + int (length vs), snd co @ lines ps vs))"
  shows "i \<le> length ps \<Longrightarrow> dfs_from ps i pid d co =
    (let vs = concat (map (\<lambda>i. if pi_ppid (ps ! i) = pid
        then (i, d) # preorder k ps (pi_pid (ps ! i)) (d + 1) else []) [i..<length ps])
     in Some (fst co + int (length vs), snd co @ lines ps vs))"
proof (induction "length ps - i" arbitrary: i co)
  case 0
  then show ?case by (subst dfs_from.simps) simp
next
  case (Suc n)
  then have i: "i < length ps" "[i..<length ps] = i # [Suc i..<length ps]" by (simp_all add: upt_conv_Cons)
  show ?case
    using Suc i IH [OF i(1)] by (subst dfs_from.simps) (simp add: Let_def case_prod_beta)
qed

lemma dfs_preorder:
  assumes "ranked ps r" "max_rank ps r - r pid < k"
  shows "dfs_from ps 0 pid d co =
    (let vs = preorder k ps pid d in Some (fst co + int (length vs), snd co @ lines ps vs))"
  using assms(2)
proof (induction k arbitrary: pid d co)
  case (Suc k)
  have "dfs_from ps 0 (pi_pid (ps ! i)) d co =
      (let vs = preorder k ps (pi_pid (ps ! i)) d in Some (fst co + int (length vs), snd co @ lines ps vs))"
    if i: "i < length ps" "pi_ppid (ps ! i) = pid" for i co d
  proof (rule Suc.IH)
    have "r pid < r (pi_pid (ps ! i))" "r (pi_pid (ps ! i)) \<le> max_rank ps r"
      using assms(1) i by (auto simp: ranked_def max_rank)
    then show "max_rank ps r - r (pi_pid (ps ! i)) < k" using Suc.prems by linarith
  qed
  then show ?case
    using dfs_from_preorder [where i = 0] by simp
qed simp

subsection \<open>Every descendant is visited once\<close>

text \<open>Climbing from entry \<open>i\<close>, the entry \<open>e\<close> levels up is \<open>j\<close>.\<close>

primrec up :: "pinfo list \<Rightarrow> nat \<Rightarrow> nat \<Rightarrow> nat \<Rightarrow> bool" where
  "up ps j 0 i \<longleftrightarrow> i = j"
| "up ps j (Suc e) i \<longleftrightarrow> (\<exists>h < length ps. pi_pid (ps ! h) = pi_ppid (ps ! i) \<and> up ps j e h)"

lemma up_extend:
  "up ps j e i \<Longrightarrow> h < length ps \<Longrightarrow> pi_ppid (ps ! j) = pi_pid (ps ! h) \<Longrightarrow> up ps h (Suc e) i"
  by (induction e arbitrary: i) auto

lemma below_up:
  "below ps pid e i \<Longrightarrow> \<exists>j < length ps. pi_ppid (ps ! j) = pid \<and> up ps j e i"
proof (induction rule: below.induct)
  case (child i pid)
  then show ?case by auto
next
  case (deeper j pid d i)
  then show ?case using up_extend by blast
qed

lemma below_length: "below ps pid e i \<Longrightarrow> i < length ps"
  by (induction rule: below.induct) simp_all

lemma up_rank:
  "up ps j e i \<Longrightarrow> ranked ps r \<Longrightarrow> i < length ps \<Longrightarrow> r (pi_pid (ps ! j)) \<le> r (pi_pid (ps ! i))"
proof (induction e arbitrary: i)
  case (Suc e)
  then obtain h where h: "h < length ps" "pi_pid (ps ! h) = pi_ppid (ps ! i)" "up ps j e h" by auto
  then have "r (pi_pid (ps ! j)) \<le> r (pi_ppid (ps ! i))" using Suc.IH [of h] Suc.prems by simp
  also have "\<dots> < r (pi_pid (ps ! i))" using Suc.prems by (simp add: ranked_def)
  finally show ?case by simp
qed simp

lemma up_unique:
  assumes "distinct (map pi_pid ps)" "ranked ps r" "pi_ppid (ps ! j) = pi_ppid (ps ! j')"
    and "j < length ps" "j' < length ps"
  shows "up ps j e i \<Longrightarrow> up ps j' e' i \<Longrightarrow> i < length ps \<Longrightarrow> j = j'"
proof (induction e arbitrary: e' i)
  have no: False if "j < length ps" "j' < length ps" "pi_ppid (ps ! j) = pi_ppid (ps ! j')" "up ps j' (Suc x) j"
    for x j j'
  proof -
    obtain h where "h < length ps" "pi_pid (ps ! h) = pi_ppid (ps ! j)" "up ps j' x h" using \<open>up ps j' (Suc x) j\<close> by auto
    then have "r (pi_pid (ps ! j')) \<le> r (pi_ppid (ps ! j'))"
      using up_rank [OF _ assms(2)] that by metis
    then show False using assms(2) that by (metis leD nth_mem ranked_def)
  qed
  {
    case 0
    then show ?case using no [of j j'] assms by (cases e') auto
  next
    case (Suc e)
    show ?case
    proof (cases e')
      case 0
      then show ?thesis using Suc.prems no [of j' j e] assms by simp
    next
      case (Suc x)
      with Suc.prems obtain h h' where h: "h < length ps" "pi_pid (ps ! h) = pi_ppid (ps ! i)" "up ps j e h"
        "h' < length ps" "pi_pid (ps ! h') = pi_ppid (ps ! i)" "up ps j' x h'" by auto
      then have "h = h'" using assms(1) by (simp add: distinct_conv_nth) metis
      with h show ?thesis using Suc.IH [of h x] by simp
    qed
  }
qed

lemma distinct_concat_map:
  assumes "distinct xs" "\<And>x. x \<in> set xs \<Longrightarrow> distinct (f x)"
    "\<And>x y. x \<in> set xs \<Longrightarrow> y \<in> set xs \<Longrightarrow> x \<noteq> y \<Longrightarrow> set (f x) \<inter> set (f y) = {}"
  shows "distinct (concat (map f xs))"
  using assms by (induction xs) auto

lemma preorder_below: "(i, d') \<in> set (preorder k ps pid d) \<Longrightarrow> \<exists>e. d' = d + e \<and> below ps pid e i"
proof (induction k arbitrary: pid d)
  case (Suc k)
  then obtain j where j: "j < length ps" "pi_ppid (ps ! j) = pid"
    "(i, d') = (j, d) \<or> (i, d') \<in> set (preorder k ps (pi_pid (ps ! j)) (d + 1))"
    by (auto split: if_splits)
  from j(3) show ?case
  proof
    assume "(i, d') = (j, d)"
    with j show ?thesis by (auto intro: below.child)
  next
    assume "(i, d') \<in> set (preorder k ps (pi_pid (ps ! j)) (d + 1))"
    then obtain e where "d' = d + 1 + e" "below ps (pi_pid (ps ! j)) e i" using Suc.IH by blast
    with j show ?thesis by (auto intro!: exI [of _ "Suc e"] below.deeper)
  qed
qed simp

lemma below_preorder:
  assumes "ranked ps r"
  shows "below ps pid e i \<Longrightarrow> max_rank ps r - r pid < k \<Longrightarrow> (i, d + e) \<in> set (preorder k ps pid d)"
proof (induction arbitrary: k d rule: below.induct)
  case (child i pid)
  then show ?case by (cases k) auto
next
  case (deeper j pid e i)
  then obtain k' where k: "k = Suc k'" by (cases k) auto
  have "r pid < r (pi_pid (ps ! j))" "r (pi_pid (ps ! j)) \<le> max_rank ps r"
    using assms deeper.hyps by (auto simp: ranked_def max_rank)
  then have "(i, d + 1 + e) \<in> set (preorder k' ps (pi_pid (ps ! j)) (d + 1))"
    using deeper.prems k by (intro deeper.IH) linarith
  with deeper.hyps k show ?case by (auto intro!: bexI [of _ j])
qed

lemma preorder_up:
  assumes "(i, d') \<in> set (preorder k ps (pi_pid (ps ! j)) d)" "j < length ps"
  shows "i < length ps" "\<exists>e. up ps j (Suc e) i"
proof -
  obtain e where b: "below ps (pi_pid (ps ! j)) e i" using preorder_below [OF assms(1)] by blast
  then obtain h where "pi_ppid (ps ! h) = pi_pid (ps ! j)" "up ps h e i" using below_up by blast
  then show "\<exists>e. up ps j (Suc e) i" using up_extend assms(2) by blast
  show "i < length ps" using below_length [OF b] .
qed

lemma up_Suc_neq:
  assumes "up ps j (Suc e) i" "ranked ps r" "i < length ps"
  shows "i \<noteq> j"
proof -
  obtain h where h: "h < length ps" "pi_pid (ps ! h) = pi_ppid (ps ! i)" "up ps j e h" using assms(1) by auto
  have "r (pi_pid (ps ! j)) \<le> r (pi_ppid (ps ! i))" using up_rank [OF h(3) assms(2) h(1)] h(2) by simp
  also have "\<dots> < r (pi_pid (ps ! i))" using assms(2,3) by (simp add: ranked_def)
  finally show ?thesis by auto
qed

text \<open>The entries below child \<open>j\<close> and \<open>j\<close> itself.\<close>

definition subtree :: "nat \<Rightarrow> pinfo list \<Rightarrow> int \<Rightarrow> nat \<Rightarrow> nat \<Rightarrow> nat list" where
  "subtree k ps pid d j = map fst
     (if pi_ppid (ps ! j) = pid then (j, d) # preorder k ps (pi_pid (ps ! j)) (d + 1) else [])"

lemma subtree_up:
  assumes "i \<in> set (subtree k ps pid d j)" "j < length ps"
  shows "pi_ppid (ps ! j) = pid" "i < length ps" "\<exists>e. up ps j e i"
proof -
  show "pi_ppid (ps ! j) = pid" using assms(1) by (auto simp: subtree_def split: if_splits)
  consider "i = j" | d' where "(i, d') \<in> set (preorder k ps (pi_pid (ps ! j)) (d + 1))"
    using assms(1) by (auto simp: subtree_def split: if_splits)
  then have "i < length ps \<and> (\<exists>e. up ps j e i)"
  proof cases
    case 1
    then show ?thesis using assms(2) by (auto intro: exI [of _ 0])
  next
    case 2
    then show ?thesis using preorder_up [OF 2 assms(2)] by blast
  qed
  then show "i < length ps" "\<exists>e. up ps j e i" by blast+
qed

lemma preorder_distinct:
  assumes "distinct (map pi_pid ps)" "ranked ps r"
  shows "distinct (map fst (preorder k ps pid d))"
proof (induction k arbitrary: pid d)
  case (Suc k)
  have "distinct (concat (map (subtree k ps pid d) [0..<length ps]))"
  proof (rule distinct_concat_map)
    fix j assume "j \<in> set [0..<length ps]"
    then have "(j, d') \<notin> set (preorder k ps (pi_pid (ps ! j)) (d + 1))" for d'
      using preorder_up [of j d' k ps j "d + 1"] up_Suc_neq [OF _ assms(2), of j _ j] by auto
    then have "j \<notin> set (map fst (preorder k ps (pi_pid (ps ! j)) (d + 1)))" by auto
    then show "distinct (subtree k ps pid d j)" using Suc.IH by (simp add: subtree_def)
  next
    fix j j' assume "j \<in> set [0..<length ps]" "j' \<in> set [0..<length ps]" "j \<noteq> j'"
    then have j: "j < length ps" "j' < length ps" "j \<noteq> j'" by simp_all
    have False if i: "i \<in> set (subtree k ps pid d j)" "i \<in> set (subtree k ps pid d j')" for i
      using subtree_up [OF i(1) j(1)] subtree_up [OF i(2) j(2)] up_unique [OF assms _ j(1,2)] j(3) by metis
    then show "set (subtree k ps pid d j) \<inter> set (subtree k ps pid d j') = {}" by blast
  qed simp
  then show ?case by (simp add: map_concat comp_def subtree_def [abs_def])
qed simp

subsection \<open>Properties\<close>

lemma dfs_visits:
  assumes "distinct (map pi_pid ps)" "ranked ps r"
  shows "\<exists>vs. dfs pid depth ps co = Some (fst co + int (length vs), snd co @ lines ps vs) \<and>
    distinct (map fst vs) \<and> (\<forall>i d. (i, d) \<in> set vs \<longleftrightarrow> (\<exists>e. d = depth + e \<and> below ps pid e i))"
proof -
  let ?vs = "preorder (Suc (max_rank ps r - r pid)) ps pid depth"
  have "dfs pid depth ps co = Some (fst co + int (length ?vs), snd co @ lines ps ?vs)"
    using dfs_preorder [OF assms(2) lessI, of pid depth co] unfolding dfs_def Let_def .
  moreover have "distinct (map fst ?vs)" by (rule preorder_distinct [OF assms])
  moreover have "(i, d) \<in> set ?vs \<longleftrightarrow> (\<exists>e. d = depth + e \<and> below ps pid e i)" for i d
    using preorder_below [of i d _ ps pid depth] below_preorder [OF assms(2) _ lessI, of pid _ i depth] by blast
  ultimately show ?thesis by blast
qed


text \<open>A table with \<open>init\<close>, a shell below it and \<open>ptv\<close> below the shell.\<close>

definition sample_table :: "pinfo list" where
  "sample_table =
     [\<lparr>pi_pid = 1, pi_ppid = - 1, pi_state = pinfo_code PINFO_SLEEPING, pi_name = map of_char ''init''\<rparr>,
      \<lparr>pi_pid = 3, pi_ppid = 2, pi_state = pinfo_code PINFO_RUNNING, pi_name = map of_char ''ptv''\<rparr>,
      \<lparr>pi_pid = 2, pi_ppid = 1, pi_state = pinfo_code PINFO_SLEEPING, pi_name = map of_char ''sh''\<rparr>]"

lemma sample_table_ranked: "\<forall>p \<in> set sample_table. nat (pi_ppid p + 1) < nat (pi_pid p + 1)"
  by (simp add: sample_table_def)

lemma sample_table_pids: "distinct (map pi_pid sample_table)"
  by (simp add: sample_table_def)


text \<open>The total \<open>ptv\<close> prints.\<close>

lemma ptv_total:
  fixes r :: "int \<Rightarrow> nat"
  assumes "distinct (map pi_pid ps)" "\<forall>p \<in> set ps. r (pi_ppid p) < r (pi_pid p)"
    and "init \<in> set ps" "pi_pid init = 1"
    and "\<forall>i < length ps. pi_pid (ps ! i) \<noteq> 1 \<longrightarrow> (\<exists>e. below ps 1 e i)"
  shows "\<exists>out. ptv_main (int (length ps)) ps =
    Some (out @ u_printf (''Total: %d processes'' @ [CHR 0x0A]) [Arg (u64_of_int (int (length ps)))], 0)"
proof -
  have rk: "ranked ps r" using assms(2) by (simp add: ranked_def)
  obtain k where k: "k < length ps" "pi_pid (ps ! k) = 1" using assms(3,4) by (metis in_set_conv_nth)
  have other: "pi_pid (ps ! i) \<noteq> 1" if b: "below ps 1 e i" for i e
  proof -
    obtain j where j: "j < length ps" "pi_ppid (ps ! j) = 1" "up ps j e i" using below_up [OF b] by blast
    then have "r 1 < r (pi_pid (ps ! i))"
      using up_rank [OF j(3) rk below_length [OF b]] rk
      by (metis nth_mem order_less_le_trans ranked_def)
    then show ?thesis by auto
  qed
  have "i = k" if "i < length ps" "pi_pid (ps ! i) = 1" for i
    using that k assms(1) by (simp add: distinct_conv_nth) metis
  then have set1: "{i. \<exists>e. below ps 1 e i} = {..<length ps} - {k}"
    using other assms(5) below_length k(2) by blast
  have len: "length vs = length ps - 1"
    if "distinct (map fst vs)" "\<forall>i d. (i, d) \<in> set vs \<longleftrightarrow> (\<exists>e. d = 1 + e \<and> below ps 1 e i)" for vs
  proof -
    have "fst ` set vs = {i. \<exists>e. below ps 1 e i}" using that(2) by force
    then have "length (map fst vs) = card ({..<length ps} - {k})"
      using distinct_card [OF that(1)] set1 by simp
    then show ?thesis using k by simp
  qed
  obtain q where q: "find (\<lambda>p. pi_pid p = 1) ps = Some q"
    using assms(3,4) by (metis (mono_tags, lifting) find_None_iff not_None_eq)
  obtain out where "dfs 1 1 ps (1, print_init q) = Some (int (length ps), out)"
    using dfs_visits [OF assms(1) rk, of 1 1 "(1, print_init q)"] len k(1) by auto
  with q k show ?thesis by (auto simp: ptv_main_def)
qed

text \<open>
  C6. When the table has \<open>init\<close> and every other process descends from it, \<open>ptv\<close> exits with status 0
  and the total it prints is the number of processes in the table.
\<close>

theorem ptv_counts_everyone:
  fixes r :: "int \<Rightarrow> nat"
  assumes "distinct (map pi_pid ps)" "\<forall>p \<in> set ps. r (pi_ppid p) < r (pi_pid p)"
    and "init \<in> set ps" "pi_pid init = 1"
    and "\<forall>i < length ps. pi_pid (ps ! i) \<noteq> 1 \<longrightarrow> (\<exists>e. below ps 1 e i)"
  shows "\<exists>out. ptv_main (int (length ps)) ps =
    Some (out @ u_printf (''Total: %d processes'' @ [CHR 0x0A]) [Arg (u64_of_int (int (length ps)))], 0)"
  by (rule ptv_total [OF assms])

lemma sample_table_below: "below sample_table 1 0 2" "below sample_table 1 1 1"
proof -
  show "below sample_table 1 0 2" by (rule below.child) (simp_all add: sample_table_def)
  have "below sample_table 2 0 1" by (rule below.child) (simp_all add: sample_table_def)
  then show "below sample_table 1 1 1"
    using below.deeper [of 2 sample_table 1 0 1] by (simp add: sample_table_def)
qed

theorem ptv_counts_everyone_witness:
  "\<exists>out. ptv_main 3 sample_table = Some (out @ u_printf (''Total: %d processes'' @ [CHR 0x0A]) [Arg 3], 0)"
proof -
  have len: "length sample_table = 3" by (simp add: sample_table_def)
  have "pi_pid (sample_table ! i) \<noteq> 1 \<longrightarrow> (\<exists>e. below sample_table 1 e i)" if i: "i < 3" for i
  proof -
    have "i = 0 \<or> i = 1 \<or> i = 2" using i by auto
    moreover have "pi_pid (sample_table ! 0) = 1" by (simp add: sample_table_def)
    ultimately show ?thesis using sample_table_below by auto
  qed
  moreover have "sample_table ! 0 \<in> set sample_table" "pi_pid (sample_table ! 0) = 1"
    by (simp_all add: sample_table_def)
  ultimately show ?thesis
    using ptv_counts_everyone [OF sample_table_pids sample_table_ranked, of "sample_table ! 0", unfolded len]
    by (simp add: u64_of_int_def)
qed

end
