(* ===== verification/Grep.thy ===== *)
theory Grep
  imports Ulib
begin

section \<open>Searching text: grep (user/grep.c)\<close>

text \<open>
  The pattern matcher of Kernighan and Pike and the loop that feeds it lines.  The specification
  (\<open>lang\<close>) gives the set of texts a pattern describes; the matcher is proved to search for one of them.

  The codes of the special characters: 36 is the dollar sign, 42 the star, 46 the dot, 94 the caret.
\<close>

subsection \<open>The matcher\<close>

function matchhere :: "byte list \<Rightarrow> byte list \<Rightarrow> bool"
  and matchstar :: "byte \<Rightarrow> byte list \<Rightarrow> byte list \<Rightarrow> bool" where
  "matchhere re tx =
     (if hd0 re = 0 then True
      else if hd0 (tl re) = 42 then matchstar (hd0 re) (tl (tl re)) tx
      else if hd0 re = 36 \<and> hd0 (tl re) = 0 then hd0 tx = 0
      else if hd0 tx \<noteq> 0 \<and> (hd0 re = 46 \<or> hd0 re = hd0 tx) then matchhere (tl re) (tl tx)
      else False)"
| "matchstar c re tx =
     (if matchhere re tx then True
      else if hd0 tx \<noteq> 0 \<and> (hd0 tx = c \<or> c = 46) then matchstar c re (tl tx)
      else False)"
  by pat_completeness auto
termination
proof (relation "measures [\<lambda>x. case x of Inl (re, tx) \<Rightarrow> length re | Inr (c, re, tx) \<Rightarrow> length re,
    \<lambda>x. case x of Inl (re, tx) \<Rightarrow> length tx | Inr (c, re, tx) \<Rightarrow> length tx,
    \<lambda>x. case x of Inl _ \<Rightarrow> 0 | Inr _ \<Rightarrow> 1]", goal_cases)
  case (2 re tx)
  then show ?case by (cases re; cases "tl re") auto
next
  case (3 re tx)
  then show ?case by (cases re) auto
next
  case (5 c re tx)
  then show ?case by (cases tx) auto
qed simp_all

declare matchhere.simps [simp del] matchstar.simps [simp del]

function match_from :: "byte list \<Rightarrow> byte list \<Rightarrow> bool" where
  "match_from re tx =
     (if matchhere re tx then True else if hd0 tx \<noteq> 0 then match_from re (tl tx) else False)"
  by pat_completeness auto
termination by (relation "measure (\<lambda>(re, tx). length tx)") (auto simp: hd0_def split: list.splits)

declare match_from.simps [simp del]

definition match :: "byte list \<Rightarrow> byte list \<Rightarrow> bool" where
  "match re tx = (if hd0 re = 94 then matchhere (tl re) tx else match_from re tx)"

subsection \<open>The loop over the input\<close>

lemma u_strchr_length: "u_strchr p c = Some q \<Longrightarrow> length q \<le> length p \<and> q \<noteq> []"
  by (induction p) (auto split: if_splits)

text \<open>
  \<open>p\<close> is the filled part of the buffer, a string.  The result is what is written and what is left
  behind the last newline.
\<close>

function grep_lines :: "byte list \<Rightarrow> byte list \<Rightarrow> byte list \<times> byte list" where
  "grep_lines re p =
     (case u_strchr p 10 of
        None \<Rightarrow> ([], p)
      | Some q \<Rightarrow>
          let line = take (length p - length q) p;
              (out, rest) = grep_lines re (tl q)
          in ((if match re line then line @ [10] else []) @ out, rest))"
  by pat_completeness auto
termination
proof (relation "measure (\<lambda>(re, p). length p)", goal_cases)
  case (2 re p q)
  then show ?case using u_strchr_length [of p 10 q] by (cases q) auto
qed simp

declare grep_lines.simps [simp del]

definition sizeof_buf :: nat where "sizeof_buf = 1024"

text \<open>
  \<open>reads\<close> are the results of the successive calls of \<open>read\<close>, up to the first that is not positive.
  A call for 0 bytes returns 0 and ends the loop.
\<close>

primrec grep_loop :: "byte list \<Rightarrow> byte list \<Rightarrow> byte list list \<Rightarrow> byte list" where
  "grep_loop re buf [] = []"
| "grep_loop re buf (r # reads) =
     (if sizeof_buf - length buf - 1 = 0 \<or> r = [] then []
      else let (out, rest) = grep_lines re (buf @ r) in out @ grep_loop re rest reads)"

definition grep :: "byte list \<Rightarrow> byte list list \<Rightarrow> byte list" where
  "grep re reads = grep_loop re [] reads"

subsection \<open>What a pattern describes\<close>

datatype item = One byte | Many byte

function parse_re :: "byte list \<Rightarrow> item list \<times> bool" where
  "parse_re re =
     (if hd0 re = 0 then ([], False)
      else if hd0 (tl re) = 42 then let (is, eol) = parse_re (tl (tl re)) in (Many (hd0 re) # is, eol)
      else if hd0 re = 36 \<and> hd0 (tl re) = 0 then ([], True)
      else let (is, eol) = parse_re (tl re) in (One (hd0 re) # is, eol))"
  by pat_completeness auto
termination by (relation "measure length") (auto simp: hd0_def split: list.splits)

declare parse_re.simps [simp del]

definition fits :: "byte \<Rightarrow> byte \<Rightarrow> bool" where
  "fits c x \<longleftrightarrow> c = 46 \<or> c = x"

fun lang :: "item list \<Rightarrow> byte list set" where
  "lang [] = {[]}"
| "lang (One c # is) = {x # w | x w. fits c x \<and> w \<in> lang is}"
| "lang (Many c # is) = {u @ w | u w. list_all (fits c) u \<and> w \<in> lang is}"

text \<open>A text starts with a word of the pattern, which is the whole text if the pattern ends in a dollar sign.\<close>

definition starts :: "item list \<times> bool \<Rightarrow> byte list \<Rightarrow> bool" where
  "starts p t \<longleftrightarrow> (\<exists>w v. t = w @ v \<and> w \<in> lang (fst p) \<and> (snd p \<longrightarrow> v = []))"

lemma cstr_cases:
  "hd0 t = 0 \<and> cstr t = [] \<or> hd0 t \<noteq> 0 \<and> cstr t = hd0 t # cstr (tl t)"
  by (cases t) auto

lemma starts_Nil [simp]: "starts ([], False) t" "starts ([], True) t \<longleftrightarrow> t = []"
  by (auto simp: starts_def)

lemma starts_One: "starts (One c # is, e) t \<longleftrightarrow> (\<exists>x t'. t = x # t' \<and> fits c x \<and> starts (is, e) t')"
proof -
  have "starts (One c # is, e) t \<longleftrightarrow>
      (\<exists>x w v. t = x # w @ v \<and> fits c x \<and> w \<in> lang is \<and> (e \<longrightarrow> v = []))"
    unfolding starts_def lang.simps fst_conv snd_conv mem_Collect_eq by (metis append_Cons)
  then show ?thesis unfolding starts_def fst_conv snd_conv by blast
qed

lemma starts_Many_iff:
  "starts (Many c # is, e) t \<longleftrightarrow> (\<exists>u t'. t = u @ t' \<and> list_all (fits c) u \<and> starts (is, e) t')"
proof -
  have "starts (Many c # is, e) t \<longleftrightarrow>
      (\<exists>u w v. t = u @ w @ v \<and> list_all (fits c) u \<and> w \<in> lang is \<and> (e \<longrightarrow> v = []))"
    unfolding starts_def lang.simps fst_conv snd_conv mem_Collect_eq by (metis append_assoc)
  then show ?thesis unfolding starts_def fst_conv snd_conv by blast
qed

lemma starts_Many:
  "starts (Many c # is, e) t \<longleftrightarrow> starts (is, e) t \<or> (\<exists>x t'. t = x # t' \<and> fits c x \<and> starts (Many c # is, e) t')"
  (is "_ \<longleftrightarrow> ?r")
proof
  assume "starts (Many c # is, e) t"
  then obtain u t' where "t = u @ t'" "list_all (fits c) u" "starts (is, e) t'" by (auto simp: starts_Many_iff)
  then show ?r by (cases u) (auto simp: starts_Many_iff)
next
  assume ?r
  then show "starts (Many c # is, e) t"
  proof (elim disjE exE conjE)
    assume "starts (is, e) t"
    then show ?thesis unfolding starts_Many_iff by (intro exI [of _ "[]"] exI [of _ t]) simp
  next
    fix x t' assume t: "t = x # t'" "fits c x" "starts (Many c # is, e) t'"
    then obtain u v where "t' = u @ v" "list_all (fits c) u" "starts (is, e) v" by (auto simp: starts_Many_iff)
    with t show ?thesis unfolding starts_Many_iff by (intro exI [of _ "x # u"] exI [of _ v]) simp
  qed
qed

lemma matchhere_starts:
  "matchhere re tx \<longleftrightarrow> starts (parse_re re) (cstr tx)"
  "matchstar c re tx \<longleftrightarrow> starts (Many c # fst (parse_re re), snd (parse_re re)) (cstr tx)"
proof (induction re tx and c re tx rule: matchhere_matchstar.induct)
  case (1 re tx)
  then show ?case
    using cstr_cases [of tx]
    by (subst matchhere.simps, subst parse_re.simps)
      (auto simp: Let_def case_prod_beta starts_One fits_def)
next
  case (2 c re tx)
  then show ?case
    using cstr_cases [of tx]
    by (subst matchstar.simps, subst starts_Many) (auto simp: fits_def)
qed

text \<open>Some suffix of the text has the property.\<close>

definition somewhere :: "(byte list \<Rightarrow> bool) \<Rightarrow> byte list \<Rightarrow> bool" where
  "somewhere P t \<longleftrightarrow> (\<exists>a b. t = a @ b \<and> P b)"

lemma somewhere_simps [simp]: "somewhere P [] \<longleftrightarrow> P []" "somewhere P (x # t) \<longleftrightarrow> P (x # t) \<or> somewhere P t"
  by (auto simp: somewhere_def) (metis append_Cons append_Nil append_eq_Cons_conv)+

lemma match_from_starts: "match_from re tx \<longleftrightarrow> somewhere (starts (parse_re re)) (cstr tx)"
proof (induction re tx rule: match_from.induct)
  case (1 re tx)
  show ?case
  proof (cases "hd0 tx = 0")
    case True
    then have "cstr tx = []" using cstr_cases [of tx] by simp
    then show ?thesis using True by (subst match_from.simps) (simp add: matchhere_starts)
  next
    case False
    then have "cstr tx = hd0 tx # cstr (tl tx)" using cstr_cases [of tx] by simp
    then show ?thesis using False 1 by (subst match_from.simps) (auto simp: matchhere_starts)
  qed
qed

subsection \<open>Lines\<close>

text \<open>The complete lines of a text, without their newlines, and the rest behind the last newline.\<close>

primrec split_lines :: "byte list \<Rightarrow> byte list list \<times> byte list" where
  "split_lines [] = ([], [])"
| "split_lines (c # t) =
     (let (ls, rest) = split_lines t
      in if c = 10 then ([] # ls, rest)
         else case ls of [] \<Rightarrow> ([], c # rest) | l # ls' \<Rightarrow> ((c # l) # ls', rest))"

lemma split_lines_none: "fst (split_lines p) = [] \<Longrightarrow> snd (split_lines p) = p"
  by (induction p) (auto simp: Let_def case_prod_beta split: list.splits if_splits)

lemma split_lines_newline:
  "10 \<in> set p \<Longrightarrow> split_lines p =
     (takeWhile (\<lambda>c. c \<noteq> 10) p # fst (split_lines (tl (dropWhile (\<lambda>c. c \<noteq> 10) p))),
      snd (split_lines (tl (dropWhile (\<lambda>c. c \<noteq> 10) p))))"
  "10 \<notin> set p \<Longrightarrow> split_lines p = ([], p)"
  by (induction p) (auto simp: Let_def case_prod_beta)

lemma split_lines_append:
  "split_lines (p @ q) = (fst (split_lines p) @ fst (split_lines (snd (split_lines p) @ q)),
     snd (split_lines (snd (split_lines p) @ q)))"
proof (induction p)
  case (Cons c p)
  show ?case
  proof (cases "fst (split_lines p)")
    case Nil
    with Cons split_lines_none [OF Nil] show ?thesis by (auto simp: Let_def case_prod_beta)
  next
    case (Cons l ls)
    with Cons.IH show ?thesis by (auto simp: Let_def case_prod_beta)
  qed
qed simp

lemma u_strchr_newline:
  "0 \<notin> set p \<Longrightarrow> u_strchr p 10 = (if 10 \<in> set p then Some (dropWhile (\<lambda>c. c \<noteq> 10) p) else None)"
  by (induction p) auto

definition selected :: "byte list \<Rightarrow> byte list list \<Rightarrow> byte list" where
  "selected re ls = concat (map (\<lambda>l. l @ [10]) (filter (match re) ls))"

lemma selected_simps [simp]:
  "selected re [] = []" "selected re (l # ls) = (if match re l then l @ [10] else []) @ selected re ls"
  "selected re (ls @ ls') = selected re ls @ selected re ls'"
  by (simp_all add: selected_def)

lemma grep_lines_eq:
  "0 \<notin> set p \<Longrightarrow> grep_lines re p = (selected re (fst (split_lines p)), snd (split_lines p))"
proof (induction re p rule: grep_lines.induct)
  case (1 re p)
  show ?case
  proof (cases "10 \<in> set p")
    case True
    let ?d = "dropWhile (\<lambda>c. c \<noteq> 10) p"
    have q: "u_strchr p 10 = Some ?d" using "1.prems" True by (simp add: u_strchr_newline)
    have line: "take (length p - length ?d) p = takeWhile (\<lambda>c. c \<noteq> 10) p"
      by (metis add_diff_cancel_right' append_eq_conv_conj length_append takeWhile_dropWhile_id)
    have "set (tl ?d) \<subseteq> set p" by (metis list.set_sel(2) set_dropWhileD subsetI tl_Nil)
    then have "0 \<notin> set (tl ?d)" using "1.prems" by blast
    then have "grep_lines re (tl ?d) = (selected re (fst (split_lines (tl ?d))), snd (split_lines (tl ?d)))"
      using "1.IH" [OF q refl] by blast
    with q line split_lines_newline(1) [OF True] show ?thesis
      by (subst grep_lines.simps) simp
  next
    case False
    then show ?thesis using "1.prems"
      by (subst grep_lines.simps) (simp add: u_strchr_newline split_lines_newline(2))
  qed
qed

text \<open>
  What \<open>read\<close> promises: each successful call returns at least one byte and at most the number asked
  for, which is the free part of the buffer.
\<close>

primrec reads_ok :: "byte list \<Rightarrow> byte list list \<Rightarrow> bool" where
  "reads_ok buf [] \<longleftrightarrow> True"
| "reads_ok buf (r # rs) \<longleftrightarrow> r \<noteq> [] \<and> length r \<le> sizeof_buf - length buf - 1 \<and>
     reads_ok (snd (split_lines (buf @ r))) rs"

lemma snd_split_lines_set: "set (snd (split_lines p)) \<subseteq> set p"
  by (induction p) (auto simp: Let_def case_prod_beta split: list.splits)

lemma snd_split_lines_newline: "10 \<notin> set (snd (split_lines p))"
  by (induction p) (auto simp: Let_def case_prod_beta split: list.splits dest: split_lines_none)

lemma grep_loop_eq:
  "reads_ok buf rs \<Longrightarrow> 0 \<notin> set buf \<Longrightarrow> 10 \<notin> set buf \<Longrightarrow> 0 \<notin> set (concat rs) \<Longrightarrow>
   grep_loop re buf rs = selected re (fst (split_lines (buf @ concat rs)))"
proof (induction rs arbitrary: buf)
  case Nil
  then show ?case by (simp add: split_lines_newline(2))
next
  case (Cons r rs)
  let ?rest = "snd (split_lines (buf @ r))"
  have z: "0 \<notin> set (buf @ r)" using Cons.prems by simp
  then have "0 \<notin> set ?rest" using snd_split_lines_set [of "buf @ r"] by blast
  then have IH: "grep_loop re ?rest rs = selected re (fst (split_lines (?rest @ concat rs)))"
    using Cons.prems snd_split_lines_newline by (intro Cons.IH) simp_all
  have "0 < length r" "length r \<le> sizeof_buf - length buf - 1" using Cons.prems(1) by simp_all
  then have "sizeof_buf - length buf - 1 \<noteq> 0" by linarith
  then show ?case
    using Cons.prems(1) IH split_lines_append [of "buf @ r" "concat rs"] by (simp add: grep_lines_eq [OF z])
qed

subsection \<open>Properties\<close>

text \<open>
  C14. The matcher of \<open>grep\<close> is correct: it succeeds exactly when the text has a part that is a word of
  the pattern, at the beginning of the text if the pattern starts with a caret, and reaching to its end
  if the pattern ends with a dollar sign.
\<close>

theorem match_correct:
  "match re tx \<longleftrightarrow>
    (let (is, eol) = parse_re (if hd0 re = 94 then tl re else re)
     in \<exists>a w v. cstr tx = a @ w @ v \<and> w \<in> lang is \<and> (hd0 re = 94 \<longrightarrow> a = []) \<and> (eol \<longrightarrow> v = []))"
proof (cases "hd0 re = 94")
  case True
  then show ?thesis by (simp add: match_def matchhere_starts starts_def case_prod_beta)
next
  case False
  then show ?thesis by (auto simp: match_def match_from_starts somewhere_def starts_def case_prod_beta)
qed

text \<open>The pattern \<open>b*c$\<close> in the text \<open>abbc\<close>.\<close>

theorem match_correct_witness: "match [98, 42, 99, 36] [97, 98, 98, 99]"
proof -
  have p: "parse_re [98, 42, 99, 36] = ([Many 98, One 99], True)" by (simp add: parse_re.simps)
  have "[98, 98] @ [99] \<in> lang [Many 98, One 99]" by (auto simp: fits_def intro!: exI [of _ "[98, 98]"])
  then show ?thesis
    unfolding match_correct [of "[98, 42, 99, 36]" "[97, 98, 98, 99]"]
    by (simp add: p) (rule exI [of _ "[97]"], rule exI [of _ "[98, 98] @ [99]"], auto)
qed

text \<open>
  C15. Whatever pieces \<open>read\<close> returns the input in, \<open>grep\<close> writes exactly the lines of the input that
  match, in order and each with its newline (for an input without NUL bytes whose lines fit the buffer).
\<close>

theorem grep_selects_lines:
  assumes "reads_ok [] reads" "0 \<notin> set (concat reads)"
  shows "grep re reads = concat (map (\<lambda>l. l @ [10]) (filter (match re) (fst (split_lines (concat reads)))))"
  using grep_loop_eq [OF assms(1) _ _ assms(2)] by (simp add: grep_def selected_def)

theorem grep_selects_lines_witness: "grep [97] [[97, 10, 98], [10]] = [97, 10]"
proof -
  have m: "match [97] [97]" "\<not> match [97] [98]"
    by (simp_all add: match_def match_from.simps matchhere.simps)
  have "reads_ok [] [[97, 10, 98], [10]]" by (simp add: sizeof_buf_def)
  then show ?thesis using grep_selects_lines [of "[[97, 10, 98], [10]]" "[97]"] m by simp
qed

end
