(* ===== verification/Sleeplock.thy ===== *)
theory Sleeplock
  imports Sysargs
begin

section \<open>Sleep locks (sleeplock.c)\<close>

text \<open>
  A sleep lock is held across blocking operations; a process that finds it taken sleeps on it.  The
  spin lock inside sleep lock \<open>sl\<close> is \<open>L_sleep sl\<close>, its channel \<open>Ch_sleeplock sl\<close>.  The loop of
  \<open>acquiresleep\<close> is a definition of its own, since a process that has slept continues in it
  (\<open>acquiresleep_resume\<close>).
\<close>

record sleeplock =
  sl_locked :: bool
  sl_name :: string
  sl_pid :: int

record sleep_state = vm_state +
  sleeplocks :: "sleeplock_id \<Rightarrow> sleeplock"

abbreviation set_sleeplock ::
  "sleeplock_id \<Rightarrow> (sleeplock \<Rightarrow> sleeplock) \<Rightarrow> 'a sleep_state_scheme \<Rightarrow> 'a sleep_state_scheme" where
  "set_sleeplock sl f s \<equiv> s\<lparr>sleeplocks := (sleeplocks s)(sl := f (sleeplocks s sl))\<rparr>"

definition initsleeplock :: "sleeplock_id \<Rightarrow> string \<Rightarrow> 'a sleep_state_scheme \<Rightarrow> 'a sleep_state_scheme" where
  "initsleeplock sl name s =
     set_sleeplock sl (\<lambda>_. \<lparr>sl_locked = False, sl_name = name, sl_pid = 0\<rparr>) (initlock (L_sleep sl) ''sleep lock'' s)"

definition acquiresleep_loop :: "sleeplock_id \<Rightarrow> 'a sleep_state_scheme \<Rightarrow> (unit, 'a sleep_state_scheme) outcome" where
  "acquiresleep_loop sl s =
     (if sl_locked (sleeplocks s sl) then sleep (Some (Ch_sleeplock sl)) (L_sleep sl) s
      else let s = set_sleeplock sl (\<lambda>l. l\<lparr>sl_locked := True\<rparr>) s
           in andthen (myproc s) (\<lambda>p s. deref p (\<lambda>p.
              release (L_sleep sl) (set_sleeplock sl (\<lambda>l. l\<lparr>sl_pid := p_pid (procs s p)\<rparr>) s))))"

definition acquiresleep :: "sleeplock_id \<Rightarrow> 'a sleep_state_scheme \<Rightarrow> (unit, 'a sleep_state_scheme) outcome" where
  "acquiresleep sl s = andthen (acquire (L_sleep sl) s) (\<lambda>_ s. acquiresleep_loop sl s)"

definition acquiresleep_resume ::
  "nat \<Rightarrow> bool \<Rightarrow> sleeplock_id \<Rightarrow> 'a sleep_state_scheme \<Rightarrow> (unit, 'a sleep_state_scheme) outcome" where
  "acquiresleep_resume p intena0 sl s =
     andthen (sleep_resume p intena0 (L_sleep sl) s) (\<lambda>_ s. acquiresleep_loop sl s)"

definition releasesleep :: "sleeplock_id \<Rightarrow> 'a sleep_state_scheme \<Rightarrow> (unit, 'a sleep_state_scheme) outcome" where
  "releasesleep sl s =
     andthen (acquire (L_sleep sl) s) (\<lambda>_ s.
     andthen (wakeup (Some (Ch_sleeplock sl)) (set_sleeplock sl (\<lambda>l. l\<lparr>sl_locked := False, sl_pid := 0\<rparr>) s)) (\<lambda>_ s.
     release (L_sleep sl) s))"

definition holdingsleep :: "sleeplock_id \<Rightarrow> 'a sleep_state_scheme \<Rightarrow> (bool, 'a sleep_state_scheme) outcome" where
  "holdingsleep sl s =
     andthen (acquire (L_sleep sl) s) (\<lambda>_ s.
     andthen (if sl_locked (sleeplocks s sl)
              then andthen (myproc s) (\<lambda>p s. deref p (\<lambda>p. Ok (sl_pid (sleeplocks s sl) = p_pid (procs s p)) s))
              else Ok False s) (\<lambda>r s.
     andthen (release (L_sleep sl) s) (\<lambda>_ s. Ok r s)))"

subsection \<open>Closed forms\<close>

lemma acquiresleep_eq:
  "ready s \<Longrightarrow> curproc s = Some p \<Longrightarrow> free_lock (L_sleep sl) s \<Longrightarrow> \<not> sl_locked (sleeplocks s sl) \<Longrightarrow>
   acquiresleep sl s =
     Ok () (set_sleeplock sl (\<lambda>l. l\<lparr>sl_locked := True, sl_pid := p_pid (procs s p)\<rparr>) s)"
  by (simp add: acquiresleep_def acquiresleep_loop_def Let_def lock_simps myproc_eq)

lemma holdingsleep_eq:
  "ready s \<Longrightarrow> curproc s = Some p \<Longrightarrow> free_lock (L_sleep sl) s \<Longrightarrow>
   holdingsleep sl s = Ok (sl_locked (sleeplocks s sl) \<and> sl_pid (sleeplocks s sl) = p_pid (procs s p)) s"
  by (simp add: holdingsleep_def lock_simps myproc_eq)

lemma releasesleep_eq:
  assumes "ready s" "free_lock (L_sleep sl) s" "proc_locks_free (curproc s) (spin s)"
  shows "releasesleep sl s =
    Ok () (s\<lparr>procs := wake (Some (Ch_sleeplock sl)) (curproc s) (procs s),
             sleeplocks := (sleeplocks s)(sl := (sleeplocks s sl)\<lparr>sl_locked := False, sl_pid := 0\<rparr>)\<rparr>)"
  using assms by (simp add: releasesleep_def lock_simps wakeup_eq)

lemma acq_spin_acq_regs [simp]: "acq_spin lk c (acq_regs c R) S = acq_spin lk c R S"
  by (simp add: acq_spin_def)

text \<open>A process that finds the lock taken goes to sleep on it, with the spin lock free again.\<close>

lemma acquiresleep_blocks:
  assumes "ready s" "curproc s = Some p" "noff s = 0" "free_lock (L_sleep sl) s" "free_lock (L_proc p) s"
    "sl_locked (sleeplocks s sl)"
  shows "acquiresleep sl s = Switch (s\<lparr>regs := acq_regs (cur s) (regs s), cpus := acq_cpus (cur s) (regs s) (cpus s),
      spin := acq_spin (L_proc p) (cur s) (regs s) (spin s),
      procs := (procs s)(p := (procs s p)\<lparr>p_chan := Some (Ch_sleeplock sl), p_state := SLEEPING\<rparr>)\<rparr>)"
proof -
  let ?t = "s\<lparr>regs := acq_regs (cur s) (regs s), cpus := acq_cpus (cur s) (regs s) (cpus s),
      spin := acq_spin (L_sleep sl) (cur s) (regs s) (spin s)\<rparr>"
  have "acquiresleep sl s = sleep (Some (Ch_sleeplock sl)) (L_sleep sl) ?t"
    using assms by (simp add: acquiresleep_def acquiresleep_loop_def acquire_eq)
  also have "\<dots> = Switch (?t\<lparr>spin := rel_spin (L_sleep sl) (acq_spin (L_proc p) (cur ?t) (regs ?t) (spin ?t)),
      procs := (procs ?t)(p := (procs ?t p)\<lparr>p_chan := Some (Ch_sleeplock sl), p_state := SLEEPING\<rparr>)\<rparr>)"
    using assms by (intro sleep_eq) (simp_all add: mycpu_me)
  finally show ?thesis
    using assms by simp
qed

subsection \<open>Properties\<close>

text \<open>
  C16. A sleep lock is handed over: a process that holds no lock and finds the sleep lock taken
  switches away asleep on it, leaving the sleep lock to its holder and the inner spin lock free; when
  any other process then releases the sleep lock, the lock is free and the sleeper is runnable again.
\<close>

theorem sleeplock_handover:
  fixes s :: "'a sleep_state_scheme"
  assumes "ready s" "curproc s = Some p" "p < NPROC" "noff s = 0" "free_lock (L_sleep sl) s"
    "free_lock (L_proc p) s" "sl_locked (sleeplocks s sl)"
  shows "\<exists>t. acquiresleep sl s = Switch t \<and> sleeplocks t = sleeplocks s \<and> free_lock (L_sleep sl) t \<and>
    p_state (procs t p) = SLEEPING \<and>
    (\<forall>u :: 'a sleep_state_scheme. ready u \<and> curproc u \<noteq> Some p \<and> proc_locks_free (curproc u) (spin u) \<and>
       free_lock (L_sleep sl) u \<and> procs u p = procs t p \<longrightarrow>
       (\<exists>v. releasesleep sl u = Ok () v \<and> \<not> sl_locked (sleeplocks v sl) \<and> p_state (procs v p) = RUNNABLE))"
  unfolding acquiresleep_blocks [OF assms(1,2,4-7)]
  using assms by (auto simp: releasesleep_eq wake_def)

definition sample_sleeping :: "'z \<Rightarrow> 'z sleep_state_scheme" where
  "sample_sleeping z = sample_user \<lparr>kernel_pagetable = 0,
     sleeplocks = (\<lambda>_. \<lparr>sl_locked = True, sl_name = [], sl_pid = 2\<rparr>), \<dots> = z\<rparr>"

lemma sample_sleeping_fields [simp]:
  "cur (sample_sleeping z) = 0" "regs (sample_sleeping z) = (\<lambda>h. sample_csrs (of_nat h))"
  "cpus (sample_sleeping z) = (\<lambda>_. sample_cpu)"
  "spin (sample_sleeping z) = (\<lambda>_. \<lparr>lk_locked = False, lk_name = [], lk_cpu = None\<rparr>)"
  "sleeplocks (sample_sleeping z) = (\<lambda>_. \<lparr>sl_locked = True, sl_name = [], sl_pid = 2\<rparr>)"
  by (simp_all add: sample_sleeping_def sample_user_def sample_procs_def sample_phys_def)

theorem sleeplock_handover_witness:
  "\<exists>t. acquiresleep (SL_buf 0) (sample_sleeping ()) = Switch t \<and> p_state (procs t 0) = SLEEPING"
  using sleeplock_handover [of "sample_sleeping ()" 0 "SL_buf 0"] by (auto simp: NPROC_def mycpu_me)

end
