(* ===== verification/Bio.thy ===== *)
theory Bio
  imports Sleeplock
begin

section \<open>The buffer cache (bio.c)\<close>

text \<open>
  Buffers are indices below \<open>NBUF\<close>; index \<open>NBUF\<close> is \<open>bcache.head\<close>, the anchor of the doubly linked
  list in order of use.  A search of the list that does not come back to the anchor within the
  number of buffers would run forever (\<open>Spin\<close>).

  A disk transfer puts the process to sleep until the device has raised its interrupt.  Here, and in
  the file system built on it, the transfer is one step (\<open>disk_transfer\<close>): the contents of the buffer and
  of the disk block after it.  Theory \<open>Virtio\<close> models the driver, its interrupt handler and the
  device, and shows that a request they carry out has exactly this effect.

  The disk maps block numbers to contents; \<open>dwrites\<close> records the writes the device has carried out, in
  order, so that the state of the disk after a crash at any moment can be stated.
\<close>

definition BSIZE :: nat where "BSIZE = 1024"

record buf =
  b_valid :: bool
  b_disk :: bool
  b_dev :: uint32
  b_blockno :: uint32
  b_refcnt :: uint32
  b_prev :: nat
  b_next :: nat
  b_data :: "byte list"

record buf_state = sleep_state +
  bufs :: "nat \<Rightarrow> buf"
  disk :: "uint32 \<Rightarrow> byte list"
  dwrites :: "(uint32 \<times> byte list) list"

abbreviation set_buf :: "nat \<Rightarrow> (buf \<Rightarrow> buf) \<Rightarrow> 'a buf_state_scheme \<Rightarrow> 'a buf_state_scheme" where
  "set_buf i f s \<equiv> s\<lparr>bufs := (bufs s)(i := f (bufs s i))\<rparr>"

definition disk_transfer :: "nat \<Rightarrow> bool \<Rightarrow> 'a buf_state_scheme \<Rightarrow> (unit, 'a buf_state_scheme) outcome" where
  "disk_transfer b wr s =
     (let n = b_blockno (bufs s b) in
      if wr then Ok () (set_buf b (\<lambda>b. b\<lparr>b_disk := False\<rparr>)
          (s\<lparr>disk := (disk s)(n := b_data (bufs s b)), dwrites := dwrites s @ [(n, b_data (bufs s b))]\<rparr>))
      else Ok () (set_buf b (\<lambda>b. b\<lparr>b_disk := False, b_data := disk s n\<rparr>) s))"

text \<open>Taking buffer \<open>b\<close> out of the list, and putting it first.\<close>

definition unlink :: "nat \<Rightarrow> (nat \<Rightarrow> buf) \<Rightarrow> nat \<Rightarrow> buf" where
  "unlink b B =
     (let B = B(b_next (B b) := (B (b_next (B b)))\<lparr>b_prev := b_prev (B b)\<rparr>)
      in B(b_prev (B b) := (B (b_prev (B b)))\<lparr>b_next := b_next (B b)\<rparr>))"

definition push_front :: "nat \<Rightarrow> (nat \<Rightarrow> buf) \<Rightarrow> nat \<Rightarrow> buf" where
  "push_front b B =
     (let B = B(b := (B b)\<lparr>b_next := b_next (B NBUF), b_prev := NBUF\<rparr>);
          B = B(b_next (B NBUF) := (B (b_next (B NBUF)))\<lparr>b_prev := b\<rparr>)
      in B(NBUF := (B NBUF)\<lparr>b_next := b\<rparr>))"

definition binit_loop :: "nat list \<Rightarrow> 'a buf_state_scheme \<Rightarrow> 'a buf_state_scheme" where
  "binit_loop = fold (\<lambda>b s.
     let s = initsleeplock (SL_buf b) ''buffer'' s in s\<lparr>bufs := push_front b (bufs s)\<rparr>)"

definition binit :: "'a buf_state_scheme \<Rightarrow> 'a buf_state_scheme" where
  "binit s =
     binit_loop [0..<NBUF]
       (set_buf NBUF (\<lambda>x. x\<lparr>b_prev := NBUF, b_next := NBUF\<rparr>) (initlock L_bcache ''bcache'' s))"

text \<open>
  The two searches of \<open>bget\<close>: \<open>None\<close> if the list does not come back to the anchor, \<open>Some None\<close> if
  no buffer satisfies the test.
\<close>

primrec scan_next :: "nat \<Rightarrow> (buf \<Rightarrow> bool) \<Rightarrow> (nat \<Rightarrow> buf) \<Rightarrow> nat \<Rightarrow> nat option option" where
  "scan_next 0 P B b = None"
| "scan_next (Suc k) P B b =
     (if b = NBUF then Some None else if P (B b) then Some (Some b) else scan_next k P B (b_next (B b)))"

primrec scan_prev :: "nat \<Rightarrow> (buf \<Rightarrow> bool) \<Rightarrow> (nat \<Rightarrow> buf) \<Rightarrow> nat \<Rightarrow> nat option option" where
  "scan_prev 0 P B b = None"
| "scan_prev (Suc k) P B b =
     (if b = NBUF then Some None else if P (B b) then Some (Some b) else scan_prev k P B (b_prev (B b)))"

definition bget :: "uint32 \<Rightarrow> uint32 \<Rightarrow> 'a buf_state_scheme \<Rightarrow> (nat, 'a buf_state_scheme) outcome" where
  "bget dev blockno s =
     andthen (acquire L_bcache s) (\<lambda>_ s.
     case scan_next (Suc NBUF) (\<lambda>b. b_dev b = dev \<and> b_blockno b = blockno) (bufs s) (b_next (bufs s NBUF)) of
       None \<Rightarrow> Spin s
     | Some (Some b) \<Rightarrow>
         andthen (release L_bcache (set_buf b (\<lambda>x. x\<lparr>b_refcnt := b_refcnt x + 1\<rparr>) s)) (\<lambda>_ s.
         andthen (acquiresleep (SL_buf b) s) (\<lambda>_ s. Ok b s))
     | Some None \<Rightarrow>
         (case scan_prev (Suc NBUF) (\<lambda>b. b_refcnt b = 0) (bufs s) (b_prev (bufs s NBUF)) of
            None \<Rightarrow> Spin s
          | Some (Some b) \<Rightarrow>
              andthen (release L_bcache
                (set_buf b (\<lambda>x. x\<lparr>b_dev := dev, b_blockno := blockno, b_valid := False, b_refcnt := 1\<rparr>) s)) (\<lambda>_ s.
              andthen (acquiresleep (SL_buf b) s) (\<lambda>_ s. Ok b s))
          | Some None \<Rightarrow> Panic ''bget: no buffers''))"

definition bread :: "uint32 \<Rightarrow> uint32 \<Rightarrow> 'a buf_state_scheme \<Rightarrow> (nat, 'a buf_state_scheme) outcome" where
  "bread dev blockno s =
     andthen (bget dev blockno s) (\<lambda>b s.
     if \<not> b_valid (bufs s b)
     then andthen (disk_transfer b False s) (\<lambda>_ s. Ok b (set_buf b (\<lambda>x. x\<lparr>b_valid := True\<rparr>) s))
     else Ok b s)"

definition bwrite :: "nat \<Rightarrow> 'a buf_state_scheme \<Rightarrow> (unit, 'a buf_state_scheme) outcome" where
  "bwrite b s =
     andthen (holdingsleep (SL_buf b) s) (\<lambda>h s.
     if \<not> h then Panic ''bwrite'' else disk_transfer b True s)"

definition brelse :: "nat \<Rightarrow> 'a buf_state_scheme \<Rightarrow> (unit, 'a buf_state_scheme) outcome" where
  "brelse b s =
     andthen (holdingsleep (SL_buf b) s) (\<lambda>h s.
     if \<not> h then Panic ''brelse''
     else andthen (releasesleep (SL_buf b) s) (\<lambda>_ s.
     andthen (acquire L_bcache s) (\<lambda>_ s.
     let s = set_buf b (\<lambda>x. x\<lparr>b_refcnt := b_refcnt x - 1\<rparr>) s;
         s = (if b_refcnt (bufs s b) = 0 then s\<lparr>bufs := push_front b (unlink b (bufs s))\<rparr> else s)
     in release L_bcache s)))"

definition bpin :: "nat \<Rightarrow> 'a buf_state_scheme \<Rightarrow> (unit, 'a buf_state_scheme) outcome" where
  "bpin b s =
     andthen (acquire L_bcache s) (\<lambda>_ s.
     release L_bcache (set_buf b (\<lambda>x. x\<lparr>b_refcnt := b_refcnt x + 1\<rparr>) s))"

definition bunpin :: "nat \<Rightarrow> 'a buf_state_scheme \<Rightarrow> (unit, 'a buf_state_scheme) outcome" where
  "bunpin b s =
     andthen (acquire L_bcache s) (\<lambda>_ s.
     release L_bcache (set_buf b (\<lambda>x. x\<lparr>b_refcnt := b_refcnt x - 1\<rparr>) s))"

subsection \<open>The list of buffers\<close>

text \<open>\<open>f\<close> leads from each element of the list to the next.\<close>

fun chain :: "(nat \<Rightarrow> nat) \<Rightarrow> nat list \<Rightarrow> bool" where
  "chain f (x # y # zs) \<longleftrightarrow> f x = y \<and> chain f (y # zs)"
| "chain f _ \<longleftrightarrow> True"

lemma chain_append: "chain f (xs @ y # zs) \<longleftrightarrow> chain f (xs @ [y]) \<and> chain f (y # zs)"
proof (induction xs)
  case (Cons x xs)
  then show ?case by (cases xs) auto
qed simp

lemma chain_cong: "(\<And>x. x \<in> set (butlast xs) \<Longrightarrow> f x = g x) \<Longrightarrow> chain f xs = chain g xs"
  by (induction f xs rule: chain.induct) auto

lemma chain_Cons: "ys \<noteq> [] \<Longrightarrow> chain f (x # ys) \<longleftrightarrow> f x = hd ys \<and> chain f ys"
  by (cases ys) auto

lemma chain_rev: "chain f xs \<Longrightarrow> (\<And>x. x \<in> set (butlast xs) \<Longrightarrow> g (f x) = x) \<Longrightarrow> chain g (rev xs)"
proof (induction f xs rule: chain.induct)
  case (1 f x y zs)
  then have "chain g (rev zs @ [y])" "g y = x" by auto
  then show ?case using chain_append [of g "rev zs" y "[x]"] by simp
qed simp_all

text \<open>The list in order of use, most recent first; \<open>prev\<close> undoes \<open>next\<close>.\<close>

definition ring :: "(nat \<Rightarrow> buf) \<Rightarrow> nat list \<Rightarrow> bool" where
  "ring B xs \<longleftrightarrow> distinct xs \<and> set xs = {..<NBUF} \<and>
     chain (\<lambda>i. b_next (B i)) (NBUF # xs @ [NBUF]) \<and> (\<forall>i \<le> NBUF. b_prev (B (b_next (B i))) = i)"

lemma ring_cong:
  "(\<And>i. b_next (B' i) = b_next (B i)) \<Longrightarrow> (\<And>i. b_prev (B' i) = b_prev (B i)) \<Longrightarrow> ring B' xs = ring B xs"
  by (simp add: ring_def)

lemma ring_length: "ring B xs \<Longrightarrow> length xs = NBUF"
  by (metis card_lessThan distinct_card ring_def)

lemma ring_prev:
  assumes "ring B xs"
  shows "chain (\<lambda>i. b_prev (B i)) (NBUF # rev xs @ [NBUF])"
proof -
  have "chain (\<lambda>i. b_prev (B i)) (rev (NBUF # xs @ [NBUF]))"
    using assms by (intro chain_rev [where f = "\<lambda>i. b_next (B i)"])
      (auto simp: ring_def butlast_append less_imp_le)
  then show ?thesis by simp
qed

lemma scan_next_chain:
  "chain (\<lambda>i. b_next (B i)) (xs @ [NBUF]) \<Longrightarrow> NBUF \<notin> set xs \<Longrightarrow> length xs < k \<Longrightarrow>
   scan_next k P B (hd (xs @ [NBUF])) = Some (find (\<lambda>i. P (B i)) xs)"
proof (induction xs arbitrary: k)
  case Nil
  then show ?case by (cases k) auto
next
  case (Cons x xs)
  then obtain k' where "k = Suc k'" by (cases k) auto
  with Cons show ?case by (cases xs) auto
qed

lemma scan_prev_chain:
  "chain (\<lambda>i. b_prev (B i)) (xs @ [NBUF]) \<Longrightarrow> NBUF \<notin> set xs \<Longrightarrow> length xs < k \<Longrightarrow>
   scan_prev k P B (hd (xs @ [NBUF])) = Some (find (\<lambda>i. P (B i)) xs)"
proof (induction xs arbitrary: k)
  case Nil
  then show ?case by (cases k) auto
next
  case (Cons x xs)
  then obtain k' where "k = Suc k'" by (cases k) auto
  with Cons show ?case by (cases xs) auto
qed

declare scan_next.simps [simp del] scan_prev.simps [simp del]

lemma chain_hd: "chain f (x # xs @ [y]) \<Longrightarrow> f x = hd (xs @ [y]) \<and> chain f (xs @ [y])"
  by (cases xs) auto

lemma ring_scans:
  assumes "ring B xs"
  shows "scan_next (Suc NBUF) P B (b_next (B NBUF)) = Some (find (\<lambda>i. P (B i)) xs)"
    "scan_prev (Suc NBUF) P B (b_prev (B NBUF)) = Some (find (\<lambda>i. P (B i)) (rev xs))"
proof -
  have s: "NBUF \<notin> set xs" "length xs = NBUF" using assms ring_length by (auto simp: ring_def)
  have "chain (\<lambda>i. b_next (B i)) (NBUF # xs @ [NBUF])" using assms by (simp add: ring_def)
  from chain_hd [OF this] s show "scan_next (Suc NBUF) P B (b_next (B NBUF)) = Some (find (\<lambda>i. P (B i)) xs)"
    using scan_next_chain [of B xs "Suc NBUF" P] by simp
  from chain_hd [OF ring_prev [OF assms]] s
  show "scan_prev (Suc NBUF) P B (b_prev (B NBUF)) = Some (find (\<lambda>i. P (B i)) (rev xs))"
    using scan_prev_chain [of B "rev xs" "Suc NBUF" P] by simp
qed

text \<open>Taking \<open>b\<close> out of the list and putting it first.\<close>

lemma chain_front:
  assumes c: "chain f (a # ls @ b # rs @ [a])" and d: "distinct (a # ls @ b # rs)"
    and g: "g a = b" "g b = hd (ls @ rs @ [a])" "ls \<noteq> [] \<Longrightarrow> g (last ls) = hd (rs @ [a])"
      "\<And>x. x \<noteq> a \<Longrightarrow> x \<noteq> b \<Longrightarrow> (ls \<noteq> [] \<Longrightarrow> x \<noteq> last ls) \<Longrightarrow> g x = f x"
  shows "chain g (a # b # ls @ rs @ [a])"
proof -
  have c1: "chain f (a # ls @ [b])" "chain f (b # rs @ [a])"
    using c chain_append [of f "a # ls" b "rs @ [a]"] by simp_all
  have "g x = f x" if "x \<in> set rs" for x
    using that d last_in_set [of ls] by (intro g(4)) (auto simp: disjoint_iff)
  moreover have "chain f (rs @ [a])" using c1(2) by (simp add: chain_Cons)
  ultimately have rs: "chain g (rs @ [a])" using chain_cong [of "rs @ [a]" g f] by (simp add: butlast_append)
  have "chain g (ls @ rs @ [a])"
  proof (cases ls rule: rev_exhaust)
    case (snoc ls' z)
    have "g x = f x" if "x \<in> set ls'" for x using that d snoc by (intro g(4)) auto
    moreover have "chain f (ls' @ [z])"
      using c1(1) chain_append [of f "a # ls'" z "[b]"] snoc by (simp add: chain_Cons)
    ultimately have "chain g (ls' @ [z])" using chain_cong [of "ls' @ [z]" g f] by (simp add: butlast_append)
    then show ?thesis using rs g(3) snoc chain_append [of g ls' z "rs @ [a]"] by (simp add: chain_Cons)
  qed (use rs in simp)
  then show ?thesis using g(1,2) by (simp add: chain_Cons)
qed

abbreviation to_front :: "nat \<Rightarrow> (nat \<Rightarrow> buf) \<Rightarrow> nat \<Rightarrow> buf" where
  "to_front b B \<equiv> push_front b (unlink b B)"

lemma unlink_fields:
  "b_next (unlink b B y) = (if y = b_prev (B b) then b_next (B b) else b_next (B y))"
  "b_prev (unlink b B y) = (if y = b_next (B b) then b_prev (B b) else b_prev (B y))"
  "b_valid (unlink b B y) = b_valid (B y)" "b_blockno (unlink b B y) = b_blockno (B y)"
  "b_data (unlink b B y) = b_data (B y)" "b_dev (unlink b B y) = b_dev (B y)" "b_refcnt (unlink b B y) = b_refcnt (B y)"
proof -
  define B1 where "B1 = B(b_next (B b) := (B (b_next (B b)))\<lparr>b_prev := b_prev (B b)\<rparr>)"
  have f: "b_next (B1 y) = b_next (B y)" "b_prev (B1 y) = (if y = b_next (B b) then b_prev (B b) else b_prev (B y))"
    "b_valid (B1 y) = b_valid (B y)" "b_blockno (B1 y) = b_blockno (B y)"
    "b_data (B1 y) = b_data (B y)" "b_dev (B1 y) = b_dev (B y)" "b_refcnt (B1 y) = b_refcnt (B y)" for y
    by (simp_all add: B1_def)
  have "b_prev (B1 b) = b_prev (B b)" by (simp add: B1_def)
  then have u: "unlink b B = B1(b_prev (B b) := (B1 (b_prev (B b)))\<lparr>b_next := b_next (B b)\<rparr>)"
    unfolding unlink_def Let_def B1_def [symmetric] f(1) by simp
  show "b_next (unlink b B y) = (if y = b_prev (B b) then b_next (B b) else b_next (B y))"
    "b_prev (unlink b B y) = (if y = b_next (B b) then b_prev (B b) else b_prev (B y))"
    "b_valid (unlink b B y) = b_valid (B y)" "b_blockno (unlink b B y) = b_blockno (B y)"
    "b_data (unlink b B y) = b_data (B y)" "b_dev (unlink b B y) = b_dev (B y)" "b_refcnt (unlink b B y) = b_refcnt (B y)"
    unfolding u by (simp_all add: f)
qed

lemma push_front_fields:
  "b \<noteq> NBUF \<Longrightarrow> b_next (push_front b B x) = (if x = NBUF then b else if x = b then b_next (B NBUF) else b_next (B x))"
  "b \<noteq> NBUF \<Longrightarrow> b_prev (push_front b B x) = (if x = b_next (B NBUF) then b else if x = b then NBUF else b_prev (B x))"
  "b_valid (push_front b B x) = b_valid (B x)" "b_blockno (push_front b B x) = b_blockno (B x)"
  "b_data (push_front b B x) = b_data (B x)" "b_dev (push_front b B x) = b_dev (B x)"
  "b_refcnt (push_front b B x) = b_refcnt (B x)"
proof -
  define B1 where "B1 = B(b := (B b)\<lparr>b_next := b_next (B NBUF), b_prev := NBUF\<rparr>)"
  have f: "b_next (B1 y) = (if y = b then b_next (B NBUF) else b_next (B y))" 
    "b_prev (B1 y) = (if y = b then NBUF else b_prev (B y))"
    "b_valid (B1 y) = b_valid (B y)" "b_blockno (B1 y) = b_blockno (B y)"
    "b_data (B1 y) = b_data (B y)" "b_dev (B1 y) = b_dev (B y)" "b_refcnt (B1 y) = b_refcnt (B y)" for y
    by (simp_all add: B1_def)
  define B2 where "B2 = B1(b_next (B1 NBUF) := (B1 (b_next (B1 NBUF)))\<lparr>b_prev := b\<rparr>)"
  have g: "b_next (B2 y) = b_next (B1 y)" "b_prev (B2 y) = (if y = b_next (B1 NBUF) then b else b_prev (B1 y))"
    "b_valid (B2 y) = b_valid (B1 y)" "b_blockno (B2 y) = b_blockno (B1 y)"
    "b_data (B2 y) = b_data (B1 y)" "b_dev (B2 y) = b_dev (B1 y)" "b_refcnt (B2 y) = b_refcnt (B1 y)" for y
    by (simp_all add: B2_def)
  have u: "push_front b B = B2(NBUF := (B2 NBUF)\<lparr>b_next := b\<rparr>)"
    unfolding push_front_def Let_def B1_def [symmetric] B2_def [symmetric] ..
  show "b \<noteq> NBUF \<Longrightarrow> b_next (push_front b B x) = (if x = NBUF then b else if x = b then b_next (B NBUF) else b_next (B x))"
    "b \<noteq> NBUF \<Longrightarrow> b_prev (push_front b B x) = (if x = b_next (B NBUF) then b else if x = b then NBUF else b_prev (B x))"
    "b_valid (push_front b B x) = b_valid (B x)" "b_blockno (push_front b B x) = b_blockno (B x)"
    "b_data (push_front b B x) = b_data (B x)" "b_dev (push_front b B x) = b_dev (B x)"
    "b_refcnt (push_front b B x) = b_refcnt (B x)"
    unfolding u by (simp_all add: f g)
qed

lemmas to_front_keeps [simp] = push_front_fields(3-7) unlink_fields(3-7)

lemma to_front_links:
  assumes "b \<noteq> NBUF" "b_next (B b) \<noteq> b"
    "h = (if b_prev (B b) = NBUF then b_next (B b) else b_next (B NBUF))"
  shows "b_next (to_front b B x) = (if x = NBUF then b else if x = b then h
      else if x = b_prev (B b) then b_next (B b) else b_next (B x))"
    "b_prev (to_front b B x) = (if x = h then b else if x = b then NBUF
      else if x = b_next (B b) then b_prev (B b) else b_prev (B x))"
proof -
  have "b_next (unlink b B NBUF) = h" using assms(3) by (simp add: unlink_fields)
  then show "b_next (to_front b B x) = (if x = NBUF then b else if x = b then h
      else if x = b_prev (B b) then b_next (B b) else b_next (B x))"
    "b_prev (to_front b B x) = (if x = h then b else if x = b then NBUF
      else if x = b_next (B b) then b_prev (B b) else b_prev (B x))"
    using assms(2) by (simp_all add: push_front_fields(1,2) [OF assms(1)] unlink_fields(1,2))
qed

lemma to_front_inverse:
  assumes inv: "\<And>i. i \<le> NBUF \<Longrightarrow> b_prev (B (b_next (B i))) = i" and b: "b < NBUF" "b_prev (B b) \<noteq> b"
    and i: "i \<le> NBUF"
  shows "b_prev (to_front b B (b_next (to_front b B i))) = i"
proof -
  define h where "h = (if b_prev (B b) = NBUF then b_next (B b) else b_next (B NBUF))"
  have nb: "b \<noteq> NBUF" using b by simp
  have b1: "b_prev (B (b_next (B b))) = b" using inv [of b] b by simp
  then have "b_next (B b) \<noteq> b" using b(2) by metis
  note l = to_front_links [OF nb this h_def]
  have h1: "b_prev (B h) = (if b_prev (B b) = NBUF then b else NBUF)" using b1 inv [of NBUF] by (simp add: h_def)
  consider "i = NBUF" | "i = b" | "i = b_prev (B b)" "i \<noteq> NBUF" "i \<noteq> b"
    | "i \<noteq> NBUF" "i \<noteq> b" "i \<noteq> b_prev (B b)" by blast
  then show ?thesis
  proof cases
    case 1
    have "h \<noteq> b" using h1 nb b(2) by (metis b1)
    then show ?thesis using 1 l by simp
  next
    case 2
    then show ?thesis using nb l by simp
  next
    case 3
    then have "b_next (B b) \<noteq> h" "b_next (B b) \<noteq> b" using h1 b1 nb by auto
    then show ?thesis using 3 l by simp
  next
    case 4
    have "b_next (B i) \<noteq> h" "b_next (B i) \<noteq> b" "b_next (B i) \<noteq> b_next (B b)"
      using 4 inv [OF i] h1 b1 by (auto split: if_splits)
    then show ?thesis using 4 l inv [OF i] by simp
  qed
qed

lemma ring_to_front:
  assumes r: "ring B (ls @ b # rs)"
  shows "ring (to_front b B) (b # ls @ rs)"
proof -
  let ?N = "\<lambda>i. b_next (B i)" and ?p = "b_prev (B b)"
  have d: "distinct (NBUF # ls @ b # rs)" and b: "b < NBUF"
    and lt: "\<And>x. x \<in> set ls \<Longrightarrow> x < NBUF"
    using r by (auto simp: ring_def)
  have c: "chain ?N (NBUF # ls @ b # rs @ [NBUF])" using r by (simp add: ring_def)
  have c1: "chain ?N (NBUF # ls @ [b])" "chain ?N (b # rs @ [NBUF])"
    using c chain_append [of ?N "NBUF # ls" b "rs @ [NBUF]"] by simp_all
  have nb: "?N b = hd (rs @ [NBUF])" using c1(2) by (simp add: chain_Cons)
  have na: "?N NBUF = hd (ls @ [b])" using c1(1) by (simp add: chain_Cons)
  have inv: "b_prev (B (b_next (B i))) = i" if "i \<le> NBUF" for i using r that by (simp add: ring_def)
  have p: "?p = (if ls = [] then NBUF else last ls)"
  proof (cases ls rule: rev_exhaust)
    case Nil
    then show ?thesis using na inv [of NBUF] by simp
  next
    case (snoc ls' z)
    then have "?N z = b" using c1(1) chain_append [of ?N "NBUF # ls'" z "[b]"] by simp
    then show ?thesis using snoc inv [of z] lt [of z] by auto
  qed
  have pb: "?p \<noteq> b" using p d last_in_set [of ls] by auto
  define h where "h = (if ?p = NBUF then ?N b else ?N NBUF)"
  have "ls \<noteq> [] \<Longrightarrow> last ls \<noteq> NBUF" using lt [of "last ls"] last_in_set [of ls] by auto
  then have h: "h = hd (ls @ rs @ [NBUF])" using p na nb by (cases ls) (auto simp: h_def)
  have "?N b \<noteq> b" using inv [of b] b pb by auto
  note l = to_front_links [OF _ this h_def]
  have "chain (\<lambda>i. b_next (to_front b B i)) (NBUF # b # ls @ rs @ [NBUF])"
    using c d
  proof (rule chain_front)
    show "ls \<noteq> [] \<Longrightarrow> b_next (to_front b B (last ls)) = hd (rs @ [NBUF])"
      using l(1) [of "last ls"] p nb b pb lt [of "last ls"] last_in_set [of ls] by auto
  qed (use l(1) b p h in auto)
  moreover have "b_prev (to_front b B (b_next (to_front b B i))) = i" if "i \<le> NBUF" for i
    using to_front_inverse [OF inv b pb that] .
  ultimately show ?thesis using r by (auto simp: ring_def)
qed

subsection \<open>Initialisation\<close>

text \<open>A list of some of the buffers that is linked correctly.\<close>

definition links :: "(nat \<Rightarrow> buf) \<Rightarrow> nat list \<Rightarrow> bool" where
  "links B ys \<longleftrightarrow> distinct (NBUF # ys) \<and> chain (\<lambda>i. b_next (B i)) (NBUF # ys @ [NBUF]) \<and>
     (\<forall>i \<in> set (NBUF # ys). b_prev (B (b_next (B i))) = i)"

lemma links_ring: "links B ys \<Longrightarrow> set ys = {..<NBUF} \<Longrightarrow> ring B ys"
  by (auto simp: links_def ring_def le_less)

lemma links_push:
  assumes "links B ys" "b \<notin> set (NBUF # ys)"
  shows "links (push_front b B) (b # ys)"
proof -
  let ?N = "\<lambda>i. b_next (B i)"
  have b: "b \<noteq> NBUF" using assms(2) by simp
  note f = push_front_fields(1,2) [OF b]
  have c: "?N NBUF = hd (ys @ [NBUF])" "chain ?N (ys @ [NBUF])"
    using assms(1) chain_hd [of ?N NBUF ys NBUF] by (auto simp: links_def)
  have "chain (\<lambda>i. b_next (push_front b B i)) (ys @ [NBUF])"
    using c(2) assms by (subst chain_cong [where g = ?N]) (auto simp: f butlast_append links_def)
  then have "chain (\<lambda>i. b_next (push_front b B i)) (NBUF # (b # ys) @ [NBUF])"
    using b c(1) by (simp add: chain_Cons f)
  moreover have "b_prev (push_front b B (b_next (push_front b B i))) = i" if mem: "i \<in> set (NBUF # b # ys)" for i
  proof -
    have pn: "b_prev (B (?N j)) = j" if "j \<in> set (NBUF # ys)" for j using assms(1) that by (auto simp: links_def)
    have hd: "?N NBUF \<in> set (NBUF # ys)" using c(1) by (cases ys) auto
    then have hb: "?N NBUF \<noteq> b" using assms(2) by auto
    consider "i = NBUF" | "i = b" | "i \<in> set ys" "i \<noteq> NBUF" "i \<noteq> b"
      using mem by fastforce
    then show ?thesis
    proof cases
      case 3
      have "?N i \<noteq> ?N NBUF" using pn [of i] pn [of NBUF] 3 by auto
      moreover have "?N i \<noteq> b"
      proof -
        have "?N i \<in> set (ys @ [NBUF])"
        proof -
          obtain ls rs where ys: "ys = ls @ i # rs" using 3(1) by (metis split_list)
          then have "chain ?N (i # rs @ [NBUF])" using c(2) chain_append [of ?N ls i "rs @ [NBUF]"] by simp
          then have "?N i = hd (rs @ [NBUF])" by (simp add: chain_Cons)
          then show ?thesis using ys by (cases rs) auto
        qed
        then show ?thesis using assms(2) by auto
      qed
      ultimately show ?thesis using 3 pn [of i] by (simp add: f)
    qed (use b hb in \<open>simp_all add: f\<close>)
  qed
  ultimately show ?thesis using assms by (auto simp: links_def)
qed

lemma binit_loop_links:
  "links (bufs s) ys \<Longrightarrow> distinct (NBUF # rev xs @ ys) \<Longrightarrow> links (bufs (binit_loop xs s)) (rev xs @ ys)"
proof (induction xs arbitrary: s ys)
  case (Cons x xs)
  let ?s = "initsleeplock (SL_buf x) ''buffer'' s"
  have "bufs ?s = bufs s" by (simp add: initsleeplock_def initlock_def)
  then have "links (push_front x (bufs ?s)) (x # ys)" using Cons.prems by (intro links_push) auto
  then have "links (bufs (binit_loop xs (?s\<lparr>bufs := push_front x (bufs ?s)\<rparr>))) (rev xs @ x # ys)"
    using Cons.prems by (intro Cons.IH) auto
  then show ?case by (simp add: binit_loop_def Let_def)
qed (simp add: binit_loop_def)

lemma binit_ring: "ring (bufs (binit s)) (rev [0..<NBUF])"
proof -
  let ?s = "set_buf NBUF (\<lambda>x. x\<lparr>b_prev := NBUF, b_next := NBUF\<rparr>) (initlock L_bcache ''bcache'' s)"
  have "links (bufs ?s) []" by (simp add: links_def)
  then have "links (bufs (binit s)) (rev [0..<NBUF])"
    using binit_loop_links [of ?s "[]" "[0..<NBUF]"] by (simp add: binit_def)
  then show ?thesis by (rule links_ring) auto
qed

end
