(* ===== verification/Bcache.thy ===== *)
theory Bcache
  imports Bio
begin

section \<open>The buffer cache holds the disk (bio.c)\<close>

text \<open>
  The invariant of the buffer cache and what its operations do to it and to the contents of the
  blocks as a process sees them.
\<close>

subsection \<open>The cache invariant\<close>

text \<open>
  One process \<open>p\<close> runs in the kernel, holds no spin lock, and nobody sleeps on a sleep lock or on
  the log.
\<close>

definition quiet :: "(nat \<Rightarrow> proc) \<Rightarrow> bool" where
  "quiet P \<longleftrightarrow> (\<forall>i. p_state (P i) = SLEEPING \<longrightarrow> p_chan (P i) \<noteq> Some Ch_log \<and>
     (\<forall>sl. p_chan (P i) \<noteq> Some (Ch_sleeplock sl)))"

lemma quiet_wake [simp]:
  "quiet P \<Longrightarrow> wake (Some (Ch_sleeplock sl)) self P = P" "quiet P \<Longrightarrow> wake (Some Ch_log) self P = P"
  by (auto simp: quiet_def wake_def fun_eq_iff)

definition running :: "nat \<Rightarrow> 'a proc_state_scheme \<Rightarrow> bool" where
  "running p s \<longleftrightarrow> ready s \<and> curproc s = Some p \<and> (\<forall>lk. lk_free lk (spin s)) \<and> quiet (procs s)"

lemma runningD:
  assumes "running p s"
  shows "ready s" "curproc s = Some p" "lk_free lk (spin s)" "quiet (procs s)" "proc_locks_free q (spin s)"
  using assms by (simp_all add: running_def proc_locks_free_def)

text \<open>
  The state of the buffers: \<open>H\<close> are the buffers the process holds locked, \<open>pins\<close> the blocks whose
  buffers the log keeps in the cache.  A buffer of the device holds its block; one that is neither
  held nor pinned agrees with the disk.
\<close>

text \<open>Buffer \<open>i\<close> holds block \<open>n\<close>.\<close>

definition cached :: "(nat \<Rightarrow> buf) \<Rightarrow> uint32 \<Rightarrow> nat \<Rightarrow> bool" where
  "cached B n i \<longleftrightarrow> i < NBUF \<and> b_valid (B i) \<and> b_blockno (B i) = n"

definition bufs_wf :: "(nat \<Rightarrow> buf) \<Rightarrow> (uint32 \<Rightarrow> byte list) \<Rightarrow> bool" where
  "bufs_wf B D \<longleftrightarrow> (\<exists>xs. ring B xs) \<and>
     (\<forall>i < NBUF. b_valid (B i) \<longleftrightarrow> b_dev (B i) = ROOTDEV) \<and>
     (\<forall>i < NBUF. b_valid (B i) \<longrightarrow> length (b_data (B i)) = BSIZE) \<and> (\<forall>n. length (D n) = BSIZE) \<and>
     (\<forall>i < NBUF. \<forall>j < NBUF. b_valid (B i) \<and> b_valid (B j) \<and> b_blockno (B i) = b_blockno (B j) \<longrightarrow> i = j)"

definition bufs_refs :: "(nat \<Rightarrow> buf) \<Rightarrow> nat set \<Rightarrow> uint32 set \<Rightarrow> bool" where
  "bufs_refs B H pins \<longleftrightarrow> H \<subseteq> {..<NBUF} \<and> (\<forall>i \<in> H. b_valid (B i)) \<and>
     (\<forall>i < NBUF. b_refcnt (B i) =
        (if i \<in> H then 1 else 0) + (if b_valid (B i) \<and> b_blockno (B i) \<in> pins then 1 else 0)) \<and>
     (\<forall>n \<in> pins. \<exists>i. cached B n i)"

lemma bufs_refsD:
  assumes "bufs_refs B H pins"
  shows "H \<subseteq> {..<NBUF}" "i \<in> H \<Longrightarrow> b_valid (B i)" "i \<in> H \<Longrightarrow> i < NBUF"
    "i < NBUF \<Longrightarrow> b_refcnt (B i) =
       (if i \<in> H then 1 else 0) + (if b_valid (B i) \<and> b_blockno (B i) \<in> pins then 1 else 0)"
    "n \<in> pins \<Longrightarrow> \<exists>i. cached B n i"
  using assms unfolding bufs_refs_def by blast+

definition bufs_locks :: "(sleeplock_id \<Rightarrow> sleeplock) \<Rightarrow> nat set \<Rightarrow> int \<Rightarrow> bool" where
  "bufs_locks SL H pid \<longleftrightarrow> (\<forall>i < NBUF. sl_locked (SL (SL_buf i)) \<longleftrightarrow> i \<in> H) \<and> (\<forall>i \<in> H. sl_pid (SL (SL_buf i)) = pid)"

definition bufs_clean :: "(nat \<Rightarrow> buf) \<Rightarrow> (uint32 \<Rightarrow> byte list) \<Rightarrow> nat set \<Rightarrow> uint32 set \<Rightarrow> bool" where
  "bufs_clean B D H pins \<longleftrightarrow> (\<forall>i < NBUF. b_valid (B i) \<and> i \<notin> H \<and> b_blockno (B i) \<notin> pins \<longrightarrow>
     b_data (B i) = D (b_blockno (B i)))"

definition cache_inv :: "nat \<Rightarrow> nat set \<Rightarrow> uint32 set \<Rightarrow> 'a buf_state_scheme \<Rightarrow> bool" where
  "cache_inv p H pins s \<longleftrightarrow> running p s \<and> bufs_wf (bufs s) (disk s) \<and> bufs_refs (bufs s) H pins \<and>
     bufs_locks (sleeplocks s) H (p_pid (procs s p)) \<and> bufs_clean (bufs s) (disk s) H pins"

text \<open>What a reader of block \<open>n\<close> sees: the cached contents if there are any, the disk otherwise.\<close>

definition bview :: "(nat \<Rightarrow> buf) \<Rightarrow> (uint32 \<Rightarrow> byte list) \<Rightarrow> uint32 \<Rightarrow> byte list" where
  "bview B D n = (case find (\<lambda>i. b_valid (B i) \<and> b_blockno (B i) = n) [0..<NBUF] of
     Some i \<Rightarrow> b_data (B i) | None \<Rightarrow> D n)"

abbreviation view :: "'a buf_state_scheme \<Rightarrow> uint32 \<Rightarrow> byte list" where
  "view s \<equiv> bview (bufs s) (disk s)"

lemma cached_unique:
  assumes "bufs_wf B D" "cached B n i" "cached B n j"
  shows "i = j"
proof -
  have "\<forall>i < NBUF. \<forall>j < NBUF. b_valid (B i) \<and> b_valid (B j) \<and> b_blockno (B i) = b_blockno (B j) \<longrightarrow> i = j"
    using assms(1) by (simp add: bufs_wf_def)
  then show ?thesis using assms(2,3) by (simp add: cached_def)
qed

lemma bview_cached:
  assumes "bufs_wf B D" "cached B n i"
  shows "bview B D n = b_data (B i)"
proof -
  have "find (\<lambda>i. b_valid (B i) \<and> b_blockno (B i) = n) [0..<NBUF] = Some i"
    unfolding find_least
  proof (intro conjI allI impI)
    fix j assume j: "j < i"
    then have "j < NBUF" "j \<noteq> i" using assms(2) by (auto simp: cached_def)
    then show "\<not> (b_valid (B j) \<and> b_blockno (B j) = n)"
      using cached_unique [OF assms, of j] by (auto simp: cached_def)
  qed (use assms(2) in \<open>auto simp: cached_def\<close>)
  then show ?thesis by (simp add: bview_def)
qed

lemma bview_uncached: "(\<And>i. \<not> cached B n i) \<Longrightarrow> bview B D n = D n"
proof -
  assume "\<And>i. \<not> cached B n i"
  then have "find (\<lambda>i. b_valid (B i) \<and> b_blockno (B i) = n) [0..<NBUF] = None"
    by (auto simp: find_None_iff cached_def)
  then show ?thesis by (simp add: bview_def)
qed

lemma bview_length: "bufs_wf B D \<Longrightarrow> length (bview B D n) = BSIZE"
  using bview_cached [of B D n] bview_uncached [of B n D] unfolding bufs_wf_def cached_def by metis

subsection \<open>Getting a buffer\<close>

text \<open>A buffer that is not referenced exists while fewer buffers are held and pinned than there are.\<close>

lemma free_buffer:
  assumes "bufs_refs B H pins" "bufs_wf B D" "finite pins" "card H + card pins < NBUF"
  shows "\<exists>i < NBUF. b_refcnt (B i) = 0"
proof (rule ccontr)
  assume "\<not> (\<exists>i < NBUF. b_refcnt (B i) = 0)"
  then have "i \<in> H \<or> b_valid (B i) \<and> b_blockno (B i) \<in> pins" if "i < NBUF" for i
    using assms(1) that by (auto simp: bufs_refs_def split: if_splits)
  then have sub: "{..<NBUF} \<subseteq> H \<union> {i. i < NBUF \<and> b_valid (B i) \<and> b_blockno (B i) \<in> pins}" by auto
  have "inj_on (\<lambda>i. b_blockno (B i)) {i. i < NBUF \<and> b_valid (B i) \<and> b_blockno (B i) \<in> pins}"
    using assms(2) unfolding bufs_wf_def inj_on_def by blast
  then have "card {i. i < NBUF \<and> b_valid (B i) \<and> b_blockno (B i) \<in> pins} \<le> card pins"
    by (rule card_inj_on_le) (use assms(3) in auto)
  moreover have "finite H" using assms(1) finite_subset by (auto simp: bufs_refs_def)
  then have "finite (H \<union> {i. i < NBUF \<and> b_valid (B i) \<and> b_blockno (B i) \<in> pins})" by simp
  then have "card {..<NBUF} \<le> card H + card {i. i < NBUF \<and> b_valid (B i) \<and> b_blockno (B i) \<in> pins}"
    using card_mono [OF _ sub] card_Un_le [of H "{i. i < NBUF \<and> b_valid (B i) \<and> b_blockno (B i) \<in> pins}"]
    by linarith
  ultimately show False using assms(4) by simp
qed

text \<open>The buffers after a hit, and after the buffer \<open>b\<close> has been recycled for block \<open>n\<close> and read.\<close>

definition hit_buf :: "nat \<Rightarrow> (nat \<Rightarrow> buf) \<Rightarrow> nat \<Rightarrow> buf" where
  "hit_buf b B = B(b := (B b)\<lparr>b_refcnt := b_refcnt (B b) + 1\<rparr>)"

definition fill_buf :: "nat \<Rightarrow> uint32 \<Rightarrow> byte list \<Rightarrow> (nat \<Rightarrow> buf) \<Rightarrow> nat \<Rightarrow> buf" where
  "fill_buf b n d B = B(b := (B b)\<lparr>b_dev := ROOTDEV, b_blockno := n, b_refcnt := 1, b_disk := False,
     b_data := d, b_valid := True\<rparr>)"

abbreviation take_lock :: "nat \<Rightarrow> int \<Rightarrow> (sleeplock_id \<Rightarrow> sleeplock) \<Rightarrow> sleeplock_id \<Rightarrow> sleeplock" where
  "take_lock b pid SL \<equiv> SL(SL_buf b := (SL (SL_buf b))\<lparr>sl_locked := True, sl_pid := pid\<rparr>)"

lemma bget_hit:
  assumes "running p s" "ring (bufs s) xs" "find (\<lambda>i. b_dev (bufs s i) = dev \<and> b_blockno (bufs s i) = n) xs = Some b"
    "\<not> sl_locked (sleeplocks s (SL_buf b))"
  shows "bget dev n s = Ok b (s\<lparr>sleeplocks := take_lock b (p_pid (procs s p)) (sleeplocks s), bufs := hit_buf b (bufs s)\<rparr>)"
  using assms by (simp add: bget_def lock_simps runningD ring_scans acquiresleep_eq hit_buf_def)

lemma bget_miss:
  assumes "running p s" "ring (bufs s) xs" "find (\<lambda>i. b_dev (bufs s i) = dev \<and> b_blockno (bufs s i) = n) xs = None"
    "find (\<lambda>i. b_refcnt (bufs s i) = 0) (rev xs) = Some b" "\<not> sl_locked (sleeplocks s (SL_buf b))"
  shows "bget dev n s = Ok b (s\<lparr>sleeplocks := take_lock b (p_pid (procs s p)) (sleeplocks s),
    bufs := (bufs s)(b := (bufs s b)\<lparr>b_dev := dev, b_blockno := n, b_valid := False, b_refcnt := 1\<rparr>)\<rparr>)"
  using assms by (simp add: bget_def lock_simps runningD ring_scans acquiresleep_eq)

lemma bget_panic:
  assumes "running p s" "ring (bufs s) xs" "find (\<lambda>i. b_dev (bufs s i) = dev \<and> b_blockno (bufs s i) = n) xs = None"
    "find (\<lambda>i. b_refcnt (bufs s i) = 0) (rev xs) = None"
  shows "bget dev n s = Panic ''bget: no buffers''"
  using assms by (simp add: bget_def lock_simps runningD ring_scans)

definition cache_pure :: "(nat \<Rightarrow> buf) \<Rightarrow> (uint32 \<Rightarrow> byte list) \<Rightarrow> nat set \<Rightarrow> uint32 set \<Rightarrow> bool" where
  "cache_pure B D H pins \<longleftrightarrow> bufs_wf B D \<and> bufs_refs B H pins \<and> bufs_clean B D H pins"

lemma cache_inv_pure:
  "cache_inv p H pins s \<longleftrightarrow>
     running p s \<and> cache_pure (bufs s) (disk s) H pins \<and> bufs_locks (sleeplocks s) H (p_pid (procs s p))"
  by (auto simp: cache_inv_def cache_pure_def)

lemma bview_same:
  assumes "bufs_wf B D" "bufs_wf B' D'" "\<And>i. cached B' n i \<Longrightarrow> cached B n i \<and> b_data (B' i) = b_data (B i)"
    "\<And>i. cached B n i \<Longrightarrow> cached B' n i" "(\<And>i. \<not> cached B n i) \<Longrightarrow> D' n = D n"
  shows "bview B' D' n = bview B D n"
proof (cases "\<exists>i. cached B n i")
  case True
  then obtain i where "cached B n i" by blast
  then show ?thesis using assms bview_cached by metis
next
  case False
  then show ?thesis using assms bview_uncached by metis
qed

text \<open>The reference counts matter to neither well-formedness nor the view.\<close>

lemma refcnt_only:
  assumes "\<And>i. \<exists>c. B' i = (B i)\<lparr>b_refcnt := c\<rparr>"
  shows "bufs_wf B' D = bufs_wf B D" "cached B' = cached B" "bview B' = bview B"
    "bufs_clean B' D H pins = bufs_clean B D H pins"
proof -
  have f: "b_next (B' i) = b_next (B i)" "b_prev (B' i) = b_prev (B i)" "b_valid (B' i) = b_valid (B i)"
    "b_dev (B' i) = b_dev (B i)" "b_blockno (B' i) = b_blockno (B i)" "b_data (B' i) = b_data (B i)" for i
    using assms [of i] by auto
  show "bufs_wf B' D = bufs_wf B D" by (simp only: bufs_wf_def ring_cong [of B' B, OF f(1,2)] f)
  show "cached B' = cached B" by (simp only: cached_def [abs_def] f)
  show "bview B' = bview B" by (simp only: bview_def [abs_def] f)
  show "bufs_clean B' D H pins = bufs_clean B D H pins" by (simp only: bufs_clean_def f)
qed

lemma hit_pure:
  assumes "cache_pure B D H pins" "cached B n b" "b \<notin> H"
  shows "cache_pure (hit_buf b B) D (insert b H) pins" "bview (hit_buf b B) D = bview B D"
proof -
  note refs = bufs_refsD [OF assms(1) [unfolded cache_pure_def, THEN conjunct2, THEN conjunct1]]
  have "\<exists>c. hit_buf b B i = (B i)\<lparr>b_refcnt := c\<rparr>" for i
    by (cases "i = b") (auto simp: hit_buf_def intro: exI [of _ "b_refcnt (B i)"])
  note r = refcnt_only [of "hit_buf b B" B, OF this]
  have "bufs_refs (hit_buf b B) (insert b H) pins"
    unfolding bufs_refs_def r
  proof (intro conjI allI ballI impI)
    show "insert b H \<subseteq> {..<NBUF}" "\<And>i. i \<in> insert b H \<Longrightarrow> b_valid (hit_buf b B i)"
      using refs(1,2) assms(2) by (auto simp: hit_buf_def cached_def)
    show "b_refcnt (hit_buf b B i) = (if i \<in> insert b H then 1 else 0) +
        (if b_valid (hit_buf b B i) \<and> b_blockno (hit_buf b B i) \<in> pins then 1 else 0)" if "i < NBUF" for i
      using refs(4) [OF that] assms(3) by (cases "i = b") (simp_all add: hit_buf_def)
  qed (rule refs(5))
  moreover have "bufs_clean B D (insert b H) pins"
    using assms(1) by (auto simp: cache_pure_def bufs_clean_def)
  ultimately show "cache_pure (hit_buf b B) D (insert b H) pins" using assms(1) by (simp add: cache_pure_def r)
  show "bview (hit_buf b B) D = bview B D" by (simp add: r)
qed

lemma fill_pure:
  assumes inv: "cache_pure B D H pins" and b: "b < NBUF" "b_refcnt (B b) = 0" and n: "\<And>i. \<not> cached B n i"
  shows "cache_pure (fill_buf b n (D n) B) D (insert b H) pins" "bview (fill_buf b n (D n) B) D = bview B D"
    "b \<notin> H"
proof -
  let ?B = "fill_buf b n (D n) B"
  note refs = bufs_refsD [OF inv [unfolded cache_pure_def, THEN conjunct2, THEN conjunct1]]
  have rb: "(if b \<in> H then 1 else 0) + (if b_valid (B b) \<and> b_blockno (B b) \<in> pins then 1 else 0) = (0 :: uint32)"
    using refs(4) [OF b(1)] b(2) by simp
  then show bH: "b \<notin> H" by (auto split: if_splits)
  have op: "\<not> (b_valid (B b) \<and> b_blockno (B b) \<in> pins)" using rb by (auto split: if_splits)
  then have old: "b_valid (B b) \<Longrightarrow> b_data (B b) = D (b_blockno (B b))"
    using inv b(1) bH unfolding cache_pure_def bufs_clean_def by blast
  have np: "n \<notin> pins" using refs(5) n by blast
  have uniq: "b_blockno (B i) \<noteq> n" if "i < NBUF" "b_valid (B i)" for i using n [of i] that by (simp add: cached_def)
  have wf: "bufs_wf ?B D"
    using inv ring_cong [of ?B B] b(1) uniq
    unfolding cache_pure_def bufs_wf_def by (auto simp: fill_buf_def)
  moreover have "bufs_refs ?B (insert b H) pins"
    unfolding bufs_refs_def
  proof (intro conjI allI ballI impI)
    show "insert b H \<subseteq> {..<NBUF}" "\<And>i. i \<in> insert b H \<Longrightarrow> b_valid (?B i)"
      using refs(1,2) b(1) by (auto simp: fill_buf_def)
    show "b_refcnt (?B i) = (if i \<in> insert b H then 1 else 0) +
        (if b_valid (?B i) \<and> b_blockno (?B i) \<in> pins then 1 else 0)" if "i < NBUF" for i
      using refs(4) [OF that] np bH by (cases "i = b") (simp_all add: fill_buf_def)
    show "\<exists>i. cached ?B m i" if "m \<in> pins" for m
    proof -
      obtain i where i: "cached B m i" using refs(5) \<open>m \<in> pins\<close> by blast
      then have "i \<noteq> b" using op \<open>m \<in> pins\<close> by (auto simp: cached_def)
      with i show ?thesis by (auto simp: cached_def fill_buf_def)
    qed
  qed
  moreover have "bufs_clean ?B D (insert b H) pins"
    using inv unfolding cache_pure_def bufs_clean_def by (auto simp: fill_buf_def)
  ultimately show "cache_pure ?B D (insert b H) pins" by (simp add: cache_pure_def)
  show "bview ?B D = bview B D"
  proof
    fix m
    show "bview ?B D m = bview B D m"
    proof (cases "m = n")
      case True
      have "cached ?B n b" using b by (simp add: cached_def fill_buf_def)
      then show ?thesis using True bview_cached [OF wf] bview_uncached [of B n D] n by (simp add: fill_buf_def)
    next
      case False
      have c: "cached ?B m i = (cached B m i \<and> i \<noteq> b)" for i using False by (auto simp: cached_def fill_buf_def)
      show ?thesis
      proof (cases "cached B m b")
        case True
        have "\<not> cached ?B m i" for i
          using c [of i] True inv cached_unique [of B D m b i] by (auto simp: cache_pure_def)
        then have "bview ?B D m = D m" by (rule bview_uncached)
        moreover have "bview B D m = b_data (B b)" using inv True by (intro bview_cached) (simp_all add: cache_pure_def)
        ultimately show ?thesis using old True by (simp add: cached_def)
      next
        case False
        then have "cached ?B m i = cached B m i" for i using c by auto
        moreover have "b_data (?B i) = b_data (B i)" if "cached B m i" for i
          using that False by (auto simp: fill_buf_def)
        ultimately show ?thesis using inv wf by (intro bview_same) (auto simp: cache_pure_def)
      qed
    qed
  qed
qed

lemma take_lock_locks:
  "bufs_locks SL H pid \<Longrightarrow> bufs_locks (take_lock b pid SL) (insert b H) pid"
  by (auto simp: bufs_locks_def)

lemma running_upd [simp]:
  "running p (s\<lparr>sleeplocks := SL\<rparr>) = running p s" "running p (t\<lparr>bufs := B\<rparr>) = running p t"
  "running p (t\<lparr>disk := D\<rparr>) = running p t" "running p (t\<lparr>dwrites := W\<rparr>) = running p t"
  by (simp_all add: running_def)

lemma find_SomeD: "find P xs = Some x \<Longrightarrow> x \<in> set xs \<and> P x"
  by (induction xs) (auto split: if_splits)

lemma find_exists: "\<exists>x \<in> set xs. P x \<Longrightarrow> \<exists>x. find P xs = Some x"
  by (induction xs) auto

lemma bread_spec:
  assumes inv: "cache_inv p H pins s" and new: "\<And>i. i \<in> H \<Longrightarrow> b_blockno (bufs s i) \<noteq> n"
    and room: "n \<in> pins \<or> finite pins \<and> card H + card pins < NBUF"
  shows "\<exists>b B SL. bread ROOTDEV n s = Ok b (s\<lparr>sleeplocks := SL, bufs := B\<rparr>) \<and> b \<notin> H \<and> cached B n b \<and>
    cache_inv p (insert b H) pins (s\<lparr>sleeplocks := SL, bufs := B\<rparr>) \<and>
    b_data (B b) = view s n \<and> bview B (disk s) = view s \<and> (\<forall>i \<in> H. B i = bufs s i)"
proof -
  let ?B = "bufs s" and ?pid = "p_pid (procs s p)"
  have run: "running p s" and pure: "cache_pure ?B (disk s) H pins" and lk: "bufs_locks (sleeplocks s) H ?pid"
    using inv by (simp_all add: cache_inv_pure)
  have wf: "bufs_wf ?B (disk s)" and refs: "bufs_refs ?B H pins" using pure by (simp_all add: cache_pure_def)
  obtain xs where ring: "ring ?B xs" using wf by (auto simp: bufs_wf_def)
  then have xs: "set xs = {..<NBUF}" by (simp add: ring_def)
  have dev: "b_dev (?B i) = ROOTDEV \<longleftrightarrow> b_valid (?B i)" if "i < NBUF" for i using wf that by (simp add: bufs_wf_def)
  let ?SL = "\<lambda>b. take_lock b ?pid (sleeplocks s)"
  let ?P = "\<lambda>i. b_dev (?B i) = ROOTDEV \<and> b_blockno (?B i) = n"
  show ?thesis
  proof (cases "\<exists>i. cached ?B n i")
    case True
    then obtain b where b: "cached ?B n b" by blast
    have "find ?P xs = Some b"
    proof -
      have "\<exists>i \<in> set xs. ?P i" using b dev xs by (auto simp: cached_def)
      then obtain c where c: "find ?P xs = Some c" using find_exists [of xs ?P] by auto
      then have "c \<in> set xs" "?P c" using find_SomeD [OF c] by blast+
      then have "cached ?B n c" using dev xs by (auto simp: cached_def)
      then show ?thesis using c cached_unique [OF wf b] by simp
    qed
    moreover have bH: "b \<notin> H" using new b by (auto simp: cached_def)
    moreover have "\<not> sl_locked (sleeplocks s (SL_buf b))" using lk b bH by (auto simp: bufs_locks_def cached_def)
    ultimately have "bget ROOTDEV n s = Ok b (s\<lparr>sleeplocks := ?SL b, bufs := hit_buf b ?B\<rparr>)"
      using bget_hit [OF run ring] by simp
    moreover have "b_valid (hit_buf b ?B b)" using b by (simp add: hit_buf_def cached_def)
    ultimately have "bread ROOTDEV n s = Ok b (s\<lparr>sleeplocks := ?SL b, bufs := hit_buf b ?B\<rparr>)"
      by (simp add: bread_def)
    moreover have "cache_inv p (insert b H) pins (s\<lparr>sleeplocks := ?SL b, bufs := hit_buf b ?B\<rparr>)"
      using hit_pure(1) [OF pure b bH] run take_lock_locks [OF lk] by (simp add: cache_inv_pure)
    moreover have "b_data (hit_buf b ?B b) = view s n" "\<forall>i \<in> H. hit_buf b ?B i = ?B i" "cached (hit_buf b ?B) n b"
      using bview_cached [OF wf b] bH b by (auto simp: hit_buf_def cached_def)
    ultimately show ?thesis using hit_pure(2) [OF pure b bH] bH by blast
  next
    case False
    then have none: "\<And>i. \<not> cached ?B n i" by blast
    then have f1: "find ?P xs = None" using dev xs by (auto simp: find_None_iff cached_def)
    have "n \<notin> pins" using none bufs_refsD(5) [OF refs] by blast
    then have "\<exists>i \<in> set (rev xs). b_refcnt (?B i) = 0" using free_buffer [OF refs wf] room xs by auto
    then obtain b where f2: "find (\<lambda>i. b_refcnt (?B i) = 0) (rev xs) = Some b"
      using find_exists [of "rev xs" "\<lambda>i. b_refcnt (?B i) = 0"] by auto
    then have b: "b < NBUF" "b_refcnt (?B b) = 0" using find_SomeD [OF f2] xs by auto
    note fp = fill_pure [OF pure b none]
    let ?F = "fill_buf b n (disk s n) ?B"
    have "\<not> sl_locked (sleeplocks s (SL_buf b))" using lk b fp(3) by (auto simp: bufs_locks_def)
    then have "bread ROOTDEV n s = Ok b (s\<lparr>sleeplocks := ?SL b, bufs := ?F\<rparr>)"
      using bget_miss [OF run ring f1 f2] by (simp add: bread_def disk_transfer_def Let_def fill_buf_def)
    moreover have "cache_inv p (insert b H) pins (s\<lparr>sleeplocks := ?SL b, bufs := ?F\<rparr>)"
      using fp(1) run take_lock_locks [OF lk] by (simp add: cache_inv_pure)
    moreover have "b_data (?F b) = view s n" "\<forall>i \<in> H. ?F i = ?B i" "cached ?F n b"
      using bview_uncached [OF none] fp(3) b by (auto simp: fill_buf_def cached_def)
    ultimately show ?thesis using fp(2,3) by blast
  qed
qed

subsection \<open>Using and releasing a buffer\<close>

text \<open>Changing the contents of a held buffer.\<close>

definition put_data :: "nat \<Rightarrow> byte list \<Rightarrow> 'a buf_state_scheme \<Rightarrow> 'a buf_state_scheme" where
  "put_data b d s = set_buf b (\<lambda>x. x\<lparr>b_data := d\<rparr>) s"

lemma put_data_spec:
  assumes inv: "cache_inv p H pins s" and b: "b \<in> H" "length d = BSIZE"
  shows "cache_inv p H pins (put_data b d s)"
    "view (put_data b d s) = (view s)(b_blockno (bufs s b) := d)"
proof -
  let ?B = "bufs s" and ?B' = "bufs (put_data b d s)"
  have pure: "cache_pure ?B (disk s) H pins" using inv by (simp add: cache_inv_pure)
  have refs: "bufs_refs ?B H pins" and wf: "bufs_wf ?B (disk s)" using pure by (simp_all add: cache_pure_def)
  have f: "b_next (?B' i) = b_next (?B i)" "b_prev (?B' i) = b_prev (?B i)" "b_valid (?B' i) = b_valid (?B i)"
    "b_dev (?B' i) = b_dev (?B i)" "b_blockno (?B' i) = b_blockno (?B i)" "b_refcnt (?B' i) = b_refcnt (?B i)"
    "b_data (?B' i) = (if i = b then d else b_data (?B i))" for i
    by (simp_all add: put_data_def)
  have c: "cached ?B' = cached ?B" by (simp only: cached_def [abs_def] f)
  have wf': "bufs_wf ?B' (disk s)"
    using wf b(2) unfolding bufs_wf_def ring_cong [of ?B' ?B, OF f(1,2)] f by simp
  have "bufs_refs ?B' H pins" using refs unfolding bufs_refs_def c f .
  moreover have "bufs_clean ?B' (disk s) H pins"
    using pure b(1) unfolding cache_pure_def bufs_clean_def f by auto
  ultimately have "cache_pure ?B' (disk s) H pins" using wf' by (simp add: cache_pure_def)
  then show "cache_inv p H pins (put_data b d s)" using inv by (simp add: cache_inv_pure put_data_def)
  have cb: "cached ?B (b_blockno (?B b)) b" using bufs_refsD(2,3) [OF refs b(1)] by (simp add: cached_def)
  have "bview ?B' (disk s) n = ((view s)(b_blockno (?B b) := d)) n" for n
  proof (cases "n = b_blockno (?B b)")
    case True
    then show ?thesis using bview_cached [OF wf', of n b] cb c f(7) [of b] by simp
  next
    case False
    then have "\<not> cached ?B n b" by (simp add: cached_def)
    then show ?thesis using False wf wf' f(7) by (auto simp: c intro!: bview_same)
  qed
  then show "view (put_data b d s) = (view s)(b_blockno (?B b) := d)"
    by (auto simp: fun_eq_iff put_data_def)
qed

lemma holding_buf:
  assumes "cache_inv p H pins s" "b \<in> H"
  shows "holdingsleep (SL_buf b) s = Ok True s"
proof -
  have "b < NBUF" using assms bufs_refsD(3) by (auto simp: cache_inv_def)
  then show ?thesis
    using assms holdingsleep_eq [of s p "SL_buf b"] by (auto simp: cache_inv_def bufs_locks_def runningD)
qed

lemma bwrite_spec:
  assumes inv: "cache_inv p H pins s" and b: "b \<in> H"
  shows "\<exists>B. bwrite b s = Ok () (s\<lparr>bufs := B, disk := (disk s)(b_blockno (bufs s b) := b_data (bufs s b)),
      dwrites := dwrites s @ [(b_blockno (bufs s b), b_data (bufs s b))]\<rparr>) \<and>
    cache_inv p H pins (s\<lparr>bufs := B, disk := (disk s)(b_blockno (bufs s b) := b_data (bufs s b)),
      dwrites := dwrites s @ [(b_blockno (bufs s b), b_data (bufs s b))]\<rparr>) \<and>
    bview B ((disk s)(b_blockno (bufs s b) := b_data (bufs s b))) = view s \<and>
    (\<forall>i. b_data (B i) = b_data (bufs s i) \<and> b_blockno (B i) = b_blockno (bufs s i))"
proof -
  let ?B = "bufs s"
  let ?B' = "?B(b := (?B b)\<lparr>b_disk := False\<rparr>)" and ?n = "b_blockno (?B b)" and ?d = "b_data (?B b)"
  let ?D = "(disk s)(?n := ?d)"
  have run: "bwrite b s = Ok () (s\<lparr>bufs := ?B', disk := ?D, dwrites := dwrites s @ [(?n, ?d)]\<rparr>)"
    using holding_buf [OF assms] by (cases s) (simp add: bwrite_def disk_transfer_def Let_def)
  have pure: "cache_pure ?B (disk s) H pins" using inv by (simp add: cache_inv_pure)
  have refs: "bufs_refs ?B H pins" and wf: "bufs_wf ?B (disk s)" using pure by (simp_all add: cache_pure_def)
  have f: "b_next (?B' i) = b_next (?B i)" "b_prev (?B' i) = b_prev (?B i)" "b_valid (?B' i) = b_valid (?B i)"
    "b_dev (?B' i) = b_dev (?B i)" "b_blockno (?B' i) = b_blockno (?B i)" "b_refcnt (?B' i) = b_refcnt (?B i)"
    "b_data (?B' i) = b_data (?B i)" for i
    by simp_all
  have c: "cached ?B' = cached ?B" by (simp only: cached_def [abs_def] f)
  have cb: "cached ?B ?n b" using bufs_refsD(2,3) [OF refs b] by (simp add: cached_def)
  have len: "length ?d = BSIZE" using wf cb by (simp add: bufs_wf_def cached_def)
  have wf': "bufs_wf ?B' ?D"
    using wf len unfolding bufs_wf_def ring_cong [of ?B' ?B, OF f(1,2)] f by simp
  have "bufs_refs ?B' H pins" using refs unfolding bufs_refs_def c f .
  moreover have "bufs_clean ?B' ?D H pins"
    unfolding bufs_clean_def f
  proof (intro allI impI)
    fix i assume i: "i < NBUF" "b_valid (?B i) \<and> i \<notin> H \<and> b_blockno (?B i) \<notin> pins"
    then have "b_blockno (?B i) \<noteq> ?n" using cached_unique [OF wf cb, of i] b by (auto simp: cached_def)
    then show "b_data (?B i) = ?D (b_blockno (?B i))"
      using pure i by (auto simp: cache_pure_def bufs_clean_def)
  qed
  ultimately have "cache_pure ?B' ?D H pins" using wf' by (simp add: cache_pure_def)
  then have "cache_inv p H pins (s\<lparr>bufs := ?B', disk := ?D, dwrites := dwrites s @ [(?n, ?d)]\<rparr>)"
    using inv by (simp add: cache_inv_pure)
  moreover have "bview ?B' ?D m = view s m" for m
    using wf wf' f(7) cb by (intro bview_same) (auto simp: c)
  ultimately show ?thesis using run f by (intro exI [of _ ?B']) (simp add: fun_eq_iff)
qed

lemma bpin_spec:
  assumes inv: "cache_inv p H pins s" and b: "b \<in> H" and n: "b_blockno (bufs s b) \<notin> pins"
  shows "\<exists>B. bpin b s = Ok () (s\<lparr>bufs := B\<rparr>) \<and> cache_inv p H (insert (b_blockno (bufs s b)) pins) (s\<lparr>bufs := B\<rparr>) \<and>
    bview B (disk s) = view s \<and> (\<forall>i. b_data (B i) = b_data (bufs s i) \<and> b_blockno (B i) = b_blockno (bufs s i))"
proof -
  let ?B = "bufs s" and ?n = "b_blockno (bufs s b)"
  have run: "bpin b s = Ok () (s\<lparr>bufs := hit_buf b ?B\<rparr>)"
    using runningD [of p s] inv by (simp add: bpin_def hit_buf_def cache_inv_def lock_simps)
  have pure: "cache_pure ?B (disk s) H pins" using inv by (simp add: cache_inv_pure)
  note refs = bufs_refsD [OF pure [unfolded cache_pure_def, THEN conjunct2, THEN conjunct1]]
  have wf: "bufs_wf ?B (disk s)" using pure by (simp add: cache_pure_def)
  have cb: "cached ?B ?n b" using refs(2,3) [OF b] by (simp add: cached_def)
  have "\<exists>c. hit_buf b ?B i = (?B i)\<lparr>b_refcnt := c\<rparr>" for i
    by (cases "i = b") (auto simp: hit_buf_def intro: exI [of _ "b_refcnt (?B i)"])
  note r = refcnt_only [of "hit_buf b ?B" ?B, OF this]
  have f: "b_valid (hit_buf b ?B i) = b_valid (?B i)" "b_blockno (hit_buf b ?B i) = b_blockno (?B i)"
    "b_data (hit_buf b ?B i) = b_data (?B i)" for i
    by (simp_all add: hit_buf_def)
  have "bufs_refs (hit_buf b ?B) H (insert ?n pins)"
    unfolding bufs_refs_def r f
  proof (intro conjI allI ballI impI)
    show "b_refcnt (hit_buf b ?B i) = (if i \<in> H then 1 else 0) +
        (if b_valid (?B i) \<and> b_blockno (?B i) \<in> insert ?n pins then 1 else 0)" if "i < NBUF" for i
    proof (cases "i = b")
      case True
      then show ?thesis using refs(4) [OF that] refs(2) [OF b] n b by (simp add: hit_buf_def)
    next
      case False
      then have "b_blockno (?B i) \<noteq> ?n" if "b_valid (?B i)"
        using cached_unique [OF wf cb, of i] \<open>i < NBUF\<close> that by (auto simp: cached_def)
      then show ?thesis using refs(4) [OF that] False by (auto simp: hit_buf_def)
    qed
    show "\<exists>i. cached ?B m i" if "m \<in> insert ?n pins" for m using that refs(5) cb by blast
  qed (use refs(1,2) in auto)
  moreover have "bufs_clean ?B (disk s) H (insert ?n pins)"
    using pure by (auto simp: cache_pure_def bufs_clean_def)
  ultimately have "cache_pure (hit_buf b ?B) (disk s) H (insert ?n pins)" using pure by (simp add: cache_pure_def r)
  then have "cache_inv p H (insert ?n pins) (s\<lparr>bufs := hit_buf b ?B\<rparr>)" using inv by (simp add: cache_inv_pure)
  then show ?thesis using run r(3) f by (intro exI [of _ "hit_buf b ?B"]) simp
qed

definition drop_ref :: "nat \<Rightarrow> (nat \<Rightarrow> buf) \<Rightarrow> nat \<Rightarrow> buf" where
  "drop_ref b B = B(b := (B b)\<lparr>b_refcnt := b_refcnt (B b) - 1\<rparr>)"

lemma drop_ref_only: "\<exists>c. drop_ref b B i = (B i)\<lparr>b_refcnt := c\<rparr>"
  by (cases "i = b") (auto simp: drop_ref_def intro: exI [of _ "b_refcnt (B i)"])

lemma drop_ref_fields [simp]:
  "b_valid (drop_ref b B i) = b_valid (B i)" "b_blockno (drop_ref b B i) = b_blockno (B i)"
  "b_data (drop_ref b B i) = b_data (B i)" "b_next (drop_ref b B i) = b_next (B i)"
  "b_prev (drop_ref b B i) = b_prev (B i)" "b_dev (drop_ref b B i) = b_dev (B i)"
  by (simp_all add: drop_ref_def)

lemma bunpin_spec:
  assumes inv: "cache_inv p H pins s" and b: "b \<in> H" and n: "b_blockno (bufs s b) \<in> pins"
  shows "\<exists>B. bunpin b s = Ok () (s\<lparr>bufs := B\<rparr>) \<and> cache_inv p H (pins - {b_blockno (bufs s b)}) (s\<lparr>bufs := B\<rparr>) \<and>
    bview B (disk s) = view s \<and> (\<forall>i. b_data (B i) = b_data (bufs s i) \<and> b_blockno (B i) = b_blockno (bufs s i))"
proof -
  let ?B = "bufs s" and ?n = "b_blockno (bufs s b)"
  have run: "bunpin b s = Ok () (s\<lparr>bufs := drop_ref b ?B\<rparr>)"
    using runningD [of p s] inv by (simp add: bunpin_def drop_ref_def cache_inv_def lock_simps)
  have pure: "cache_pure ?B (disk s) H pins" using inv by (simp add: cache_inv_pure)
  note refs = bufs_refsD [OF pure [unfolded cache_pure_def, THEN conjunct2, THEN conjunct1]]
  have wf: "bufs_wf ?B (disk s)" using pure by (simp add: cache_pure_def)
  have cb: "cached ?B ?n b" using refs(2,3) [OF b] by (simp add: cached_def)
  note r = refcnt_only [of "drop_ref b ?B" ?B, OF drop_ref_only]
  have neq: "b_blockno (?B i) \<noteq> ?n" if "i < NBUF" "b_valid (?B i)" "i \<noteq> b" for i
    using cached_unique [OF wf cb, of i] that by (auto simp: cached_def)
  have "bufs_refs (drop_ref b ?B) H (pins - {?n})"
    unfolding bufs_refs_def r drop_ref_fields
  proof (intro conjI allI ballI impI)
    show "b_refcnt (drop_ref b ?B i) = (if i \<in> H then 1 else 0) +
        (if b_valid (?B i) \<and> b_blockno (?B i) \<in> pins - {?n} then 1 else 0)" if "i < NBUF" for i
    proof (cases "i = b")
      case True
      then show ?thesis using refs(4) [OF that] refs(2) [OF b] n b by (simp add: drop_ref_def)
    next
      case False
      then show ?thesis using refs(4) [OF that] neq [OF that] by (auto simp: drop_ref_def)
    qed
  qed (use refs(1,2,5) in auto)
  moreover have "bufs_clean ?B (disk s) H (pins - {?n})"
    unfolding bufs_clean_def
  proof (intro allI impI)
    fix i assume i: "i < NBUF" "b_valid (?B i) \<and> i \<notin> H \<and> b_blockno (?B i) \<notin> pins - {?n}"
    then have "b_blockno (?B i) \<noteq> ?n" using neq [of i] b by blast
    then show "b_data (?B i) = disk s (b_blockno (?B i))"
      using pure i by (auto simp: cache_pure_def bufs_clean_def)
  qed
  ultimately have "cache_pure (drop_ref b ?B) (disk s) H (pins - {?n})" using pure by (simp add: cache_pure_def r)
  then have "cache_inv p H (pins - {?n}) (s\<lparr>bufs := drop_ref b ?B\<rparr>)" using inv by (simp add: cache_inv_pure)
  then show ?thesis using run r(3) by (intro exI [of _ "drop_ref b ?B"]) simp
qed

text \<open>Moving a buffer to the front changes the links only.\<close>

lemma to_front_pure:
  assumes "cache_pure B D H pins" "b < NBUF"
  shows "cache_pure (to_front b B) D H pins" "bview (to_front b B) = bview B"
proof -
  obtain xs where r: "ring B xs" using assms(1) by (auto simp: cache_pure_def bufs_wf_def)
  then have "b \<in> set xs" using assms(2) by (simp add: ring_def)
  then obtain ls rs where "xs = ls @ b # rs" by (metis split_list)
  then have r': "\<exists>xs. ring (to_front b B) xs" using ring_to_front r by blast
  have c: "cached (to_front b B) = cached B" by (simp only: cached_def [abs_def] to_front_keeps)
  show "bview (to_front b B) = bview B" by (simp only: bview_def [abs_def] to_front_keeps)
  show "cache_pure (to_front b B) D H pins"
    using assms(1) r' unfolding cache_pure_def bufs_wf_def bufs_refs_def bufs_clean_def c to_front_keeps by blast
qed

lemma brelse_run:
  assumes "cache_inv p H pins s" "b \<in> H"
  shows "brelse b s = Ok () (s\<lparr>sleeplocks := (sleeplocks s)(SL_buf b := (sleeplocks s (SL_buf b))\<lparr>sl_locked := False, sl_pid := 0\<rparr>),
    bufs := (if b_refcnt (bufs s b) = 1 then to_front b (drop_ref b (bufs s)) else drop_ref b (bufs s))\<rparr>)"
proof -
  have run: "running p s" using assms by (simp add: cache_inv_def)
  note rd = runningD [OF run]
  have rel: "releasesleep (SL_buf b) s = Ok () (s\<lparr>sleeplocks := (sleeplocks s)(SL_buf b := (sleeplocks s (SL_buf b))\<lparr>sl_locked := False, sl_pid := 0\<rparr>)\<rparr>)"
    using releasesleep_eq [OF rd(1,3,5)] rd(4) by (cases s) simp
  show ?thesis
    using rd holding_buf [OF assms] rel
    by (simp add: brelse_def lock_simps Let_def drop_ref_def [abs_def])
qed

lemma brelse_spec:
  assumes inv: "cache_inv p H pins s" and b: "b \<in> H"
    and clean: "b_blockno (bufs s b) \<in> pins \<or> b_data (bufs s b) = disk s (b_blockno (bufs s b))"
  shows "\<exists>B SL. brelse b s = Ok () (s\<lparr>sleeplocks := SL, bufs := B\<rparr>) \<and>
    cache_inv p (H - {b}) pins (s\<lparr>sleeplocks := SL, bufs := B\<rparr>) \<and> bview B (disk s) = view s \<and>
    (\<forall>i. b_data (B i) = b_data (bufs s i) \<and> b_blockno (B i) = b_blockno (bufs s i))"
proof -
  let ?B = "bufs s"
  let ?SL = "(sleeplocks s)(SL_buf b := (sleeplocks s (SL_buf b))\<lparr>sl_locked := False, sl_pid := 0\<rparr>)"
  let ?B' = "if b_refcnt (?B b) = 1 then to_front b (drop_ref b ?B) else drop_ref b ?B"
  have pure: "cache_pure ?B (disk s) H pins" using inv by (simp add: cache_inv_pure)
  note refs = bufs_refsD [OF pure [unfolded cache_pure_def, THEN conjunct2, THEN conjunct1]]
  note r = refcnt_only [of "drop_ref b ?B" ?B, OF drop_ref_only]
  have "bufs_refs (drop_ref b ?B) (H - {b}) pins"
    unfolding bufs_refs_def r drop_ref_fields
  proof (intro conjI allI ballI impI)
    show "b_refcnt (drop_ref b ?B i) = (if i \<in> H - {b} then 1 else 0) +
        (if b_valid (?B i) \<and> b_blockno (?B i) \<in> pins then 1 else 0)" if "i < NBUF" for i
      using refs(4) [OF that] b by (cases "i = b") (simp_all add: drop_ref_def)
  qed (use refs(1,2,5) in auto)
  moreover have "bufs_clean ?B (disk s) (H - {b}) pins"
    using pure clean unfolding cache_pure_def bufs_clean_def by auto
  ultimately have p1: "cache_pure (drop_ref b ?B) (disk s) (H - {b}) pins" using pure by (simp add: cache_pure_def r)
  have p2: "cache_pure ?B' (disk s) (H - {b}) pins" and v: "bview ?B' = bview ?B"
    using to_front_pure [OF p1 refs(3) [OF b]] p1 r(3) by simp_all
  have "bufs_locks ?SL (H - {b}) (p_pid (procs s p))"
    using inv by (auto simp: cache_inv_pure bufs_locks_def)
  then have "cache_inv p (H - {b}) pins (s\<lparr>sleeplocks := ?SL, bufs := ?B'\<rparr>)"
    using inv p2 by (simp add: cache_inv_pure)
  moreover have "b_data (?B' i) = b_data (?B i) \<and> b_blockno (?B' i) = b_blockno (?B i)" for i by simp
  ultimately show ?thesis
    using brelse_run [OF inv b] v by (intro exI [of _ ?B'] exI [of _ ?SL] conjI allI) simp_all
qed

subsection \<open>The interface of the cache\<close>

text \<open>
  What a client of the cache relies on.  \<open>vis s\<close> is the state a client sees: the contents of the
  blocks, the disk, the writes the disk has carried out, and the rest of the state, which the cache
  does not touch.  \<open>inv H pins s\<close>: buffers \<open>H\<close> are held and the blocks \<open>pins\<close> pinned; \<open>room H pins n\<close>:
  there is a buffer for block \<open>n\<close>; \<open>ok d\<close>: \<open>d\<close> fits in a block.
\<close>

locale block_cache =
  fixes inv :: "'h set \<Rightarrow> 'n set \<Rightarrow> 's \<Rightarrow> bool"
    and room :: "'h set \<Rightarrow> 'n set \<Rightarrow> 'n \<Rightarrow> bool"
    and ok :: "'d \<Rightarrow> bool"
    and vis :: "'s \<Rightarrow> ('n \<Rightarrow> 'd) \<times> ('n \<Rightarrow> 'd) \<times> ('n \<times> 'd) list \<times> 'r"
    and blk :: "'s \<Rightarrow> 'h \<Rightarrow> 'n" and dat :: "'s \<Rightarrow> 'h \<Rightarrow> 'd"
    and dev0 :: 'v
    and rd :: "'v \<Rightarrow> 'n \<Rightarrow> 's \<Rightarrow> ('h, 's) outcome"
    and put :: "'h \<Rightarrow> 'd \<Rightarrow> 's \<Rightarrow> 's"
    and wr rel pin unpin :: "'h \<Rightarrow> 's \<Rightarrow> (unit, 's) outcome"
  assumes contents_ok: "inv H pins s \<Longrightarrow> vis s = (C, D, W, R) \<Longrightarrow> ok (C n)"
    and contents_clean: "inv {} pins s \<Longrightarrow> vis s = (C, D, W, R) \<Longrightarrow> n \<notin> pins \<Longrightarrow> C n = D n"
    and held: "inv H pins s \<Longrightarrow> vis s = (C, D, W, R) \<Longrightarrow> h \<in> H \<Longrightarrow> dat s h = C (blk s h)"
    and rd: "inv H pins s \<Longrightarrow> n \<notin> blk s ` H \<Longrightarrow> room H pins n \<Longrightarrow>
      \<exists>h t. rd dev0 n s = Ok h t \<and> h \<notin> H \<and> inv (insert h H) pins t \<and> blk t h = n \<and> vis t = vis s \<and>
        (\<forall>i \<in> H. blk t i = blk s i)"
    and put: "inv H pins s \<Longrightarrow> h \<in> H \<Longrightarrow> ok d \<Longrightarrow> vis s = (C, D, W, R) \<Longrightarrow>
      inv H pins (put h d s) \<and> vis (put h d s) = (C(blk s h := d), D, W, R) \<and> blk (put h d s) = blk s"
    and wr: "inv H pins s \<Longrightarrow> h \<in> H \<Longrightarrow> vis s = (C, D, W, R) \<Longrightarrow>
      \<exists>t. wr h s = Ok () t \<and> inv H pins t \<and> blk t = blk s \<and>
        vis t = (C, D(blk s h := dat s h), W @ [(blk s h, dat s h)], R)"
    and rel: "inv H pins s \<Longrightarrow> h \<in> H \<Longrightarrow> vis s = (C, D, W, R) \<Longrightarrow> blk s h \<in> pins \<or> C (blk s h) = D (blk s h) \<Longrightarrow>
      \<exists>t. rel h s = Ok () t \<and> inv (H - {h}) pins t \<and> vis t = vis s \<and> blk t = blk s"
    and pin: "inv H pins s \<Longrightarrow> h \<in> H \<Longrightarrow> blk s h \<notin> pins \<Longrightarrow>
      \<exists>t. pin h s = Ok () t \<and> inv H (insert (blk s h) pins) t \<and> vis t = vis s \<and> blk t = blk s"
    and unpin: "inv H pins s \<Longrightarrow> h \<in> H \<Longrightarrow> blk s h \<in> pins \<Longrightarrow>
      \<exists>t. unpin h s = Ok () t \<and> inv H (pins - {blk s h}) t \<and> vis t = vis s \<and> blk t = blk s"
begin

text \<open>Block \<open>dst\<close> gets the contents of block \<open>src\<close>, in the cache and on the disk.\<close>

lemma overwrite:
  assumes inv: "inv H pins s" and h: "to \<in> H" "from \<in> H" and V: "vis s = (C, D, W, R)"
  shows "\<exists>t. wr to (put to (dat s from) s) = Ok () t \<and> inv H pins t \<and> blk t = blk s \<and>
    vis t = (C(blk s to := C (blk s from)), D(blk s to := C (blk s from)), W @ [(blk s to, C (blk s from))], R)"
proof -
  have d: "dat s from = C (blk s from)" using held [OF inv V h(2)] .
  let ?s = "put to (dat s from) s"
  have p: "inv H pins ?s" "vis ?s = (C(blk s to := C (blk s from)), D, W, R)" "blk ?s = blk s"
    using put [OF inv h(1) _ V, of "dat s from"] contents_ok [OF inv V] d by simp_all
  have "dat ?s to = C (blk s from)" using held [OF p(1,2) h(1)] p(3) by simp
  then show ?thesis using wr [OF p(1) h(1) p(2)] p(3) by simp
qed

text \<open>The two orders in which the log copies a block.\<close>

lemma copy_out:
  assumes inv: "inv {} pins s" and V: "vis s = (C, D, W, R)" and n: "dst \<notin> pins" "src \<in> pins"
    and room: "room {} pins dst" "\<And>h. room {h} pins src"
    and same: "\<And>t. snd (snd (snd (vis t))) = R \<Longrightarrow> dv t = dev0 \<and> nd t = dst \<and> ns t = src"
  shows "\<exists>t. andthen (rd (dv s) (nd s) s) (\<lambda>to s. andthen (rd (dv s) (ns s) s) (\<lambda>from s.
      andthen (wr to (put to (dat s from) s)) (\<lambda>_ s. andthen (rel from s) (\<lambda>_ s. rel to s)))) = Ok () t \<and>
    inv {} pins t \<and> vis t = (C(dst := C src), D(dst := C src), W @ [(dst, C src)], R)"
proof -
  have s0: "dv s = dev0" "nd s = dst" using same [of s] V by simp_all
  obtain a s1 where 1: "rd dev0 dst s = Ok a s1" "inv {a} pins s1" "blk s1 a = dst" "vis s1 = (C, D, W, R)"
    using rd [OF inv _ room(1)] V by auto
  have s1: "dv s1 = dev0" "ns s1 = src" using same [of s1] 1(4) by simp_all
  have ne: "src \<noteq> dst" using n by auto
  obtain b s2 where 2: "rd dev0 src s1 = Ok b s2" "b \<noteq> a" "inv {b, a} pins s2" "blk s2 b = src" "vis s2 = (C, D, W, R)"
      "blk s2 a = dst"
    using rd [OF 1(2) _ room(2)] 1(3,4) ne by auto
  obtain s3 where 3: "wr a (put a (dat s2 b) s2) = Ok () s3" "inv {b, a} pins s3" "blk s3 = blk s2"
      "vis s3 = (C(dst := C src), D(dst := C src), W @ [(dst, C src)], R)"
    using overwrite [OF 2(3) _ _ 2(5), of a b] 2(4,6) by auto
  have "blk s3 b \<in> pins" using 2(4) 3(3) n(2) by simp
  then obtain s4 where 4: "rel b s3 = Ok () s4" "inv {a} pins s4" "vis s4 = vis s3" "blk s4 = blk s3"
    using rel [OF 3(2) _ 3(4), of b] 2(2) by (auto simp: insert_Diff_if)
  have "blk s4 a = dst" using 4(4) 3(3) 2(6) by simp
  then obtain s5 where "rel a s4 = Ok () s5" "inv {} pins s5" "vis s5 = vis s4"
    using rel [OF 4(2) _ 4(3) [unfolded 3(4)], of a] by auto
  then show ?thesis using s0 s1 1(1) 2(1) 3(1,4) 4(1,3) by simp
qed

lemma copy_home:
  assumes inv: "inv {} pins s" and V: "vis s = (C, D, W, R)" and n: "src \<notin> pins" "src \<noteq> dst"
    and room: "room {} pins src" "\<And>h. room {h} pins dst"
    and same: "\<And>t. snd (snd (snd (vis t))) = R \<Longrightarrow> dv t = dev0 \<and> nd t = dst \<and> ns t = src"
    and f: "\<And>H h t. inv H pins t \<Longrightarrow> h \<in> H \<Longrightarrow> blk t h = dst \<Longrightarrow>
      \<exists>u. f h t = Ok () u \<and> inv H pins' u \<and> vis u = vis t \<and> blk u = blk t"
  shows "\<exists>t. andthen (rd (dv s) (ns s) s) (\<lambda>from s. andthen (rd (dv s) (nd s) s) (\<lambda>to s.
      andthen (wr to (put to (dat s from) s)) (\<lambda>_ s. andthen (f to s) (\<lambda>_ s.
      andthen (rel from s) (\<lambda>_ s. rel to s))))) = Ok () t \<and>
    inv {} pins' t \<and> vis t = (C(dst := C src), D(dst := C src), W @ [(dst, C src)], R)"
proof -
  have s0: "dv s = dev0" "ns s = src" using same [of s] V by simp_all
  obtain b s1 where 1: "rd dev0 src s = Ok b s1" "inv {b} pins s1" "blk s1 b = src" "vis s1 = (C, D, W, R)"
    using rd [OF inv _ room(1)] V by auto
  have s1: "dv s1 = dev0" "nd s1 = dst" using same [of s1] 1(4) by simp_all
  obtain a s2 where 2: "rd dev0 dst s1 = Ok a s2" "a \<noteq> b" "inv {a, b} pins s2" "blk s2 a = dst" "vis s2 = (C, D, W, R)"
      "blk s2 b = src"
    using rd [OF 1(2) _ room(2)] 1(3,4) n(2) by auto
  obtain s3 where 3: "wr a (put a (dat s2 b) s2) = Ok () s3" "inv {a, b} pins s3" "blk s3 = blk s2"
      "vis s3 = (C(dst := C src), D(dst := C src), W @ [(dst, C src)], R)"
    using overwrite [OF 2(3) _ _ 2(5), of a b] 2(4,6) by auto
  obtain s4 where 4: "f a s3 = Ok () s4" "inv {a, b} pins' s4" "vis s4 = vis s3" "blk s4 = blk s3"
    using f [OF 3(2), of a] 3(3) 2(4) by auto
  have "C src = D src" using contents_clean [OF inv V n(1)] .
  then obtain s5 where 5: "rel b s4 = Ok () s5" "inv {a} pins' s5" "vis s5 = vis s3" "blk s5 = blk s4"
    using rel [OF 4(2) _ 4(3) [unfolded 3(4)], of b] 2(2,6) 3(3,4) 4(3,4) n(2) by (auto simp: insert_Diff_if)
  obtain s6 where "rel a s5 = Ok () s6" "inv {} pins' s6" "vis s6 = vis s5"
    using rel [OF 5(2) _ 5(3) [unfolded 3(4)], of a] 5(4) 4(4) 3(3) 2(4) by auto
  then show ?thesis using s0 s1 1(1) 2(1) 3(1,4) 4(1) 5(1,3) by simp
qed

end

text \<open>The interpretation: the cache of \<open>bio.c\<close>, seen by the running process \<open>p\<close>.\<close>

definition bc_room :: "nat set \<Rightarrow> uint32 set \<Rightarrow> uint32 \<Rightarrow> bool" where
  "bc_room H pins n \<longleftrightarrow> n \<in> pins \<or> finite pins \<and> card H + card pins < NBUF"

definition bc_rest :: "'a buf_state_scheme \<Rightarrow> 'a buf_state_scheme" where
  "bc_rest s = s\<lparr>sleeplocks := undefined, bufs := undefined, disk := undefined, dwrites := undefined\<rparr>"

definition bc_vis :: "'a buf_state_scheme \<Rightarrow>
    (uint32 \<Rightarrow> byte list) \<times> (uint32 \<Rightarrow> byte list) \<times> (uint32 \<times> byte list) list \<times> 'a buf_state_scheme" where
  "bc_vis s = (view s, disk s, dwrites s, bc_rest s)"

abbreviation bc_blk :: "'a buf_state_scheme \<Rightarrow> nat \<Rightarrow> uint32" where
  "bc_blk s b \<equiv> b_blockno (bufs s b)"

abbreviation bc_dat :: "'a buf_state_scheme \<Rightarrow> nat \<Rightarrow> byte list" where
  "bc_dat s b \<equiv> b_data (bufs s b)"

lemma bc_rest_upd [simp]:
  "bc_rest (s\<lparr>sleeplocks := SL\<rparr>) = bc_rest s" "bc_rest (s\<lparr>bufs := B\<rparr>) = bc_rest s"
  "bc_rest (s\<lparr>disk := D\<rparr>) = bc_rest s" "bc_rest (s\<lparr>dwrites := W\<rparr>) = bc_rest s"
  by (simp_all add: bc_rest_def)

lemma cached_held: "cache_inv p H pins s \<Longrightarrow> b \<in> H \<Longrightarrow> cached (bufs s) (bc_blk s b) b"
  using bufs_refsD(2,3) [of "bufs s" H pins b] by (auto simp: cache_inv_def cached_def)

lemma view_held: "cache_inv p H pins s \<Longrightarrow> b \<in> H \<Longrightarrow> bc_dat s b = view s (bc_blk s b)"
  using cached_held [of p H pins s b] bview_cached [of "bufs s" "disk s"] by (simp add: cache_inv_def)

lemma view_clean:
  assumes "cache_inv p {} pins s" "n \<notin> pins"
  shows "view s n = disk s n"
proof (cases "\<exists>i. cached (bufs s) n i")
  case True
  then obtain i where i: "cached (bufs s) n i" by blast
  then have "b_data (bufs s i) = disk s n"
    using assms unfolding cache_inv_def bufs_clean_def cached_def by blast
  then show ?thesis using bview_cached [OF _ i, of "disk s"] assms(1) by (simp add: cache_inv_def)
qed (auto intro: bview_uncached)

interpretation bc: block_cache "cache_inv p" bc_room "\<lambda>d. length d = BSIZE" bc_vis bc_blk bc_dat ROOTDEV
  bread put_data bwrite brelse bpin bunpin for p
proof (unfold_locales, goal_cases)
  case (1 H pins s C D W R n)
  then show ?case using bview_length [of "bufs s" "disk s" n] by (auto simp: cache_inv_def bc_vis_def)
next
  case (2 pins s C D W R n)
  then show ?case using view_clean [of p pins s n] by (auto simp: bc_vis_def)
next
  case (3 H pins s C D W R h)
  then show ?case using view_held [of p H pins s h] by (auto simp: bc_vis_def)
next
  case (4 H pins s n)
  then have "\<And>i. i \<in> H \<Longrightarrow> bc_blk s i \<noteq> n" by auto
  then obtain b B SL where r: "bread ROOTDEV n s = Ok b (s\<lparr>sleeplocks := SL, bufs := B\<rparr>)" "b \<notin> H" "cached B n b"
      "cache_inv p (insert b H) pins (s\<lparr>sleeplocks := SL, bufs := B\<rparr>)"
      "bview B (disk s) = view s" "\<forall>i \<in> H. B i = bufs s i"
    using bread_spec [OF 4(1) _ 4(3) [unfolded bc_room_def]] by auto
  show ?case
    by (intro exI [of _ b] exI [of _ "s\<lparr>sleeplocks := SL, bufs := B\<rparr>"] conjI)
       (use r in \<open>simp_all add: bc_vis_def cached_def\<close>)
next
  case (5 H pins s h d C D W R)
  then show ?case using put_data_spec [OF 5(1-3)] by (auto simp: bc_vis_def put_data_def)
next
  case (6 H pins s h C D W R)
  then show ?case using bwrite_spec [OF 6(1,2)] by (auto simp: bc_vis_def)
next
  case (7 H pins s h C D W R)
  then have c: "bc_blk s h \<in> pins \<or> bc_dat s h = disk s (bc_blk s h)"
    using view_held [OF 7(1,2)] by (auto simp: bc_vis_def)
  show ?case using brelse_spec [OF 7(1,2) c] by (auto simp: bc_vis_def)
next
  case (8 H pins s h)
  then show ?case using bpin_spec [OF 8] by (auto simp: bc_vis_def)
next
  case (9 H pins s h)
  then show ?case using bunpin_spec [OF 9] by (auto simp: bc_vis_def)
qed

subsection \<open>The cache after boot\<close>

text \<open>What \<open>binit\<close> leaves as it was.\<close>

definition same_fields :: "(nat \<Rightarrow> buf) \<Rightarrow> (nat \<Rightarrow> buf) \<Rightarrow> bool" where
  "same_fields B' B \<longleftrightarrow> (\<forall>i. b_valid (B' i) = b_valid (B i) \<and> b_dev (B' i) = b_dev (B i) \<and>
     b_refcnt (B' i) = b_refcnt (B i))"

lemma binit_loop_keeps:
  "running p s \<Longrightarrow> running p (binit_loop xs s) \<and> same_fields (bufs (binit_loop xs s)) (bufs s) \<and>
     procs (binit_loop xs s) = procs s \<and> disk (binit_loop xs s) = disk s \<and> dwrites (binit_loop xs s) = dwrites s \<and>
     (\<forall>i. sl_locked (sleeplocks (binit_loop xs s) (SL_buf i)) \<longleftrightarrow>
        sl_locked (sleeplocks s (SL_buf i)) \<and> i \<notin> set xs)"
proof (induction xs arbitrary: s)
  case (Cons x xs)
  let ?s = "initsleeplock (SL_buf x) ''buffer'' s"
  let ?t = "?s\<lparr>bufs := push_front x (bufs ?s)\<rparr>"
  have "running p ?t"
    using Cons.prems by (auto simp: running_def initsleeplock_def initlock_def lk_free_def)
  from Cons.IH [OF this] show ?case
    by (auto simp: binit_loop_def Let_def same_fields_def initsleeplock_def initlock_def)
qed (simp add: binit_loop_def same_fields_def)

lemma binit_inv:
  assumes "running p s" "\<And>n. length (disk s n) = BSIZE"
    "\<And>i. i < NBUF \<Longrightarrow> \<not> b_valid (bufs s i) \<and> b_dev (bufs s i) \<noteq> ROOTDEV \<and> b_refcnt (bufs s i) = 0"
  shows "cache_inv p {} {} (binit s)" "disk (binit s) = disk s" "view (binit s) = disk s" "dwrites (binit s) = dwrites s"
    "i < NBUF \<Longrightarrow> \<not> b_valid (bufs (binit s) i)"
proof -
  let ?s = "set_buf NBUF (\<lambda>x. x\<lparr>b_prev := NBUF, b_next := NBUF\<rparr>) (initlock L_bcache ''bcache'' s)"
  have "running p ?s" using assms(1) by (auto simp: running_def initlock_def lk_free_def)
  note k = binit_loop_keeps [OF this, of "[0..<NBUF]"]
  have f: "\<not> b_valid (bufs (binit s) i) \<and> b_dev (bufs (binit s) i) \<noteq> ROOTDEV \<and> b_refcnt (bufs (binit s) i) = 0"
    if "i < NBUF" for i
    using k assms(3) [OF that] that by (auto simp: binit_def same_fields_def initlock_def)
  have l: "\<not> sl_locked (sleeplocks (binit s) (SL_buf i))" if "i < NBUF" for i
    using k that by (auto simp: binit_def)
  show d: "disk (binit s) = disk s" and "dwrites (binit s) = dwrites s" using k by (simp_all add: binit_def initlock_def)
  have "bufs_wf (bufs (binit s)) (disk (binit s))" "bufs_refs (bufs (binit s)) {} {}"
    "bufs_clean (bufs (binit s)) (disk (binit s)) {} {}" "bufs_locks (sleeplocks (binit s)) {} pid" for pid
    using f l assms(2) d binit_ring [of s]
    by (auto simp: bufs_wf_def bufs_refs_def bufs_clean_def bufs_locks_def)
  then show inv: "cache_inv p {} {} (binit s)" using k by (simp add: cache_inv_def binit_def)
  show "view (binit s) = disk s" using view_clean [OF inv] d by auto
  show "i < NBUF \<Longrightarrow> \<not> b_valid (bufs (binit s) i)" using f by blast
qed

subsection \<open>Properties\<close>

text \<open>
  C13. A block read through the cache holds what was last stored in it: with a free buffer left, and
  the block not already held, \<open>bread\<close> returns a locked buffer with the current contents of the block,
  takes nothing from other holders, and changes neither the contents of any block nor the disk; the
  contents put into it are on the disk after \<open>bwrite\<close>, and are seen by every reader after \<open>brelse\<close>.
\<close>

theorem bread_bwrite_brelse:
  assumes "cache_inv p H pins s" "n \<notin> (\<lambda>b. b_blockno (bufs s b)) ` H"
    "n \<in> pins \<or> finite pins \<and> card H + card pins < NBUF" "length d = BSIZE"
  shows "\<exists>b t. bread ROOTDEV n s = Ok b t \<and> cache_inv p (insert b H) pins t \<and> b \<notin> H \<and>
    b_blockno (bufs t b) = n \<and> b_data (bufs t b) = view s n \<and> view t = view s \<and> disk t = disk s \<and>
    (\<exists>u. bwrite b (put_data b d t) = Ok () u \<and> disk u = (disk s)(n := d) \<and>
      (\<exists>v. brelse b u = Ok () v \<and> cache_inv p H pins v \<and> view v = (view s)(n := d) \<and> disk v = (disk s)(n := d)))"
proof -
  obtain b t where t: "bread ROOTDEV n s = Ok b t" "b \<notin> H" "cache_inv p (insert b H) pins t" "bc_blk t b = n"
      "bc_vis t = bc_vis s"
    using bc.rd [OF assms(1,2)] assms(3) by (auto simp: bc_room_def)
  let ?t = "put_data b d t"
  have p: "cache_inv p (insert b H) pins ?t" "bc_vis ?t = ((view t)(n := d), disk t, dwrites t, bc_rest t)" "bc_blk ?t b = n"
    using bc.put [OF t(3) _ assms(4), of b "view t" "disk t"] t(4) by (auto simp: bc_vis_def dest: fun_cong)
  have d: "bc_dat ?t b = d" by (simp add: put_data_def)
  obtain u where u: "bwrite b ?t = Ok () u" "cache_inv p (insert b H) pins u" "bc_blk u = bc_blk ?t"
      "bc_vis u = ((view t)(n := d), (disk t)(n := d), dwrites t @ [(n, d)], bc_rest t)"
    using bc.wr [OF p(1) insertI1 p(2)] p(3) d by auto
  have "bc_blk u b = n" using u(3) p(3) by (auto dest: fun_cong)
  then obtain v where "brelse b u = Ok () v" "cache_inv p H pins v" "bc_vis v = bc_vis u"
    using bc.rel [OF u(2) _ u(4), of b] t(2) by (auto simp: insert_Diff_if)
  then show ?thesis
    using t u view_held [OF t(3), of b]
    by (intro exI [of _ b] exI [of _ t] conjI exI [of _ u] exI [of _ v]) (auto simp: bc_vis_def)
qed

text \<open>A freshly initialised cache over a disk of zeroes.\<close>

definition sample_boot :: "'z \<Rightarrow> 'z buf_state_scheme" where
  "sample_boot z = sample_sleeping
     \<lparr>bufs = (\<lambda>_. \<lparr>b_valid = False, b_disk = False, b_dev = 0, b_blockno = 0, b_refcnt = 0, b_prev = 0, b_next = 0,
        b_data = replicate BSIZE 0\<rparr>), disk = (\<lambda>_. replicate BSIZE 0), dwrites = [], \<dots> = z\<rparr>"

lemma sample_boot_facts:
  "running 0 (sample_boot z)" "disk (sample_boot z) = (\<lambda>_. replicate BSIZE 0)"
  "\<not> b_valid (bufs (sample_boot z) i)" "b_dev (bufs (sample_boot z) i) = 0" "b_refcnt (bufs (sample_boot z) i) = 0"
  by (auto simp: running_def lk_free_def quiet_def blank_proc_def sample_boot_def sample_sleeping_def sample_user_def
      sample_procs_def sample_phys_def)

definition sample_bufs :: "'z \<Rightarrow> 'z buf_state_scheme" where
  "sample_bufs z = binit (sample_boot z)"

lemma sample_bufs_inv:
  "cache_inv 0 {} {} (sample_bufs z)" "disk (sample_bufs z) = (\<lambda>_. replicate BSIZE 0)"
  "i < NBUF \<Longrightarrow> \<not> b_valid (bufs (sample_bufs z) i)"
  using binit_inv(1,2,5) [of 0 "sample_boot z"] by (simp_all add: sample_bufs_def sample_boot_facts ROOTDEV_def)

theorem bread_bwrite_brelse_witness:
  "\<exists>b t. bread ROOTDEV 7 (sample_bufs ()) = Ok b t \<and> (\<exists>u. bwrite b (put_data b (replicate BSIZE 1) t) = Ok () u)"
  using bread_bwrite_brelse [OF sample_bufs_inv(1) [of "()"], where n = 7 and d = "replicate BSIZE 1"] by (auto simp: NBUF_def MAXOPBLOCKS_def)

end
