(* ===== verification/Fsdefs.thy ===== *)
theory Fsdefs
  imports Bcache
begin

section \<open>The format of the file system on disk (fs.h, stat.h)\<close>

text \<open>
  The constants and structures of the on-disk format, and how they are laid out in the bytes of a
  block: little-endian integers at fixed offsets.  A C \<open>short\<close> is kept as its 16 bits.
\<close>

definition ROOTINO :: uint32 where "ROOTINO = 1"
definition FSMAGIC :: uint32 where "FSMAGIC = 0x10203040"
definition NDIRECT :: nat where "NDIRECT = 12"
definition NINDIRECT :: nat where "NINDIRECT = BSIZE div 4"
definition MAXFILE :: nat where "MAXFILE = NDIRECT + NINDIRECT"
definition DIRSIZ :: nat where "DIRSIZ = 14"

definition T_DIR :: uint16 where "T_DIR = 1"
definition T_FILE :: uint16 where "T_FILE = 2"
definition T_DEVICE :: uint16 where "T_DEVICE = 3"

lemmas fs_consts = ROOTINO_def FSMAGIC_def NDIRECT_def NINDIRECT_def MAXFILE_def DIRSIZ_def T_DIR_def T_FILE_def
  T_DEVICE_def BSIZE_def

text \<open>The modes of \<open>open\<close> (fcntl.h).\<close>

datatype open_flag = O_RDONLY | O_WRONLY | O_RDWR | O_CREATE | O_TRUNC

primrec omode_bits :: "open_flag \<Rightarrow> int" where
  "omode_bits O_RDONLY = 0x000"
| "omode_bits O_WRONLY = 0x001"
| "omode_bits O_RDWR = 0x002"
| "omode_bits O_CREATE = 0x200"
| "omode_bits O_TRUNC = 0x400"

declare omode_bits.simps [simp del]

record superblock =
  sb_magic :: uint32
  sb_size :: uint32
  sb_nblocks :: uint32
  sb_ninodes :: uint32
  sb_nlog :: uint32
  sb_logstart :: uint32
  sb_inodestart :: uint32
  sb_bmapstart :: uint32

record dinode =
  di_type :: uint16
  di_major :: uint16
  di_minor :: uint16
  di_nlink :: uint16
  di_size :: uint32
  di_addrs :: "uint32 list"

record dirent =
  de_inum :: uint16
  de_name :: "byte list"

definition sizeof_dinode :: nat where "sizeof_dinode = 64"
definition sizeof_dirent :: nat where "sizeof_dirent = 16"
definition sizeof_superblock :: nat where "sizeof_superblock = 32"

definition IPB :: nat where "IPB = BSIZE div sizeof_dinode"
definition BPB :: nat where "BPB = BSIZE * 8"

definition IBLOCK :: "uint32 \<Rightarrow> superblock \<Rightarrow> uint32" where
  "IBLOCK i sb = i div of_nat IPB + sb_inodestart sb"

definition BBLOCK :: "uint32 \<Rightarrow> superblock \<Rightarrow> uint32" where
  "BBLOCK b sb = b div of_nat BPB + sb_bmapstart sb"

lemmas fs_sizes = sizeof_dinode_def sizeof_dirent_def sizeof_superblock_def IPB_def BPB_def BSIZE_def

subsection \<open>Integers in a block\<close>

definition put_at :: "byte list \<Rightarrow> nat \<Rightarrow> byte list \<Rightarrow> byte list" where
  "put_at d off bs = take off d @ bs @ drop (off + length bs) d"

definition get32 :: "byte list \<Rightarrow> nat \<Rightarrow> uint32" where
  "get32 d off = word32 (drop off d)"

definition put32 :: "byte list \<Rightarrow> nat \<Rightarrow> uint32 \<Rightarrow> byte list" where
  "put32 d off x = put_at d off (bytes32 x)"

definition bytes16 :: "uint16 \<Rightarrow> byte list" where
  "bytes16 x = [ucast x, ucast (drop_bit 8 x)]"

definition word16 :: "byte list \<Rightarrow> uint16" where
  "word16 bs = ucast (bs ! 0) OR push_bit 8 (ucast (bs ! 1))"

lemma length_put_at [simp]: "off + length bs \<le> length d \<Longrightarrow> length (put_at d off bs) = length d"
  by (simp add: put_at_def)

lemma length_put32 [simp]: "off + 4 \<le> length d \<Longrightarrow> length (put32 d off x) = length d"
  by (simp add: put32_def)

lemma length_bytes16 [simp]: "length (bytes16 x) = 2"
  by (simp add: bytes16_def)

lemma word16_bytes16 [simp]: "word16 (bytes16 x @ bs) = x"
proof (rule bit_word_eqI)
  fix n :: nat assume "n < LENGTH(16)"
  then have n: "n < 8 \<or> 8 \<le> n \<and> n < 16" by simp linarith
  have b: "bit (ucast (ucast (drop_bit k x) :: byte) :: uint16) i \<longleftrightarrow> i < 8 \<and> bit x (k + i)" for k i
    by (cases "k + i < 16") (auto simp: bit_simps dest: bit_imp_le_length)
  from n show "bit (word16 (bytes16 x @ bs)) n = bit x n"
    using b [of 0] b [of 8]
    by (elim disjE conjE) (simp_all add: word16_def bytes16_def bit_or_iff bit_push_bit_iff possible_bit_word less_diff_conv2)
qed

lemma drop_put_at: "off \<le> length d \<Longrightarrow> drop off (put_at d off bs) = bs @ drop (off + length bs) d"
  by (simp add: put_at_def)

lemma put_at_other:
  assumes "a + n \<le> off \<or> off + length bs \<le> a" "off + length bs \<le> length d"
  shows "take n (drop a (put_at d off bs)) = take n (drop a d)"
proof (rule nth_equalityI)
  show "length (take n (drop a (put_at d off bs))) = length (take n (drop a d))" using assms(2) by simp
  fix i assume i: "i < length (take n (drop a (put_at d off bs)))"
  then have "i < n" "a + i < length d" using assms(2) by auto
  then show "take n (drop a (put_at d off bs)) ! i = take n (drop a d) ! i"
    using assms by (auto simp: put_at_def nth_append)
qed

lemma word32_take: "4 \<le> length bs \<Longrightarrow> word32 bs = word32 (take 4 bs)"
  by (simp add: word32_def)

lemma get32_put32_same [simp]: "off \<le> length d \<Longrightarrow> get32 (put32 d off x) off = x"
  by (simp add: get32_def put32_def drop_put_at)

lemma get32_put32_other [simp]:
  assumes "a + 4 \<le> off \<or> off + 4 \<le> a" "off + 4 \<le> length d" "a + 4 \<le> length d"
  shows "get32 (put32 d off x) a = get32 d a"
  using put_at_other [of a 4 off "bytes32 x" d] assms
  by (simp add: get32_def put32_def word32_take [of "drop a (put_at d off (bytes32 x))"] word32_take [of "drop a d"])

subsection \<open>Structures in a block\<close>

definition bytes_superblock :: "byte list \<Rightarrow> superblock" where
  "bytes_superblock bs = \<lparr>sb_magic = get32 bs 0, sb_size = get32 bs 4, sb_nblocks = get32 bs 8, sb_ninodes = get32 bs 12,
     sb_nlog = get32 bs 16, sb_logstart = get32 bs 20, sb_inodestart = get32 bs 24, sb_bmapstart = get32 bs 28\<rparr>"

definition superblock_bytes :: "superblock \<Rightarrow> byte list" where
  "superblock_bytes sb = bytes32 (sb_magic sb) @ bytes32 (sb_size sb) @ bytes32 (sb_nblocks sb) @ bytes32 (sb_ninodes sb) @
     bytes32 (sb_nlog sb) @ bytes32 (sb_logstart sb) @ bytes32 (sb_inodestart sb) @ bytes32 (sb_bmapstart sb)"

definition dinode_bytes :: "dinode \<Rightarrow> byte list" where
  "dinode_bytes di = bytes16 (di_type di) @ bytes16 (di_major di) @ bytes16 (di_minor di) @ bytes16 (di_nlink di) @
     bytes32 (di_size di) @ concat (map bytes32 (di_addrs di))"

definition bytes_dinode :: "byte list \<Rightarrow> dinode" where
  "bytes_dinode bs = \<lparr>di_type = word16 bs, di_major = word16 (drop 2 bs), di_minor = word16 (drop 4 bs),
     di_nlink = word16 (drop 6 bs), di_size = get32 bs 8, di_addrs = map (\<lambda>i. get32 bs (12 + 4 * i)) [0..<NDIRECT + 1]\<rparr>"

definition dirent_bytes :: "dirent \<Rightarrow> byte list" where
  "dirent_bytes de = bytes16 (de_inum de) @ de_name de"

definition bytes_dirent :: "byte list \<Rightarrow> dirent" where
  "bytes_dirent bs = \<lparr>de_inum = word16 bs, de_name = take DIRSIZ (drop 2 bs)\<rparr>"

text \<open>Slot \<open>k\<close> of an inode block.\<close>

definition get_dinode :: "byte list \<Rightarrow> nat \<Rightarrow> dinode" where
  "get_dinode d k = bytes_dinode (take sizeof_dinode (drop (k * sizeof_dinode) d))"

definition put_dinode :: "byte list \<Rightarrow> nat \<Rightarrow> dinode \<Rightarrow> byte list" where
  "put_dinode d k di = put_at d (k * sizeof_dinode) (dinode_bytes di)"

definition dinode_wf :: "dinode \<Rightarrow> bool" where
  "dinode_wf di \<longleftrightarrow> length (di_addrs di) = NDIRECT + 1"

lemma length_concat_bytes32 [simp]: "length (concat (map bytes32 xs)) = 4 * length xs"
  by (induction xs) auto

lemma length_dinode_bytes: "dinode_wf di \<Longrightarrow> length (dinode_bytes di) = sizeof_dinode"
  by (simp add: dinode_bytes_def dinode_wf_def sizeof_dinode_def NDIRECT_def)

lemma drop_concat_bytes32: "i \<le> length xs \<Longrightarrow> drop (4 * i) (concat (map bytes32 xs)) = concat (map bytes32 (drop i xs))"
proof (induction xs arbitrary: i)
  case (Cons x xs)
  then show ?case by (cases i) auto
qed simp

lemma word32_bytes32_end [simp]: "word32 (bytes32 x) = x"
  using word32_bytes32 [of x "[]"] by simp

lemma bytes_dinode_bytes:
  assumes "dinode_wf di"
  shows "bytes_dinode (dinode_bytes di) = di"
proof -
  let ?t = "concat (map bytes32 (di_addrs di))"
  have d: "drop 2 (dinode_bytes di) = bytes16 (di_major di) @ bytes16 (di_minor di) @ bytes16 (di_nlink di) @ bytes32 (di_size di) @ ?t"
    "drop 4 (dinode_bytes di) = bytes16 (di_minor di) @ bytes16 (di_nlink di) @ bytes32 (di_size di) @ ?t"
    "drop 6 (dinode_bytes di) = bytes16 (di_nlink di) @ bytes32 (di_size di) @ ?t"
    "drop 8 (dinode_bytes di) = bytes32 (di_size di) @ ?t" "drop (12 + k) (dinode_bytes di) = drop k ?t" for k
    by (simp_all add: dinode_bytes_def)
  have "map (\<lambda>i. get32 (dinode_bytes di) (12 + 4 * i)) [0..<NDIRECT + 1] = di_addrs di"
  proof (rule nth_equalityI)
    fix i assume "i < length (map (\<lambda>i. get32 (dinode_bytes di) (12 + 4 * i)) [0..<NDIRECT + 1])"
    then have i: "i < NDIRECT + 1" by simp
    then have "drop i (di_addrs di) = di_addrs di ! i # drop (Suc i) (di_addrs di)"
      using assms by (intro Cons_nth_drop_Suc [symmetric]) (simp add: dinode_wf_def)
    then have "get32 (dinode_bytes di) (12 + 4 * i) = di_addrs di ! i"
      using i assms by (simp add: get32_def d drop_concat_bytes32 dinode_wf_def)
    then show "map (\<lambda>i. get32 (dinode_bytes di) (12 + 4 * i)) [0..<NDIRECT + 1] ! i = di_addrs di ! i" using i by (simp del: upt_Suc)
  qed (use assms in \<open>simp add: dinode_wf_def\<close>)
  moreover have "word16 (dinode_bytes di) = di_type di" by (simp add: dinode_bytes_def)
  ultimately show ?thesis by (simp add: bytes_dinode_def get32_def d del: upt_Suc)
qed

lemma length_put_dinode:
  "dinode_wf di \<Longrightarrow> length d = BSIZE \<Longrightarrow> k < IPB \<Longrightarrow> length (put_dinode d k di) = BSIZE"
  by (simp add: put_dinode_def length_dinode_bytes fs_sizes)

lemma get_put_dinode:
  assumes "dinode_wf di" "length d = BSIZE" "k < IPB" "j < IPB"
  shows "get_dinode (put_dinode d k di) j = (if j = k then di else get_dinode d j) \<and>
    length (put_dinode d k di) = BSIZE"
proof (cases "j = k")
  case True
  have "take sizeof_dinode (drop (k * sizeof_dinode) (put_dinode d k di)) = dinode_bytes di"
    using assms length_dinode_bytes [OF assms(1)]
    by (simp add: put_dinode_def drop_put_at fs_sizes)
  then show ?thesis
    using True assms by (simp add: get_dinode_def bytes_dinode_bytes length_put_dinode)
next
  case False
  have "j * sizeof_dinode + sizeof_dinode \<le> k * sizeof_dinode \<or> k * sizeof_dinode + sizeof_dinode \<le> j * sizeof_dinode"
    using False by (simp add: sizeof_dinode_def) linarith
  moreover have "k * sizeof_dinode + sizeof_dinode \<le> length d" using assms(2,3) by (simp add: fs_sizes)
  ultimately have "take sizeof_dinode (drop (j * sizeof_dinode) (put_dinode d k di)) = take sizeof_dinode (drop (j * sizeof_dinode) d)"
    using length_dinode_bytes [OF assms(1)] unfolding put_dinode_def by (intro put_at_other) simp_all
  then show ?thesis using False assms by (simp add: get_dinode_def length_put_dinode)
qed


definition sample_dinode :: dinode where
  "sample_dinode = \<lparr>di_type = T_FILE, di_major = 0, di_minor = 0, di_nlink = 1, di_size = 5, di_addrs = replicate 13 46\<rparr>"


lemma bytes_dirent_bytes:
  "length (de_name de) = DIRSIZ \<Longrightarrow> bytes_dirent (dirent_bytes de) = de"
  by (simp add: bytes_dirent_def dirent_bytes_def)

lemma bytes_superblock_bytes: "bytes_superblock (superblock_bytes sb @ bs) = sb"
  by (simp add: bytes_superblock_def superblock_bytes_def get32_def)

end
