(* ===== verification/Log.thy ===== *)
theory Log
  imports Fsdefs
begin

section \<open>The log (log.c)\<close>

text \<open>
  The write-ahead log of the file system.  \<open>start\<close>, \<open>dev\<close> and the block numbers of the header are
  C \<open>int\<close>s that are only added to and used as block numbers, and are kept as their 32 bits.  The array
  \<open>lh_block\<close> is a function; indices from \<open>LOGBLOCKS\<close> on stand for the memory behind the array.

  A buffer's data are exactly \<open>BSIZE\<close> bytes, so a \<open>memmove\<close> of \<open>BSIZE\<close> bytes between two buffers
  replaces the data.  No process but the committing one changes the log header during a commit, so
  the loops run to the \<open>lh.n\<close> they find.
\<close>

record log_state = buf_state +
  log_start :: uint32
  log_outstanding :: int
  log_committing :: int
  log_dev :: uint32
  lh_n :: int
  lh_block :: "nat \<Rightarrow> uint32"

definition install_trans :: "bool \<Rightarrow> 'a log_state_scheme \<Rightarrow> (unit, 'a log_state_scheme) outcome" where
  "install_trans recovering s =
     andthen (forK [0..<nat (lh_n s)] (\<lambda>tail s.
       andthen (if recovering
                then printf (''recovering tail %d dst %d'' @ [CHR 0x0A]) [Arg (of_nat tail), Arg (ucast (lh_block s tail))] s
                else Ok () s) (\<lambda>_ s.
       andthen (bread (log_dev s) (log_start s + of_nat tail + 1) s) (\<lambda>lbuf s.
       andthen (bread (log_dev s) (lh_block s tail) s) (\<lambda>dbuf s.
       andthen (bwrite dbuf (put_data dbuf (b_data (bufs s lbuf)) s)) (\<lambda>_ s.
       andthen (if \<not> recovering then bunpin dbuf s else Ok () s) (\<lambda>_ s.
       andthen (brelse lbuf s) (\<lambda>_ s.
       andthen (brelse dbuf s) (\<lambda>_ s. Ok (None :: unit option) s)))))))) s) (\<lambda>_ s. Ok () s)"

definition read_head :: "'a log_state_scheme \<Rightarrow> (unit, 'a log_state_scheme) outcome" where
  "read_head s =
     andthen (bread (log_dev s) (log_start s) s) (\<lambda>buf s.
     let d = b_data (bufs s buf);
         s = s\<lparr>lh_n := sint (get32 d 0)\<rparr>;
         s = s\<lparr>lh_block := fold (\<lambda>i B. B(i := get32 d (4 + 4 * i))) [0..<nat (lh_n s)] (lh_block s)\<rparr>
     in brelse buf s)"

definition head_bytes :: "int \<Rightarrow> (nat \<Rightarrow> uint32) \<Rightarrow> byte list \<Rightarrow> byte list" where
  "head_bytes n B d = fold (\<lambda>i d. put32 d (4 + 4 * i) (B i)) [0..<nat n] (put32 d 0 (word_of_int n))"

definition write_head :: "'a log_state_scheme \<Rightarrow> (unit, 'a log_state_scheme) outcome" where
  "write_head s =
     andthen (bread (log_dev s) (log_start s) s) (\<lambda>buf s.
     andthen (bwrite buf (put_data buf (head_bytes (lh_n s) (lh_block s) (b_data (bufs s buf))) s)) (\<lambda>_ s.
     brelse buf s))"

definition recover_from_log :: "'a log_state_scheme \<Rightarrow> (unit, 'a log_state_scheme) outcome" where
  "recover_from_log s =
     andthen (read_head s) (\<lambda>_ s.
     andthen (install_trans True s) (\<lambda>_ s.
     write_head (s\<lparr>lh_n := 0\<rparr>)))"

definition sizeof_logheader :: nat where "sizeof_logheader = 4 * (LOGBLOCKS + 1)"

definition initlog :: "uint32 \<Rightarrow> superblock \<Rightarrow> 'a log_state_scheme \<Rightarrow> (unit, 'a log_state_scheme) outcome" where
  "initlog dev sb s =
     (if sizeof_logheader \<ge> BSIZE then Panic ''initlog: too big logheader''
      else recover_from_log ((initlock L_log ''log'' s)\<lparr>log_start := sb_logstart sb, log_dev := dev\<rparr>))"

definition begin_op_loop :: "'a log_state_scheme \<Rightarrow> (unit, 'a log_state_scheme) outcome" where
  "begin_op_loop s =
     (if log_committing s \<noteq> 0 then sleep (Some Ch_log) L_log s
      else if lh_n s + (log_outstanding s + 1) * int MAXOPBLOCKS > int LOGBLOCKS then sleep (Some Ch_log) L_log s
      else release L_log (s\<lparr>log_outstanding := log_outstanding s + 1\<rparr>))"

definition begin_op :: "'a log_state_scheme \<Rightarrow> (unit, 'a log_state_scheme) outcome" where
  "begin_op s = andthen (acquire L_log s) (\<lambda>_ s. begin_op_loop s)"

definition begin_op_resume :: "nat \<Rightarrow> bool \<Rightarrow> 'a log_state_scheme \<Rightarrow> (unit, 'a log_state_scheme) outcome" where
  "begin_op_resume p intena0 s = andthen (sleep_resume p intena0 L_log s) (\<lambda>_ s. begin_op_loop s)"

definition write_log :: "'a log_state_scheme \<Rightarrow> (unit, 'a log_state_scheme) outcome" where
  "write_log s =
     andthen (forK [0..<nat (lh_n s)] (\<lambda>tail s.
       andthen (bread (log_dev s) (log_start s + of_nat tail + 1) s) (\<lambda>to s.
       andthen (bread (log_dev s) (lh_block s tail) s) (\<lambda>from s.
       andthen (bwrite to (put_data to (b_data (bufs s from)) s)) (\<lambda>_ s.
       andthen (brelse from s) (\<lambda>_ s.
       andthen (brelse to s) (\<lambda>_ s. Ok (None :: unit option) s)))))) s) (\<lambda>_ s. Ok () s)"

definition commit :: "'a log_state_scheme \<Rightarrow> (unit, 'a log_state_scheme) outcome" where
  "commit s =
     (if lh_n s > 0 then
        andthen (write_log s) (\<lambda>_ s.
        andthen (write_head s) (\<lambda>_ s.
        andthen (install_trans False s) (\<lambda>_ s.
        write_head (s\<lparr>lh_n := 0\<rparr>))))
      else Ok () s)"

definition end_op :: "'a log_state_scheme \<Rightarrow> (unit, 'a log_state_scheme) outcome" where
  "end_op s =
     andthen (acquire L_log s) (\<lambda>_ s.
     let s = s\<lparr>log_outstanding := log_outstanding s - 1\<rparr> in
     if log_committing s \<noteq> 0 then Panic ''log.committing''
     else if log_outstanding s = 0
     then andthen (release L_log (s\<lparr>log_committing := 1\<rparr>)) (\<lambda>_ s.
          andthen (commit s) (\<lambda>_ s.
          andthen (acquire L_log s) (\<lambda>_ s.
          andthen (wakeup (Some Ch_log) (s\<lparr>log_committing := 0\<rparr>)) (\<lambda>_ s.
          release L_log s))))
     else andthen (wakeup (Some Ch_log) s) (\<lambda>_ s. release L_log s))"

definition log_write :: "nat \<Rightarrow> 'a log_state_scheme \<Rightarrow> (unit, 'a log_state_scheme) outcome" where
  "log_write b s =
     andthen (acquire L_log s) (\<lambda>_ s.
     if lh_n s \<ge> int LOGBLOCKS then Panic ''too big a transaction''
     else if log_outstanding s < 1 then Panic ''log_write outside of trans''
     else let i = (case find (\<lambda>i. lh_block s i = b_blockno (bufs s b)) [0..<nat (lh_n s)] of
                     Some i \<Rightarrow> i | None \<Rightarrow> nat (lh_n s));
              s = s\<lparr>lh_block := (lh_block s)(i := b_blockno (bufs s b))\<rparr>
          in andthen (if int i = lh_n s then andthen (bpin b s) (\<lambda>_ s. Ok () (s\<lparr>lh_n := lh_n s + 1\<rparr>)) else Ok () s) (\<lambda>_ s.
             release L_log s))"

subsection \<open>The header block\<close>

lemma sizeof_logheader_small: "sizeof_logheader < BSIZE"
  by (simp add: sizeof_logheader_def LOGBLOCKS_def MAXOPBLOCKS_def BSIZE_def)

lemma length_head_bytes:
  assumes "length d = BSIZE" "n \<le> int LOGBLOCKS"
  shows "length (head_bytes n B d) = BSIZE"
proof -
  have "length (fold (\<lambda>i d. put32 d (4 + 4 * i) (B i)) [0..<j] d) = BSIZE" if "j \<le> LOGBLOCKS" "length d = BSIZE" for j d
    using that by (induction j) (auto simp: LOGBLOCKS_def MAXOPBLOCKS_def BSIZE_def)
  then show ?thesis using assms by (simp add: head_bytes_def BSIZE_def)
qed

lemma get32_head_bytes:
  assumes "length d = BSIZE" "0 \<le> n" "n \<le> int LOGBLOCKS"
  shows "get32 (head_bytes n B d) 0 = word_of_int n" "i < nat n \<Longrightarrow> get32 (head_bytes n B d) (4 + 4 * i) = B i"
proof -
  let ?d = "put32 d 0 (word_of_int n)" and ?f = "\<lambda>i d. put32 d (4 + 4 * i) (B i)"
  have "length (fold ?f [0..<j] ?d) = BSIZE \<and> get32 (fold ?f [0..<j] ?d) 0 = word_of_int n \<and>
      (\<forall>i < j. get32 (fold ?f [0..<j] ?d) (4 + 4 * i) = B i)" if "j \<le> LOGBLOCKS" for j
    using that
  proof (induction j)
    case (Suc j)
    then have j: "4 + 4 * j + 4 \<le> BSIZE" by (simp add: LOGBLOCKS_def MAXOPBLOCKS_def BSIZE_def)
    let ?e = "fold ?f [0..<j] ?d"
    have e: "length ?e = BSIZE" "get32 ?e 0 = word_of_int n" "\<And>i. i < j \<Longrightarrow> get32 ?e (4 + 4 * i) = B i"
      using Suc by auto
    have "get32 (put32 ?e (4 + 4 * j) (B j)) (4 + 4 * i) = B i" if "i < Suc j" for i
    proof (cases "i = j")
      case True
      then show ?thesis using e(1) j by simp
    next
      case False
      then show ?thesis using e j that by (subst get32_put32_other) auto
    qed
    moreover have "get32 (put32 ?e (4 + 4 * j) (B j)) 0 = word_of_int n" using e j by (subst get32_put32_other) auto
    ultimately show ?case using e(1) j by simp
  qed (use assms(1) in \<open>auto simp: BSIZE_def\<close>)
  from this [of "nat n"] show "get32 (head_bytes n B d) 0 = word_of_int n"
    "i < nat n \<Longrightarrow> get32 (head_bytes n B d) (4 + 4 * i) = B i"
    using assms(2,3) by (auto simp: head_bytes_def)
qed

lemma fold_upd: "fold (\<lambda>i B. B(i := f i)) [0..<n] B = (\<lambda>i. if i < n then f i else B i)"
  by (induction n) (auto simp: fun_eq_iff)

end
