(* ===== verification/Commit.thy ===== *)
theory Commit
  imports Log
begin

section \<open>Commit and recovery (log.c)\<close>

text \<open>
  What a commit and a recovery do to the disk, and that a crash at any moment of a commit, followed by
  recovery, leaves either all or none of the transaction on the disk.
\<close>

subsection \<open>Sequences of writes\<close>

definition apply_writes :: "('n \<Rightarrow> 'd) \<Rightarrow> ('n \<times> 'd) list \<Rightarrow> 'n \<Rightarrow> 'd" where
  "apply_writes D ws = fold (\<lambda>(n, d) D. D(n := d)) ws D"

lemma apply_writes_simps [simp]:
  "apply_writes D [] = D" "apply_writes D ((n, d) # ws) = apply_writes (D(n := d)) ws" "apply_writes D (ws @ [(n, d)]) = (apply_writes D ws)(n := d)"
  by (simp_all add: apply_writes_def)

lemma apply_writes_append: "apply_writes D (ws @ ws') = apply_writes (apply_writes D ws) ws'"
  by (simp add: apply_writes_def)

lemma apply_writes_other: "n \<notin> fst ` set ws \<Longrightarrow> apply_writes D ws n = D n"
  by (induction ws rule: rev_induct) auto

lemma apply_writes_nth:
  assumes "inj_on k {..<j}" "i < j"
  shows "apply_writes D (map (\<lambda>i. (k i, v i)) [0..<j]) (k i) = v i"
  using assms
proof (induction j)
  case (Suc j)
  then have "inj_on k {..<j}" by (auto intro: inj_on_subset)
  moreover have "k i = k j \<Longrightarrow> i = j" using Suc.prems by (auto dest: inj_onD)
  ultimately show ?case using Suc by (auto simp: less_Suc_eq)
qed simp

subsection \<open>The log area\<close>

definition logblk :: "uint32 \<Rightarrow> nat \<Rightarrow> uint32" where
  "logblk start i = start + of_nat i + 1"

definition home :: "uint32 \<Rightarrow> uint32 \<Rightarrow> bool" where
  "home start n \<longleftrightarrow> n \<noteq> start \<and> (\<forall>i < LOGBLOCKS. n \<noteq> logblk start i)"

lemma of_nat_32_inj: "i < 2 ^ 32 \<Longrightarrow> j < 2 ^ 32 \<Longrightarrow> (of_nat i :: uint32) = of_nat j \<Longrightarrow> i = j"
  using unat_of_nat_32 by metis

lemma logblk_inj: "inj_on (logblk start) {..<LOGBLOCKS}"
proof (rule inj_onI)
  fix i j assume "i \<in> {..<LOGBLOCKS}" "j \<in> {..<LOGBLOCKS}" "logblk start i = logblk start j"
  then show "i = j" using of_nat_32_inj [of i j] by (simp add: logblk_def LOGBLOCKS_def MAXOPBLOCKS_def)
qed

lemma logblk_start: "i < LOGBLOCKS \<Longrightarrow> logblk start i \<noteq> start"
proof
  assume i: "i < LOGBLOCKS" and "logblk start i = start"
  then have "of_nat (Suc i) = (of_nat 0 :: uint32)" by (simp add: logblk_def add.assoc add.commute)
  then have "Suc i = 0" using i by (intro of_nat_32_inj) (simp_all add: LOGBLOCKS_def MAXOPBLOCKS_def)
  then show False by simp
qed

lemma home_logblk: "home start n \<Longrightarrow> i < LOGBLOCKS \<Longrightarrow> n \<noteq> logblk start i"
  by (simp add: home_def)

lemma rest_log:
  assumes "bc_rest t = bc_rest (s :: 'a log_state_scheme)"
  shows "log_dev t = log_dev s" "log_start t = log_start s" "lh_n t = lh_n s" "lh_block t = lh_block s"
    "uart_idle t = uart_idle s" "log_outstanding t = log_outstanding s" "log_committing t = log_committing s"
proof -
  have f: "log_dev (bc_rest u) = log_dev u" "log_start (bc_rest u) = log_start u" "lh_n (bc_rest u) = lh_n u"
    "lh_block (bc_rest u) = lh_block u" "uart_idle (bc_rest u) = uart_idle u"
    "log_outstanding (bc_rest u) = log_outstanding u" "log_committing (bc_rest u) = log_committing u"
    for u :: "'a log_state_scheme"
    by (simp_all add: bc_rest_def uart_idle_def)
  show "log_dev t = log_dev s" "log_start t = log_start s" "lh_n t = lh_n s" "lh_block t = lh_block s"
    "uart_idle t = uart_idle s" "log_outstanding t = log_outstanding s" "log_committing t = log_committing s"
    using f [of t] f [of s] assms by simp_all
qed

lemma vis_log:
  assumes "snd (snd (snd (bc_vis t))) = bc_rest (s :: 'a log_state_scheme)"
  shows "log_dev t = log_dev s" "log_start t = log_start s" "lh_n t = lh_n s" "lh_block t = lh_block s"
    "uart_idle t = uart_idle s"
  using rest_log [of t s] assms by (simp_all add: bc_vis_def)

subsection \<open>Writing the log\<close>

definition log_writes :: "(uint32 \<Rightarrow> byte list) \<Rightarrow> uint32 \<Rightarrow> (nat \<Rightarrow> uint32) \<Rightarrow> nat \<Rightarrow> (uint32 \<times> byte list) list" where
  "log_writes C start blk j = map (\<lambda>i. (logblk start i, C (blk i))) [0..<j]"

text \<open>The blocks of a transaction: distinct, outside the log area, not more than the log holds.\<close>

definition tx_ok :: "uint32 \<Rightarrow> nat \<Rightarrow> (nat \<Rightarrow> uint32) \<Rightarrow> bool" where
  "tx_ok start n blk \<longleftrightarrow> n \<le> LOGBLOCKS \<and> inj_on blk {..<n} \<and> (\<forall>i < n. home start (blk i))"

lemma log_writes_home:
  assumes "tx_ok start n blk" "j \<le> n" "home start m"
  shows "apply_writes D (log_writes C start blk j) m = D m"
proof (rule apply_writes_other)
  have "m \<noteq> logblk start i" if "i < j" for i using assms that by (intro home_logblk) (auto simp: tx_ok_def)
  then have "m \<notin> logblk start ` {..<j}" by blast
  then show "m \<notin> fst ` set (log_writes C start blk j)" by (auto simp: log_writes_def image_iff)
qed

lemma log_writes_log:
  assumes "tx_ok start n blk" "i < n"
  shows "apply_writes D (log_writes C start blk n) (logblk start i) = C (blk i)"
  unfolding log_writes_def
  using assms inj_on_subset [OF logblk_inj, of "{..<n}" start] by (intro apply_writes_nth) (auto simp: tx_ok_def)

lemma write_log_spec:
  fixes s :: "'a log_state_scheme"
  assumes inv: "cache_inv p {} (lh_block s ` {..<n}) s" and V: "bc_vis s = (C, D, W, bc_rest s)"
    and tx: "tx_ok (log_start s) n (lh_block s)" and n: "n < NBUF" "n = nat (lh_n s)" and dev: "log_dev s = ROOTDEV"
  shows "\<exists>t. write_log s = Ok () t \<and> cache_inv p {} (lh_block s ` {..<n}) t \<and>
    bc_vis t = (apply_writes C (log_writes C (log_start s) (lh_block s) n),
      apply_writes D (log_writes C (log_start s) (lh_block s) n), W @ log_writes C (log_start s) (lh_block s) n, bc_rest s)"
proof -
  let ?pins = "lh_block s ` {..<n}"
  let ?L = "log_writes C (log_start s) (lh_block s)"
  let ?body = "\<lambda>tail s. andthen (bread (log_dev s) (log_start s + of_nat tail + 1) s) (\<lambda>to s.
       andthen (bread (log_dev s) (lh_block s tail) s) (\<lambda>from s.
       andthen (bwrite to (put_data to (b_data (bufs s from)) s)) (\<lambda>_ s.
       andthen (brelse from s) (\<lambda>_ s.
       andthen (brelse to s) (\<lambda>_ s. Ok (None :: unit option) s)))))"
  have card: "finite ?pins" "card ?pins < NBUF"
    using n(1) card_image_le [of "{..<n}" "lh_block s"] by auto
  have "\<exists>t. forK [0..<j] ?body s = Ok None t \<and> cache_inv p {} ?pins t \<and>
      bc_vis t = (apply_writes C (?L j), apply_writes D (?L j), W @ ?L j, bc_rest s)" if "j \<le> n" for j
    using that
  proof (induction j)
    case 0
    then show ?case using inv V by (auto simp: log_writes_def)
  next
    case (Suc j)
    then obtain t where t: "forK [0..<j] ?body s = Ok None t" "cache_inv p {} ?pins t"
        "bc_vis t = (apply_writes C (?L j), apply_writes D (?L j), W @ ?L j, bc_rest s)" by auto
    let ?dst = "logblk (log_start s) j" and ?src = "lh_block s j"
    have "j < LOGBLOCKS" using Suc.prems tx by (simp add: tx_ok_def)
    then have dst: "?dst \<notin> ?pins" using tx by (fastforce simp: tx_ok_def home_def)
    have src: "?src \<in> ?pins" "home (log_start s) ?src" using Suc.prems tx by (auto simp: tx_ok_def)
    have c: "apply_writes C (?L j) ?src = C ?src" using Suc.prems src(2) by (intro log_writes_home [OF tx]) auto
    have L: "?L (Suc j) = ?L j @ [(?dst, C ?src)]" by (simp add: log_writes_def)
    have "\<exists>u. ?body j t = Ok None u \<and> cache_inv p {} ?pins u \<and>
      bc_vis u = (apply_writes C (?L (Suc j)), apply_writes D (?L (Suc j)), W @ ?L (Suc j), bc_rest s)"
    proof -
      have same: "log_dev u = ROOTDEV \<and> log_start u + of_nat j + 1 = ?dst \<and> lh_block u j = ?src"
        if "snd (snd (snd (bc_vis u))) = bc_rest s" for u
        using vis_log [OF that] dev by (simp add: logblk_def)
      have "\<exists>u. andthen (bread (log_dev t) (log_start t + of_nat j + 1) t) (\<lambda>to s. andthen (bread (log_dev s) (lh_block s j) s) (\<lambda>from s.
         andthen (bwrite to (put_data to (bc_dat s from) s)) (\<lambda>_ s. andthen (brelse from s) (\<lambda>_ s. brelse to s)))) = Ok () u \<and>
         cache_inv p {} ?pins u \<and> bc_vis u = ((apply_writes C (?L j))(?dst := apply_writes C (?L j) ?src),
           (apply_writes D (?L j))(?dst := apply_writes C (?L j) ?src), (W @ ?L j) @ [(?dst, apply_writes C (?L j) ?src)], bc_rest s)"
        by (rule bc.copy_out [OF t(2,3) dst src(1) _ _ same]) (use card src(1) in \<open>auto simp: bc_room_def\<close>)
      then show ?thesis unfolding c L by (auto simp: andthen_assoc [symmetric] simp del: andthen_Ok_right)
    qed
    then obtain u where "?body j t = Ok None u" "cache_inv p {} ?pins u"
        "bc_vis u = (apply_writes C (?L (Suc j)), apply_writes D (?L (Suc j)), W @ ?L (Suc j), bc_rest s)" by blast
    then show ?case using t(1) by (intro exI [of _ u]) (simp add: forK_append)
  qed
  from this [of n] show ?thesis using n(2) by (auto simp: write_log_def)
qed

subsection \<open>Installing the transaction\<close>

definition home_writes :: "(uint32 \<Rightarrow> byte list) \<Rightarrow> uint32 \<Rightarrow> (nat \<Rightarrow> uint32) \<Rightarrow> nat \<Rightarrow> (uint32 \<times> byte list) list" where
  "home_writes C start blk j = map (\<lambda>i. (blk i, C (logblk start i))) [0..<j]"

lemma home_writes_other:
  assumes "m \<notin> blk ` {..<j}"
  shows "apply_writes D (home_writes C start blk j) m = D m"
  using assms by (intro apply_writes_other) (auto simp: home_writes_def image_iff)

lemma home_writes_home:
  assumes "tx_ok start n blk" "i < n"
  shows "apply_writes D (home_writes C start blk n) (blk i) = C (logblk start i)"
  unfolding home_writes_def using assms by (intro apply_writes_nth) (auto simp: tx_ok_def)

lemma tx_logblk: "tx_ok start n blk \<Longrightarrow> i < LOGBLOCKS \<Longrightarrow> j \<le> n \<Longrightarrow> logblk start i \<notin> blk ` {..<j}"
  unfolding tx_ok_def home_def by (metis imageE lessThan_iff order_less_le_trans)

lemma bc_rest_uart: "bc_rest t = bc_rest s \<Longrightarrow> bc_rest (t\<lparr>uart_thr := x\<rparr>) = bc_rest (s\<lparr>uart_thr := x\<rparr>)"
proof -
  have "bc_rest (u\<lparr>uart_thr := x\<rparr>) = (bc_rest u)\<lparr>uart_thr := x\<rparr>" for u :: "'a buf_state_scheme"
    by (cases u) (simp add: bc_rest_def)
  then show "bc_rest t = bc_rest s \<Longrightarrow> bc_rest (t\<lparr>uart_thr := x\<rparr>) = bc_rest (s\<lparr>uart_thr := x\<rparr>)" by simp
qed

lemma cache_inv_uart [simp]: "cache_inv p H pins (t\<lparr>uart_thr := x\<rparr>) = cache_inv p H pins t"
  by (simp add: cache_inv_def running_def)

text \<open>The message of a recovery changes nothing but the output.\<close>

lemma recovery_message:
  fixes t s :: "'a log_state_scheme"
  assumes "cache_inv p {} pins t" "bc_vis t = (C, D, W, bc_rest (s\<lparr>uart_thr := o0\<rparr>))" "rec \<Longrightarrow> uart_idle s"
  shows "\<exists>u o1. (if rec then printf fmt ap t else Ok () t) = Ok () u \<and> cache_inv p {} pins u \<and>
    bc_vis u = (C, D, W, bc_rest (s\<lparr>uart_thr := o1\<rparr>))"
proof (cases rec)
  case True
  have r: "running p t" using assms(1) by (simp add: cache_inv_def)
  have b: "bc_rest t = bc_rest (s\<lparr>uart_thr := o0\<rparr>)" using assms(2) by (simp add: bc_vis_def)
  have "uart_idle t" using rest_log(5) [OF b] assms(3) True by simp
  then have p: "printf fmt ap t = Ok () (t\<lparr>uart_thr := uart_thr t @ printf_chars fmt ap\<rparr>)"
    using runningD [OF r] by (intro printf_eq) simp_all
  have "bc_rest (t\<lparr>uart_thr := x\<rparr>) = bc_rest (s\<lparr>uart_thr := x\<rparr>)" for x using bc_rest_uart [OF b, of x] by simp
  then show ?thesis using True p assms(1,2) by (auto simp: bc_vis_def)
qed (use assms in auto)

lemma install_trans_spec:
  fixes s :: "'a log_state_scheme"
  assumes inv: "cache_inv p {} (if rec then {} else lh_block s ` {..<n}) s" and V: "bc_vis s = (C, D, W, bc_rest s)"
    and tx: "tx_ok (log_start s) n (lh_block s)" and n: "\<not> rec \<Longrightarrow> n < NBUF" "n = nat (lh_n s)"
    and dev: "log_dev s = ROOTDEV" and idle: "rec \<Longrightarrow> uart_idle s"
  shows "\<exists>t x. install_trans rec s = Ok () t \<and> cache_inv p {} {} t \<and>
    bc_vis t = (apply_writes C (home_writes C (log_start s) (lh_block s) n),
      apply_writes D (home_writes C (log_start s) (lh_block s) n), W @ home_writes C (log_start s) (lh_block s) n,
      bc_rest (s\<lparr>uart_thr := x\<rparr>))"
proof -
  let ?pins = "\<lambda>j. if rec then {} else lh_block s ` {j..<n}"
  let ?L = "home_writes C (log_start s) (lh_block s)"
  let ?V = "\<lambda>j x. (apply_writes C (?L j), apply_writes D (?L j), W @ ?L j, bc_rest (s\<lparr>uart_thr := x\<rparr>))"
  let ?msg = "\<lambda>tail s. if rec then printf (''recovering tail %d dst %d'' @ [CHR 0x0A])
     [Arg (of_nat tail), Arg (ucast (lh_block s tail))] s else Ok () s"
  let ?body = "\<lambda>tail s. andthen (bread (log_dev s) (log_start s + of_nat tail + 1) s) (\<lambda>lbuf s.
       andthen (bread (log_dev s) (lh_block s tail) s) (\<lambda>dbuf s.
       andthen (bwrite dbuf (put_data dbuf (b_data (bufs s lbuf)) s)) (\<lambda>_ s.
       andthen (if \<not> rec then bunpin dbuf s else Ok () s) (\<lambda>_ s.
       andthen (brelse lbuf s) (\<lambda>_ s.
       andthen (brelse dbuf s) (\<lambda>_ s. Ok (None :: unit option) s))))))"
  let ?loop = "\<lambda>tail s. andthen (?msg tail s) (\<lambda>_ s. ?body tail s)"
  have card: "finite (?pins j)" "card (?pins j) < NBUF" for j
    using n(1) card_image_le [of "{j..<n}" "lh_block s"] by (auto simp: NBUF_def MAXOPBLOCKS_def)
  have "\<exists>t x. forK [0..<j] ?loop s = Ok None t \<and> cache_inv p {} (?pins j) t \<and> bc_vis t = ?V j x" if "j \<le> n" for j
    using that
  proof (induction j)
    case 0
    have "?pins 0 = (if rec then {} else lh_block s ` {..<n})" by (simp add: lessThan_atLeast0)
    moreover have "bc_rest (s\<lparr>uart_thr := uart_thr s\<rparr>) = bc_rest s" by simp
    ultimately show ?case using inv V by (intro exI [of _ s] exI [of _ "uart_thr s"]) (simp add: home_writes_def)
  next
    case (Suc j)
    then obtain t0 x0 where t0: "forK [0..<j] ?loop s = Ok None t0" "cache_inv p {} (?pins j) t0" "bc_vis t0 = ?V j x0" by auto
    obtain t x where m: "?msg j t0 = Ok () t" and t: "cache_inv p {} (?pins j) t" "bc_vis t = ?V j x"
      using recovery_message [OF t0(2,3) idle] by blast
    let ?src = "logblk (log_start s) j" and ?dst = "lh_block s j"
    have jl: "j < LOGBLOCKS" using Suc.prems tx by (simp add: tx_ok_def)
    have src: "?src \<notin> ?pins j" "?src \<noteq> ?dst" using tx_logblk [OF tx jl, of n] Suc.prems by auto
    have c: "apply_writes C (?L j) ?src = C ?src" using Suc.prems tx_logblk [OF tx jl, of j] by (intro home_writes_other) auto
    have L: "?L (Suc j) = ?L j @ [(?dst, C ?src)]" by (simp add: home_writes_def)
    have same: "log_dev u = ROOTDEV \<and> lh_block u j = ?dst \<and> log_start u + of_nat j + 1 = ?src"
      if "snd (snd (snd (bc_vis u))) = bc_rest (s\<lparr>uart_thr := x\<rparr>)" for u
      using vis_log [OF that] dev by (simp add: logblk_def)
    have room: "bc_room {} (?pins j) ?src" "bc_room {h} (?pins j) ?dst" for h
      using card [of j] Suc.prems by (auto simp: bc_room_def NBUF_def MAXOPBLOCKS_def)
    have pj: "lh_block s ` {j..<n} - {?dst} = lh_block s ` {Suc j..<n}"
    proof -
      have "{j..<n} = insert j {Suc j..<n}" using Suc.prems by auto
      moreover have "?dst \<notin> lh_block s ` {Suc j..<n}"
        using tx Suc.prems unfolding tx_ok_def by (auto dest: inj_onD [where x = j])
      ultimately show ?thesis by auto
    qed
    have un: "\<exists>v. (if \<not> rec then bunpin h u else Ok () u) = Ok () v \<and> cache_inv p H (?pins (Suc j)) v \<and>
        bc_vis v = bc_vis u \<and> bc_blk v = bc_blk u" if "cache_inv p H (?pins j) u" "h \<in> H" "bc_blk u h = ?dst" for H h u
    proof (cases rec)
      case False
      then have "bc_blk u h \<in> ?pins j" using that(3) Suc.prems by auto
      then show ?thesis using False bc.unpin [OF that(1,2)] pj that(3) by simp
    qed (use that in auto)
    have "\<exists>u. andthen (bread (log_dev t) (log_start t + of_nat j + 1) t) (\<lambda>from s. andthen (bread (log_dev s) (lh_block s j) s) (\<lambda>to s.
       andthen (bwrite to (put_data to (bc_dat s from) s)) (\<lambda>_ s. andthen (if \<not> rec then bunpin to s else Ok () s) (\<lambda>_ s.
       andthen (brelse from s) (\<lambda>_ s. brelse to s))))) = Ok () u \<and>
       cache_inv p {} (?pins (Suc j)) u \<and> bc_vis u = ((apply_writes C (?L j))(?dst := apply_writes C (?L j) ?src),
         (apply_writes D (?L j))(?dst := apply_writes C (?L j) ?src), (W @ ?L j) @ [(?dst, apply_writes C (?L j) ?src)],
         bc_rest (s\<lparr>uart_thr := x\<rparr>))"
      by (rule bc.copy_home [OF t src room same un]) auto
    then obtain u where "?body j t = Ok None u" "cache_inv p {} (?pins (Suc j)) u" "bc_vis u = ?V (Suc j) x"
      unfolding c L by (auto simp: andthen_assoc [symmetric] simp del: andthen_Ok_right)
    then show ?case using t0(1) m by (intro exI [of _ u] exI [of _ x]) (simp add: forK_append)
  qed
  from this [OF order_refl] obtain t x where "forK [0..<n] ?loop s = Ok None t" "cache_inv p {} (?pins n) t" "bc_vis t = ?V n x"
    by blast
  moreover have "?pins n = {}" by simp
  ultimately show ?thesis using n(2) by (intro exI [of _ t] exI [of _ x]) (simp add: install_trans_def)
qed

subsection \<open>The header\<close>

lemma vis_self: "bc_vis s = (C, D, W, R) \<Longrightarrow> bc_vis s = (C, D, W, bc_rest s)"
  by (auto simp: bc_vis_def)

lemma write_head_spec:
  fixes s :: "'a log_state_scheme"
  assumes inv: "cache_inv p {} pins s" and V: "bc_vis s = (C, D, W, R)" and pins: "finite pins" "card pins < NBUF"
    and dev: "log_dev s = ROOTDEV" and n: "lh_n s \<le> int LOGBLOCKS"
  shows "\<exists>t. write_head s = Ok () t \<and> cache_inv p {} pins t \<and>
    (let h = head_bytes (lh_n s) (lh_block s) (C (log_start s))
     in bc_vis t = (C(log_start s := h), D(log_start s := h), W @ [(log_start s, h)], R))"
proof -
  let ?h = "head_bytes (lh_n s) (lh_block s) (C (log_start s))"
  obtain b s1 where 1: "bread ROOTDEV (log_start s) s = Ok b s1" "cache_inv p {b} pins s1" "bc_blk s1 b = log_start s"
      "bc_vis s1 = bc_vis s"
    using bc.rd [OF inv, of "log_start s"] pins by (auto simp: bc_room_def)
  have r: "lh_n s1 = lh_n s" "lh_block s1 = lh_block s" using rest_log [of s1 s] 1(4) by (simp_all add: bc_vis_def)
  have V1: "bc_vis s1 = (C, D, W, R)" using 1(4) V by simp
  have d: "bc_dat s1 b = C (log_start s)" using bc.held [OF 1(2) V1, of b] 1(3) by simp
  have "length (C (log_start s)) = BSIZE" using bc.contents_ok [OF inv V] .
  then have h: "length ?h = BSIZE" using n by (intro length_head_bytes) auto
  let ?s1 = "put_data b ?h s1"
  have p: "cache_inv p {b} pins ?s1" "bc_vis ?s1 = (C(log_start s := ?h), D, W, R)" "bc_blk ?s1 b = log_start s"
    using bc.put [OF 1(2) insertI1 h V1] 1(3) by (simp_all add: put_data_def)
  have "bc_dat ?s1 b = ?h" by (simp add: put_data_def)
  then obtain s2 where 2: "bwrite b ?s1 = Ok () s2" "cache_inv p {b} pins s2" "bc_blk s2 = bc_blk ?s1"
      "bc_vis s2 = (C(log_start s := ?h), D(log_start s := ?h), W @ [(log_start s, ?h)], R)"
    using bc.wr [OF p(1) insertI1 p(2)] p(3) by auto
  have "bc_blk s2 b = log_start s" using fun_cong [OF 2(3), of b] p(3) by simp
  then obtain s3 where "brelse b s2 = Ok () s3" "cache_inv p {} pins s3" "bc_vis s3 = bc_vis s2"
    using bc.rel [OF 2(2) _ 2(4), of b] by auto
  then show ?thesis using 1(1) 2(1,4) d r dev by (intro exI [of _ s3]) (simp add: write_head_def)
qed

lemma cache_inv_log [simp]:
  "cache_inv p H pins (s\<lparr>lh_n := x\<rparr>) = cache_inv p H pins s" "cache_inv p H pins (s\<lparr>lh_block := y\<rparr>) = cache_inv p H pins s"
  "cache_inv p H pins (s\<lparr>log_outstanding := z\<rparr>) = cache_inv p H pins s"
  "cache_inv p H pins (s\<lparr>log_committing := z\<rparr>) = cache_inv p H pins s"
  by (simp_all add: cache_inv_def running_def)

lemma bc_vis_upd:
  "bc_vis s = (C, D, W, R) \<Longrightarrow> bc_vis (s\<lparr>lh_n := x\<rparr>) = (C, D, W, bc_rest (s\<lparr>lh_n := x\<rparr>))"
  "bc_vis s = (C, D, W, R) \<Longrightarrow> bc_vis (s\<lparr>lh_block := y\<rparr>) = (C, D, W, bc_rest (s\<lparr>lh_block := y\<rparr>))"
  by (auto simp: bc_vis_def)

lemma bc_rest_upds:
  "bc_rest (t\<lparr>lh_n := x\<rparr>) = (bc_rest t)\<lparr>lh_n := x\<rparr>" "bc_rest (t\<lparr>lh_block := y\<rparr>) = (bc_rest t)\<lparr>lh_block := y\<rparr>"
  "bc_rest (u\<lparr>uart_thr := z\<rparr>) = (bc_rest u)\<lparr>uart_thr := z\<rparr>"
  for t :: "'a log_state_scheme" and u :: "'b buf_state_scheme"
  by (cases t, simp add: bc_rest_def) (cases t, simp add: bc_rest_def, cases u, simp add: bc_rest_def)

lemma read_head_spec:
  fixes s :: "'a log_state_scheme"
  assumes inv: "cache_inv p {} {} s" and V: "bc_vis s = (C, D, W, bc_rest s)" and dev: "log_dev s = ROOTDEV"
    and n: "get32 (C (log_start s)) 0 = word_of_int n" "0 \<le> n" "n \<le> int LOGBLOCKS"
  shows "\<exists>t blk. read_head s = Ok () t \<and> cache_inv p {} {} t \<and>
    (\<forall>i < nat n. blk i = get32 (C (log_start s)) (4 + 4 * i)) \<and>
    bc_vis t = (C, D, W, bc_rest (s\<lparr>lh_n := n, lh_block := blk\<rparr>))"
proof -
  obtain b s1 where 1: "bread ROOTDEV (log_start s) s = Ok b s1" "cache_inv p {b} {} s1" "bc_blk s1 b = log_start s"
      "bc_vis s1 = (C, D, W, bc_rest s)"
    using bc.rd [OF inv, of "log_start s"] V by (auto simp: bc_room_def NBUF_def MAXOPBLOCKS_def)
  have r: "bc_rest s1 = bc_rest s" using 1(4) by (simp add: bc_vis_def)
  have d: "bc_dat s1 b = C (log_start s)" using bc.held [OF 1(2,4), of b] 1(3) by simp
  have clean: "C (log_start s) = D (log_start s)" using bc.contents_clean [OF inv V] by simp
  have sn: "sint (get32 (C (log_start s)) 0) = n"
    using n by (simp add: sint_word_of_int_32 LOGBLOCKS_def MAXOPBLOCKS_def)
  let ?blk = "\<lambda>i. if i < nat n then get32 (C (log_start s)) (4 + 4 * i) else lh_block s1 i"
  let ?s1 = "s1\<lparr>lh_n := n, lh_block := ?blk\<rparr>"
  have inv1: "cache_inv p {b} {} ?s1" using 1(2) by simp
  have V1: "bc_vis ?s1 = (C, D, W, bc_rest (s\<lparr>lh_n := n, lh_block := ?blk\<rparr>))"
    using 1(4) r by (auto simp: bc_vis_def bc_rest_upds)
  obtain s2 where "brelse b ?s1 = Ok () s2" "cache_inv p {} {} s2" "bc_vis s2 = bc_vis ?s1"
    using bc.rel [OF inv1 _ V1, of b] 1(3) clean by auto
  then show ?thesis
    using 1(1) d sn dev V1 by (intro exI [of _ s2] exI [of _ ?blk]) (simp add: read_head_def Let_def fold_upd cong: if_cong)
qed

subsection \<open>Commit\<close>

text \<open>
  The log between two steps of file-system operations, with the buffers \<open>H\<close> held: the blocks of the running transaction are
  pinned in the cache, and the header on disk holds no transaction.
\<close>

definition lh_pins :: "'a log_state_scheme \<Rightarrow> uint32 set" where
  "lh_pins s = lh_block s ` {..<nat (lh_n s)}"

definition log_inv :: "nat \<Rightarrow> nat set \<Rightarrow> 'a log_state_scheme \<Rightarrow> bool" where
  "log_inv p H s \<longleftrightarrow> log_dev s = ROOTDEV \<and> 0 \<le> lh_n s \<and> tx_ok (log_start s) (nat (lh_n s)) (lh_block s) \<and>
     cache_inv p H (lh_pins s) s \<and> get32 (disk s (log_start s)) 0 = 0"

text \<open>The writes of a commit, in order.\<close>

definition commit_head :: "(uint32 \<Rightarrow> byte list) \<Rightarrow> uint32 \<Rightarrow> (nat \<Rightarrow> uint32) \<Rightarrow> nat \<Rightarrow> byte list" where
  "commit_head C start blk n = head_bytes (int n) blk (C start)"

definition tx_writes :: "(uint32 \<Rightarrow> byte list) \<Rightarrow> uint32 \<Rightarrow> (nat \<Rightarrow> uint32) \<Rightarrow> nat \<Rightarrow> (uint32 \<times> byte list) list" where
  "tx_writes C start blk n =
     (log_writes C start blk n @ [(start, commit_head C start blk n)]) @
     map (\<lambda>i. (blk i, C (blk i))) [0..<n] @ [(start, head_bytes 0 blk (commit_head C start blk n))]"

lemma start_writes:
  assumes "tx_ok start n blk" "j \<le> n"
  shows "apply_writes D (log_writes C start blk j) start = D start"
    "apply_writes D (map (\<lambda>i. (blk i, v i)) [0..<j]) start = D start"
proof -
  have "logblk start i \<noteq> start" if "i < j" for i using logblk_start assms that by (auto simp: tx_ok_def)
  then have "start \<notin> logblk start ` {..<j}" by force
  then show "apply_writes D (log_writes C start blk j) start = D start"
    by (intro apply_writes_other) (auto simp: log_writes_def image_iff)
  have "blk i \<noteq> start" if "i < j" for i using assms that by (auto simp: tx_ok_def home_def)
  then have "start \<notin> blk ` {..<j}" by force
  then show "apply_writes D (map (\<lambda>i. (blk i, v i)) [0..<j]) start = D start"
    by (intro apply_writes_other) (auto simp: image_iff)
qed

lemma commit_spec:
  fixes s :: "'a log_state_scheme"
  assumes inv: "log_inv p {} s" and n: "0 < lh_n s" "lh_n s < int NBUF"
  shows "\<exists>t x. commit s = Ok () t \<and> cache_inv p {} {} t \<and>
    (let tx = tx_writes (view s) (log_start s) (lh_block s) (nat (lh_n s))
     in bc_vis t = (apply_writes (view s) tx, apply_writes (disk s) tx, dwrites s @ tx,
          bc_rest (s\<lparr>uart_thr := x, lh_n := 0\<rparr>)))"
proof -
  let ?n = "nat (lh_n s)" and ?C = "view s" and ?st = "log_start s" and ?blk = "lh_block s"
  let ?pins = "?blk ` {..<?n}" and ?L = "log_writes (view s) (log_start s) (lh_block s) (nat (lh_n s))"
  let ?h = "commit_head ?C ?st ?blk ?n"
  have tx: "tx_ok ?st ?n ?blk" and dev: "log_dev s = ROOTDEV" and ci: "cache_inv p {} ?pins s"
    using inv by (simp_all add: log_inv_def lh_pins_def)
  have pins: "finite ?pins" "card ?pins < NBUF" using n card_image_le [of "{..<?n}" ?blk] by auto
  have nN: "?n < NBUF" "int ?n = lh_n s" "lh_n s \<le> int LOGBLOCKS" using n tx by (auto simp: tx_ok_def)
  have V: "bc_vis s = (?C, disk s, dwrites s, bc_rest s)" by (simp add: bc_vis_def)
  obtain s1 where 1: "write_log s = Ok () s1" "cache_inv p {} ?pins s1"
      "bc_vis s1 = (apply_writes ?C ?L, apply_writes (disk s) ?L, dwrites s @ ?L, bc_rest s)"
    using write_log_spec [OF ci V tx nN(1) refl dev] by blast
  have r1: "bc_rest s1 = bc_rest s" using 1(3) by (simp add: bc_vis_def)
  note f1 = rest_log [OF r1]
  let ?W2 = "?L @ [(?st, ?h)]"
  obtain s2 where 2: "write_head s1 = Ok () s2" "cache_inv p {} ?pins s2"
      "bc_vis s2 = (apply_writes ?C ?W2, apply_writes (disk s) ?W2, dwrites s @ ?W2, bc_rest s)"
    using write_head_spec [OF 1(2,3) pins] f1 dev nN start_writes(1) [OF tx order_refl, of ?C ?C]
    by (auto simp: commit_head_def Let_def)
  have r2: "bc_rest s2 = bc_rest s" using 2(3) by (simp add: bc_vis_def)
  note f2 = rest_log [OF r2]
  let ?H = "home_writes (apply_writes ?C ?W2) ?st ?blk ?n"
  have i2: "cache_inv p {} (if False then {} else lh_block s2 ` {..<?n}) s2" using 2(2) f2 by simp
  have tx2: "tx_ok (log_start s2) ?n (lh_block s2)" and n2: "?n = nat (lh_n s2)" and dev2: "log_dev s2 = ROOTDEV"
    using tx f2 dev by simp_all
  obtain s3 x where 3: "install_trans False s2 = Ok () s3" "cache_inv p {} {} s3"
      "bc_vis s3 = (apply_writes (apply_writes ?C ?W2) ?H, apply_writes (apply_writes (disk s) ?W2) ?H,
         (dwrites s @ ?W2) @ ?H, bc_rest (s2\<lparr>uart_thr := x\<rparr>))"
    using install_trans_spec [OF i2 2(3) [folded r2] tx2 _ n2 dev2] nN(1) unfolding f2 by blast
  have H: "?H = map (\<lambda>i. (?blk i, ?C (?blk i))) [0..<?n]"
  proof -
    have "apply_writes ?C ?W2 (logblk ?st i) = ?C (?blk i)" if "i < ?n" for i
      using that logblk_start tx log_writes_log [OF tx that] by (auto simp: tx_ok_def)
    then show ?thesis by (auto simp: home_writes_def)
  qed
  have st3: "apply_writes (apply_writes ?C ?W2) ?H ?st = ?h"
    using start_writes(2) [OF tx order_refl] unfolding H by simp
  have r3: "bc_rest s3 = bc_rest (s\<lparr>uart_thr := x\<rparr>)" using 3(3) bc_rest_uart [OF r2] by (simp add: bc_vis_def)
  note f3 = rest_log [OF r3]
  let ?s3 = "s3\<lparr>lh_n := 0\<rparr>"
  have r4: "bc_rest ?s3 = bc_rest (s\<lparr>uart_thr := x, lh_n := 0\<rparr>)" using r3 by (simp add: bc_rest_upds)
  have inv3: "cache_inv p {} {} ?s3" using 3(2) by simp
  obtain s4 where 4: "write_head ?s3 = Ok () s4" "cache_inv p {} {} s4"
      "bc_vis s4 = ((apply_writes (apply_writes ?C ?W2) ?H)(?st := head_bytes 0 ?blk ?h),
         (apply_writes (apply_writes (disk s) ?W2) ?H)(?st := head_bytes 0 ?blk ?h),
         ((dwrites s @ ?W2) @ ?H) @ [(?st, head_bytes 0 ?blk ?h)], bc_rest (s\<lparr>uart_thr := x, lh_n := 0\<rparr>))"
    using write_head_spec [OF inv3 bc_vis_upd(1) [OF 3(3)]] f3 dev st3 r4 by (auto simp: Let_def NBUF_def MAXOPBLOCKS_def)
  have "commit s = Ok () s4" using n 1(1) 2(1) 3(1) 4(1) by (simp add: commit_def)
  then show ?thesis using 4(2,3) unfolding H
    by (intro exI [of _ s4] exI [of _ x]) (simp add: tx_writes_def Let_def apply_writes_append)
qed

subsection \<open>Recovery\<close>

text \<open>
  Recovery copies the blocks of the transaction in the log to their homes and clears the header; it
  leaves the log empty and the cache clean.
\<close>

lemma recover_spec:
  fixes s :: "'a log_state_scheme"
  assumes inv: "cache_inv p {} {} s" and dev: "log_dev s = ROOTDEV" and idle: "uart_idle s"
    and n: "get32 (disk s (log_start s)) 0 = word_of_int (int n)"
    and tx: "tx_ok (log_start s) n (\<lambda>i. get32 (disk s (log_start s)) (4 + 4 * i))"
  shows "\<exists>t. recover_from_log s = Ok () t \<and> log_inv p {} t \<and> lh_n t = 0 \<and> log_start t = log_start s \<and>
    (\<forall>m. home (log_start s) m \<longrightarrow> disk t m = apply_writes (disk s)
       (home_writes (disk s) (log_start s) (\<lambda>i. get32 (disk s (log_start s)) (4 + 4 * i)) n) m)"
proof -
  let ?st = "log_start s" and ?hd = "\<lambda>i. get32 (disk s (log_start s)) (4 + 4 * i)"
  have C: "view s = disk s" using view_clean [OF inv] by auto
  have V: "bc_vis s = (disk s, disk s, dwrites s, bc_rest s)" using C by (simp add: bc_vis_def)
  have nL: "int n \<le> int LOGBLOCKS" using tx by (simp add: tx_ok_def)
  obtain s1 blk where 1: "read_head s = Ok () s1" "cache_inv p {} {} s1" "\<And>i. i < n \<Longrightarrow> blk i = ?hd i"
      "bc_vis s1 = (disk s, disk s, dwrites s, bc_rest (s\<lparr>lh_n := int n, lh_block := blk\<rparr>))"
    using read_head_spec [OF inv V dev n _ nL] by auto
  have r1: "bc_rest s1 = bc_rest (s\<lparr>lh_n := int n, lh_block := blk\<rparr>)" using 1(4) by (simp add: bc_vis_def)
  note f1 = rest_log [OF r1]
  have i1: "cache_inv p {} (if True then {} else lh_block s1 ` {..<n}) s1" using 1(2) by simp
  have "tx_ok ?st n blk" using tx 1(3) by (auto simp: tx_ok_def inj_on_def)
  then have tx1: "tx_ok (log_start s1) n (lh_block s1)" using f1 by simp
  have h: "n = nat (lh_n s1)" "log_dev s1 = ROOTDEV" "uart_idle s1"
    using f1 dev idle by (simp_all add: uart_idle_def)
  let ?H = "home_writes (disk s) ?st blk n" and ?D = "apply_writes (disk s) (home_writes (disk s) ?st blk n)"
  obtain s2 x where 2: "install_trans True s1 = Ok () s2" "cache_inv p {} {} s2"
      "bc_vis s2 = (?D, ?D, dwrites s @ ?H, bc_rest (s1\<lparr>uart_thr := x\<rparr>))"
    using install_trans_spec [OF i1 1(4) [folded r1] tx1 _ h] f1 by auto
  have r2: "bc_rest s2 = bc_rest (s1\<lparr>uart_thr := x\<rparr>)" using 2(3) by (simp add: bc_vis_def)
  note f2 = rest_log [OF r2]
  have i2: "cache_inv p {} {} (s2\<lparr>lh_n := 0\<rparr>)" using 2(2) by simp
  let ?h = "head_bytes 0 blk (?D ?st)"
  obtain s3 where 3: "write_head (s2\<lparr>lh_n := 0\<rparr>) = Ok () s3" "cache_inv p {} {} s3"
      "bc_vis s3 = (?D(?st := ?h), ?D(?st := ?h), (dwrites s @ ?H) @ [(?st, ?h)], bc_rest (s2\<lparr>lh_n := 0\<rparr>))"
    using write_head_spec [OF i2 bc_vis_upd(1) [OF 2(3)]] f1 f2 h(2) by (auto simp: Let_def NBUF_def MAXOPBLOCKS_def)
  have r3: "bc_rest s3 = bc_rest (s2\<lparr>lh_n := 0\<rparr>)" and D3: "disk s3 = ?D(?st := ?h)"
    using 3(3) by (auto simp: bc_vis_def)
  note f3 = rest_log [OF r3]
  have "recover_from_log s = Ok () s3" using 1(1) 2(1) 3(1) by (simp add: recover_from_log_def)
  moreover have "length (?D ?st) = BSIZE" using bc.contents_ok [OF 2(2,3)] .
  then have "get32 ?h 0 = 0" using get32_head_bytes(1) [of "?D ?st" 0 blk] by simp
  then have "log_inv p {} s3 \<and> lh_n s3 = 0 \<and> log_start s3 = ?st"
    using 3(2) D3 f1 f2 f3 dev by (simp add: log_inv_def lh_pins_def tx_ok_def)
  moreover have "?H = home_writes (disk s) ?st ?hd n" using 1(3) by (simp add: home_writes_def)
  then have "\<forall>m. home ?st m \<longrightarrow> disk s3 m = apply_writes (disk s) (home_writes (disk s) ?st ?hd n) m"
    using D3 by (simp add: home_def)
  ultimately show ?thesis by blast
qed

lemma initlog_spec:
  fixes s :: "'a log_state_scheme"
  assumes inv: "cache_inv p {} {} s" and idle: "uart_idle s"
    and n: "get32 (disk s (sb_logstart sb)) 0 = word_of_int (int n)"
    and tx: "tx_ok (sb_logstart sb) n (\<lambda>i. get32 (disk s (sb_logstart sb)) (4 + 4 * i))"
  shows "\<exists>t. initlog ROOTDEV sb s = Ok () t \<and> log_inv p {} t \<and> lh_n t = 0 \<and> log_start t = sb_logstart sb \<and>
    (\<forall>m. home (sb_logstart sb) m \<longrightarrow> disk t m = apply_writes (disk s)
       (home_writes (disk s) (sb_logstart sb) (\<lambda>i. get32 (disk s (sb_logstart sb)) (4 + 4 * i)) n) m)"
proof -
  let ?s = "(initlock L_log ''log'' s)\<lparr>log_start := sb_logstart sb, log_dev := ROOTDEV\<rparr>"
  have "cache_inv p {} {} ?s"
    using inv by (auto simp: cache_inv_def running_def initlock_def lk_free_def)
  moreover have "uart_idle ?s" "disk ?s = disk s" using idle by (simp_all add: uart_idle_def initlock_def)
  ultimately show ?thesis
    using recover_spec [of p ?s n] n tx sizeof_logheader_small by (simp add: initlog_def)
qed

subsection \<open>Crashes\<close>

text \<open>
  The disk after the first \<open>k\<close> writes of a commit: its header describes a transaction, and installing
  that transaction gives the old contents \<open>D\<close> up to the write of the header and the new contents \<open>C\<close>
  from then on.
\<close>

lemma installed:
  assumes tx: "tx_ok start n blk" and C: "\<And>m. m \<notin> blk ` {..<n} \<Longrightarrow> C m = D m" and m: "home start m"
    and E: "\<And>m. home start m \<Longrightarrow> m \<notin> blk ` {..<n} \<Longrightarrow> E m = D m"
  shows "apply_writes E (map (\<lambda>i. (blk i, C (blk i))) [0..<n]) m = C m"
proof (cases "m \<in> blk ` {..<n}")
  case True
  then obtain i where "i < n" "m = blk i" by auto
  then show ?thesis using tx apply_writes_nth [of blk n i E "\<lambda>i. C (blk i)"] by (auto simp: tx_ok_def)
next
  case False
  then have "apply_writes E (map (\<lambda>i. (blk i, C (blk i))) [0..<n]) m = E m"
    by (intro apply_writes_other) (auto simp: image_iff)
  then show ?thesis using C E False m by simp
qed

lemma crash_recovers:
  assumes tx: "tx_ok start n blk" and C: "\<And>m. m \<notin> blk ` {..<n} \<Longrightarrow> C m = D m"
    and hd: "get32 (D start) 0 = 0" "length (C start) = BSIZE" and k: "k \<le> length (tx_writes C start blk n)"
  defines "E \<equiv> apply_writes D (take k (tx_writes C start blk n))"
  shows "\<exists>n'. get32 (E start) 0 = word_of_int (int n') \<and> tx_ok start n' (\<lambda>i. get32 (E start) (4 + 4 * i)) \<and>
    (\<forall>m. home start m \<longrightarrow> apply_writes E (home_writes E start (\<lambda>i. get32 (E start) (4 + 4 * i)) n') m =
       (if k \<le> n then D m else C m))"
proof -
  let ?h = "commit_head C start blk n" and ?L = "log_writes C start blk" and ?H = "\<lambda>j. map (\<lambda>i. (blk i, C (blk i))) [0..<j]"
  have nL: "int n \<le> int LOGBLOCKS" using tx by (simp add: tx_ok_def)
  have h: "get32 ?h 0 = word_of_int (int n)" "\<And>i. i < n \<Longrightarrow> get32 ?h (4 + 4 * i) = blk i"
    using get32_head_bytes [OF hd(2) _ nL, where B = blk] by (simp_all add: commit_head_def)
  have len: "length (?L n) = n" "length (tx_writes C start blk n) = 2 * n + 2" by (simp_all add: log_writes_def tx_writes_def)
  let ?D1 = "(apply_writes D (?L n))(start := ?h)"
  have D1: "?D1 m = D m" if "home start m" for m
    using that log_writes_home [OF tx order_refl that] by (simp add: home_def)
  consider "k \<le> n" | j where "k = n + 1 + j" "j \<le> n" | "k = 2 * n + 2"
  proof (cases "k \<le> n \<or> k = 2 * n + 2")
    case False
    then show ?thesis using k len by (intro that(2) [of "k - n - 1"]) auto
  qed (use that in auto)
  then show ?thesis
  proof cases
    case 1
    then have "take k (tx_writes C start blk n) = ?L k" by (simp add: tx_writes_def log_writes_def take_map)
    then have E: "E = apply_writes D (?L k)" by (simp add: E_def)
    then have "E start = D start" using start_writes(1) [OF tx 1] by simp
    then show ?thesis using 1 hd(1) log_writes_home [OF tx 1] E
      by (intro exI [of _ 0]) (simp add: tx_ok_def home_writes_def)
  next
    case (2 j)
    then have "take k (tx_writes C start blk n) = (?L n @ [(start, ?h)]) @ ?H j"
      using len(1) by (simp add: tx_writes_def take_map min_absorb1)
    then have E: "E = apply_writes ?D1 (?H j)" by (simp add: E_def apply_writes_append)
    have st: "E start = ?h" using start_writes(2) [OF tx 2(2), of ?D1] E by simp
    have lb: "E (logblk start i) = C (blk i)" if "i < n" for i
    proof -
      have "i < LOGBLOCKS" using that tx by (simp add: tx_ok_def)
      then have "E (logblk start i) = ?D1 (logblk start i)"
        unfolding E using tx_logblk [OF tx _ 2(2), of i] by (intro apply_writes_other) (auto simp: image_iff)
      also have "\<dots> = C (blk i)" using log_writes_log [OF tx that] logblk_start [OF \<open>i < LOGBLOCKS\<close>] by simp
      finally show ?thesis .
    qed
    have "home_writes E start (\<lambda>i. get32 (E start) (4 + 4 * i)) n = ?H n"
      using lb h(2) st by (simp add: home_writes_def)
    moreover have Em: "E m = D m" if "home start m" "m \<notin> blk ` {..<n}" for m
    proof -
      have "E m = ?D1 m" unfolding E using that(2) 2(2) by (intro apply_writes_other) (auto simp: image_iff)
      then show ?thesis using D1 [OF that(1)] by simp
    qed
    moreover have "tx_ok start n (\<lambda>i. get32 (E start) (4 + 4 * i))"
      using tx h(2) st by (auto simp: tx_ok_def inj_on_def)
    moreover have "apply_writes E (?H n) m = C m" if "home start m" for m
      using C Em by (intro installed [OF tx _ that, of C D E]) auto
    ultimately show ?thesis using st h(1) 2(1) by (intro exI [of _ n]) simp
  next
    case 3
    then have E: "E = (apply_writes ?D1 (?H n))(start := head_bytes 0 blk ?h)"
      using len(2) unfolding E_def by (simp add: tx_writes_def apply_writes_append)
    have "length ?h = BSIZE" using length_head_bytes [OF hd(2) nL] by (simp add: commit_head_def)
    then have "get32 (E start) 0 = 0" using get32_head_bytes(1) [of ?h 0 blk] E by simp
    moreover have "E m = C m" if "home start m" for m
    proof -
      have "apply_writes ?D1 (?H n) m = C m" using C D1 by (intro installed [OF tx _ that, of C D ?D1]) auto
      then show ?thesis using that E by (simp add: home_def)
    qed
    ultimately show ?thesis using 3 by (intro exI [of _ 0]) (simp add: tx_ok_def home_writes_def)
  qed
qed

subsection \<open>Logging a write\<close>

lemma lh_pins_iff: "m \<in> lh_pins s \<longleftrightarrow> (\<exists>i \<in> set [0..<nat (lh_n s)]. lh_block s i = m)"
  by (auto simp: lh_pins_def)

lemma inj_extend:
  assumes "inj_on f {..<n}" "m \<notin> f ` {..<n}"
  shows "inj_on (f(n := m)) {..<Suc n}"
proof -
  have "(f(n := m)) ` ({..<n} - {n}) = f ` {..<n}" by auto
  then show ?thesis using assms by (simp add: lessThan_Suc inj_on_fun_updI)
qed

lemma bpin_eq: "ready s \<Longrightarrow> free_lock L_bcache s \<Longrightarrow> bpin b s = Ok () (s\<lparr>bufs := hit_buf b (bufs s)\<rparr>)"
  by (simp add: bpin_def hit_buf_def lock_simps)

lemma log_write_absorb:
  assumes "running p s" "0 \<le> lh_n s" "lh_n s < int LOGBLOCKS" "0 < log_outstanding s" "b_blockno (bufs s b) \<in> lh_pins s"
  shows "log_write b s = Ok () s"
proof -
  obtain i where i: "find (\<lambda>i. lh_block s i = b_blockno (bufs s b)) [0..<nat (lh_n s)] = Some i"
    using assms(5) find_exists [of "[0..<nat (lh_n s)]" "\<lambda>i. lh_block s i = b_blockno (bufs s b)"]
    unfolding lh_pins_iff by blast
  then have *: "i < nat (lh_n s)" "lh_block s i = b_blockno (bufs s b)" using find_SomeD [OF i] by auto
  then have "(lh_block s)(i := b_blockno (bufs s b)) = lh_block s" by auto
  moreover have "int i \<noteq> lh_n s" using *(1) by simp
  ultimately show ?thesis using i assms runningD [OF assms(1)] by (simp add: log_write_def lock_simps Let_def)
qed

lemma log_write_new:
  assumes "running p s" "0 \<le> lh_n s" "lh_n s < int LOGBLOCKS" "0 < log_outstanding s" "b_blockno (bufs s b) \<notin> lh_pins s"
  shows "log_write b s = Ok () (s\<lparr>bufs := hit_buf b (bufs s),
    lh_block := (lh_block s)(nat (lh_n s) := b_blockno (bufs s b)), lh_n := lh_n s + 1\<rparr>)"
proof -
  have "find (\<lambda>i. lh_block s i = b_blockno (bufs s b)) [0..<nat (lh_n s)] = None"
    using assms(5) unfolding find_None_iff lh_pins_iff by blast
  then show ?thesis using assms runningD [OF assms(1)] by (simp add: log_write_def lock_simps Let_def bpin_eq)
qed

text \<open>
  A logged buffer is pinned; nothing else changes, and the buffer may then be released with contents
  the disk does not have yet.
\<close>

lemma log_write_spec:
  fixes s :: "'a log_state_scheme"
  assumes inv: "log_inv p H s" and b: "b \<in> H" "home (log_start s) (b_blockno (bufs s b))"
    and n: "lh_n s < int LOGBLOCKS" "0 < log_outstanding s"
  shows "\<exists>t. log_write b s = Ok () t \<and> log_inv p H t \<and> lh_pins t = insert (b_blockno (bufs s b)) (lh_pins s) \<and>
    lh_n s \<le> lh_n t \<and> lh_n t \<le> lh_n s + 1 \<and> log_start t = log_start s \<and> log_outstanding t = log_outstanding s \<and>
    view t = view s \<and> disk t = disk s \<and> (\<forall>i. b_data (bufs t i) = b_data (bufs s i) \<and> b_blockno (bufs t i) = b_blockno (bufs s i))"
proof (cases "b_blockno (bufs s b) \<in> lh_pins s")
  case True
  have "running p s" "0 \<le> lh_n s" using inv by (simp_all add: log_inv_def cache_inv_def)
  then show ?thesis using log_write_absorb [OF _ _ n True] inv True by (auto simp: insert_absorb)
next
  case False
  let ?n = "nat (lh_n s)" and ?m = "b_blockno (bufs s b)"
  let ?t = "s\<lparr>bufs := hit_buf b (bufs s), lh_block := (lh_block s)(?n := ?m), lh_n := lh_n s + 1\<rparr>"
  have ci: "cache_inv p H (lh_pins s) s" and n0: "0 \<le> lh_n s" and tx: "tx_ok (log_start s) ?n (lh_block s)"
    and r: "running p s" using inv by (simp_all add: log_inv_def cache_inv_def)
  obtain B where B: "bpin b s = Ok () (s\<lparr>bufs := B\<rparr>)" "cache_inv p H (insert ?m (lh_pins s)) (s\<lparr>bufs := B\<rparr>)"
      "bview B (disk s) = view s" "\<forall>i. b_data (B i) = b_data (bufs s i) \<and> b_blockno (B i) = b_blockno (bufs s i)"
    using bpin_spec [OF ci b(1) False] by blast
  have "s\<lparr>bufs := B\<rparr> = s\<lparr>bufs := hit_buf b (bufs s)\<rparr>" using B(1) bpin_eq [of s b] runningD [OF r] by simp
  then have "bufs (s\<lparr>bufs := B\<rparr>) = bufs (s\<lparr>bufs := hit_buf b (bufs s)\<rparr>)" by simp
  then have Beq: "B = hit_buf b (bufs s)" by simp
  have sn: "nat (lh_n s + 1) = Suc ?n" using n0 by simp
  have pins: "lh_pins ?t = insert ?m (lh_pins s)" using sn by (auto simp: lh_pins_def lessThan_Suc)
  have "inj_on ((lh_block s)(?n := ?m)) {..<Suc ?n}"
    using tx False by (intro inj_extend) (simp_all add: tx_ok_def lh_pins_def)
  then have "tx_ok (log_start s) (nat (lh_n s + 1)) ((lh_block s)(?n := ?m))"
    using tx b(2) n sn by (auto simp: tx_ok_def less_Suc_eq)
  moreover have "cache_inv p H (insert ?m (lh_pins s)) ?t" using B(2) Beq by simp
  ultimately have "log_inv p H ?t" using inv pins n0 by (simp add: log_inv_def)
  then show ?thesis
    using log_write_new [OF r n0 n False] B(3,4) Beq pins by (intro exI [of _ ?t]) simp
qed

subsection \<open>Operations\<close>

lemma commit_log_inv:
  fixes s :: "'a log_state_scheme"
  assumes inv: "log_inv p {} s" and n: "lh_n s < int NBUF"
  shows "\<exists>t ws x. commit s = Ok () t \<and> log_inv p {} t \<and> lh_n t = 0 \<and> dwrites t = dwrites s @ ws \<and>
    bc_rest t = bc_rest (s\<lparr>uart_thr := x, lh_n := 0\<rparr>) \<and>
    (\<forall>m. home (log_start s) m \<longrightarrow> disk t m = view s m \<and> view t m = view s m) \<and>
    ws = (if lh_n s = 0 then [] else tx_writes (view s) (log_start s) (lh_block s) (nat (lh_n s)))"
proof (cases "lh_n s = 0")
  case True
  have "view s m = disk s m" for m using inv True by (intro view_clean) (auto simp: log_inv_def lh_pins_def)
  moreover have "bc_rest (s\<lparr>uart_thr := uart_thr s, lh_n := 0\<rparr>) = bc_rest s" using True by (cases s) simp
  ultimately show ?thesis using True inv by (intro exI [of _ s] exI [of _ "[]"] exI [of _ "uart_thr s"]) (simp add: commit_def)
next
  case False
  let ?C = "view s" and ?st = "log_start s" and ?blk = "lh_block s" and ?n = "nat (lh_n s)"
  let ?tx = "tx_writes ?C ?st ?blk ?n"
  have n0: "0 < lh_n s" using inv False by (simp add: log_inv_def)
  obtain t x where t: "commit s = Ok () t" "cache_inv p {} {} t"
      "bc_vis t = (apply_writes ?C ?tx, apply_writes (disk s) ?tx, dwrites s @ ?tx, bc_rest (s\<lparr>uart_thr := x, lh_n := 0\<rparr>))"
    using commit_spec [OF inv n0 n] by (auto simp: Let_def)
  have r: "bc_rest t = bc_rest (s\<lparr>uart_thr := x, lh_n := 0\<rparr>)" using t(3) by (simp add: bc_vis_def)
  note f = rest_log [OF r]
  have tx: "tx_ok ?st ?n ?blk" and ci: "cache_inv p {} (?blk ` {..<?n}) s" and hd: "get32 (disk s ?st) 0 = 0"
    using inv by (simp_all add: log_inv_def lh_pins_def)
  have C: "?C m = disk s m" if "m \<notin> ?blk ` {..<?n}" for m using view_clean [OF ci that] .
  have st: "?C ?st = disk s ?st" using tx by (intro C) (auto simp: tx_ok_def home_def)
  have len: "length (?C ?st) = BSIZE" using ci bview_length by (auto simp: cache_inv_def)
  have d: "disk t = apply_writes (disk s) ?tx" "dwrites t = dwrites s @ ?tx" "view t = disk t"
    using t(3) view_clean [OF t(2)] by (auto simp: bc_vis_def)
  have home: "disk t m = ?C m" if "home ?st m" for m
  proof -
    let ?D1 = "(apply_writes (disk s) (log_writes ?C ?st ?blk ?n))(?st := commit_head ?C ?st ?blk ?n)"
    have "?D1 m = disk s m" if "home ?st m" for m
      using that log_writes_home [OF tx order_refl that] by (simp add: home_def)
    then have "apply_writes ?D1 (map (\<lambda>i. (?blk i, ?C (?blk i))) [0..<?n]) m = ?C m"
      using C by (intro installed [OF tx _ that, of ?C "disk s" ?D1]) auto
    then show ?thesis using that by (simp add: d tx_writes_def apply_writes_append home_def)
  qed
  have "int ?n \<le> int LOGBLOCKS" using tx unfolding tx_ok_def by linarith
  then have "length (commit_head ?C ?st ?blk ?n) = BSIZE" using length_head_bytes [OF len] by (simp add: commit_head_def)
  then have "get32 (disk t ?st) 0 = 0"
    using get32_head_bytes(1) [of "commit_head ?C ?st ?blk ?n" 0 ?blk] by (simp add: d tx_writes_def apply_writes_append)
  then have "log_inv p {} t" using t(2) f inv by (simp add: log_inv_def lh_pins_def tx_ok_def)
  then show ?thesis using False t(1) f r d home by (intro exI [of _ t] exI [of _ ?tx] exI [of _ x]) simp
qed

text \<open>
  C7. A commit is atomic with respect to crashes.  It writes the blocks of the transaction to disk and
  leaves the log empty; if the machine stops after any number of its disk writes and boots again,
  recovery succeeds and every block outside the log area holds what it held before the transaction,
  or every such block holds what the transaction wrote: there is one write before which it is always
  the former and from which on it is always the latter.
\<close>

theorem commit_crash_atomic:
  fixes s :: "'a log_state_scheme"
  assumes "log_inv p {} s" "lh_n s < int NBUF" "sb_logstart sb = log_start s"
  shows "\<exists>t ws c. commit s = Ok () t \<and> log_inv p {} t \<and> lh_n t = 0 \<and> dwrites t = dwrites s @ ws \<and>
    (\<forall>m. home (log_start s) m \<longrightarrow> disk t m = view s m \<and> view t m = view s m) \<and>
    (\<forall>k \<le> length ws. \<forall>u :: 'a log_state_scheme.
       cache_inv p {} {} u \<and> uart_idle u \<and> disk u = apply_writes (disk s) (take k ws) \<longrightarrow>
       (\<exists>v. initlog ROOTDEV sb u = Ok () v \<and> log_inv p {} v \<and> lh_n v = 0 \<and>
          (\<forall>m. home (log_start s) m \<longrightarrow> disk v m = (if k \<le> c then disk s m else view s m))))"
proof -
  let ?st = "log_start s" and ?n = "nat (lh_n s)"
  obtain t ws where t: "commit s = Ok () t" "log_inv p {} t" "lh_n t = 0" "dwrites t = dwrites s @ ws"
      "\<forall>m. home ?st m \<longrightarrow> disk t m = view s m \<and> view t m = view s m"
      "ws = (if lh_n s = 0 then [] else tx_writes (view s) ?st (lh_block s) ?n)"
    using commit_log_inv [OF assms(1,2)] by blast
  have tx: "tx_ok ?st ?n (lh_block s)" and ci: "cache_inv p {} (lh_block s ` {..<?n}) s" and hd: "get32 (disk s ?st) 0 = 0"
    using assms(1) by (simp_all add: log_inv_def lh_pins_def)
  have len: "length (view s ?st) = BSIZE" using ci bview_length by (auto simp: cache_inv_def)
  have "\<exists>v. initlog ROOTDEV sb u = Ok () v \<and> log_inv p {} v \<and> lh_n v = 0 \<and>
      (\<forall>m. home ?st m \<longrightarrow> disk v m = (if k \<le> ?n then disk s m else view s m))"
    if k: "k \<le> length ws" and u: "cache_inv p {} {} u" "uart_idle u" "disk u = apply_writes (disk s) (take k ws)"
    for k and u :: "'a log_state_scheme"
  proof -
    have "\<exists>n'. get32 (disk u ?st) 0 = word_of_int (int n') \<and> tx_ok ?st n' (\<lambda>i. get32 (disk u ?st) (4 + 4 * i)) \<and>
      (\<forall>m. home ?st m \<longrightarrow> apply_writes (disk u) (home_writes (disk u) ?st (\<lambda>i. get32 (disk u ?st) (4 + 4 * i)) n') m =
        (if k \<le> ?n then disk s m else view s m))"
    proof (cases "lh_n s = 0")
      case True
      then show ?thesis using u(3) t(6) hd k by (intro exI [of _ 0]) (simp add: tx_ok_def home_writes_def)
    next
      case False
      then show ?thesis
        using crash_recovers [of ?st ?n "lh_block s" "view s" "disk s" k, OF tx _ hd len] view_clean [OF ci] k t(6) u(3)
        by simp
    qed
    then obtain n' where n': "get32 (disk u ?st) 0 = word_of_int (int n')" "tx_ok ?st n' (\<lambda>i. get32 (disk u ?st) (4 + 4 * i))"
      "\<forall>m. home ?st m \<longrightarrow> apply_writes (disk u) (home_writes (disk u) ?st (\<lambda>i. get32 (disk u ?st) (4 + 4 * i)) n') m =
        (if k \<le> ?n then disk s m else view s m)" by blast
    obtain v where "initlog ROOTDEV sb u = Ok () v" "log_inv p {} v" "lh_n v = 0"
        "\<forall>m. home ?st m \<longrightarrow> disk v m =
          apply_writes (disk u) (home_writes (disk u) ?st (\<lambda>i. get32 (disk u ?st) (4 + 4 * i)) n') m"
      using initlog_spec [OF u(1,2), of sb n'] n'(1,2) unfolding assms(3) by blast
    then show ?thesis using n'(3) by auto
  qed
  then show ?thesis using t by blast
qed


text \<open>
  A state with the blocks 100, 101, \<dots>, \<open>99 + n\<close> in a running transaction: all cached, pinned, and
  different from the disk.
\<close>

definition sample_pinned :: "nat \<Rightarrow> (nat \<Rightarrow> buf) \<Rightarrow> nat \<Rightarrow> buf" where
  "sample_pinned n B = (\<lambda>i. if i < n then (B i)\<lparr>b_valid := True, b_dev := ROOTDEV, b_blockno := of_nat (100 + i),
     b_refcnt := 1, b_data := replicate BSIZE 7\<rparr> else B i)"

definition sample_log :: "nat \<Rightarrow> 'z \<Rightarrow> 'z log_state_scheme" where
  "sample_log n z = (let s = sample_bufs \<lparr>log_start = 0, log_outstanding = 0, log_committing = 0, log_dev = 0,
       lh_n = 0, lh_block = (\<lambda>_. 0), \<dots> = z\<rparr>
     in s\<lparr>bufs := sample_pinned n (bufs s), log_start := 2, log_outstanding := 1, log_committing := 0, log_dev := ROOTDEV, lh_n := int n,
          lh_block := (\<lambda>i. of_nat (100 + i))\<rparr>)"

lemma binit_cpu: "cur (binit s) = cur s" "regs (binit s) = regs s" "cpus (binit s) = cpus s"
proof -
  have "cur (binit_loop xs s) = cur s \<and> regs (binit_loop xs s) = regs s \<and> cpus (binit_loop xs s) = cpus s"
    for xs and s :: "'a buf_state_scheme"
    by (induction xs arbitrary: s) (simp_all add: binit_loop_def Let_def initsleeplock_def initlock_def)
  then show "cur (binit s) = cur s" "regs (binit s) = regs s" "cpus (binit s) = cpus s"
    by (simp_all add: binit_def initlock_def)
qed

lemma sample_block_inj: "i < 1000 \<Longrightarrow> j < 1000 \<Longrightarrow> (of_nat (100 + i) :: uint32) = of_nat (100 + j) \<longleftrightarrow> i = j"
  using of_nat_32_inj [of "100 + i" "100 + j"] by auto

lemma sample_pinned_cache:
  assumes inv: "cache_inv p {} {} s" and no: "\<And>i. i < NBUF \<Longrightarrow> \<not> b_valid (bufs s i)" and n: "n \<le> NBUF"
  shows "cache_inv p {} ((\<lambda>i. of_nat (100 + i)) ` {..<n}) (s\<lparr>bufs := sample_pinned n (bufs s)\<rparr>)"
proof -
  let ?B = "sample_pinned n (bufs s)" and ?pins = "(\<lambda>i. of_nat (100 + i) :: uint32) ` {..<n}"
  have N: "NBUF = 30" by (simp add: NBUF_def MAXOPBLOCKS_def)
  have refs: "b_refcnt (bufs s i) = 0" if "i < NBUF" for i
    using inv that bufs_refsD(4) [of "bufs s" "{}" "{}" i] by (simp add: cache_inv_def)
  have wf: "bufs_wf (bufs s) (disk s)" using inv by (simp add: cache_inv_def)
  obtain xs where "ring (bufs s) xs" using wf by (auto simp: bufs_wf_def)
  then have "ring ?B xs" by (rule ring_cong [THEN iffD2, rotated -1]) (simp_all add: sample_pinned_def)
  moreover have "b_valid (?B i) \<longleftrightarrow> b_dev (?B i) = ROOTDEV" "b_valid (?B i) \<longleftrightarrow> i < n" if "i < NBUF" for i
    using wf no that by (auto simp: sample_pinned_def bufs_wf_def)
  moreover have "b_blockno (?B i) = of_nat (100 + i)" "b_data (?B i) = replicate BSIZE 7" "b_refcnt (?B i) = 1" if "i < n" for i
    using that by (simp_all add: sample_pinned_def)
  moreover have "length (disk s m) = BSIZE" for m using wf by (simp add: bufs_wf_def)
  ultimately have "bufs_wf ?B (disk s)" unfolding bufs_wf_def using n N sample_block_inj by auto
  moreover have "bufs_refs ?B {} ?pins"
    unfolding bufs_refs_def
  proof (intro conjI allI impI ballI)
    fix i assume "i < NBUF"
    then show "b_refcnt (?B i) = (if i \<in> {} then 1 else 0) + (if b_valid (?B i) \<and> b_blockno (?B i) \<in> ?pins then 1 else 0)"
      using refs no by (auto simp: sample_pinned_def)
  next
    fix m assume "m \<in> ?pins"
    then show "\<exists>i. cached ?B m i" using n by (auto simp: sample_pinned_def cached_def)
  qed auto
  moreover have "bufs_clean ?B (disk s) {} ?pins" using no by (auto simp: bufs_clean_def sample_pinned_def)
  ultimately show ?thesis using inv by (simp add: cache_inv_def)
qed

lemma sample_log_inv:
  assumes "n \<le> LOGBLOCKS"
  shows "log_inv 0 {} (sample_log n z)" "log_start (sample_log n z) = 2" "lh_n (sample_log n z) = int n"
    "log_outstanding (sample_log n z) = 1" "log_committing (sample_log n z) = 0"
proof -
  have N: "n \<le> 30" "LOGBLOCKS = 30" using assms by (simp_all add: LOGBLOCKS_def MAXOPBLOCKS_def)
  have "inj_on (\<lambda>i. of_nat (100 + i) :: uint32) {..<n}" using N(1) sample_block_inj by (auto simp: inj_on_def)
  moreover have "home 2 (of_nat (100 + i))" if "i < n" for i
  proof -
    have "of_nat (100 + i) \<noteq> (of_nat k :: uint32)" if "k < 100" for k
      using of_nat_32_inj [of "100 + i" k] \<open>i < n\<close> N(1) that by auto
    from this [of 2] this [of "2 + j + 1" for j] show ?thesis
      using N(2) by (auto simp: home_def logblk_def)
  qed
  ultimately have "tx_ok 2 n (\<lambda>i. of_nat (100 + i))" using assms by (simp add: tx_ok_def)
  moreover have "cache_inv 0 {} ((\<lambda>i. of_nat (100 + i)) ` {..<n}) ((sample_bufs y)\<lparr>bufs := sample_pinned n (bufs (sample_bufs y))\<rparr>)"
    for y :: "'z log_state_ext"
    by (intro sample_pinned_cache) (use sample_bufs_inv(1,3) N in \<open>simp_all add: NBUF_def MAXOPBLOCKS_def\<close>)
  moreover have "get32 (replicate BSIZE 0) 0 = 0" by (simp add: get32_def word32_def BSIZE_def)
  ultimately show "log_inv 0 {} (sample_log n z)"
    using assms by (simp add: log_inv_def sample_log_def Let_def lh_pins_def sample_bufs_inv(2) cache_inv_def running_def)
qed (simp_all add: sample_log_def Let_def)

theorem commit_crash_atomic_witness:
  "\<exists>t. commit (sample_log 2 ()) = Ok () t \<and> disk t 101 = view (sample_log 2 ()) 101"
proof -
  have inv: "log_inv 0 {} (sample_log 2 ())" "log_start (sample_log 2 ()) = 2" "lh_n (sample_log 2 ()) = 2"
    using sample_log_inv [of 2 "()"] by (simp_all add: LOGBLOCKS_def MAXOPBLOCKS_def)
  have "tx_ok 2 2 (lh_block (sample_log 2 ()))" using inv by (simp add: log_inv_def)
  then have "home 2 (lh_block (sample_log 2 ()) 1)" by (simp add: tx_ok_def)
  then have "home 2 101" by (simp add: sample_log_def Let_def)
  then show ?thesis
    using commit_crash_atomic [OF inv(1), of "\<lparr>sb_magic = FSMAGIC, sb_size = 2000, sb_nblocks = 1954, sb_ninodes = 200,
        sb_nlog = 30, sb_logstart = 2, sb_inodestart = 32, sb_bmapstart = 45\<rparr>"] inv(2,3)
    by (auto simp: NBUF_def MAXOPBLOCKS_def)
qed

subsection \<open>A full transaction\<close>

lemma full_cache:
  assumes wf: "bufs_wf B D" and refs: "bufs_refs B {} pins" and card: "card pins = NBUF" and i: "i < NBUF"
  shows "b_valid (B i) \<and> b_blockno (B i) \<in> pins"
proof -
  let ?f = "\<lambda>m. SOME i. cached B m i"
  have f: "cached B m (?f m)" if "m \<in> pins" for m using bufs_refsD(5) [OF refs that] by (rule someI_ex)
  have "inj_on ?f pins"
  proof (rule inj_onI)
    fix m m' assume m: "m \<in> pins" "m' \<in> pins" "?f m = ?f m'"
    then show "m = m'" using f [OF m(1)] f [OF m(2)] by (simp add: cached_def)
  qed
  moreover have "?f ` pins \<subseteq> {..<NBUF}" using f by (auto simp: cached_def)
  ultimately have "?f ` pins = {..<NBUF}" using card by (intro card_subset_eq) (simp_all add: card_image)
  then obtain m where "m \<in> pins" "i = ?f m" using i by blast
  then show ?thesis using f [of m] by (simp add: cached_def)
qed

text \<open>
  C11. The cache is too small for the largest transaction the log admits: with all \<open>LOGBLOCKS\<close> entries
  of the log in use, every one of the \<open>NBUF\<close> buffers is pinned, and \<open>commit\<close> panics in \<open>bget\<close> when it
  needs a buffer for the first log block.
\<close>

theorem commit_full_log_panics:
  assumes "log_inv p {} s" "lh_n s = int LOGBLOCKS"
  shows "commit s = Panic ''bget: no buffers''"
proof -
  let ?B = "bufs s" and ?m = "logblk (log_start s) 0"
  have N: "LOGBLOCKS = NBUF" "0 < NBUF" by (simp_all add: LOGBLOCKS_def NBUF_def MAXOPBLOCKS_def)
  have tx: "tx_ok (log_start s) NBUF (lh_block s)" and ci: "cache_inv p {} (lh_pins s) s" and dev: "log_dev s = ROOTDEV"
    using assms N by (simp_all add: log_inv_def)
  have card: "card (lh_pins s) = NBUF" using tx assms(2) N by (simp add: lh_pins_def tx_ok_def card_image)
  have run: "running p s" and wf: "bufs_wf ?B (disk s)" and refs: "bufs_refs ?B {} (lh_pins s)"
    using ci by (simp_all add: cache_inv_def)
  note full = full_cache [OF wf refs card]
  obtain xs where ring: "ring ?B xs" using wf by (auto simp: bufs_wf_def)
  then have xs: "set xs = {..<NBUF}" by (simp add: ring_def)
  have m: "?m \<notin> lh_pins s" using tx_logblk [OF tx, of 0 NBUF] assms(2) N by (simp add: lh_pins_def)
  have "\<not> (b_dev (?B i) = ROOTDEV \<and> b_blockno (?B i) = ?m)" if "i \<in> set xs" for i
  proof -
    have "i < NBUF" using that xs by simp
    from full [OF this] m show ?thesis by metis
  qed
  then have f1: "find (\<lambda>i. b_dev (?B i) = ROOTDEV \<and> b_blockno (?B i) = ?m) xs = None" unfolding find_None_iff by blast
  have "b_refcnt (?B i) \<noteq> 0" if "i < NBUF" for i using bufs_refsD(4) [OF refs that] full [OF that] by simp
  then have f2: "find (\<lambda>i. b_refcnt (?B i) = 0) (rev xs) = None" using xs unfolding find_None_iff by auto
  have "bread ROOTDEV ?m s = Panic ''bget: no buffers''" using bget_panic [OF run ring f1 f2] by (simp add: bread_def)
  moreover have "[0..<NBUF] = 0 # [Suc 0..<NBUF]" using N(2) by (simp add: upt_conv_Cons)
  ultimately show ?thesis using assms(2) N dev by (simp add: commit_def write_log_def logblk_def)
qed

theorem commit_full_log_panics_witness: "commit (sample_log 30 ()) = Panic ''bget: no buffers''"
  using commit_full_log_panics [of 0 "sample_log 30 ()"] sample_log_inv [of 30 "()"]
  by (simp add: LOGBLOCKS_def MAXOPBLOCKS_def)

subsection \<open>Beginning and ending an operation\<close>



text \<open>
  C9. The last operation to end commits: when one operation is outstanding, \<open>end_op\<close> puts every block
  of the transaction on the disk, empties the log and leaves no operation outstanding and no commit in
  progress, with the contents of all blocks outside the log unchanged.
\<close>

theorem end_op_commits:
  fixes s :: "'a log_state_scheme"
  assumes "log_inv p {} s" "log_outstanding s = 1" "log_committing s = 0" "lh_n s < int NBUF"
  shows "\<exists>t. end_op s = Ok () t \<and> log_inv p {} t \<and> log_outstanding t = 0 \<and> log_committing t = 0 \<and> lh_n t = 0 \<and>
    (\<forall>m. home (log_start s) m \<longrightarrow> disk t m = view s m \<and> view t m = view s m)"
proof -
  let ?s = "s\<lparr>log_outstanding := 0, log_committing := 1\<rparr>"
  have r: "running p s" using assms(1) by (simp add: log_inv_def cache_inv_def)
  have "log_inv p {} ?s" using assms(1) by (simp add: log_inv_def lh_pins_def)
  then obtain t x where t: "commit ?s = Ok () t" "log_inv p {} t" "lh_n t = 0" "bc_rest t = bc_rest (?s\<lparr>uart_thr := x, lh_n := 0\<rparr>)"
      "\<forall>m. home (log_start s) m \<longrightarrow> disk t m = view s m \<and> view t m = view s m"
    using commit_log_inv [of p ?s] assms(4) by auto
  have rt: "running p t" using t(2) by (simp add: log_inv_def cache_inv_def)
  note f = rest_log [OF t(4)]
  let ?t = "t\<lparr>log_committing := 0\<rparr>"
  have 2: "andthen (acquire L_log t) (\<lambda>_ s. andthen (wakeup (Some Ch_log) (s\<lparr>log_committing := 0\<rparr>)) (\<lambda>_ s. release L_log s)) = Ok () ?t"
    using runningD [OF rt] by (simp add: lock_simps wakeup_eq)
  have "end_op s = andthen (commit ?s) (\<lambda>_ s. andthen (acquire L_log s) (\<lambda>_ s.
      andthen (wakeup (Some Ch_log) (s\<lparr>log_committing := 0\<rparr>)) (\<lambda>_ s. release L_log s)))"
    using runningD [OF r] assms(2,3) by (simp add: end_op_def lock_simps Let_def)
  then have "end_op s = Ok () ?t" using t(1) 2 by simp
  moreover have "log_inv p {} ?t" using t(2) by (simp add: log_inv_def lh_pins_def)
  ultimately show ?thesis using t(3,5) f by (intro exI [of _ ?t]) simp
qed

theorem end_op_commits_witness:
  "\<exists>t. end_op (sample_log 3 ()) = Ok () t \<and> lh_n t = 0 \<and> log_outstanding t = 0"
  using end_op_commits [of 0 "sample_log 3 ()"] sample_log_inv [of 3 "()"]
  by (auto simp: LOGBLOCKS_def MAXOPBLOCKS_def NBUF_def)

end
