(* ===== verification/Fs.thy ===== *)
theory Fs
  imports Log
begin

section \<open>Blocks, inodes, directories and paths (fs.c)\<close>

text \<open>
  An inode pointer is an index into \<open>itable.inode[]\<close>, or \<open>None\<close> for the null pointer where the code
  tests for it.  Strings and local structures are lists of bytes.  Loops over the blocks, inodes or
  entries of the disk run over natural numbers: the file system is far smaller than the range of
  \<open>int\<close> and \<open>uint\<close>.
\<close>

record inode =
  i_dev :: uint32
  i_inum :: uint32
  i_ref :: int
  i_valid :: bool
  i_type :: uint16
  i_major :: uint16
  i_minor :: uint16
  i_nlink :: uint16
  i_size :: uint32
  i_addrs :: "uint32 list"

record fs_state = log_state +
  fs_sb :: superblock
  itab :: "nat \<Rightarrow> inode"

abbreviation set_inode :: "nat \<Rightarrow> (inode \<Rightarrow> inode) \<Rightarrow> 'a fs_state_scheme \<Rightarrow> 'a fs_state_scheme" where
  "set_inode ip f s \<equiv> s\<lparr>itab := (itab s)(ip := f (itab s ip))\<rparr>"

definition readsb :: "uint32 \<Rightarrow> 'a fs_state_scheme \<Rightarrow> (unit, 'a fs_state_scheme) outcome" where
  "readsb dev s =
     andthen (bread dev 1 s) (\<lambda>bp s.
     brelse bp (s\<lparr>fs_sb := bytes_superblock (take sizeof_superblock (b_data (bufs s bp)))\<rparr>))"

subsection \<open>Blocks\<close>

definition bzero :: "uint32 \<Rightarrow> uint32 \<Rightarrow> 'a fs_state_scheme \<Rightarrow> (unit, 'a fs_state_scheme) outcome" where
  "bzero dev bno s =
     andthen (bread dev bno s) (\<lambda>bp s.
     andthen (log_write bp (put_data bp (replicate BSIZE 0) s)) (\<lambda>_ s.
     brelse bp s))"

text \<open>Bit \<open>bi\<close> of a bitmap block.\<close>

abbreviation bmask :: "nat \<Rightarrow> byte" where
  "bmask bi \<equiv> push_bit (bi mod 8) 1"

definition balloc_in :: "uint32 \<Rightarrow> nat \<Rightarrow> 'a fs_state_scheme \<Rightarrow> (uint32 option, 'a fs_state_scheme) outcome" where
  "balloc_in dev b s =
     andthen (bread dev (BBLOCK (of_nat b) (fs_sb s)) s) (\<lambda>bp s.
     let d = b_data (bufs s bp) in
     case find (\<lambda>bi. d ! (bi div 8) AND bmask bi = 0) [0..<min BPB (unat (sb_size (fs_sb s)) - b)] of
       Some bi \<Rightarrow>
         andthen (log_write bp (put_data bp (d[bi div 8 := d ! (bi div 8) OR bmask bi]) s)) (\<lambda>_ s.
         andthen (brelse bp s) (\<lambda>_ s.
         andthen (bzero dev (of_nat (b + bi)) s) (\<lambda>_ s. Ok (Some (of_nat (b + bi))) s)))
     | None \<Rightarrow> andthen (brelse bp s) (\<lambda>_ s. Ok None s))"

definition balloc :: "uint32 \<Rightarrow> 'a fs_state_scheme \<Rightarrow> (uint32, 'a fs_state_scheme) outcome" where
  "balloc dev s =
     andthen (forK [0..<(unat (sb_size (fs_sb s)) + BPB - 1) div BPB] (\<lambda>k s. balloc_in dev (k * BPB) s) s) (\<lambda>r s.
     case r of
       Some b \<Rightarrow> Ok b s
     | None \<Rightarrow> andthen (printf (''balloc: out of blocks'' @ [CHR 0x0A]) [] s) (\<lambda>_ s. Ok 0 s))"

definition bfree :: "uint32 \<Rightarrow> uint32 \<Rightarrow> 'a fs_state_scheme \<Rightarrow> (unit, 'a fs_state_scheme) outcome" where
  "bfree dev b s =
     andthen (bread dev (BBLOCK b (fs_sb s)) s) (\<lambda>bp s.
     let bi = unat b mod BPB; d = b_data (bufs s bp) in
     if d ! (bi div 8) AND bmask bi = 0 then Panic ''freeing free block''
     else andthen (log_write bp (put_data bp (d[bi div 8 := d ! (bi div 8) AND NOT (bmask bi)]) s)) (\<lambda>_ s.
          brelse bp s))"

subsection \<open>Inodes\<close>

definition iinit :: "'a fs_state_scheme \<Rightarrow> 'a fs_state_scheme" where
  "iinit s = fold (\<lambda>i s. initsleeplock (SL_inode i) ''inode'' s) [0..<NINODE] (initlock L_itable ''itable'' s)"

definition iget :: "uint32 \<Rightarrow> uint32 \<Rightarrow> 'a fs_state_scheme \<Rightarrow> (nat, 'a fs_state_scheme) outcome" where
  "iget dev inum s =
     andthen (acquire L_itable s) (\<lambda>_ s.
     case find (\<lambda>ip. i_ref (itab s ip) > 0 \<and> i_dev (itab s ip) = dev \<and> i_inum (itab s ip) = inum) [0..<NINODE] of
       Some ip \<Rightarrow> andthen (release L_itable (set_inode ip (\<lambda>i. i\<lparr>i_ref := i_ref i + 1\<rparr>) s)) (\<lambda>_ s. Ok ip s)
     | None \<Rightarrow>
         (case find (\<lambda>ip. i_ref (itab s ip) = 0) [0..<NINODE] of
            None \<Rightarrow> Panic ''iget: no inodes''
          | Some ip \<Rightarrow>
              andthen (release L_itable (set_inode ip (\<lambda>i. i\<lparr>i_dev := dev, i_inum := inum, i_ref := 1, i_valid := False\<rparr>) s))
                (\<lambda>_ s. Ok ip s)))"

definition ialloc :: "uint32 \<Rightarrow> uint16 \<Rightarrow> 'a fs_state_scheme \<Rightarrow> (nat option, 'a fs_state_scheme) outcome" where
  "ialloc dev type s =
     andthen (forK [1..<unat (sb_ninodes (fs_sb s))] (\<lambda>inum s.
       andthen (bread dev (IBLOCK (of_nat inum) (fs_sb s)) s) (\<lambda>bp s.
       let d = b_data (bufs s bp) in
       if di_type (get_dinode d (inum mod IPB)) = 0 then
         andthen (log_write bp (put_data bp (put_dinode d (inum mod IPB)
           \<lparr>di_type = type, di_major = 0, di_minor = 0, di_nlink = 0, di_size = 0, di_addrs = replicate (NDIRECT + 1) 0\<rparr>) s)) (\<lambda>_ s.
         andthen (brelse bp s) (\<lambda>_ s.
         andthen (iget dev (of_nat inum) s) (\<lambda>ip s. Ok (Some ip) s)))
       else andthen (brelse bp s) (\<lambda>_ s. Ok None s))) s) (\<lambda>r s.
     case r of
       Some ip \<Rightarrow> Ok (Some ip) s
     | None \<Rightarrow> andthen (printf (''ialloc: no inodes'' @ [CHR 0x0A]) [] s) (\<lambda>_ s. Ok None s))"

text \<open>The copy of an inode on disk.\<close>

definition dinode_of :: "inode \<Rightarrow> dinode" where
  "dinode_of i = \<lparr>di_type = i_type i, di_major = i_major i, di_minor = i_minor i, di_nlink = i_nlink i,
     di_size = i_size i, di_addrs = i_addrs i\<rparr>"

definition iupdate :: "nat \<Rightarrow> 'a fs_state_scheme \<Rightarrow> (unit, 'a fs_state_scheme) outcome" where
  "iupdate ip s =
     andthen (bread (i_dev (itab s ip)) (IBLOCK (i_inum (itab s ip)) (fs_sb s)) s) (\<lambda>bp s.
     let k = unat (i_inum (itab s ip)) mod IPB in
     andthen (log_write bp (put_data bp (put_dinode (b_data (bufs s bp)) k (dinode_of (itab s ip))) s)) (\<lambda>_ s.
     brelse bp s))"

definition idup :: "nat option \<Rightarrow> 'a fs_state_scheme \<Rightarrow> (nat option, 'a fs_state_scheme) outcome" where
  "idup ip s =
     andthen (acquire L_itable s) (\<lambda>_ s. deref ip (\<lambda>i.
     andthen (release L_itable (set_inode i (\<lambda>i. i\<lparr>i_ref := i_ref i + 1\<rparr>) s)) (\<lambda>_ s. Ok ip s)))"

definition ilock_load :: "nat \<Rightarrow> 'a fs_state_scheme \<Rightarrow> (unit, 'a fs_state_scheme) outcome" where
  "ilock_load ip s =
     (if \<not> i_valid (itab s ip) then
        andthen (bread (i_dev (itab s ip)) (IBLOCK (i_inum (itab s ip)) (fs_sb s)) s) (\<lambda>bp s.
        let di = get_dinode (b_data (bufs s bp)) (unat (i_inum (itab s ip)) mod IPB);
            s = set_inode ip (\<lambda>i. i\<lparr>i_type := di_type di, i_major := di_major di, i_minor := di_minor di,
                  i_nlink := di_nlink di, i_size := di_size di, i_addrs := di_addrs di\<rparr>) s
        in andthen (brelse bp s) (\<lambda>_ s.
           let s = set_inode ip (\<lambda>i. i\<lparr>i_valid := True\<rparr>) s
           in if i_type (itab s ip) = 0 then Panic ''ilock: no type'' else Ok () s))
      else Ok () s)"

definition ilock :: "nat option \<Rightarrow> 'a fs_state_scheme \<Rightarrow> (unit, 'a fs_state_scheme) outcome" where
  "ilock ip s =
     (case ip of
        None \<Rightarrow> Panic ''ilock''
      | Some i \<Rightarrow>
          if i_ref (itab s i) < 1 then Panic ''ilock''
          else andthen (acquiresleep (SL_inode i) s) (\<lambda>_ s. ilock_load i s))"

text \<open>What is left of \<open>ilock\<close> when the process has slept in \<open>acquiresleep\<close>.\<close>

definition ilock_resume :: "nat \<Rightarrow> bool \<Rightarrow> nat \<Rightarrow> 'a fs_state_scheme \<Rightarrow> (unit, 'a fs_state_scheme) outcome" where
  "ilock_resume p intena0 i s = andthen (acquiresleep_resume p intena0 (SL_inode i) s) (\<lambda>_ s. ilock_load i s)"

definition iunlock :: "nat option \<Rightarrow> 'a fs_state_scheme \<Rightarrow> (unit, 'a fs_state_scheme) outcome" where
  "iunlock ip s =
     (case ip of
        None \<Rightarrow> Panic ''iunlock''
      | Some i \<Rightarrow>
          andthen (holdingsleep (SL_inode i) s) (\<lambda>h s.
          if \<not> h \<or> i_ref (itab s i) < 1 then Panic ''iunlock'' else releasesleep (SL_inode i) s))"

definition itrunc :: "nat \<Rightarrow> 'a fs_state_scheme \<Rightarrow> (unit, 'a fs_state_scheme) outcome" where
  "itrunc ip s =
     andthen (forK [0..<NDIRECT] (\<lambda>i s.
       if i_addrs (itab s ip) ! i \<noteq> 0 then
         andthen (bfree (i_dev (itab s ip)) (i_addrs (itab s ip) ! i) s) (\<lambda>_ s.
         Ok (None :: unit option) (set_inode ip (\<lambda>x. x\<lparr>i_addrs := (i_addrs x)[i := 0]\<rparr>) s))
       else Ok None s) s) (\<lambda>_ s.
     andthen (if i_addrs (itab s ip) ! NDIRECT \<noteq> 0 then
         andthen (bread (i_dev (itab s ip)) (i_addrs (itab s ip) ! NDIRECT) s) (\<lambda>bp s.
         andthen (forK [0..<NINDIRECT] (\<lambda>j s.
           if get32 (b_data (bufs s bp)) (4 * j) \<noteq> 0
           then andthen (bfree (i_dev (itab s ip)) (get32 (b_data (bufs s bp)) (4 * j)) s) (\<lambda>_ s. Ok (None :: unit option) s)
           else Ok None s) s) (\<lambda>_ s.
         andthen (brelse bp s) (\<lambda>_ s.
         andthen (bfree (i_dev (itab s ip)) (i_addrs (itab s ip) ! NDIRECT) s) (\<lambda>_ s.
         Ok () (set_inode ip (\<lambda>x. x\<lparr>i_addrs := (i_addrs x)[NDIRECT := 0]\<rparr>) s)))))
       else Ok () s) (\<lambda>_ s.
     iupdate ip (set_inode ip (\<lambda>x. x\<lparr>i_size := 0\<rparr>) s)))"

definition iput :: "nat option \<Rightarrow> 'a fs_state_scheme \<Rightarrow> (unit, 'a fs_state_scheme) outcome" where
  "iput ip s =
     andthen (acquire L_itable s) (\<lambda>_ s. deref ip (\<lambda>i.
     andthen (if i_ref (itab s i) = 1 \<and> i_valid (itab s i) \<and> i_nlink (itab s i) = 0 then
         andthen (acquiresleep (SL_inode i) s) (\<lambda>_ s.
         andthen (release L_itable s) (\<lambda>_ s.
         andthen (itrunc i s) (\<lambda>_ s.
         andthen (iupdate i (set_inode i (\<lambda>x. x\<lparr>i_type := 0\<rparr>) s)) (\<lambda>_ s.
         andthen (releasesleep (SL_inode i) (set_inode i (\<lambda>x. x\<lparr>i_valid := False\<rparr>) s)) (\<lambda>_ s.
         acquire L_itable s)))))
       else Ok () s) (\<lambda>_ s.
     release L_itable (set_inode i (\<lambda>x. x\<lparr>i_ref := i_ref x - 1\<rparr>) s))))"

definition iunlockput :: "nat option \<Rightarrow> 'a fs_state_scheme \<Rightarrow> (unit, 'a fs_state_scheme) outcome" where
  "iunlockput ip s = andthen (iunlock ip s) (\<lambda>_ s. iput ip s)"

definition ireclaim :: "uint32 \<Rightarrow> 'a fs_state_scheme \<Rightarrow> (unit, 'a fs_state_scheme) outcome" where
  "ireclaim dev s =
     andthen (forK [1..<unat (sb_ninodes (fs_sb s))] (\<lambda>inum s.
       andthen (bread dev (IBLOCK (of_nat inum) (fs_sb s)) s) (\<lambda>bp s.
       let di = get_dinode (b_data (bufs s bp)) (inum mod IPB) in
       andthen (if di_type di \<noteq> 0 \<and> di_nlink di = 0
                then andthen (printf (''ireclaim: orphaned inode %d'' @ [CHR 0x0A]) [Arg (of_nat inum)] s) (\<lambda>_ s.
                     andthen (iget dev (of_nat inum) s) (\<lambda>ip s. Ok (Some ip) s))
                else Ok None s) (\<lambda>ip s.
       andthen (brelse bp s) (\<lambda>_ s.
       case ip of
         None \<Rightarrow> Ok (None :: unit option) s
       | Some i \<Rightarrow>
           andthen (begin_op s) (\<lambda>_ s.
           andthen (ilock (Some i) s) (\<lambda>_ s.
           andthen (iunlock (Some i) s) (\<lambda>_ s.
           andthen (iput (Some i) s) (\<lambda>_ s.
           andthen (end_op s) (\<lambda>_ s. Ok None s)))))))) ) s) (\<lambda>_ s. Ok () s)"

definition fsinit :: "uint32 \<Rightarrow> 'a fs_state_scheme \<Rightarrow> (unit, 'a fs_state_scheme) outcome" where
  "fsinit dev s =
     andthen (readsb dev s) (\<lambda>_ s.
     if sb_magic (fs_sb s) \<noteq> FSMAGIC then Panic ''invalid file system''
     else andthen (initlog dev (fs_sb s) s) (\<lambda>_ s. ireclaim dev s))"

end
