(* ===== verification/Path.thy ===== *)
theory Path
  imports Fs
begin

section \<open>Inode contents, directories and paths (fs.c)\<close>

text \<open>
  Reading and writing the data of an inode, looking up and adding directory entries, and walking
  path names.  The destination or source of a transfer is a user address, a kernel address, or the
  bytes of a local object (\<open>copy_dst\<close>, \<open>copy_src\<close>).
\<close>

subsection \<open>Inode contents\<close>

definition bmap :: "nat \<Rightarrow> uint32 \<Rightarrow> 'a fs_state_scheme \<Rightarrow> (uint32, 'a fs_state_scheme) outcome" where
  "bmap ip bn s =
     (if unat bn < NDIRECT then
        let addr = i_addrs (itab s ip) ! unat bn in
        if addr = 0
        then andthen (balloc (i_dev (itab s ip)) s) (\<lambda>addr s.
             if addr = 0 then Ok 0 s
             else Ok addr (set_inode ip (\<lambda>x. x\<lparr>i_addrs := (i_addrs x)[unat bn := addr]\<rparr>) s))
        else Ok addr s
      else let bn = unat bn - NDIRECT in
      if bn < NINDIRECT then
        andthen (if i_addrs (itab s ip) ! NDIRECT = 0
                 then andthen (balloc (i_dev (itab s ip)) s) (\<lambda>addr s.
                      if addr = 0 then Ok 0 s
                      else Ok addr (set_inode ip (\<lambda>x. x\<lparr>i_addrs := (i_addrs x)[NDIRECT := addr]\<rparr>) s))
                 else Ok (i_addrs (itab s ip) ! NDIRECT) s) (\<lambda>addr s.
        if addr = 0 then Ok 0 s
        else andthen (bread (i_dev (itab s ip)) addr s) (\<lambda>bp s.
             let addr = get32 (b_data (bufs s bp)) (4 * bn) in
             andthen (if addr = 0
                      then andthen (balloc (i_dev (itab s ip)) s) (\<lambda>addr s.
                           if addr \<noteq> 0
                           then andthen (log_write bp (put_data bp (put32 (b_data (bufs s bp)) (4 * bn) addr) s)) (\<lambda>_ s. Ok addr s)
                           else Ok addr s)
                      else Ok addr s) (\<lambda>addr s.
             andthen (brelse bp s) (\<lambda>_ s. Ok addr s))))
      else Panic ''bmap: out of range'')"

record stat =
  st_dev :: uint32
  st_ino :: uint32
  st_type :: uint16
  st_nlink :: uint16
  st_size :: uint64

definition stati :: "inode \<Rightarrow> stat" where
  "stati ip = \<lparr>st_dev = i_dev ip, st_ino = i_inum ip, st_type = i_type ip, st_nlink = i_nlink ip, st_size = ucast (i_size ip)\<rparr>"

text \<open>The number of bytes of one round of the loops of \<open>readi\<close> and \<open>writei\<close>.\<close>

definition chunk :: "nat \<Rightarrow> uint32 \<Rightarrow> nat" where
  "chunk left0 off = min left0 (BSIZE - unat off mod BSIZE)"

lemma chunk_pos: "0 < left0 \<Longrightarrow> 0 < chunk left0 off"
  by (simp add: chunk_def BSIZE_def)

lemma chunk_le: "chunk left0 off \<le> left0"
  by (simp add: chunk_def)

lemma chunk_less: "\<not> n \<le> tot \<Longrightarrow> n - (tot + chunk (n - tot) off) < n - tot"
  using chunk_pos [of "n - tot" off] by auto

function readi_loop ::
  "nat \<Rightarrow> copy_dst \<Rightarrow> uint32 \<Rightarrow> nat \<Rightarrow> nat \<Rightarrow> 'a fs_state_scheme \<Rightarrow> (int \<times> copy_dst, 'a fs_state_scheme) outcome" where
  "readi_loop ip dst off tot n s =
     (if n \<le> tot then Ok (int tot, dst) s
      else andthen (bmap ip (off div of_nat BSIZE) s) (\<lambda>addr s.
           if addr = 0 then Ok (int tot, dst) s
           else andthen (bread (i_dev (itab s ip)) addr s) (\<lambda>bp s.
                let m = chunk (n - tot) off in
                andthen (either_copyout dst (take m (drop (unat off mod BSIZE) (b_data (bufs s bp)))) s) (\<lambda>(r, dst) s.
                if r = - 1 then andthen (brelse bp s) (\<lambda>_ s. Ok (- 1, dst) s)
                else andthen (brelse bp s) (\<lambda>_ s.
                     readi_loop ip (dst_add dst m) (off + of_nat m) (tot + m) n s)))))"
  by pat_completeness auto
termination
  by (relation "measure (\<lambda>(ip, dst, off, tot, n, s). n - tot)") (auto simp: chunk_less)

declare readi_loop.simps [simp del]

definition readi ::
  "nat \<Rightarrow> copy_dst \<Rightarrow> uint32 \<Rightarrow> uint32 \<Rightarrow> 'a fs_state_scheme \<Rightarrow> (int \<times> copy_dst, 'a fs_state_scheme) outcome" where
  "readi ip dst off n s =
     (if off > i_size (itab s ip) \<or> off + n < off then Ok (0, dst) s
      else let n = (if off + n > i_size (itab s ip) then i_size (itab s ip) - off else n)
           in readi_loop ip dst off 0 (unat n) s)"

function writei_loop ::
  "nat \<Rightarrow> copy_src \<Rightarrow> uint32 \<Rightarrow> nat \<Rightarrow> nat \<Rightarrow> 'a fs_state_scheme \<Rightarrow> (nat \<times> uint32, 'a fs_state_scheme) outcome" where
  "writei_loop ip src off tot n s =
     (if n \<le> tot then Ok (tot, off) s
      else andthen (bmap ip (off div of_nat BSIZE) s) (\<lambda>addr s.
           if addr = 0 then Ok (tot, off) s
           else andthen (bread (i_dev (itab s ip)) addr s) (\<lambda>bp s.
                let m = chunk (n - tot) off in
                andthen (either_copyin src m s) (\<lambda>(r, bs) s.
                let s = put_data bp (put_at (b_data (bufs s bp)) (unat off mod BSIZE) bs) s in
                if r = - 1 then andthen (brelse bp s) (\<lambda>_ s. Ok (tot, off) s)
                else andthen (log_write bp s) (\<lambda>_ s.
                     andthen (brelse bp s) (\<lambda>_ s.
                     writei_loop ip (src_add src m) (off + of_nat m) (tot + m) n s))))))"
  by pat_completeness auto
termination
  by (relation "measure (\<lambda>(ip, src, off, tot, n, s). n - tot)") (auto simp: chunk_less)

declare writei_loop.simps [simp del]

definition writei ::
  "nat \<Rightarrow> copy_src \<Rightarrow> uint32 \<Rightarrow> uint32 \<Rightarrow> 'a fs_state_scheme \<Rightarrow> (int, 'a fs_state_scheme) outcome" where
  "writei ip src off n s =
     (if off > i_size (itab s ip) \<or> off + n < off then Ok (- 1) s
      else if off + n > of_nat (MAXFILE * BSIZE) then Ok (- 1) s
      else andthen (writei_loop ip src off 0 (unat n) s) (\<lambda>(tot, off) s.
           let s = (if off > i_size (itab s ip) then set_inode ip (\<lambda>x. x\<lparr>i_size := off\<rparr>) s else s)
           in andthen (iupdate ip s) (\<lambda>_ s. Ok (int tot) s)))"

subsection \<open>Directories\<close>

definition namecmp :: "byte list \<Rightarrow> byte list \<Rightarrow> int" where
  "namecmp s t = strncmp s t DIRSIZ"

text \<open>Reading the entry at an offset into a local \<open>struct dirent\<close>: the count and the bytes stored.\<close>

definition read_dirent :: "nat \<Rightarrow> uint32 \<Rightarrow> 'a fs_state_scheme \<Rightarrow> (int \<times> byte list, 'a fs_state_scheme) outcome" where
  "read_dirent dp off s =
     andthen (readi dp (BufDst []) off (of_nat sizeof_dirent) s) (\<lambda>(r, dst) s.
     Ok (r, (case dst of BufDst bs \<Rightarrow> bs | _ \<Rightarrow> [])) s)"

text \<open>The number of rounds of a loop over the entries of a directory.\<close>

definition dirents :: "inode \<Rightarrow> nat" where
  "dirents dp = (unat (i_size dp) + sizeof_dirent - 1) div sizeof_dirent"

definition dirlookup ::
  "nat \<Rightarrow> byte list \<Rightarrow> 'a fs_state_scheme \<Rightarrow> ((nat \<times> uint32) option, 'a fs_state_scheme) outcome" where
  "dirlookup dp name s =
     (if i_type (itab s dp) \<noteq> T_DIR then Panic ''dirlookup not DIR''
      else forK [0..<dirents (itab s dp)] (\<lambda>k s.
        let off = of_nat (k * sizeof_dirent) in
        andthen (read_dirent dp off s) (\<lambda>(r, bs) s.
        if r \<noteq> int sizeof_dirent then Panic ''dirlookup read''
        else let de = bytes_dirent bs in
        if de_inum de = 0 then Ok None s
        else if namecmp name (de_name de) = 0
        then andthen (iget (i_dev (itab s dp)) (ucast (de_inum de)) s) (\<lambda>ip s. Ok (Some (ip, off)) s)
        else Ok None s)) s)"

definition dirlink :: "nat \<Rightarrow> byte list \<Rightarrow> uint32 \<Rightarrow> 'a fs_state_scheme \<Rightarrow> (int, 'a fs_state_scheme) outcome" where
  "dirlink dp name inum s =
     andthen (dirlookup dp name s) (\<lambda>r s.
     case r of
       Some (ip, off) \<Rightarrow> andthen (iput (Some ip) s) (\<lambda>_ s. Ok (- 1) s)
     | None \<Rightarrow>
         andthen (forK [0..<dirents (itab s dp)] (\<lambda>k s.
           andthen (read_dirent dp (of_nat (k * sizeof_dirent)) s) (\<lambda>(r, bs) s.
           if r \<noteq> int sizeof_dirent then Panic ''dirlink read''
           else if de_inum (bytes_dirent bs) = 0 then Ok (Some (of_nat (k * sizeof_dirent))) s
           else Ok None s)) s) (\<lambda>r s.
         let off = (case r of Some off \<Rightarrow> off | None \<Rightarrow> of_nat (dirents (itab s dp) * sizeof_dirent));
             de = \<lparr>de_inum = ucast inum, de_name = strncpy DIRSIZ (replicate DIRSIZ 0) name\<rparr>
         in andthen (writei dp (BufSrc (dirent_bytes de)) off (of_nat sizeof_dirent) s) (\<lambda>r s.
            if r \<noteq> int sizeof_dirent then Ok (- 1) s else Ok 0 s)))"

subsection \<open>Paths\<close>

abbreviation slash :: byte where
  "slash \<equiv> 47"

text \<open>
  The rest of the path and the array \<open>name\<close> after the call; \<open>None\<close> when there is no name left.
\<close>

definition skipelem :: "byte list \<Rightarrow> byte list \<Rightarrow> (byte list \<times> byte list) option" where
  "skipelem path name =
     (let s = dropWhile (\<lambda>c. c = slash) path in
      if hd0 s = 0 then None
      else let elem = takeWhile (\<lambda>c. c \<noteq> slash \<and> c \<noteq> 0) s;
               path = drop (length elem) s;
               name = (if length elem \<ge> DIRSIZ then put_at name 0 (take DIRSIZ elem)
                       else put_at name 0 (elem @ [0]))
           in Some (dropWhile (\<lambda>c. c = slash) path, name))"

lemma skipelem_shorter: "skipelem path name = Some (path', name') \<Longrightarrow> length path' < length path"
proof -
  let ?s = "dropWhile (\<lambda>c. c = slash) path"
  let ?e = "takeWhile (\<lambda>c. c \<noteq> slash \<and> c \<noteq> 0) ?s"
  assume a: "skipelem path name = Some (path', name')"
  then have s: "hd0 ?s \<noteq> 0" "path' = dropWhile (\<lambda>c. c = slash) (drop (length ?e) ?s)"
    by (auto simp: skipelem_def Let_def split: if_splits)
  obtain c cs where c: "?s = c # cs" using s(1) by (cases ?s) auto
  then have "c \<noteq> slash" using hd_dropWhile [of "\<lambda>c. c = slash" path] by auto
  then have "0 < length ?e" using s(1) unfolding c by simp
  then have "length (drop (length ?e) ?s) < length ?s" using c by simp
  moreover have "length path' \<le> length (drop (length ?e) ?s)" unfolding s(2) by (rule length_dropWhile_le)
  ultimately show ?thesis using length_dropWhile_le [of "\<lambda>c. c = slash" path] by linarith
qed

function namex_loop ::
  "nat option \<Rightarrow> byte list \<Rightarrow> bool \<Rightarrow> byte list \<Rightarrow> 'a fs_state_scheme \<Rightarrow> (nat option \<times> byte list, 'a fs_state_scheme) outcome" where
  "namex_loop ip path nameiparent name s =
     (case skipelem path name of
        None \<Rightarrow>
          if nameiparent then andthen (iput ip s) (\<lambda>_ s. Ok (None, name) s) else Ok (ip, name) s
      | Some (path, name) \<Rightarrow>
          andthen (ilock ip s) (\<lambda>_ s. deref ip (\<lambda>i.
          if i_type (itab s i) \<noteq> T_DIR then andthen (iunlockput ip s) (\<lambda>_ s. Ok (None, name) s)
          else if nameiparent \<and> hd0 path = 0 then andthen (iunlock ip s) (\<lambda>_ s. Ok (ip, name) s)
          else andthen (dirlookup i name s) (\<lambda>next0 s.
               case next0 of
                 None \<Rightarrow> andthen (iunlockput ip s) (\<lambda>_ s. Ok (None, name) s)
               | Some (nx, off) \<Rightarrow> andthen (iunlockput ip s) (\<lambda>_ s. namex_loop (Some nx) path nameiparent name s)))))"
  by pat_completeness auto
termination
  by (relation "measure (\<lambda>(ip, path, np, name, s). length path)") (auto simp: skipelem_shorter)

declare namex_loop.simps [simp del]

definition namex ::
  "byte list \<Rightarrow> bool \<Rightarrow> byte list \<Rightarrow> 'a fs_state_scheme \<Rightarrow> (nat option \<times> byte list, 'a fs_state_scheme) outcome" where
  "namex path nameiparent name s =
     andthen (if hd0 path = slash then andthen (iget ROOTDEV ROOTINO s) (\<lambda>ip s. Ok (Some ip) s)
              else andthen (myproc s) (\<lambda>p s. deref p (\<lambda>p. idup (p_cwd (procs s p)) s))) (\<lambda>ip s.
     namex_loop ip path nameiparent name s)"

definition namei :: "byte list \<Rightarrow> 'a fs_state_scheme \<Rightarrow> (nat option, 'a fs_state_scheme) outcome" where
  "namei path s = andthen (namex path False (replicate DIRSIZ 0) s) (\<lambda>(ip, name) s. Ok ip s)"

definition nameiparent ::
  "byte list \<Rightarrow> byte list \<Rightarrow> 'a fs_state_scheme \<Rightarrow> (nat option \<times> byte list, 'a fs_state_scheme) outcome" where
  "nameiparent path name s = namex path True name s"

end
