(* ===== verification/Ringbuf.thy ===== *)
theory Ringbuf
  imports Prelude
begin

section \<open>Circular buffers\<close>

text \<open>
  The console and the pipes keep bytes in an array indexed by counters that only grow, wrap around at
  \<open>2 ^ 32\<close> and are reduced modulo the size of the array, a power of two.  \<open>ring_list buf r w\<close> are the
  bytes between the counters \<open>r\<close> and \<open>w\<close>, in order.
\<close>

definition ring_list :: "byte list \<Rightarrow> uint32 \<Rightarrow> uint32 \<Rightarrow> byte list" where
  "ring_list buf r w = map (\<lambda>i. buf ! (unat (r + of_nat i) mod length buf)) [0..<unat (w - r)]"

lemma length_ring_list [simp]: "length (ring_list buf r w) = unat (w - r)"
  by (simp add: ring_list_def)

lemma ring_list_empty [simp]: "ring_list buf r r = []"
  by (simp add: ring_list_def)

lemma ring_list_Nil_iff: "ring_list buf r w = [] \<longleftrightarrow> r = w"
  using length_ring_list [of buf r w] by (auto simp: unat_eq_0 simp del: length_ring_list)

lemma unat_add_mod:
  assumes "n dvd 2 ^ 32"
  shows "unat (r + of_nat i :: uint32) mod n = (unat r + i) mod n"
proof -
  have "unat (r + of_nat i :: uint32) = (unat r + i) mod 2 ^ 32"
    by (simp add: unat_word_ariths unsigned_of_nat take_bit_eq_mod mod_simps)
  then show ?thesis using assms by (simp add: mod_mod_cancel)
qed

lemma unat_plus_one: "r \<noteq> w \<Longrightarrow> unat (w - r) = Suc (unat (w - (r + 1)))" for r w :: uint32
proof -
  assume "r \<noteq> w"
  then have "w - r \<noteq> 0" by simp
  then have "unat (w - r - 1) = unat (w - r) - 1" "0 < unat (w - r)" by (simp_all add: unat_minus_one unat_gt_0)
  moreover have "w - r - 1 = w - (r + 1)" by (simp add: algebra_simps)
  ultimately show "unat (w - r) = Suc (unat (w - (r + 1)))" by simp
qed

lemma ring_list_pop:
  assumes "r \<noteq> w"
  shows "ring_list buf r w = buf ! (unat r mod length buf) # ring_list buf (r + 1) w"
proof (rule nth_equalityI)
  show "length (ring_list buf r w) = length (buf ! (unat r mod length buf) # ring_list buf (r + 1) w)"
    using unat_plus_one [OF assms] by simp
  fix i assume "i < length (ring_list buf r w)"
  then show "ring_list buf r w ! i = (buf ! (unat r mod length buf) # ring_list buf (r + 1) w) ! i"
    using unat_plus_one [OF assms] by (cases i) (simp_all add: ring_list_def add.assoc del: upt_Suc)
qed

lemma unat_succ: "unat (w - r) < n \<Longrightarrow> n < 2 ^ 32 \<Longrightarrow> unat (w + 1 - r) = Suc (unat (w - r))" for r w :: uint32
proof -
  assume a: "unat (w - r) < n" "n < 2 ^ 32"
  have e: "w + 1 - r = (w - r) + 1" by (simp add: algebra_simps)
  show ?thesis unfolding e using a unat_add_32 [of "w - r" 1] by simp
qed

lemma ring_list_push:
  assumes "unat (w - r) < length buf" "length buf dvd 2 ^ 32" "length buf < 2 ^ 32"
  shows "ring_list (buf[unat w mod length buf := x]) r (w + 1) = ring_list buf r w @ [x]"
proof -
  let ?n = "length buf" and ?k = "unat (w - r)"
  have w: "w = r + of_nat ?k" by simp
  have lt: "unat w mod ?n < ?n" using assms(1) by (intro mod_less_divisor) linarith
  have "unat w mod ?n \<noteq> unat (r + of_nat i) mod ?n" if "i < ?k" for i
  proof
    assume "unat w mod ?n = unat (r + of_nat i) mod ?n"
    then have "(unat r + i) mod ?n = (unat r + ?k) mod ?n"
      using unat_add_mod [OF assms(2)] w by metis
    then have "?n dvd (unat r + ?k) - (unat r + i)" using that by (intro mod_eq_dvd_iff_nat [THEN iffD1]) simp_all
    then have "?n dvd ?k - i" by simp
    then show False using that assms(1) by (auto dest: dvd_imp_le)
  qed
  then have "map (\<lambda>i. buf[unat w mod ?n := x] ! (unat (r + of_nat i) mod ?n)) [0..<?k] = ring_list buf r w"
    by (simp add: ring_list_def)
  moreover have "buf[unat w mod ?n := x] ! (unat (r + of_nat ?k) mod ?n) = x"
    using lt by simp
  ultimately show ?thesis
    using unat_succ [OF assms(1,3)] by (simp add: ring_list_def)
qed

lemma ring_list_unpush:
  assumes "r \<noteq> w"
  shows "ring_list buf r (w - 1) = butlast (ring_list buf r w)" "last (ring_list buf r w) = buf ! (unat (w - 1) mod length buf)"
proof -
  have "w - r \<noteq> 0" using assms by simp
  then have "unat (w - r - 1) = unat (w - r) - 1" "0 < unat (w - r)" by (simp_all add: unat_minus_one unat_gt_0)
  moreover have e: "w - 1 - r = w - r - 1" by (simp add: algebra_simps)
  ultimately have k: "unat (w - r) = Suc (unat (w - 1 - r))" unfolding e by simp
  have l: "r + of_nat (unat (w - 1 - r)) = w - 1" by simp
  show "ring_list buf r (w - 1) = butlast (ring_list buf r w)" unfolding ring_list_def k by simp
  show "last (ring_list buf r w) = buf ! (unat (w - 1) mod length buf)"
    unfolding ring_list_def k by (simp add: l)
qed

lemma ring_list_append:
  assumes "unat (w - r) + unat (e - w) < 2 ^ 32"
  shows "ring_list buf r e = ring_list buf r w @ ring_list buf w e"
proof -
  have "e - r = (w - r) + (e - w)" by simp
  then have n: "unat (e - r) = unat (w - r) + unat (e - w)" using unat_add_32 assms by metis
  have s: "r + of_nat (unat (w - r) + i) = w + of_nat i" for i :: nat by simp
  have "map (\<lambda>i. buf ! (unat (r + of_nat i) mod length buf)) [unat (w - r)..<unat (e - r)] = ring_list buf w e"
    by (rule nth_equalityI) (simp_all add: n ring_list_def s del: of_nat_add)
  moreover have "[0..<unat (e - r)] = [0..<unat (w - r)] @ [unat (w - r)..<unat (e - r)]"
    unfolding n by (rule upt_add_eq_append) simp
  ultimately show ?thesis by (simp add: ring_list_def del: upt_conv_Nil)
qed

text \<open>
  The contract of an array of fixed size that is used this way: appending a byte at the write counter extends the
  list between the counters, as long as it is not full.  The console and the pipes each interpret it for their size.
\<close>

locale ring_array =
  fixes N :: nat
  assumes divides: "N dvd 2 ^ 32" and small: "N < 2 ^ 32"
begin

lemma push:
  assumes "length buf = N" "unat (w - r) < N"
  shows "ring_list (buf[unat w mod N := x]) r (w + 1) = ring_list buf r w @ [x]"
  using ring_list_push [of w r buf x] assms divides small by simp

lemma grow: "unat (w - r) < N \<Longrightarrow> unat (w + 1 - r) = Suc (unat (w - r))" for r w :: uint32
  using unat_succ small by blast

end

end
