(* ===== verification/Console.thy ===== *)
theory Console
  imports Path Ringbuf
begin

section \<open>The console and the UART (console.c, uart.c)\<close>

text \<open>
  The input half of the console: the UART driver, the line editing of the interrupt handler, and the
  \<open>read\<close> and \<open>write\<close> functions of the console device.  The UART is outside the sources: its registers
  are fields of the state; \<open>uart_rhr\<close> are the input bytes it still holds.
\<close>

datatype devread = Consoleread
datatype devwrite = Consolewrite

record devsw =
  dev_read :: "devread option"
  dev_write :: "devwrite option"

record cons_state = fs_state +
  uart_ier :: byte
  uart_fcr :: byte
  uart_lcr :: byte
  uart_dll :: byte
  uart_dlm :: byte
  cons_buf :: "byte list"
  cons_r :: uint32
  cons_w :: uint32
  cons_e :: uint32
  devtab :: "nat \<Rightarrow> devsw"

definition CONSOLE :: nat where "CONSOLE = 1"
definition INPUT_BUF_SIZE :: nat where "INPUT_BUF_SIZE = 128"

subsection \<open>The UART\<close>

text \<open>
  A store to register \<open>reg\<close>.  With the baud latch set in the line control register, registers 0 and 1
  are the divisor.
\<close>

definition WriteReg :: "nat \<Rightarrow> byte \<Rightarrow> 'a cons_state_scheme \<Rightarrow> 'a cons_state_scheme" where
  "WriteReg reg v s =
     (if reg = 0 then (if uart_lcr s AND uart_bits LCR_BAUD_LATCH \<noteq> 0 then s\<lparr>uart_dll := v\<rparr> else write_thr v s)
      else if reg = 1 then (if uart_lcr s AND uart_bits LCR_BAUD_LATCH \<noteq> 0 then s\<lparr>uart_dlm := v\<rparr> else s\<lparr>uart_ier := v\<rparr>)
      else if reg = 2 then s\<lparr>uart_fcr := v\<rparr>
      else if reg = 3 then s\<lparr>uart_lcr := v\<rparr>
      else s)"

definition uartinit :: "'a cons_state_scheme \<Rightarrow> 'a cons_state_scheme" where
  "uartinit s =
     (let s = WriteReg 1 0 s;
          s = WriteReg 3 (uart_bits LCR_BAUD_LATCH) s;
          s = WriteReg 0 3 s;
          s = WriteReg 1 0 s;
          s = WriteReg 3 (uart_bits LCR_EIGHT_BITS) s;
          s = WriteReg 2 (uart_bits FCR_FIFO_ENABLE OR uart_bits FCR_FIFO_CLEAR) s;
          s = WriteReg 1 (uart_bits IER_TX_ENABLE OR uart_bits IER_RX_ENABLE) s
      in initlock L_tx ''uart'' s)"

text \<open>
  The loop of \<open>uartwrite\<close> with the bytes still to send; a thread that has slept for the transmitter
  continues in it.
\<close>

primrec uartwrite_loop :: "byte list \<Rightarrow> 'a cons_state_scheme \<Rightarrow> (unit, 'a cons_state_scheme) outcome" where
  "uartwrite_loop [] s = release L_tx s"
| "uartwrite_loop (b # bs) s =
     (if tx_busy s then sleep (Some Ch_tx) L_tx s
      else uartwrite_loop bs ((WriteReg 0 b s)\<lparr>tx_busy := True\<rparr>))"

definition uartwrite :: "byte list \<Rightarrow> 'a cons_state_scheme \<Rightarrow> (unit, 'a cons_state_scheme) outcome" where
  "uartwrite bs s = andthen (acquire L_tx s) (\<lambda>_ s. uartwrite_loop bs s)"

definition uartwrite_resume ::
  "nat \<Rightarrow> bool \<Rightarrow> byte list \<Rightarrow> 'a cons_state_scheme \<Rightarrow> (unit, 'a cons_state_scheme) outcome" where
  "uartwrite_resume p intena0 bs s = andthen (sleep_resume p intena0 L_tx s) (\<lambda>_ s. uartwrite_loop bs s)"

text \<open>Reading the receive register takes the byte from the device.\<close>

definition uartgetc :: "'a cons_state_scheme \<Rightarrow> int \<times> 'a cons_state_scheme" where
  "uartgetc s =
     (if uart_lsr s AND uart_bits LSR_RX_READY \<noteq> 0
      then (uint (hd0 (uart_rhr s)),
            s\<lparr>uart_rhr := tl (uart_rhr s),
              uart_lsr := (if tl (uart_rhr s) = [] then uart_lsr s AND NOT (uart_bits LSR_RX_READY) else uart_lsr s)\<rparr>)
      else (- 1, s))"

subsection \<open>Line editing\<close>

text \<open>Control characters.\<close>

definition C_ctrl :: "char \<Rightarrow> int" where
  "C_ctrl c = of_char c - of_char CHR ''@''"

definition cons_at :: "'a cons_state_scheme \<Rightarrow> uint32 \<Rightarrow> byte" where
  "cons_at s i = cons_buf s ! (unat i mod INPUT_BUF_SIZE)"

lemma unat_dec_less: "e \<noteq> w \<Longrightarrow> unat (e - 1 - w) < unat (e - w)" for e w :: uint32
proof -
  assume "e \<noteq> w"
  then have "e - w \<noteq> 0" by simp
  then have "unat (e - w - 1) = unat (e - w) - 1" "0 < unat (e - w)" by (simp_all add: unat_minus_one unat_gt_0)
  moreover have e: "e - 1 - w = e - w - 1" by (simp add: algebra_simps)
  ultimately show ?thesis unfolding e by simp
qed

text \<open>
  The loop that erases a line, with the write index \<open>w\<close> and the edit index \<open>e\<close> as parameters; the
  echoes do not change them.
\<close>

function kill_line :: "uint32 \<Rightarrow> uint32 \<Rightarrow> 'a cons_state_scheme \<Rightarrow> (unit, 'a cons_state_scheme) outcome" where
  "kill_line w e s =
     (if e \<noteq> w \<and> cons_at s (e - 1) \<noteq> 10
      then andthen (consputc BACKSPACE (s\<lparr>cons_e := e - 1\<rparr>)) (\<lambda>_ s. kill_line w (e - 1) s)
      else Ok () s)"
  by pat_completeness auto
termination
  by (relation "measure (\<lambda>(w, e, s). unat (e - w))") (auto simp: unat_dec_less)

declare kill_line.simps [simp del]

definition consoleintr :: "int \<Rightarrow> 'a cons_state_scheme \<Rightarrow> (unit, 'a cons_state_scheme) outcome" where
  "consoleintr c s =
     andthen (acquire L_cons s) (\<lambda>_ s.
     andthen
      (if c = C_ctrl CHR ''P'' then procdump s
       else if c = C_ctrl CHR ''U'' then kill_line (cons_w s) (cons_e s) s
       else if c = C_ctrl CHR ''H'' \<or> c = 0x7f then
         (if cons_e s \<noteq> cons_w s then consputc BACKSPACE (s\<lparr>cons_e := cons_e s - 1\<rparr>) else Ok () s)
       else if c \<noteq> 0 \<and> cons_e s - cons_r s < of_nat INPUT_BUF_SIZE then
         let c = (if c = 13 then 10 else c) in
         andthen (consputc c s) (\<lambda>_ s.
         let s = s\<lparr>cons_buf := (cons_buf s)[unat (cons_e s) mod INPUT_BUF_SIZE := word_of_int c], cons_e := cons_e s + 1\<rparr>
         in if c = 10 \<or> c = C_ctrl CHR ''D'' \<or> cons_e s - cons_r s = of_nat INPUT_BUF_SIZE
            then wakeup (Some Ch_cons) (s\<lparr>cons_w := cons_e s\<rparr>)
            else Ok () s)
       else Ok () s) (\<lambda>_ s.
     release L_cons s))"

text \<open>
  The loop of \<open>uartintr\<close> ends when the device has no more input; the device holds finitely many bytes,
  and one more round than that suffices.
\<close>

primrec uartintr_loop :: "nat \<Rightarrow> 'a cons_state_scheme \<Rightarrow> (unit, 'a cons_state_scheme) outcome" where
  "uartintr_loop 0 s = Spin s"
| "uartintr_loop (Suc k) s =
     (let (c, s) = uartgetc s
      in if c = - 1 then Ok () s else andthen (consoleintr c s) (\<lambda>_ s. uartintr_loop k s))"

definition uartintr :: "'a cons_state_scheme \<Rightarrow> (unit, 'a cons_state_scheme) outcome" where
  "uartintr s =
     andthen (acquire L_tx s) (\<lambda>_ s.
     andthen (if uart_lsr s AND uart_bits LSR_TX_IDLE \<noteq> 0 then wakeup (Some Ch_tx) (s\<lparr>tx_busy := False\<rparr>) else Ok () s) (\<lambda>_ s.
     andthen (release L_tx s) (\<lambda>_ s.
     uartintr_loop (Suc (length (uart_rhr s))) s)))"

subsection \<open>Reading and writing\<close>

definition consoleread_done :: "uint32 \<Rightarrow> int \<Rightarrow> 'a cons_state_scheme \<Rightarrow> (int, 'a cons_state_scheme) outcome" where
  "consoleread_done goal0 n s = andthen (release L_cons s) (\<lambda>_ s. Ok (sint (goal0 - word_of_int n)) s)"

text \<open>\<open>sleep\<close> does not return: the thread goes on in \<open>consoleread_resume\<close>.\<close>

function consoleread_loop ::
  "copy_dst \<Rightarrow> int \<Rightarrow> uint32 \<Rightarrow> 'a cons_state_scheme \<Rightarrow> (int, 'a cons_state_scheme) outcome" where
  "consoleread_loop dst n goal0 s =
     (if n > 0 then
        if cons_r s = cons_w s then
          andthen (myproc s) (\<lambda>p s. deref p (\<lambda>p.
          andthen (killed p s) (\<lambda>k s.
          if k \<noteq> 0 then andthen (release L_cons s) (\<lambda>_ s. Ok (- 1) s)
          else andthen (sleep (Some Ch_cons) L_cons s) (\<lambda>_ s. Spin s))))
        else let c = cons_at s (cons_r s); s = s\<lparr>cons_r := cons_r s + 1\<rparr> in
        if uint c = C_ctrl CHR ''D'' then
          consoleread_done goal0 n (if word_of_int n < goal0 then s\<lparr>cons_r := cons_r s - 1\<rparr> else s)
        else andthen (either_copyout dst [c] s) (\<lambda>(r, dst) s.
        if r = - 1 then consoleread_done goal0 n s
        else if c = 10 then consoleread_done goal0 (n - 1) s
        else consoleread_loop (dst_add dst 1) (n - 1) goal0 s)
      else consoleread_done goal0 n s)"
  by pat_completeness auto
termination
  by (relation "measure (\<lambda>(dst, n, goal0, s). nat n)") auto

declare consoleread_loop.simps [simp del]

definition consoleread :: "copy_dst \<Rightarrow> int \<Rightarrow> 'a cons_state_scheme \<Rightarrow> (int, 'a cons_state_scheme) outcome" where
  "consoleread dst n s = andthen (acquire L_cons s) (\<lambda>_ s. consoleread_loop dst n (word_of_int n) s)"

definition consoleread_resume ::
  "nat \<Rightarrow> bool \<Rightarrow> copy_dst \<Rightarrow> int \<Rightarrow> uint32 \<Rightarrow> 'a cons_state_scheme \<Rightarrow> (int, 'a cons_state_scheme) outcome" where
  "consoleread_resume p intena0 dst n goal0 s =
     andthen (sleep_resume p intena0 L_cons s) (\<lambda>_ s. consoleread_loop dst n goal0 s)"

function consolewrite_loop ::
  "copy_src \<Rightarrow> int \<Rightarrow> int \<Rightarrow> 'a cons_state_scheme \<Rightarrow> (int, 'a cons_state_scheme) outcome" where
  "consolewrite_loop src i n s =
     (if i < n then
        let nn = min 32 (n - i) in
        andthen (either_copyin src (nat nn) s) (\<lambda>(r, bs) s.
        if r = - 1 then Ok i s
        else andthen (uartwrite bs s) (\<lambda>_ s. consolewrite_loop (src_add src (nat nn)) (i + nn) n s))
      else Ok i s)"
  by pat_completeness auto
termination
  by (relation "measure (\<lambda>(src, i, n, s). nat (n - i))") auto

declare consolewrite_loop.simps [simp del]

definition consolewrite :: "copy_src \<Rightarrow> int \<Rightarrow> 'a cons_state_scheme \<Rightarrow> (int, 'a cons_state_scheme) outcome" where
  "consolewrite src n s = consolewrite_loop src 0 n s"

text \<open>The rest of a write whose thread has slept in \<open>uartwrite\<close> with \<open>bs\<close> still to send.\<close>

definition consolewrite_resume ::
  "nat \<Rightarrow> bool \<Rightarrow> byte list \<Rightarrow> copy_src \<Rightarrow> int \<Rightarrow> int \<Rightarrow> 'a cons_state_scheme \<Rightarrow> (int, 'a cons_state_scheme) outcome" where
  "consolewrite_resume p intena0 bs src i n s =
     andthen (uartwrite_resume p intena0 bs s) (\<lambda>_ s. consolewrite_loop src i n s)"

definition consoleinit :: "'a cons_state_scheme \<Rightarrow> 'a cons_state_scheme" where
  "consoleinit s =
     (let s = uartinit (initlock L_cons ''cons'' s)
      in s\<lparr>devtab := (devtab s)(CONSOLE := \<lparr>dev_read = Some Consoleread, dev_write = Some Consolewrite\<rparr>)\<rparr>)"

subsection \<open>The handler refines line editing on lists\<close>

text \<open>
  What the console buffer stands for: the bytes a reader may take, and the line being edited.
\<close>

definition cons_abs :: "'a cons_state_scheme \<Rightarrow> byte list \<times> byte list" where
  "cons_abs s = (ring_list (cons_buf s) (cons_r s) (cons_w s), ring_list (cons_buf s) (cons_w s) (cons_e s))"

definition cons_wf :: "'a cons_state_scheme \<Rightarrow> bool" where
  "cons_wf s \<longleftrightarrow> length (cons_buf s) = INPUT_BUF_SIZE \<and>
     unat (cons_w s - cons_r s) + unat (cons_e s - cons_w s) \<le> INPUT_BUF_SIZE"

text \<open>Typing the character \<open>c\<close>.\<close>

definition cons_key :: "int \<Rightarrow> byte list \<times> byte list \<Rightarrow> byte list \<times> byte list" where
  "cons_key c = (\<lambda>(ready0, line).
     if c = C_ctrl CHR ''P'' then (ready0, line)
     else if c = C_ctrl CHR ''U'' then (ready0, rev (dropWhile (\<lambda>b. b \<noteq> 10) (rev line)))
     else if c = C_ctrl CHR ''H'' \<or> c = 0x7f then (ready0, butlast line)
     else if c \<noteq> 0 \<and> length ready0 + length line < INPUT_BUF_SIZE then
       let c = (if c = 13 then 10 else c); line = line @ [word_of_int c]
       in if c = 10 \<or> c = C_ctrl CHR ''D'' \<or> length ready0 + length line = INPUT_BUF_SIZE
          then (ready0 @ line, []) else (ready0, line)
     else (ready0, line))"

lemma consputc_eq:
  assumes "ready s" "uart_idle s"
  shows "\<exists>cs. consputc c s = Ok () (s\<lparr>uart_thr := uart_thr s @ cs\<rparr>)"
proof (cases "c = BACKSPACE")
  case True
  then show ?thesis using assms by (simp add: consputc_def uartputc_sync_eq) (metis append.assoc)
next
  case False
  then show ?thesis using assms by (auto simp: consputc_def uartputc_sync_eq)
qed

lemma procdump_eq:
  assumes "ready s" "uart_idle s" "free_lock L_pr s"
  shows "\<exists>cs. procdump s = Ok () (s\<lparr>uart_thr := cs\<rparr>)"
proof -
  let ?f = "\<lambda>p s. if p_state (procs s p) = UNUSED then Ok (None :: unit option) s
       else andthen (printf ''%d %s %s'' [Arg (u64_of_int (p_pid (procs s p))),
               ArgStr (Some (map of_char (state_name (p_state (procs s p))))),
               ArgStr (Some (p_name (procs s p)))] s) (\<lambda>_ s.
            andthen (printf [CHR 0x0A] [] s) (\<lambda>_ s. Ok None s))"
  have "\<exists>cs. forK ps ?f (s\<lparr>uart_thr := x\<rparr>) = Ok None (s\<lparr>uart_thr := cs\<rparr>)" for ps x
  proof (induction ps arbitrary: x)
    case (Cons p ps)
    have "\<exists>y. ?f p (s\<lparr>uart_thr := x\<rparr>) = Ok None (s\<lparr>uart_thr := y\<rparr>)"
      using assms by (auto simp: printf_eq)
    then obtain y where "?f p (s\<lparr>uart_thr := x\<rparr>) = Ok None (s\<lparr>uart_thr := y\<rparr>)" by blast
    then show ?case using Cons.IH [of y] by auto
  qed auto
  then obtain cs where "forK [0..<NPROC] ?f (s\<lparr>uart_thr := uart_thr s @ printf_chars [CHR 0x0A] []\<rparr>) = Ok None (s\<lparr>uart_thr := cs\<rparr>)"
    by blast
  then show ?thesis using assms by (intro exI [of _ cs]) (simp add: procdump_def printf_eq)
qed

lemma cons_upd_order: "s\<lparr>cons_e := a, uart_thr := b\<rparr> = s\<lparr>uart_thr := b, cons_e := a\<rparr>"
  by (cases s) simp

lemma kill_line_eq:
  assumes "ready s" "uart_idle s" "length (cons_buf s) = INPUT_BUF_SIZE"
  shows "\<exists>e' cs. kill_line w e (s\<lparr>uart_thr := x, cons_e := e\<rparr>) = Ok () (s\<lparr>uart_thr := cs, cons_e := e'\<rparr>) \<and>
    unat (e' - w) \<le> unat (e - w) \<and>
    ring_list (cons_buf s) w e' = rev (dropWhile (\<lambda>b. b \<noteq> 10) (rev (ring_list (cons_buf s) w e)))"
proof (induction "unat (e - w)" arbitrary: e x rule: less_induct)
  case less
  let ?s = "s\<lparr>uart_thr := x, cons_e := e\<rparr>"
  show ?case
  proof (cases "e \<noteq> w \<and> cons_at ?s (e - 1) \<noteq> 10")
    case True
    let ?l = "ring_list (cons_buf s) w e"
    have ne: "w \<noteq> e" and lst: "last ?l \<noteq> 10" and bl: "ring_list (cons_buf s) w (e - 1) = butlast ?l"
      using True ring_list_unpush [of w e "cons_buf s"] assms(3) by (auto simp: cons_at_def)
    have "?l \<noteq> []" using ne by (simp add: ring_list_Nil_iff)
    then have r: "rev ?l = last ?l # rev (butlast ?l)" by (metis append_butlast_last_id rev.simps(2) rev_append rev_rev_ident)
    obtain cs where c: "consputc BACKSPACE (s\<lparr>uart_thr := x, cons_e := e - 1\<rparr>) = Ok () (s\<lparr>uart_thr := cs, cons_e := e - 1\<rparr>)"
      using consputc_eq [of "s\<lparr>uart_thr := x, cons_e := e - 1\<rparr>" BACKSPACE] assms(1,2) by (auto simp: uart_idle_def cons_upd_order)
    have lt: "unat (e - 1 - w) < unat (e - w)" using ne by (intro unat_dec_less) auto
    obtain e' cs' where "kill_line w (e - 1) (s\<lparr>uart_thr := cs, cons_e := e - 1\<rparr>) = Ok () (s\<lparr>uart_thr := cs', cons_e := e'\<rparr>)"
        "unat (e' - w) \<le> unat (e - 1 - w)"
        "ring_list (cons_buf s) w e' = rev (dropWhile (\<lambda>b. b \<noteq> 10) (rev (ring_list (cons_buf s) w (e - 1))))"
      using less [OF lt] by blast
    moreover have "dropWhile (\<lambda>b. b \<noteq> 10) (rev ?l) = dropWhile (\<lambda>b. b \<noteq> 10) (rev (butlast ?l))" unfolding r using lst by simp
    ultimately show ?thesis using True c lt unfolding bl
      by (subst kill_line.simps, intro exI [of _ e'] exI [of _ cs'] conjI) simp_all
  next
    case False
    have "dropWhile (\<lambda>b. b \<noteq> 10) (rev (ring_list (cons_buf s) w e)) = rev (ring_list (cons_buf s) w e)"
    proof (cases "e = w")
      case False
      then have "last (ring_list (cons_buf s) w e) = 10" "ring_list (cons_buf s) w e \<noteq> []"
        using \<open>\<not> (e \<noteq> w \<and> cons_at ?s (e - 1) \<noteq> 10)\<close> ring_list_unpush [of w e "cons_buf s"] assms(3)
        by (auto simp: cons_at_def ring_list_Nil_iff)
      then show ?thesis by (metis (mono_tags, lifting) append_butlast_last_id dropWhile.simps(2) rev.simps(2) rev_append rev_rev_ident)
    qed simp
    then show ?thesis using False by (subst kill_line.simps) auto
  qed
qed

lemma INPUT_BUF_SIZE_word: "(x :: uint32) < of_nat INPUT_BUF_SIZE \<longleftrightarrow> unat x < INPUT_BUF_SIZE"
    "x = of_nat INPUT_BUF_SIZE \<longleftrightarrow> unat x = INPUT_BUF_SIZE"
  using word_less_nat_alt [of x "of_nat INPUT_BUF_SIZE"] word_unat_eq_iff [of x "of_nat INPUT_BUF_SIZE"]
  by (simp_all add: INPUT_BUF_SIZE_def)

lemma unat_diff_add:
  fixes r w e :: uint32
  assumes "unat (w - r) + unat (e - w) < 2 ^ 32"
  shows "unat (e - r) = unat (w - r) + unat (e - w)"
proof -
  have "e - r = (w - r) + (e - w)" by simp
  then show ?thesis using unat_add_32 assms by metis
qed

interpretation cring: ring_array INPUT_BUF_SIZE
  by unfold_locales (simp_all add: INPUT_BUF_SIZE_def)

text \<open>Storing a character, on the buffer alone.\<close>

lemma cons_store:
  assumes "cons_wf s" "unat (cons_w s - cons_r s) + unat (cons_e s - cons_w s) < INPUT_BUF_SIZE"
    and B_def: "B = (cons_buf s)[unat (cons_e s) mod INPUT_BUF_SIZE := x]"
  shows "ring_list B (cons_r s) (cons_w s) = ring_list (cons_buf s) (cons_r s) (cons_w s)"
    "ring_list B (cons_w s) (cons_e s + 1) = ring_list (cons_buf s) (cons_w s) (cons_e s) @ [x]"
    "ring_list B (cons_r s) (cons_e s + 1) = ring_list (cons_buf s) (cons_r s) (cons_w s) @ ring_list (cons_buf s) (cons_w s) (cons_e s) @ [x]"
    "unat (cons_e s + 1 - cons_w s) = Suc (unat (cons_e s - cons_w s))"
    "unat (cons_e s + 1 - cons_r s) = Suc (unat (cons_w s - cons_r s) + unat (cons_e s - cons_w s))"
proof -
  let ?r = "cons_r s" and ?w = "cons_w s" and ?e = "cons_e s" and ?b = "cons_buf s"
  have l: "length ?b = INPUT_BUF_SIZE" using assms(1) by (simp add: cons_wf_def)
  note N = cring.small
  have er: "unat (?e - ?r) = unat (?w - ?r) + unat (?e - ?w)" using assms(2) N by (intro unat_diff_add) linarith
  show e1: "unat (?e + 1 - ?w) = Suc (unat (?e - ?w))" using assms(2) by (intro cring.grow) simp
  show er1: "unat (?e + 1 - ?r) = Suc (unat (?w - ?r) + unat (?e - ?w))"
    using assms(2) er cring.grow [of ?e ?r] by simp
  show push: "ring_list B ?w (?e + 1) = ring_list ?b ?w ?e @ [x]"
    using cring.push [OF l, of ?e ?w] assms(2) by (simp add: B_def)
  have pushr: "ring_list B ?r (?e + 1) = ring_list ?b ?r ?e @ [x]"
    using cring.push [OF l, of ?e ?r] assms(2) er by (simp add: B_def)
  have a: "ring_list ?b ?r ?e = ring_list ?b ?r ?w @ ring_list ?b ?w ?e"
    using assms(2) N by (intro ring_list_append) linarith
  then show "ring_list B ?r (?e + 1) = ring_list ?b ?r ?w @ ring_list ?b ?w ?e @ [x]" using pushr by simp
  have "ring_list B ?r (?e + 1) = ring_list B ?r ?w @ ring_list B ?w (?e + 1)"
    using assms(2) N e1 by (intro ring_list_append) linarith
  then show "ring_list B ?r ?w = ring_list ?b ?r ?w" using pushr push a by simp
qed


text \<open>
  C29. The console interrupt handler implements line editing: on a well-formed console each character
  has the effect on the readable bytes and the line being edited that the list-level description
  \<open>cons_key\<close> gives it, the buffer stays well-formed, and the processes waiting for input are woken
  whenever more input becomes readable.
\<close>

theorem consoleintr_refines:
  assumes "ready s" "uart_idle s" "free_lock L_cons s" "free_lock L_pr s" "proc_locks_free (curproc s) (spin s)"
    "cons_wf s"
  shows "\<exists>t. consoleintr c s = Ok () t \<and> cons_wf t \<and> cons_abs t = cons_key c (cons_abs s) \<and>
    procs t = (if fst (cons_abs t) = fst (cons_abs s) then procs s else wake (Some Ch_cons) (curproc s) (procs s))"
proof -
  let ?s = "s\<lparr>regs := acq_regs (cur s) (regs s), cpus := acq_cpus (cur s) (regs s) (cpus s),
      spin := acq_spin L_cons (cur s) (regs s) (spin s)\<rparr>"
  have r: "ready ?s" "uart_idle ?s" "free_lock L_pr ?s" "length (cons_buf s) = INPUT_BUF_SIZE"
    using assms by (simp_all add: cons_wf_def)
  consider (dump) "c = C_ctrl CHR ''P''" | (kill) "c = C_ctrl CHR ''U''" | (erase) "c = C_ctrl CHR ''H'' \<or> c = 0x7f"
    | (char) "\<not> (c = C_ctrl CHR ''P'' \<or> c = C_ctrl CHR ''U'' \<or> c = C_ctrl CHR ''H'' \<or> c = 0x7f)" by blast
  then show ?thesis
  proof cases
    case dump
    obtain cs where "procdump ?s = Ok () (?s\<lparr>uart_thr := cs\<rparr>)" using procdump_eq [OF r(1-3)] by blast
    then have "consoleintr c s = Ok () (s\<lparr>uart_thr := cs\<rparr>)"
      using dump assms by (simp add: consoleintr_def lock_simps)
    then show ?thesis using dump assms(6) by (simp add: cons_abs_def cons_key_def cons_wf_def)
  next
    case kill
    then have c: "c \<noteq> C_ctrl CHR ''P''" by (simp add: C_ctrl_def)
    obtain e' cs where k: "kill_line (cons_w s) (cons_e s) (?s\<lparr>uart_thr := uart_thr s, cons_e := cons_e s\<rparr>) =
          Ok () (?s\<lparr>uart_thr := cs, cons_e := e'\<rparr>)" "unat (e' - cons_w s) \<le> unat (cons_e s - cons_w s)"
        "ring_list (cons_buf s) (cons_w s) e' = rev (dropWhile (\<lambda>b. b \<noteq> 10) (rev (ring_list (cons_buf s) (cons_w s) (cons_e s))))"
      using kill_line_eq [OF r(1,2), of "cons_w s" "cons_e s" "uart_thr s"] r(4) by auto
    have "?s\<lparr>uart_thr := uart_thr s, cons_e := cons_e s\<rparr> = ?s" by (cases s) simp
    then have "consoleintr c s = Ok () (s\<lparr>uart_thr := cs, cons_e := e'\<rparr>)"
      using kill c k(1) assms by (simp add: consoleintr_def lock_simps)
    then show ?thesis using kill c k(2,3) assms(6) by (simp add: cons_abs_def cons_key_def cons_wf_def)
  next
    case erase
    then have c: "c \<noteq> C_ctrl CHR ''P''" "c \<noteq> C_ctrl CHR ''U''" by (auto simp: C_ctrl_def)
    show ?thesis
    proof (cases "cons_e s = cons_w s")
      case True
      then have "consoleintr c s = Ok () s" using erase c assms by (auto simp: consoleintr_def lock_simps)
      then show ?thesis using erase c True assms(6) by (auto simp: cons_abs_def cons_key_def)
    next
      case False
      have i: "ready (?s\<lparr>cons_e := cons_e s - 1\<rparr>)" "uart_idle (?s\<lparr>cons_e := cons_e s - 1\<rparr>)"
        using r by (simp_all add: uart_idle_def)
      obtain cs where "consputc BACKSPACE (?s\<lparr>cons_e := cons_e s - 1\<rparr>) = Ok () (?s\<lparr>cons_e := cons_e s - 1, uart_thr := cs\<rparr>)"
        using consputc_eq [OF i] by blast
      then have "consoleintr c s = Ok () (s\<lparr>cons_e := cons_e s - 1, uart_thr := cs\<rparr>)"
        using erase c False assms by (auto simp: consoleintr_def lock_simps)
      moreover have "unat (cons_e s - 1 - cons_w s) < unat (cons_e s - cons_w s)" using False by (rule unat_dec_less)
      ultimately show ?thesis
        using erase c False assms(6) ring_list_unpush(1) [of "cons_w s" "cons_e s" "cons_buf s"]
        by (auto simp: cons_abs_def cons_key_def cons_wf_def)
    qed
  next
    case char
    let ?n = "unat (cons_w s - cons_r s) + unat (cons_e s - cons_w s)"
    have n: "unat (cons_e s - cons_r s) = ?n"
      using assms(6) by (intro unat_diff_add) (simp add: cons_wf_def INPUT_BUF_SIZE_def)
    show ?thesis
    proof (cases "c \<noteq> 0 \<and> ?n < INPUT_BUF_SIZE")
      case False
      then have "consoleintr c s = Ok () s" using char n assms by (auto simp: consoleintr_def lock_simps INPUT_BUF_SIZE_word)
      then show ?thesis using char False assms(6) by (auto simp: cons_abs_def cons_key_def)
    next
      case True
      let ?c = "if c = 13 then 10 else c"
      let ?B = "(cons_buf s)[unat (cons_e s) mod INPUT_BUF_SIZE := word_of_int ?c]"
      have lt: "?n < INPUT_BUF_SIZE" using True by simp
      note st = cons_store [OF assms(6) lt, of ?B "word_of_int ?c", OF refl]
      obtain cs where p: "consputc ?c ?s = Ok () (?s\<lparr>uart_thr := cs\<rparr>)" using consputc_eq [OF r(1,2)] by blast
      let ?t = "s\<lparr>uart_thr := cs, cons_buf := ?B, cons_e := cons_e s + 1\<rparr>"
      show ?thesis
      proof (cases "?c = 10 \<or> ?c = C_ctrl CHR ''D'' \<or> Suc ?n = INPUT_BUF_SIZE")
        case full: True
        have "consoleintr c s = Ok () (?t\<lparr>cons_w := cons_e s + 1, procs := wake (Some Ch_cons) (curproc s) (procs s)\<rparr>)"
          using char True full p assms n st(5)
          by (simp add: consoleintr_def lock_simps INPUT_BUF_SIZE_word Let_def wakeup_eq)
        then show ?thesis using char True full st assms(6)
          by (simp add: cons_abs_def cons_key_def cons_wf_def Let_def)
      next
        case notfull: False
        have "consoleintr c s = Ok () ?t"
          using char True notfull p assms n st(5)
          by (simp add: consoleintr_def lock_simps INPUT_BUF_SIZE_word Let_def)
        then show ?thesis using char True notfull st assms(6)
          by (simp add: cons_abs_def cons_key_def cons_wf_def Let_def)
      qed
    qed
  qed
qed

definition sample_cons :: "'z \<Rightarrow> 'z cons_state_scheme" where
  "sample_cons z = sample_boot \<lparr>log_start = 2, log_outstanding = 0, log_committing = 0, log_dev = ROOTDEV, lh_n = 0, lh_block = (\<lambda>_. 0),
     fs_sb = \<lparr>sb_magic = FSMAGIC, sb_size = 2000, sb_nblocks = 1954, sb_ninodes = 200, sb_nlog = 31, sb_logstart = 2,
       sb_inodestart = 33, sb_bmapstart = 46\<rparr>,
     itab = (\<lambda>_. \<lparr>i_dev = 0, i_inum = 0, i_ref = 0, i_valid = False, i_type = 0, i_major = 0, i_minor = 0, i_nlink = 0,
       i_size = 0, i_addrs = replicate 13 0\<rparr>),
     uart_ier = 0, uart_fcr = 0, uart_lcr = 0, uart_dll = 0, uart_dlm = 0,
     cons_buf = replicate INPUT_BUF_SIZE 0, cons_r = 0, cons_w = 0, cons_e = 0,
     devtab = (\<lambda>_. \<lparr>dev_read = None, dev_write = None\<rparr>), \<dots> = z\<rparr>"

lemma sample_cons_facts:
  "running 0 (sample_cons z)" "uart_idle (sample_cons z)" "cons_wf (sample_cons z)"
  "cons_abs (sample_cons z) = ([], [])"
  using sample_boot_facts(1)
  by (simp_all add: sample_cons_def uart_idle_def sample_boot_def sample_sleeping_def sample_user_def
      sample_procs_def sample_phys_def cons_wf_def cons_abs_def uart_bits.simps)

theorem consoleintr_refines_witness:
  "\<exists>t. consoleintr 13 (sample_cons ()) = Ok () t \<and> cons_abs t = ([10], [])"
  using consoleintr_refines [of "sample_cons ()" 13] sample_cons_facts [of "()"] runningD [of 0 "sample_cons ()"]
  by (auto simp: cons_key_def C_ctrl_def INPUT_BUF_SIZE_def)

end
