(* ===== verification/File.thy ===== *)
theory File
  imports Console
begin

section \<open>Open files and pipes (file.c, pipe.c)\<close>

text \<open>
  A file pointer is an index into \<open>ftable.file[]\<close>.  A pipe lives in a page of its own; its fields are
  kept apart from the bytes of memory, under the address of the page.  \<open>sleep\<close> does not return; a
  thread that has slept goes on in the \<open>_resume\<close> definitions.
\<close>

datatype fdtype = FD_NONE | FD_PIPE | FD_INODE | FD_DEVICE

record kfile =
  f_type :: fdtype
  f_ref :: int
  f_readable :: bool
  f_writable :: bool
  f_pipe :: uint64
  f_ip :: "nat option"
  f_off :: uint32
  f_major :: uint16

definition PIPESIZE :: nat where "PIPESIZE = 512"

record pipe =
  pi_data :: "byte list"
  pi_nread :: uint32
  pi_nwrite :: uint32
  pi_readopen :: int
  pi_writeopen :: int

record file_state = cons_state +
  ftable :: "nat \<Rightarrow> kfile"
  pipes :: "uint64 \<Rightarrow> pipe"

abbreviation set_file :: "nat \<Rightarrow> (kfile \<Rightarrow> kfile) \<Rightarrow> 'a file_state_scheme \<Rightarrow> 'a file_state_scheme" where
  "set_file i f s \<equiv> s\<lparr>ftable := (ftable s)(i := f (ftable s i))\<rparr>"

abbreviation set_pipe :: "uint64 \<Rightarrow> (pipe \<Rightarrow> pipe) \<Rightarrow> 'a file_state_scheme \<Rightarrow> 'a file_state_scheme" where
  "set_pipe i f s \<equiv> s\<lparr>pipes := (pipes s)(i := f (pipes s i))\<rparr>"

subsection \<open>Pipes\<close>

definition pipeclose :: "uint64 \<Rightarrow> bool \<Rightarrow> 'a file_state_scheme \<Rightarrow> (unit, 'a file_state_scheme) outcome" where
  "pipeclose pi writable s =
     andthen (acquire (L_pipe pi) s) (\<lambda>_ s.
     andthen (if writable then wakeup (Some (Ch_pipe_read pi)) (set_pipe pi (\<lambda>x. x\<lparr>pi_writeopen := 0\<rparr>) s)
              else wakeup (Some (Ch_pipe_write pi)) (set_pipe pi (\<lambda>x. x\<lparr>pi_readopen := 0\<rparr>) s)) (\<lambda>_ s.
     if pi_readopen (pipes s pi) = 0 \<and> pi_writeopen (pipes s pi) = 0
     then andthen (release (L_pipe pi) s) (\<lambda>_ s. kfree pi s)
     else release (L_pipe pi) s))"

function pipewrite_loop ::
  "nat \<Rightarrow> uint64 \<Rightarrow> uint64 \<Rightarrow> int \<Rightarrow> int \<Rightarrow> 'a file_state_scheme \<Rightarrow> (int, 'a file_state_scheme) outcome" where
  "pipewrite_loop pr pi addr n i s =
     (if i < n then
        andthen (if pi_readopen (pipes s pi) = 0 then Ok 1 s else killed pr s) (\<lambda>k s.
        if k \<noteq> 0 then andthen (release (L_pipe pi) s) (\<lambda>_ s. Ok (- 1) s)
        else if pi_nwrite (pipes s pi) = pi_nread (pipes s pi) + of_nat PIPESIZE then
          andthen (wakeup (Some (Ch_pipe_read pi)) s) (\<lambda>_ s.
          andthen (sleep (Some (Ch_pipe_write pi)) (L_pipe pi) s) (\<lambda>_ s. Spin s))
        else andthen (copyin (p_pagetable (procs s pr)) (addr + word_of_int i) 1 s) (\<lambda>(r, ch) s.
        if r = - 1 then
          andthen (wakeup (Some (Ch_pipe_read pi)) s) (\<lambda>_ s. andthen (release (L_pipe pi) s) (\<lambda>_ s. Ok i s))
        else pipewrite_loop pr pi addr n (i + 1) (set_pipe pi (\<lambda>x. x\<lparr>
               pi_data := (pi_data x)[unat (pi_nwrite x) mod PIPESIZE := hd0 ch], pi_nwrite := pi_nwrite x + 1\<rparr>) s)))
      else andthen (wakeup (Some (Ch_pipe_read pi)) s) (\<lambda>_ s. andthen (release (L_pipe pi) s) (\<lambda>_ s. Ok i s)))"
  by pat_completeness auto
termination
  by (relation "measure (\<lambda>(pr, pi, addr, n, i, s). nat (n - i))") auto

declare pipewrite_loop.simps [simp del]

definition pipewrite :: "uint64 \<Rightarrow> uint64 \<Rightarrow> int \<Rightarrow> 'a file_state_scheme \<Rightarrow> (int, 'a file_state_scheme) outcome" where
  "pipewrite pi addr n s =
     andthen (myproc s) (\<lambda>pr s. deref pr (\<lambda>pr.
     andthen (acquire (L_pipe pi) s) (\<lambda>_ s. pipewrite_loop pr pi addr n 0 s)))"

definition pipewrite_resume ::
  "nat \<Rightarrow> bool \<Rightarrow> uint64 \<Rightarrow> uint64 \<Rightarrow> int \<Rightarrow> int \<Rightarrow> 'a file_state_scheme \<Rightarrow> (int, 'a file_state_scheme) outcome" where
  "pipewrite_resume pr intena0 pi addr n i s =
     andthen (sleep_resume pr intena0 (L_pipe pi) s) (\<lambda>_ s. pipewrite_loop pr pi addr n i s)"

definition piperead_done :: "uint64 \<Rightarrow> int \<Rightarrow> 'a file_state_scheme \<Rightarrow> (int, 'a file_state_scheme) outcome" where
  "piperead_done pi i s =
     andthen (wakeup (Some (Ch_pipe_write pi)) s) (\<lambda>_ s. andthen (release (L_pipe pi) s) (\<lambda>_ s. Ok i s))"

function piperead_copy ::
  "nat \<Rightarrow> uint64 \<Rightarrow> uint64 \<Rightarrow> int \<Rightarrow> int \<Rightarrow> 'a file_state_scheme \<Rightarrow> (int, 'a file_state_scheme) outcome" where
  "piperead_copy pr pi addr n i s =
     (if i < n \<and> pi_nread (pipes s pi) \<noteq> pi_nwrite (pipes s pi) then
        let ch = pi_data (pipes s pi) ! (unat (pi_nread (pipes s pi)) mod PIPESIZE) in
        andthen (copyout (p_pagetable (procs s pr)) (addr + word_of_int i) [ch] s) (\<lambda>r s.
        if r = - 1 then piperead_done pi (if i = 0 then - 1 else i) s
        else piperead_copy pr pi addr n (i + 1) (set_pipe pi (\<lambda>x. x\<lparr>pi_nread := pi_nread x + 1\<rparr>) s))
      else piperead_done pi i s)"
  by pat_completeness auto
termination
  by (relation "measure (\<lambda>(pr, pi, addr, n, i, s). nat (n - i))") auto

declare piperead_copy.simps [simp del]

definition piperead_wait ::
  "nat \<Rightarrow> uint64 \<Rightarrow> uint64 \<Rightarrow> int \<Rightarrow> 'a file_state_scheme \<Rightarrow> (int, 'a file_state_scheme) outcome" where
  "piperead_wait pr pi addr n s =
     (if pi_nread (pipes s pi) = pi_nwrite (pipes s pi) \<and> pi_writeopen (pipes s pi) \<noteq> 0 then
        andthen (killed pr s) (\<lambda>k s.
        if k \<noteq> 0 then andthen (release (L_pipe pi) s) (\<lambda>_ s. Ok (- 1) s)
        else andthen (sleep (Some (Ch_pipe_read pi)) (L_pipe pi) s) (\<lambda>_ s. Spin s))
      else piperead_copy pr pi addr n 0 s)"

definition piperead :: "uint64 \<Rightarrow> uint64 \<Rightarrow> int \<Rightarrow> 'a file_state_scheme \<Rightarrow> (int, 'a file_state_scheme) outcome" where
  "piperead pi addr n s =
     andthen (myproc s) (\<lambda>pr s. deref pr (\<lambda>pr.
     andthen (acquire (L_pipe pi) s) (\<lambda>_ s. piperead_wait pr pi addr n s)))"

definition piperead_resume ::
  "nat \<Rightarrow> bool \<Rightarrow> uint64 \<Rightarrow> uint64 \<Rightarrow> int \<Rightarrow> 'a file_state_scheme \<Rightarrow> (int, 'a file_state_scheme) outcome" where
  "piperead_resume pr intena0 pi addr n s =
     andthen (sleep_resume pr intena0 (L_pipe pi) s) (\<lambda>_ s. piperead_wait pr pi addr n s)"

subsection \<open>The file table\<close>

definition fileinit :: "'a file_state_scheme \<Rightarrow> 'a file_state_scheme" where
  "fileinit s = initlock L_ftable ''ftable'' s"

definition filealloc :: "'a file_state_scheme \<Rightarrow> (nat option, 'a file_state_scheme) outcome" where
  "filealloc s =
     andthen (acquire L_ftable s) (\<lambda>_ s.
     case find (\<lambda>f. f_ref (ftable s f) = 0) [0..<NFILE] of
       Some f \<Rightarrow> andthen (release L_ftable (set_file f (\<lambda>x. x\<lparr>f_ref := 1\<rparr>) s)) (\<lambda>_ s. Ok (Some f) s)
     | None \<Rightarrow> andthen (release L_ftable s) (\<lambda>_ s. Ok None s))"

definition filedup :: "nat \<Rightarrow> 'a file_state_scheme \<Rightarrow> (nat, 'a file_state_scheme) outcome" where
  "filedup f s =
     andthen (acquire L_ftable s) (\<lambda>_ s.
     if f_ref (ftable s f) < 1 then Panic ''filedup''
     else andthen (release L_ftable (set_file f (\<lambda>x. x\<lparr>f_ref := f_ref x + 1\<rparr>) s)) (\<lambda>_ s. Ok f s))"

definition fileclose :: "nat \<Rightarrow> 'a file_state_scheme \<Rightarrow> (unit, 'a file_state_scheme) outcome" where
  "fileclose f s =
     andthen (acquire L_ftable s) (\<lambda>_ s.
     if f_ref (ftable s f) < 1 then Panic ''fileclose''
     else let s = set_file f (\<lambda>x. x\<lparr>f_ref := f_ref x - 1\<rparr>) s in
     if f_ref (ftable s f) > 0 then release L_ftable s
     else let ff = ftable s f;
              s = set_file f (\<lambda>x. x\<lparr>f_ref := 0, f_type := FD_NONE\<rparr>) s
          in andthen (release L_ftable s) (\<lambda>_ s.
             if f_type ff = FD_PIPE then pipeclose (f_pipe ff) (f_writable ff) s
             else if f_type ff = FD_INODE \<or> f_type ff = FD_DEVICE then
               andthen (begin_op s) (\<lambda>_ s.
               andthen (iput (f_ip ff) s) (\<lambda>_ s.
               end_op s))
             else Ok () s))"

text \<open>The array of a new pipe holds the junk \<open>kalloc\<close> fills a page with.\<close>

definition pipealloc ::
  "'a file_state_scheme \<Rightarrow> (int \<times> nat option \<times> nat option, 'a file_state_scheme) outcome" where
  "pipealloc s =
     (let bad = (\<lambda>f0 f1 s.
            andthen (case f0 of Some f \<Rightarrow> fileclose f s | None \<Rightarrow> Ok () s) (\<lambda>_ s.
            andthen (case f1 of Some f \<Rightarrow> fileclose f s | None \<Rightarrow> Ok () s) (\<lambda>_ s. Ok (- 1, f0, f1) s)))
      in andthen (filealloc s) (\<lambda>f0 s.
         case f0 of
           None \<Rightarrow> bad None None s
         | Some a \<Rightarrow>
             andthen (filealloc s) (\<lambda>f1 s.
             case f1 of
               None \<Rightarrow> bad f0 None s
             | Some b \<Rightarrow>
                 andthen (kalloc s) (\<lambda>pi s.
                 if pi = 0 then bad f0 f1 s
                 else let s = set_pipe pi (\<lambda>x. x\<lparr>pi_data := replicate PIPESIZE 5, pi_readopen := 1, pi_writeopen := 1, pi_nwrite := 0, pi_nread := 0\<rparr>) s;
                          s = initlock (L_pipe pi) ''pipe'' s;
                          s = set_file a (\<lambda>x. x\<lparr>f_type := FD_PIPE, f_readable := True, f_writable := False, f_pipe := pi\<rparr>) s;
                          s = set_file b (\<lambda>x. x\<lparr>f_type := FD_PIPE, f_readable := False, f_writable := True, f_pipe := pi\<rparr>) s
                      in Ok (0, f0, f1) s))))"

subsection \<open>Reading and writing files\<close>

text \<open>The bytes of a \<open>struct stat\<close>; \<open>pad\<close> are the four bytes of padding before the size.\<close>

definition stat_bytes :: "byte list \<Rightarrow> stat \<Rightarrow> byte list" where
  "stat_bytes pad st = bytes32 (st_dev st) @ bytes32 (st_ino st) @ bytes16 (st_type st) @ bytes16 (st_nlink st) @ pad @
     map (\<lambda>i. byte_of i (st_size st)) [0..<8]"

definition filestat :: "byte list \<Rightarrow> nat \<Rightarrow> uint64 \<Rightarrow> 'a file_state_scheme \<Rightarrow> (int, 'a file_state_scheme) outcome" where
  "filestat pad f addr s =
     andthen (myproc s) (\<lambda>p s.
     if f_type (ftable s f) = FD_INODE \<or> f_type (ftable s f) = FD_DEVICE then
       andthen (ilock (f_ip (ftable s f)) s) (\<lambda>_ s. deref (f_ip (ftable s f)) (\<lambda>ip.
       let st = stati (itab s ip) in
       andthen (iunlock (f_ip (ftable s f)) s) (\<lambda>_ s. deref p (\<lambda>p.
       andthen (copyout (p_pagetable (procs s p)) addr (stat_bytes pad st) s) (\<lambda>r s.
       if r < 0 then Ok (- 1) s else Ok 0 s)))))
     else Ok (- 1) s)"

definition fileread :: "nat \<Rightarrow> uint64 \<Rightarrow> int \<Rightarrow> 'a file_state_scheme \<Rightarrow> (int, 'a file_state_scheme) outcome" where
  "fileread f addr n s =
     (let ff = ftable s f in
      if \<not> f_readable ff then Ok (- 1) s
      else case f_type ff of
        FD_PIPE \<Rightarrow> piperead (f_pipe ff) addr n s
      | FD_DEVICE \<Rightarrow>
          if sint (f_major ff) < 0 \<or> sint (f_major ff) \<ge> int NDEV then Ok (- 1) s
          else (case dev_read (devtab s (unat (f_major ff))) of
                  None \<Rightarrow> Ok (- 1) s
                | Some Consoleread \<Rightarrow> consoleread (UserDst addr) n s)
      | FD_INODE \<Rightarrow>
          andthen (ilock (f_ip ff) s) (\<lambda>_ s. deref (f_ip ff) (\<lambda>ip.
          andthen (readi ip (UserDst addr) (f_off (ftable s f)) (word_of_int n) s) (\<lambda>(r, dst) s.
          andthen (iunlock (f_ip ff) (if r > 0 then set_file f (\<lambda>x. x\<lparr>f_off := f_off x + word_of_int r\<rparr>) s else s)) (\<lambda>_ s.
          Ok r s))))
      | FD_NONE \<Rightarrow> Panic ''fileread'')"

definition max_write :: int where
  "max_write = ((int MAXOPBLOCKS - 1 - 1 - 2) div 2) * int BSIZE"

lemma max_write_pos: "0 < max_write"
  by (simp add: max_write_def MAXOPBLOCKS_def BSIZE_def)

function filewrite_loop ::
  "nat \<Rightarrow> uint64 \<Rightarrow> int \<Rightarrow> int \<Rightarrow> 'a file_state_scheme \<Rightarrow> (int, 'a file_state_scheme) outcome" where
  "filewrite_loop f addr n i s =
     (if i < n then
        let n1 = min (n - i) max_write in
        andthen (begin_op s) (\<lambda>_ s.
        andthen (ilock (f_ip (ftable s f)) s) (\<lambda>_ s. deref (f_ip (ftable s f)) (\<lambda>ip.
        andthen (writei ip (UserSrc (addr + word_of_int i)) (f_off (ftable s f)) (word_of_int n1) s) (\<lambda>r s.
        andthen (iunlock (f_ip (ftable s f)) (if r > 0 then set_file f (\<lambda>x. x\<lparr>f_off := f_off x + word_of_int r\<rparr>) s else s)) (\<lambda>_ s.
        andthen (end_op s) (\<lambda>_ s.
        if r \<noteq> n1 then Ok i s else filewrite_loop f addr n (i + r) s))))))
      else Ok i s)"
  by pat_completeness auto
termination
  using max_write_pos by (relation "measure (\<lambda>(f, addr, n, i, s). nat (n - i))") (auto simp: min_def)

declare filewrite_loop.simps [simp del]

definition filewrite :: "nat \<Rightarrow> uint64 \<Rightarrow> int \<Rightarrow> 'a file_state_scheme \<Rightarrow> (int, 'a file_state_scheme) outcome" where
  "filewrite f addr n s =
     (let ff = ftable s f in
      if \<not> f_writable ff then Ok (- 1) s
      else case f_type ff of
        FD_PIPE \<Rightarrow> pipewrite (f_pipe ff) addr n s
      | FD_DEVICE \<Rightarrow>
          if sint (f_major ff) < 0 \<or> sint (f_major ff) \<ge> int NDEV then Ok (- 1) s
          else (case dev_write (devtab s (unat (f_major ff))) of
                  None \<Rightarrow> Ok (- 1) s
                | Some Consolewrite \<Rightarrow> consolewrite (UserSrc addr) n s)
      | FD_INODE \<Rightarrow> andthen (filewrite_loop f addr n 0 s) (\<lambda>i s. Ok (if i = n then n else - 1) s)
      | FD_NONE \<Rightarrow> Panic ''filewrite'')"

end
