(* ===== verification/Proclife.thy ===== *)
theory Proclife
  imports File
begin

section \<open>Creating, ending and awaiting processes (proc.c)\<close>

text \<open>
  \<open>kfork\<close>, \<open>kexit\<close>, \<open>kwait\<close> and \<open>userinit\<close>.  A process that waits for a child sleeps, and goes through
  the table again when it wakes up (\<open>kwait_resume\<close>).
\<close>

definition userinit :: "'a file_state_scheme \<Rightarrow> (unit, 'a file_state_scheme) outcome" where
  "userinit s =
     andthen (allocproc s) (\<lambda>p s.
     let s = s\<lparr>initproc := p\<rparr> in
     andthen (namei [slash, 0] s) (\<lambda>ip s. deref p (\<lambda>p.
     let s = set_proc p (\<lambda>q. q\<lparr>p_cwd := ip, p_state := RUNNABLE\<rparr>) s
     in release (L_proc p) s)))"

text \<open>Copying the saved registers of \<open>p\<close> to \<open>np\<close>.\<close>

definition copy_trapframe :: "nat \<Rightarrow> nat \<Rightarrow> 'a proc_state_scheme \<Rightarrow> (unit, 'a proc_state_scheme) outcome" where
  "copy_trapframe p np s =
     (if p_trapframe (procs s p) = 0 \<or> p_trapframe (procs s np) = 0 then Panic ''kerneltrap''
      else Ok () (s\<lparr>mem := write_bytes (mem s) (p_trapframe (procs s np))
                     (read_bytes (mem s) (p_trapframe (procs s p)) (unat sizeof_trapframe))\<rparr>))"

definition kfork :: "'a file_state_scheme \<Rightarrow> (int, 'a file_state_scheme) outcome" where
  "kfork s =
     andthen (myproc s) (\<lambda>p s.
     andthen (allocproc s) (\<lambda>np s.
     case np of None \<Rightarrow> Ok (- 1) s
     | Some np \<Rightarrow> deref p (\<lambda>p.
     andthen (uvmcopy (p_pagetable (procs s p)) (p_pagetable (procs s np)) (p_sz (procs s p)) s) (\<lambda>r s.
     if r < 0 then andthen (freeproc np s) (\<lambda>_ s. andthen (release (L_proc np) s) (\<lambda>_ s. Ok (- 1) s))
     else let s = set_proc np (\<lambda>q. q\<lparr>p_sz := p_sz (procs s p)\<rparr>) s in
     andthen (copy_trapframe p np s) (\<lambda>_ s.
     andthen (tf_write np (tf_offset (TF_a 0)) 0 s) (\<lambda>_ s.
     andthen (forK [0..<NOFILE] (\<lambda>i s.
       case p_ofile (procs s p) i of
         None \<Rightarrow> Ok (None :: unit option) s
       | Some f \<Rightarrow> andthen (filedup f s) (\<lambda>f s.
                   Ok None (set_proc np (\<lambda>q. q\<lparr>p_ofile := (p_ofile q)(i := Some f)\<rparr>) s))) s) (\<lambda>_ s.
     andthen (idup (p_cwd (procs s p)) s) (\<lambda>cwd s.
     let s = set_proc np (\<lambda>q. q\<lparr>p_cwd := cwd, p_name := safestrcpy 16 (p_name q) (p_name (procs s p))\<rparr>) s;
         pid = p_pid (procs s np) in
     andthen (release (L_proc np) s) (\<lambda>_ s.
     andthen (acquire L_wait s) (\<lambda>_ s.
     let s = set_proc np (\<lambda>q. q\<lparr>p_parent := Some p\<rparr>) s in
     andthen (release L_wait s) (\<lambda>_ s.
     andthen (acquire (L_proc np) s) (\<lambda>_ s.
     let s = set_proc np (\<lambda>q. q\<lparr>p_state := RUNNABLE\<rparr>) s in
     andthen (release (L_proc np) s) (\<lambda>_ s.
     Ok pid s)))))))))))))"

text \<open>The loop of \<open>kexit\<close> that closes the open files of \<open>p\<close>.\<close>

definition close_all :: "nat \<Rightarrow> 'a file_state_scheme \<Rightarrow> (unit, 'a file_state_scheme) outcome" where
  "close_all p s =
     andthen (forK [0..<NOFILE] (\<lambda>fd s.
       case p_ofile (procs s p) fd of
         None \<Rightarrow> Ok (None :: unit option) s
       | Some f \<Rightarrow> andthen (fileclose f s) (\<lambda>_ s.
                   Ok None (set_proc p (\<lambda>q. q\<lparr>p_ofile := (p_ofile q)(fd := None)\<rparr>) s))) s) (\<lambda>_ s. Ok () s)"

text \<open>The end of \<open>kexit\<close>, from where the process has given up its files and its directory.\<close>

definition kexit_zombie :: "nat \<Rightarrow> int \<Rightarrow> 'a file_state_scheme \<Rightarrow> (unit, 'a file_state_scheme) outcome" where
  "kexit_zombie p status s =
     andthen (acquire L_wait s) (\<lambda>_ s.
     andthen (reparent p s) (\<lambda>_ s.
     andthen (wakeup (map_option Ch_proc (p_parent (procs s p))) s) (\<lambda>_ s.
     andthen (acquire (L_proc p) s) (\<lambda>_ s.
     let s = set_proc p (\<lambda>q. q\<lparr>p_xstate := status, p_state := ZOMBIE\<rparr>) s in
     andthen (release L_wait s) (\<lambda>_ s.
     andthen (sched s) (\<lambda>_ s. Panic ''zombie exit''))))))"

definition kexit :: "int \<Rightarrow> 'a file_state_scheme \<Rightarrow> (unit, 'a file_state_scheme) outcome" where
  "kexit status s =
     andthen (myproc s) (\<lambda>p s.
     if p = initproc s then Panic ''init exiting''
     else deref p (\<lambda>p.
     andthen (close_all p s) (\<lambda>_ s.
     andthen (begin_op s) (\<lambda>_ s.
     andthen (iput (p_cwd (procs s p)) s) (\<lambda>_ s.
     andthen (end_op s) (\<lambda>_ s.
     kexit_zombie p status (set_proc p (\<lambda>q. q\<lparr>p_cwd := None\<rparr>) s)))))))"

text \<open>
  One pass of \<open>kwait\<close> over the table: the value to return if it is known, and whether there are children.
\<close>

primrec kwait_scan ::
  "nat list \<Rightarrow> bool \<Rightarrow> nat \<Rightarrow> uint64 \<Rightarrow> 'a file_state_scheme \<Rightarrow> (int option \<times> bool, 'a file_state_scheme) outcome" where
  "kwait_scan [] havekids p addr s = Ok (None, havekids) s"
| "kwait_scan (pp # pps) havekids p addr s =
     (if p_parent (procs s pp) = Some p then
        andthen (acquire (L_proc pp) s) (\<lambda>_ s.
        if p_state (procs s pp) = ZOMBIE then
          let pid = p_pid (procs s pp) in
          andthen (if addr \<noteq> 0 then copyout (p_pagetable (procs s p)) addr (bytes32 (word_of_int (p_xstate (procs s pp)))) s
                   else Ok 0 s) (\<lambda>r s.
          if r < 0 then
            andthen (release (L_proc pp) s) (\<lambda>_ s. andthen (release L_wait s) (\<lambda>_ s. Ok (Some (- 1), True) s))
          else andthen (freeproc pp s) (\<lambda>_ s.
               andthen (release (L_proc pp) s) (\<lambda>_ s.
               andthen (release L_wait s) (\<lambda>_ s. Ok (Some pid, True) s))))
        else andthen (release (L_proc pp) s) (\<lambda>_ s. kwait_scan pps True p addr s))
      else kwait_scan pps havekids p addr s)"

definition kwait_round :: "nat \<Rightarrow> uint64 \<Rightarrow> 'a file_state_scheme \<Rightarrow> (int, 'a file_state_scheme) outcome" where
  "kwait_round p addr s =
     andthen (kwait_scan [0..<NPROC] False p addr s) (\<lambda>(r, havekids) s.
     case r of Some pid \<Rightarrow> Ok pid s
     | None \<Rightarrow>
         andthen (if \<not> havekids then Ok 1 s else killed p s) (\<lambda>k s.
         if k \<noteq> 0 then andthen (release L_wait s) (\<lambda>_ s. Ok (- 1) s)
         else andthen (sleep (Some (Ch_proc p)) L_wait s) (\<lambda>_ s. Spin s)))"

definition kwait :: "uint64 \<Rightarrow> 'a file_state_scheme \<Rightarrow> (int, 'a file_state_scheme) outcome" where
  "kwait addr s =
     andthen (myproc s) (\<lambda>p s. deref p (\<lambda>p.
     andthen (acquire L_wait s) (\<lambda>_ s. kwait_round p addr s)))"

definition kwait_resume ::
  "nat \<Rightarrow> bool \<Rightarrow> uint64 \<Rightarrow> 'a file_state_scheme \<Rightarrow> (int, 'a file_state_scheme) outcome" where
  "kwait_resume p intena0 addr s = andthen (sleep_resume p intena0 L_wait s) (\<lambda>_ s. kwait_round p addr s)"

end
