(* ===== verification/Exec.thy ===== *)
theory Exec
  imports Path
begin

section \<open>Running a program (exec.c, elf.h)\<close>

text \<open>
  \<open>kexec\<close> replaces the memory of the current process by the program in a file.  The argument strings are
  kernel strings, lists of bytes that end at their first NUL or, failing that, at the end of the list.
  The \<open>goto bad\<close> of the source is the value \<open>None\<close> or \<open>False\<close> of its parts, handled by \<open>kexec_bad\<close>.
\<close>

definition ELF_MAGIC :: uint32 where "ELF_MAGIC = 0x464C457F"
definition ELF_PROG_LOAD :: uint32 where "ELF_PROG_LOAD = 1"

record elfhdr =
  elf_magic :: uint32
  elf_entry :: uint64
  elf_phoff :: uint64
  elf_phnum :: uint16

record proghdr =
  ph_type :: uint32
  ph_flags :: uint32
  ph_off :: uint64
  ph_vaddr :: uint64
  ph_filesz :: uint64
  ph_memsz :: uint64

definition get64 :: "byte list \<Rightarrow> nat \<Rightarrow> uint64" where
  "get64 d off = ucast (get32 d off) OR push_bit 32 (ucast (get32 d (off + 4)))"

definition bytes64 :: "uint64 \<Rightarrow> byte list" where
  "bytes64 x = map (\<lambda>i. byte_of i x) [0..<8]"

definition sizeof_elfhdr :: nat where "sizeof_elfhdr = 64"
definition sizeof_proghdr :: nat where "sizeof_proghdr = 56"

text \<open>The fields of the two headers that the code uses, at their offsets.\<close>

definition bytes_elfhdr :: "byte list \<Rightarrow> elfhdr" where
  "bytes_elfhdr bs = \<lparr>elf_magic = get32 bs 0, elf_entry = get64 bs 24, elf_phoff = get64 bs 32,
     elf_phnum = word16 (drop 56 bs)\<rparr>"

definition bytes_proghdr :: "byte list \<Rightarrow> proghdr" where
  "bytes_proghdr bs = \<lparr>ph_type = get32 bs 0, ph_flags = get32 bs 4, ph_off = get64 bs 8, ph_vaddr = get64 bs 16,
     ph_filesz = get64 bs 32, ph_memsz = get64 bs 40\<rparr>"

definition flags2perm :: "uint32 \<Rightarrow> uint64" where
  "flags2perm flags = (if flags AND 1 \<noteq> 0 then PTE_X else 0) OR (if flags AND 2 \<noteq> 0 then PTE_W else 0)"

text \<open>
  The counter of \<open>loadseg\<close> has 32 bits: for a segment that ends in the last page below \<open>2 ^ 32\<close> it wraps
  around to zero, and the loop does not end.
\<close>

function loadseg_loop ::
  "uint64 \<Rightarrow> uint64 \<Rightarrow> nat \<Rightarrow> uint32 \<Rightarrow> nat \<Rightarrow> nat \<Rightarrow> 'a fs_state_scheme \<Rightarrow> (int, 'a fs_state_scheme) outcome" where
  "loadseg_loop pagetable va ip offset sz i s =
     (if i < sz then
        andthen (walkaddr pagetable (va + of_nat i) s) (\<lambda>pa s.
        if pa = 0 then Panic ''loadseg: address should exist''
        else let n = min (sz - i) 4096 in
             andthen (readi ip (MemDst pa) (offset + of_nat i) (of_nat n) s) (\<lambda>(r, dst) s.
             if r \<noteq> int n then Ok (- 1) s
             else if i + 4096 \<ge> 2 ^ 32 then Spin s
             else loadseg_loop pagetable va ip offset sz (i + 4096) s))
      else Ok 0 s)"
  by pat_completeness auto
termination
  by (relation "measure (\<lambda>(pagetable, va, ip, offset, sz, i, s). sz - i)") auto

declare loadseg_loop.simps [simp del]

definition loadseg ::
  "uint64 \<Rightarrow> uint64 \<Rightarrow> nat \<Rightarrow> uint32 \<Rightarrow> uint32 \<Rightarrow> 'a fs_state_scheme \<Rightarrow> (int, 'a fs_state_scheme) outcome" where
  "loadseg pagetable va ip offset sz s = loadseg_loop pagetable va ip offset (unat sz) 0 s"

text \<open>A structure read from the file: the number of bytes read and the bytes.\<close>

definition read_struct :: "nat \<Rightarrow> uint32 \<Rightarrow> nat \<Rightarrow> 'a fs_state_scheme \<Rightarrow> (int \<times> byte list, 'a fs_state_scheme) outcome" where
  "read_struct ip off n s =
     andthen (readi ip (BufDst []) off (of_nat n) s) (\<lambda>(r, dst) s.
     Ok (r, case dst of BufDst bs \<Rightarrow> bs | _ \<Rightarrow> []) s)"

text \<open>
  Loading the remaining \<open>k\<close> segments, the next header being at \<open>off\<close>.  The result is whether this
  succeeded, and the size of the memory so far.
\<close>

primrec kexec_load ::
  "nat \<Rightarrow> nat \<Rightarrow> uint64 \<Rightarrow> uint32 \<Rightarrow> uint64 \<Rightarrow> 'a fs_state_scheme \<Rightarrow> (bool \<times> uint64, 'a fs_state_scheme) outcome" where
  "kexec_load 0 ip pagetable off sz s = Ok (True, sz) s"
| "kexec_load (Suc k) ip pagetable off sz s =
     andthen (read_struct ip off sizeof_proghdr s) (\<lambda>(r, bs) s.
     let ph = bytes_proghdr bs; off' = off + of_nat sizeof_proghdr in
     if r \<noteq> int sizeof_proghdr then Ok (False, sz) s
     else if ph_type ph \<noteq> ELF_PROG_LOAD then kexec_load k ip pagetable off' sz s
     else if ph_memsz ph < ph_filesz ph then Ok (False, sz) s
     else if ph_vaddr ph + ph_memsz ph < ph_vaddr ph then Ok (False, sz) s
     else if ph_vaddr ph mod PGSIZE \<noteq> 0 then Ok (False, sz) s
     else andthen (uvmalloc pagetable sz (ph_vaddr ph + ph_memsz ph) (flags2perm (ph_flags ph)) s) (\<lambda>sz1 s.
          if sz1 = 0 then Ok (False, sz) s
          else andthen (loadseg pagetable (ph_vaddr ph) ip (ucast (ph_off ph)) (ucast (ph_filesz ph)) s) (\<lambda>r s.
               if r < 0 then Ok (False, sz1) s else kexec_load k ip pagetable off' sz1 s)))"

definition kexec_bad :: "uint64 \<Rightarrow> uint64 \<Rightarrow> nat option \<Rightarrow> 'a fs_state_scheme \<Rightarrow> (int, 'a fs_state_scheme) outcome" where
  "kexec_bad pagetable sz ip s =
     andthen (if pagetable \<noteq> 0 then proc_freepagetable pagetable sz s else Ok () s) (\<lambda>_ s.
     if ip \<noteq> None then andthen (iunlockput ip s) (\<lambda>_ s. andthen (end_op s) (\<lambda>_ s. Ok (- 1) s))
     else Ok (- 1) s)"

text \<open>
  Pushing the argument strings on the new stack; \<open>ustack\<close> are the addresses of those pushed so far.
\<close>

primrec push_args ::
  "byte list list \<Rightarrow> uint64 \<Rightarrow> uint64 \<Rightarrow> uint64 \<Rightarrow> uint64 list \<Rightarrow> 'a fs_state_scheme \<Rightarrow>
   ((uint64 \<times> uint64 list) option, 'a fs_state_scheme) outcome" where
  "push_args [] pagetable stackbase sp ustack s = Ok (Some (sp, ustack)) s"
| "push_args (a # argv) pagetable stackbase sp ustack s =
     (if length ustack \<ge> MAXARG then Ok None s
      else let sp = sp - of_nat (strlen a + 1); sp = sp - sp mod 16 in
      if sp < stackbase then Ok None s
      else andthen (copyout pagetable sp (take (strlen a) a @ [0]) s) (\<lambda>r s.
           if r < 0 then Ok None s else push_args argv pagetable stackbase sp (ustack @ [sp]) s))"

text \<open>The part of the path after its last slash.\<close>

primrec path_last :: "byte list \<Rightarrow> byte list \<Rightarrow> byte list" where
  "path_last l [] = l"
| "path_last l (c # cs) = (if c = 0 then l else path_last (if c = slash then cs else l) cs)"

text \<open>
  The stack of the new image, and switching to it: the new memory is \<open>pagetable\<close> with \<open>sz\<close> bytes.
\<close>

definition kexec_image ::
  "byte list \<Rightarrow> byte list list \<Rightarrow> nat \<Rightarrow> uint64 \<Rightarrow> uint64 \<Rightarrow> uint64 \<Rightarrow> 'a fs_state_scheme \<Rightarrow> (int, 'a fs_state_scheme) outcome" where
  "kexec_image path argv p entry0 pagetable sz s =
     (let oldsz = p_sz (procs s p); sz = PGROUNDUP sz in
      andthen (uvmalloc pagetable sz (sz + (USERSTACK + 1) * PGSIZE) PTE_W s) (\<lambda>sz1 s.
      if sz1 = 0 then kexec_bad pagetable sz None s
      else let sz = sz1 in
      andthen (uvmclear pagetable (sz - (USERSTACK + 1) * PGSIZE) s) (\<lambda>_ s.
      let stackbase = sz - USERSTACK * PGSIZE in
      andthen (push_args argv pagetable stackbase sz [] s) (\<lambda>r s.
      case r of None \<Rightarrow> kexec_bad pagetable sz None s
      | Some (sp, ustack) \<Rightarrow>
          let argc = length ustack; sp = sp - of_nat (argc + 1) * 8; sp = sp - sp mod 16 in
          if sp < stackbase then kexec_bad pagetable sz None s
          else andthen (copyout pagetable sp (concat (map bytes64 (ustack @ [0]))) s) (\<lambda>r s.
          if r < 0 then kexec_bad pagetable sz None s
          else andthen (tf_write p (tf_offset (TF_a 1)) sp s) (\<lambda>_ s.
          let oldpagetable = p_pagetable (procs s p);
              s = set_proc p (\<lambda>q. q\<lparr>p_name := safestrcpy 16 (p_name q) (path_last path path)\<rparr>) s;
              s = set_proc p (\<lambda>q. q\<lparr>p_pagetable := pagetable, p_sz := sz\<rparr>) s in
          andthen (tf_write p (tf_offset TF_epc) entry0 s) (\<lambda>_ s.
          andthen (tf_write p (tf_offset TF_sp) sp s) (\<lambda>_ s.
          andthen (proc_freepagetable oldpagetable oldsz s) (\<lambda>_ s.
          Ok (int argc) s)))))))))"

definition kexec :: "byte list \<Rightarrow> byte list list \<Rightarrow> 'a fs_state_scheme \<Rightarrow> (int, 'a fs_state_scheme) outcome" where
  "kexec path argv s =
     andthen (myproc s) (\<lambda>p s.
     andthen (begin_op s) (\<lambda>_ s.
     andthen (namei path s) (\<lambda>ip s.
     if ip = None then andthen (end_op s) (\<lambda>_ s. Ok (- 1) s)
     else andthen (ilock ip s) (\<lambda>_ s. deref ip (\<lambda>i.
     andthen (read_struct i 0 sizeof_elfhdr s) (\<lambda>(r, bs) s.
     let elf = bytes_elfhdr bs in
     if r \<noteq> int sizeof_elfhdr then kexec_bad 0 0 ip s
     else if elf_magic elf \<noteq> ELF_MAGIC then kexec_bad 0 0 ip s
     else deref p (\<lambda>p.
     andthen (proc_pagetable p s) (\<lambda>pagetable s.
     if pagetable = 0 then kexec_bad 0 0 ip s
     else andthen (kexec_load (unat (elf_phnum elf)) i pagetable (ucast (elf_phoff elf)) 0 s) (\<lambda>(ok, sz) s.
     if \<not> ok then kexec_bad pagetable sz ip s
     else andthen (iunlockput ip s) (\<lambda>_ s.
     andthen (end_op s) (\<lambda>_ s.
     kexec_image path argv p (elf_entry elf) pagetable sz s)))))))))))"

end
