(* ===== verification/Pipes.thy ===== *)
theory Pipes
  imports File
begin

section \<open>Pipes are first-in first-out queues (pipe.c)\<close>

text \<open>
  The bytes in a pipe are the part of its circular array between the two counters.  Writing appends
  to them and reading takes from their front, across the wrap-around of the array and of the counters.
\<close>

definition pipe_wf :: "pipe \<Rightarrow> bool" where
  "pipe_wf x \<longleftrightarrow> length (pi_data x) = PIPESIZE \<and> unat (pi_nwrite x - pi_nread x) \<le> PIPESIZE"

definition pipe_bytes :: "pipe \<Rightarrow> byte list" where
  "pipe_bytes x = ring_list (pi_data x) (pi_nread x) (pi_nwrite x)"

definition pipe_put :: "byte \<Rightarrow> pipe \<Rightarrow> pipe" where
  "pipe_put b x = x\<lparr>pi_data := (pi_data x)[unat (pi_nwrite x) mod PIPESIZE := b], pi_nwrite := pi_nwrite x + 1\<rparr>"

definition pipe_take :: "pipe \<Rightarrow> pipe" where
  "pipe_take x = x\<lparr>pi_nread := pi_nread x + 1\<rparr>"

lemma pipe_full_iff: "pi_nwrite x = pi_nread x + of_nat PIPESIZE \<longleftrightarrow> unat (pi_nwrite x - pi_nread x) = PIPESIZE"
proof -
  have "pi_nwrite x = pi_nread x + of_nat PIPESIZE \<longleftrightarrow> pi_nwrite x - pi_nread x = of_nat PIPESIZE"
    by (auto simp: algebra_simps)
  also have "\<dots> \<longleftrightarrow> unat (pi_nwrite x - pi_nread x) = PIPESIZE"
    using word_unat_eq_iff [of "pi_nwrite x - pi_nread x" "of_nat PIPESIZE"] by (simp add: PIPESIZE_def)
  finally show ?thesis .
qed

interpretation pring: ring_array PIPESIZE
  by unfold_locales (simp_all add: PIPESIZE_def)

lemma pipe_put_spec:
  assumes "pipe_wf x" "length (pipe_bytes x) < PIPESIZE"
  shows "pipe_wf (pipe_put b x)" "pipe_bytes (pipe_put b x) = pipe_bytes x @ [b]"
    "pi_readopen (pipe_put b x) = pi_readopen x" "pi_writeopen (pipe_put b x) = pi_writeopen x"
proof -
  have l: "unat (pi_nwrite x - pi_nread x) < PIPESIZE" "length (pi_data x) = PIPESIZE"
    using assms by (simp_all add: pipe_wf_def pipe_bytes_def)
  show "pipe_bytes (pipe_put b x) = pipe_bytes x @ [b]"
    using pring.push [OF l(2,1)] by (simp add: pipe_bytes_def pipe_put_def)
  show "pipe_wf (pipe_put b x)"
    using pring.grow [OF l(1)] l by (simp add: pipe_wf_def pipe_put_def)
qed (simp_all add: pipe_put_def)

lemma pipe_take_spec:
  assumes "pipe_wf x" "pi_nread x \<noteq> pi_nwrite x"
  shows "pipe_wf (pipe_take x)" "pipe_bytes x = pi_data x ! (unat (pi_nread x) mod PIPESIZE) # pipe_bytes (pipe_take x)"
    "pi_readopen (pipe_take x) = pi_readopen x" "pi_writeopen (pipe_take x) = pi_writeopen x"
    "pi_nwrite (pipe_take x) = pi_nwrite x" "pi_data (pipe_take x) = pi_data x"
  using assms ring_list_pop [OF assms(2), of "pi_data x"] unat_plus_one [OF assms(2)]
  by (simp_all add: pipe_wf_def pipe_take_def pipe_bytes_def)

lemma pipe_bytes_Nil: "pipe_bytes x = [] \<longleftrightarrow> pi_nread x = pi_nwrite x"
  by (simp add: pipe_bytes_def ring_list_Nil_iff)

subsection \<open>Writing\<close>

lemma present_one:
  assumes "present m pt va n" "i < n"
  shows "present m pt (va + of_nat i) 1"
proof -
  have "unat va + n \<le> 2 ^ 38" using assms(1) by (simp add: present_def)
  then have "unat (va + of_nat i) = unat va + i" using assms(2) by (intro unat_plus_small) simp
  then show ?thesis using assms by (simp add: present_def)
qed

lemma pipewrite_loop_eq:
  fixes s :: "'a file_state_scheme"
  assumes "ready s" "free_lock (L_proc pr) s" "p_killed (procs s pr) = 0"
    "twf 2 (mem s) (p_pagetable (procs s pr))" "0 \<notin> tset 2 (mem s) (p_pagetable (procs s pr))"
    "present (mem s) (p_pagetable (procs s pr)) addr n" "i \<le> n"
    "pipe_wf x" "pi_readopen x \<noteq> 0" "length (pipe_bytes x) + (n - i) \<le> PIPESIZE"
  shows "\<exists>y. pipewrite_loop pr pi addr (int n) (int i) (s\<lparr>pipes := (pipes s)(pi := x)\<rparr>) =
      andthen (wakeup (Some (Ch_pipe_read pi)) (s\<lparr>pipes := (pipes s)(pi := y)\<rparr>)) (\<lambda>_ s.
        andthen (release (L_pipe pi) s) (\<lambda>_ s. Ok (int n) s)) \<and>
    pipe_wf y \<and> pi_readopen y = pi_readopen x \<and> pi_writeopen y = pi_writeopen x \<and>
    pipe_bytes y = pipe_bytes x @ drop i (ustring (mem s) (p_pagetable (procs s pr)) addr n)"
  using assms(7-)
proof (induction "n - i" arbitrary: i x)
  case 0
  then have "i = n" by simp
  then show ?case using 0 by (subst pipewrite_loop.simps) (auto simp: ustring_def)
next
  case (Suc k)
  let ?pt = "p_pagetable (procs s pr)" and ?s = "s\<lparr>pipes := (pipes s)(pi := x)\<rparr>"
  have i: "i < n" "k = n - Suc i" using Suc(2) by simp_all
  have room: "length (pipe_bytes x) < PIPESIZE" using Suc.prems(4) i by simp
  then have nf: "pi_nwrite x \<noteq> pi_nread x + of_nat PIPESIZE" unfolding pipe_full_iff by (simp add: pipe_bytes_def)
  note pp = pipe_put_spec [OF Suc.prems(2) room, of "ustring (mem s) ?pt addr n ! i"]
  have ch: "copyin ?pt (addr + word_of_int (int i)) 1 ?s = Ok (0, [ustring (mem s) ?pt addr n ! i]) ?s"
    using copyin_present [of ?s ?pt "addr + of_nat i" 1] assms(4,5) present_one [OF assms(6) i(1)] i(1) by (simp add: ustring_def)
  have u: "?s\<lparr>pipes := (pipes ?s)(pi := x\<lparr>pi_data := (pi_data x)[unat (pi_nwrite x) mod PIPESIZE := b],
      pi_nwrite := pi_nwrite x + 1\<rparr>)\<rparr> = s\<lparr>pipes := (pipes s)(pi := pipe_put b x)\<rparr>" for b
    by (simp add: pipe_put_def)
  have step: "pipewrite_loop pr pi addr (int n) (int i) ?s =
      pipewrite_loop pr pi addr (int n) (int (Suc i)) (s\<lparr>pipes := (pipes s)(pi := pipe_put (ustring (mem s) ?pt addr n ! i) x)\<rparr>)"
    using assms(1-3) i Suc.prems(3) nf ch u
    by (subst pipewrite_loop.simps) (simp add: killed_eq add.commute)
  have d: "drop i (ustring (mem s) ?pt addr n) = ustring (mem s) ?pt addr n ! i # drop (Suc i) (ustring (mem s) ?pt addr n)"
    using i(1) Cons_nth_drop_Suc [of i "ustring (mem s) ?pt addr n"] by (simp add: ustring_def)
  show ?case
    unfolding step d using Suc(1) [OF i(2), of "pipe_put (ustring (mem s) ?pt addr n ! i) x"] i(1) pp Suc.prems by auto
qed

text \<open>
  C30. Writing to a pipe appends: when the reading end is open, the writer has not been killed and
  there is room for all the bytes, \<open>pipewrite\<close> returns the number of bytes, the pipe holds what it
  held followed by exactly these bytes of the user's memory, and the readers waiting for it are woken.
\<close>

theorem pipewrite_appends:
  fixes s :: "'a file_state_scheme"
  assumes "running pr s" "p_killed (procs s pr) = 0"
    "twf 2 (mem s) (p_pagetable (procs s pr))" "0 \<notin> tset 2 (mem s) (p_pagetable (procs s pr))"
    "present (mem s) (p_pagetable (procs s pr)) addr n"
    "pipe_wf (pipes s pi)" "pi_readopen (pipes s pi) \<noteq> 0" "length (pipe_bytes (pipes s pi)) + n \<le> PIPESIZE"
  shows "\<exists>x. pipewrite pi addr (int n) s = Ok (int n) (s\<lparr>pipes := (pipes s)(pi := x),
      procs := wake (Some (Ch_pipe_read pi)) (Some pr) (procs s)\<rparr>) \<and> pipe_wf x \<and>
    pipe_bytes x = pipe_bytes (pipes s pi) @ ustring (mem s) (p_pagetable (procs s pr)) addr n"
proof -
  note r = runningD [OF assms(1)]
  let ?s = "s\<lparr>regs := acq_regs (cur s) (regs s), cpus := acq_cpus (cur s) (regs s) (cpus s),
      spin := acq_spin (L_pipe pi) (cur s) (regs s) (spin s)\<rparr>"
  have e: "?s\<lparr>pipes := (pipes ?s)(pi := pipes s pi)\<rparr> = ?s" by simp
  have rd: "ready ?s" "free_lock (L_proc pr) ?s" using r by simp_all
  obtain y where y: "pipewrite_loop pr pi addr (int n) (int 0) ?s =
      andthen (wakeup (Some (Ch_pipe_read pi)) (?s\<lparr>pipes := (pipes s)(pi := y)\<rparr>)) (\<lambda>_ s.
        andthen (release (L_pipe pi) s) (\<lambda>_ s. Ok (int n) s))" "pipe_wf y"
      "pipe_bytes y = pipe_bytes (pipes s pi) @ ustring (mem s) (p_pagetable (procs s pr)) addr n"
    using pipewrite_loop_eq [OF rd, of addr n 0 "pipes s pi" pi] assms(2-) unfolding e by auto
  have "pipewrite pi addr (int n) s = pipewrite_loop pr pi addr (int n) (int 0) ?s"
    using r by (simp add: pipewrite_def myproc_eq acquire_eq)
  then have "pipewrite pi addr (int n) s = Ok (int n) (s\<lparr>pipes := (pipes s)(pi := y),
      procs := wake (Some (Ch_pipe_read pi)) (Some pr) (procs s)\<rparr>)"
    unfolding y(1) using r by (simp add: wakeup_eq release_eq)
  then show ?thesis using y(2,3) by blast
qed

subsection \<open>Reading\<close>

lemma piperead_copy_eq:
  fixes s :: "'a file_state_scheme"
  assumes "p_pagetable (procs s pr) = pt" "0 \<notin> tset 2 m0 pt" "twf 2 m0 pt" "target m0 pt addr n"
    "copied m0 pt addr got (mem s)" "length got = i" "i \<le> n" "pipe_wf x"
  shows "\<exists>m y. piperead_copy pr pi addr (int n) (int i) (s\<lparr>pipes := (pipes s)(pi := x)\<rparr>) =
      piperead_done pi (int (i + min (n - i) (length (pipe_bytes x)))) (s\<lparr>mem := m, pipes := (pipes s)(pi := y)\<rparr>) \<and>
    copied m0 pt addr (got @ take (n - i) (pipe_bytes x)) m \<and> pipe_wf y \<and> pipe_bytes y = drop (n - i) (pipe_bytes x)"
  using assms(1,5-)
proof (induction "n - i" arbitrary: i x s got)
  case 0
  then have i: "i = n" by simp
  show ?case
    unfolding i using 0
    by (intro exI [of _ "mem s"] exI [of _ x]) (simp add: piperead_copy.simps i)
next
  case (Suc k)
  let ?s = "s\<lparr>pipes := (pipes s)(pi := x)\<rparr>" and ?ch = "pi_data x ! (unat (pi_nread x) mod PIPESIZE)"
  have i: "i < n" "k = n - Suc i" using Suc(2) by simp_all
  show ?case
  proof (cases "pi_nread x = pi_nwrite x")
    case True
    then have "pipe_bytes x = []" by (simp add: pipe_bytes_Nil)
    then show ?thesis
      using Suc.prems True
      by (intro exI [of _ "mem s"] exI [of _ x]) (simp add: piperead_copy.simps)
  next
    case False
    note tk = pipe_take_spec [OF Suc.prems(5) False]
    have tg: "target (mem s) pt (addr + of_nat i) (length [?ch])"
      using target_sub [OF target_copied [OF Suc.prems(2) assms(4)], of i 1] i(1) by simp
    have tw: "twf 2 (mem s) pt" "0 \<notin> tset 2 (mem s) pt" using Suc.prems(2) assms(2) by (simp_all add: copied_def)
    obtain m where m: "copyout pt (addr + of_nat i) [?ch] ?s = Ok 0 (?s\<lparr>mem := m\<rparr>)"
        "copied (mem s) pt (addr + of_nat i) [?ch] m"
      using copyout_target [of ?s pt "addr + of_nat i" "[?ch]"] tw tg by auto
    have "target m0 pt addr (length (got @ [?ch]))"
      using target_sub [OF assms(4), of 0 "Suc i"] i(1) Suc.prems(3) by simp
    then have c: "copied m0 pt addr (got @ [?ch]) m"
      using copied_append [OF _ Suc.prems(2)] m(2) Suc.prems(3) by simp
    have step: "piperead_copy pr pi addr (int n) (int i) ?s =
        piperead_copy pr pi addr (int n) (int (Suc i)) (s\<lparr>mem := m, pipes := (pipes s)(pi := pipe_take x)\<rparr>)"
      using m(1) i(1) False Suc.prems(1) by (subst piperead_copy.simps) (simp add: Let_def pipe_take_def add.commute)
    have n: "n - i = Suc (n - Suc i)" using i(1) by simp
    show ?thesis
      unfolding step n
      using Suc(1) [OF i(2), of "s\<lparr>mem := m\<rparr>" "got @ [?ch]" "pipe_take x"] c i(1) tk Suc.prems(1,3) by auto
  qed
qed

text \<open>
  C31. Reading from a pipe takes from the front: when the pipe holds bytes and the destination is
  mapped and writable, \<open>piperead\<close> returns the smaller of the request and the number of bytes held,
  has copied exactly the first bytes of the pipe to the destination and nothing else in memory, leaves
  the others in the pipe in order, and wakes the waiting writers.
\<close>

theorem piperead_takes:
  fixes s :: "'a file_state_scheme"
  assumes "running pr s" "twf 2 (mem s) (p_pagetable (procs s pr))" "0 \<notin> tset 2 (mem s) (p_pagetable (procs s pr))"
    "target (mem s) (p_pagetable (procs s pr)) addr n" "pipe_wf (pipes s pi)" "pipe_bytes (pipes s pi) \<noteq> []"
  shows "\<exists>m x. piperead pi addr (int n) s = Ok (int (min n (length (pipe_bytes (pipes s pi)))))
      (s\<lparr>mem := m, pipes := (pipes s)(pi := x), procs := wake (Some (Ch_pipe_write pi)) (Some pr) (procs s)\<rparr>) \<and>
    copied (mem s) (p_pagetable (procs s pr)) addr (take n (pipe_bytes (pipes s pi))) m \<and>
    pipe_wf x \<and> pipe_bytes x = drop n (pipe_bytes (pipes s pi))"
proof -
  note r = runningD [OF assms(1)]
  let ?s = "s\<lparr>regs := acq_regs (cur s) (regs s), cpus := acq_cpus (cur s) (regs s) (cpus s),
      spin := acq_spin (L_pipe pi) (cur s) (regs s) (spin s)\<rparr>"
  have e: "?s\<lparr>pipes := (pipes ?s)(pi := pipes s pi)\<rparr> = ?s" by simp
  have c: "copied (mem s) (p_pagetable (procs s pr)) addr [] (mem ?s)" using assms(2) by (simp add: copied_def)
  obtain m y where y: "piperead_copy pr pi addr (int n) (int 0) ?s =
      piperead_done pi (int (min n (length (pipe_bytes (pipes s pi))))) (?s\<lparr>mem := m, pipes := (pipes s)(pi := y)\<rparr>)"
      "copied (mem s) (p_pagetable (procs s pr)) addr (take n (pipe_bytes (pipes s pi))) m" "pipe_wf y"
      "pipe_bytes y = drop n (pipe_bytes (pipes s pi))"
    using piperead_copy_eq [of ?s pr _ "mem s" addr n "[]" 0 "pipes s pi" pi] c assms(2-5) unfolding e by auto
  have "piperead pi addr (int n) s = piperead_copy pr pi addr (int n) (int 0) ?s"
    using r assms(6) by (simp add: piperead_def myproc_eq acquire_eq piperead_wait_def pipe_bytes_Nil)
  then have "piperead pi addr (int n) s = Ok (int (min n (length (pipe_bytes (pipes s pi)))))
      (s\<lparr>mem := m, pipes := (pipes s)(pi := y), procs := wake (Some (Ch_pipe_write pi)) (Some pr) (procs s)\<rparr>)"
    unfolding y(1) piperead_done_def using r by (simp add: wakeup_eq release_eq)
  then show ?thesis using y(2-4) by blast
qed

text \<open>A machine with an open pipe at address 0 that holds two bytes.\<close>

definition sample_files :: "'z \<Rightarrow> 'z file_state_scheme" where
  "sample_files z = sample_cons
     \<lparr>ftable = (\<lambda>_. \<lparr>f_type = FD_NONE, f_ref = 0, f_readable = False, f_writable = False, f_pipe = 0, f_ip = None,
        f_off = 0, f_major = 0\<rparr>),
      pipes = (\<lambda>_. \<lparr>pi_data = replicate PIPESIZE 5, pi_nread = - 1, pi_nwrite = 1, pi_readopen = 1, pi_writeopen = 1\<rparr>),
      \<dots> = z\<rparr>"

lemma sample_files_facts:
  "running 0 (sample_files z)" "p_killed (procs (sample_files z) 0) = 0" "mem (sample_files z) = sample_umem"
  "p_pagetable (procs (sample_files z) 0) = 0x87ffe000" "pipe_wf (pipes (sample_files z) a)"
  "pi_readopen (pipes (sample_files z) a) = 1" "pipe_bytes (pipes (sample_files z) a) = [5, 5]"
  using sample_cons_facts(1) [of "\<lparr>ftable = _, pipes = _, \<dots> = _\<rparr>"]
  by (simp_all add: sample_files_def sample_cons_def sample_boot_def sample_sleeping_def sample_user_def
      sample_procs_def sample_phys_def pipe_wf_def pipe_bytes_def PIPESIZE_def blank_proc_def ring_list_def upt_rec)

theorem pipewrite_appends_witness:
  "\<exists>x t. pipewrite 0 0 (int 16) (sample_files ()) = Ok (int 16) t \<and> pipes t 0 = x \<and> length (pipe_bytes x) = 18"
proof -
  have "present sample_umem 0x87ffe000 0 16" using sample_target [of 16] by (simp add: target_def)
  then show ?thesis
    using pipewrite_appends [OF sample_files_facts(1) [of "()"], of 0 16 0] sample_umem_facts(1,2)
    by (auto simp: sample_files_facts PIPESIZE_def ustring_def)
qed

theorem piperead_takes_witness:
  "\<exists>t. piperead 0 0 (int 16) (sample_files ()) = Ok 2 t \<and> pipe_bytes (pipes t 0) = []"
  using piperead_takes [OF sample_files_facts(1) [of "()"], of 0 16 0] sample_umem_facts(1,2) sample_target [of 16]
  by (auto simp: sample_files_facts PIPESIZE_def)

end
