(* ===== verification/Virtio.thy ===== *)
theory Virtio
  imports Pipes
begin

section \<open>The disk driver (virtio\_disk.c)\<close>

text \<open>
  The queue shared with the device.  The descriptor table and the two rings live in pages of their own;
  they are kept here as fields.  The addresses the driver puts into descriptors point to the request
  headers, to the data of buffers and to status bytes, which are all kernel objects outside the modelled
  memory: they are named by what they point to.

  The device is outside the sources: what a read of one of its registers returns is the parameter \<open>rd\<close>,
  and the stores to its registers are recorded in order.  \<open>dev_seen\<close> is how far the device has looked
  into the ring of available requests.
\<close>

datatype virtio_reg =
    VIRTIO_MMIO_MAGIC_VALUE | VIRTIO_MMIO_VERSION | VIRTIO_MMIO_DEVICE_ID
  | VIRTIO_MMIO_VENDOR_ID | VIRTIO_MMIO_DEVICE_FEATURES | VIRTIO_MMIO_DRIVER_FEATURES
  | VIRTIO_MMIO_QUEUE_SEL | VIRTIO_MMIO_QUEUE_NUM_MAX | VIRTIO_MMIO_QUEUE_NUM
  | VIRTIO_MMIO_QUEUE_READY | VIRTIO_MMIO_QUEUE_NOTIFY | VIRTIO_MMIO_INTERRUPT_STATUS
  | VIRTIO_MMIO_INTERRUPT_ACK | VIRTIO_MMIO_STATUS | VIRTIO_MMIO_QUEUE_DESC_LOW
  | VIRTIO_MMIO_QUEUE_DESC_HIGH | VIRTIO_MMIO_DRIVER_DESC_LOW | VIRTIO_MMIO_DRIVER_DESC_HIGH
  | VIRTIO_MMIO_DEVICE_DESC_LOW | VIRTIO_MMIO_DEVICE_DESC_HIGH

primrec virtio_offset :: "virtio_reg \<Rightarrow> nat" where
  "virtio_offset VIRTIO_MMIO_MAGIC_VALUE = 0x000"
| "virtio_offset VIRTIO_MMIO_VERSION = 0x004"
| "virtio_offset VIRTIO_MMIO_DEVICE_ID = 0x008"
| "virtio_offset VIRTIO_MMIO_VENDOR_ID = 0x00c"
| "virtio_offset VIRTIO_MMIO_DEVICE_FEATURES = 0x010"
| "virtio_offset VIRTIO_MMIO_DRIVER_FEATURES = 0x020"
| "virtio_offset VIRTIO_MMIO_QUEUE_SEL = 0x030"
| "virtio_offset VIRTIO_MMIO_QUEUE_NUM_MAX = 0x034"
| "virtio_offset VIRTIO_MMIO_QUEUE_NUM = 0x038"
| "virtio_offset VIRTIO_MMIO_QUEUE_READY = 0x044"
| "virtio_offset VIRTIO_MMIO_QUEUE_NOTIFY = 0x050"
| "virtio_offset VIRTIO_MMIO_INTERRUPT_STATUS = 0x060"
| "virtio_offset VIRTIO_MMIO_INTERRUPT_ACK = 0x064"
| "virtio_offset VIRTIO_MMIO_STATUS = 0x070"
| "virtio_offset VIRTIO_MMIO_QUEUE_DESC_LOW = 0x080"
| "virtio_offset VIRTIO_MMIO_QUEUE_DESC_HIGH = 0x084"
| "virtio_offset VIRTIO_MMIO_DRIVER_DESC_LOW = 0x090"
| "virtio_offset VIRTIO_MMIO_DRIVER_DESC_HIGH = 0x094"
| "virtio_offset VIRTIO_MMIO_DEVICE_DESC_LOW = 0x0a0"
| "virtio_offset VIRTIO_MMIO_DEVICE_DESC_HIGH = 0x0a4"

datatype virtio_status =
    VIRTIO_CONFIG_S_ACKNOWLEDGE | VIRTIO_CONFIG_S_DRIVER | VIRTIO_CONFIG_S_DRIVER_OK | VIRTIO_CONFIG_S_FEATURES_OK

primrec status_bit :: "virtio_status \<Rightarrow> uint32" where
  "status_bit VIRTIO_CONFIG_S_ACKNOWLEDGE = 1"
| "status_bit VIRTIO_CONFIG_S_DRIVER = 2"
| "status_bit VIRTIO_CONFIG_S_DRIVER_OK = 4"
| "status_bit VIRTIO_CONFIG_S_FEATURES_OK = 8"

datatype virtio_feature =
    VIRTIO_BLK_F_RO | VIRTIO_BLK_F_SCSI | VIRTIO_BLK_F_CONFIG_WCE
  | VIRTIO_BLK_F_MQ | VIRTIO_F_ANY_LAYOUT | VIRTIO_RING_F_INDIRECT_DESC
  | VIRTIO_RING_F_EVENT_IDX

primrec feature_bit :: "virtio_feature \<Rightarrow> nat" where
  "feature_bit VIRTIO_BLK_F_RO = 5"
| "feature_bit VIRTIO_BLK_F_SCSI = 7"
| "feature_bit VIRTIO_BLK_F_CONFIG_WCE = 11"
| "feature_bit VIRTIO_BLK_F_MQ = 12"
| "feature_bit VIRTIO_F_ANY_LAYOUT = 27"
| "feature_bit VIRTIO_RING_F_INDIRECT_DESC = 28"
| "feature_bit VIRTIO_RING_F_EVENT_IDX = 29"

definition NUM :: nat where "NUM = 8"
definition VRING_DESC_F_NEXT :: uint16 where "VRING_DESC_F_NEXT = 1"
definition VRING_DESC_F_WRITE :: uint16 where "VRING_DESC_F_WRITE = 2"
definition VIRTIO_BLK_T_IN :: uint32 where "VIRTIO_BLK_T_IN = 0"
definition VIRTIO_BLK_T_OUT :: uint32 where "VIRTIO_BLK_T_OUT = 1"

datatype dma_addr = DmaNull | DmaOps nat | DmaData nat | DmaStatus nat

record virtq_desc =
  d_addr :: dma_addr
  d_len :: uint32
  d_flags :: uint16
  d_next :: uint16

record virtio_blk_req =
  req_type :: uint32
  req_reserved :: uint32
  req_sector :: uint64

record virtio_state = file_state +
  vq_desc :: "nat \<Rightarrow> virtq_desc"
  avail_idx :: uint16
  avail_ring :: "nat \<Rightarrow> uint16"
  used_idx :: uint16
  used_ring :: "nat \<Rightarrow> uint32"
  vd_free :: "nat \<Rightarrow> bool"
  vd_used_idx :: uint16
  info_b :: "nat \<Rightarrow> nat option"
  info_status :: "nat \<Rightarrow> byte"
  vd_ops :: "nat \<Rightarrow> virtio_blk_req"
  vd_stores :: "(nat \<times> uint32) list"
  dev_seen :: uint16

abbreviation set_desc :: "nat \<Rightarrow> (virtq_desc \<Rightarrow> virtq_desc) \<Rightarrow> 'a virtio_state_scheme \<Rightarrow> 'a virtio_state_scheme" where
  "set_desc i f s \<equiv> s\<lparr>vq_desc := (vq_desc s)(i := f (vq_desc s i))\<rparr>"

text \<open>A store to a device register.\<close>

definition vd_write :: "virtio_reg \<Rightarrow> uint32 \<Rightarrow> 'a virtio_state_scheme \<Rightarrow> 'a virtio_state_scheme" where
  "vd_write r v s = s\<lparr>vd_stores := vd_stores s @ [(virtio_offset r, v)]\<rparr>"

subsection \<open>Setting up the device\<close>

text \<open>The feature bits the driver accepts of those the device offers.\<close>

definition vd_features :: "uint32 \<Rightarrow> uint32" where
  "vd_features f = fold (\<lambda>i f. f AND NOT (push_bit (feature_bit i) 1))
     [VIRTIO_BLK_F_RO, VIRTIO_BLK_F_SCSI, VIRTIO_BLK_F_CONFIG_WCE, VIRTIO_BLK_F_MQ, VIRTIO_F_ANY_LAYOUT,
      VIRTIO_RING_F_EVENT_IDX, VIRTIO_RING_F_INDIRECT_DESC] f"

text \<open>The addresses of the three pages, and the end of the setup once they are there.\<close>

definition virtio_disk_queue ::
  "uint32 \<Rightarrow> uint64 \<Rightarrow> uint64 \<Rightarrow> uint64 \<Rightarrow> 'a virtio_state_scheme \<Rightarrow> 'a virtio_state_scheme" where
  "virtio_disk_queue status desc avail used s =
     (let s = s\<lparr>mem := memset desc 0 4096 (mem s)\<rparr>; s = s\<lparr>mem := memset avail 0 4096 (mem s)\<rparr>;
          s = s\<lparr>mem := memset used 0 4096 (mem s)\<rparr>;
          s = s\<lparr>vq_desc := (\<lambda>_. \<lparr>d_addr = DmaNull, d_len = 0, d_flags = 0, d_next = 0\<rparr>),
                avail_idx := 0, avail_ring := (\<lambda>_. 0), used_idx := 0, used_ring := (\<lambda>_. 0)\<rparr>;
          s = vd_write VIRTIO_MMIO_QUEUE_NUM (of_nat NUM) s;
          s = vd_write VIRTIO_MMIO_QUEUE_DESC_LOW (ucast desc) s;
          s = vd_write VIRTIO_MMIO_QUEUE_DESC_HIGH (ucast (drop_bit 32 desc)) s;
          s = vd_write VIRTIO_MMIO_DRIVER_DESC_LOW (ucast avail) s;
          s = vd_write VIRTIO_MMIO_DRIVER_DESC_HIGH (ucast (drop_bit 32 avail)) s;
          s = vd_write VIRTIO_MMIO_DEVICE_DESC_LOW (ucast used) s;
          s = vd_write VIRTIO_MMIO_DEVICE_DESC_HIGH (ucast (drop_bit 32 used)) s;
          s = vd_write VIRTIO_MMIO_QUEUE_READY 1 s;
          s = s\<lparr>vd_free := (\<lambda>i. if i < NUM then True else vd_free s i)\<rparr>
      in vd_write VIRTIO_MMIO_STATUS (status OR status_bit VIRTIO_CONFIG_S_DRIVER_OK) s)"

definition virtio_disk_init ::
  "(virtio_reg \<Rightarrow> 'a virtio_state_scheme \<Rightarrow> uint32) \<Rightarrow> 'a virtio_state_scheme \<Rightarrow> (unit, 'a virtio_state_scheme) outcome" where
  "virtio_disk_init rd s =
     (let s = initlock L_vdisk ''virtio_disk'' s in
      if rd VIRTIO_MMIO_MAGIC_VALUE s \<noteq> 0x74726976 \<or> rd VIRTIO_MMIO_VERSION s \<noteq> 2 \<or>
         rd VIRTIO_MMIO_DEVICE_ID s \<noteq> 2 \<or> rd VIRTIO_MMIO_VENDOR_ID s \<noteq> 0x554d4551
      then Panic ''could not find virtio disk''
      else
      let s = vd_write VIRTIO_MMIO_STATUS 0 s;
          status = status_bit VIRTIO_CONFIG_S_ACKNOWLEDGE; s = vd_write VIRTIO_MMIO_STATUS status s;
          status = status OR status_bit VIRTIO_CONFIG_S_DRIVER; s = vd_write VIRTIO_MMIO_STATUS status s;
          s = vd_write VIRTIO_MMIO_DRIVER_FEATURES (vd_features (rd VIRTIO_MMIO_DEVICE_FEATURES s)) s;
          status = status OR status_bit VIRTIO_CONFIG_S_FEATURES_OK; s = vd_write VIRTIO_MMIO_STATUS status s;
          status = rd VIRTIO_MMIO_STATUS s in
      if status AND status_bit VIRTIO_CONFIG_S_FEATURES_OK = 0 then Panic ''virtio disk FEATURES_OK unset''
      else
      let s = vd_write VIRTIO_MMIO_QUEUE_SEL 0 s in
      if rd VIRTIO_MMIO_QUEUE_READY s \<noteq> 0 then Panic ''virtio disk should not be ready''
      else if rd VIRTIO_MMIO_QUEUE_NUM_MAX s = 0 then Panic ''virtio disk has no queue 0''
      else if rd VIRTIO_MMIO_QUEUE_NUM_MAX s < of_nat NUM then Panic ''virtio disk max queue too short''
      else
      andthen (kalloc s) (\<lambda>desc s.
      andthen (kalloc s) (\<lambda>avail s.
      andthen (kalloc s) (\<lambda>used s.
      if desc = 0 \<or> avail = 0 \<or> used = 0 then Panic ''virtio disk kalloc''
      else Ok () (virtio_disk_queue status desc avail used s)))))"

subsection \<open>Descriptors\<close>

definition alloc_desc :: "'a virtio_state_scheme \<Rightarrow> nat option \<times> 'a virtio_state_scheme" where
  "alloc_desc s =
     (case find (vd_free s) [0..<NUM] of
        None \<Rightarrow> (None, s)
      | Some i \<Rightarrow> (Some i, s\<lparr>vd_free := (vd_free s)(i := False)\<rparr>))"

definition free_desc :: "nat \<Rightarrow> 'a virtio_state_scheme \<Rightarrow> (unit, 'a virtio_state_scheme) outcome" where
  "free_desc i s =
     (if i \<ge> NUM then Panic ''free_desc 1''
      else if vd_free s i then Panic ''free_desc 2''
      else let s = set_desc i (\<lambda>d. d\<lparr>d_addr := DmaNull, d_len := 0, d_flags := 0, d_next := 0\<rparr>) s;
               s = s\<lparr>vd_free := (vd_free s)(i := True)\<rparr>
           in wakeup (Some Ch_disk_free) s)"

text \<open>
  Every round of \<open>free_chain\<close> frees a descriptor that was not free, or panics; so there are at most
  \<open>NUM\<close> rounds that go on.
\<close>

primrec free_chain_loop :: "nat \<Rightarrow> nat \<Rightarrow> 'a virtio_state_scheme \<Rightarrow> (unit, 'a virtio_state_scheme) outcome" where
  "free_chain_loop 0 i s = Spin s"
| "free_chain_loop (Suc k) i s =
     (let flag = d_flags (vq_desc s i); nxt = d_next (vq_desc s i) in
      andthen (free_desc i s) (\<lambda>_ s.
      if flag AND VRING_DESC_F_NEXT \<noteq> 0 then free_chain_loop k (unat nxt) s else Ok () s))"

definition free_chain :: "nat \<Rightarrow> 'a virtio_state_scheme \<Rightarrow> (unit, 'a virtio_state_scheme) outcome" where
  "free_chain i s = free_chain_loop (Suc NUM) i s"

text \<open>The descriptors still to allocate and those allocated so far.\<close>

primrec alloc3_loop ::
  "nat \<Rightarrow> nat list \<Rightarrow> 'a virtio_state_scheme \<Rightarrow> (nat list option, 'a virtio_state_scheme) outcome" where
  "alloc3_loop 0 idx s = Ok (Some idx) s"
| "alloc3_loop (Suc k) idx s =
     (case alloc_desc s of
        (None, s) \<Rightarrow>
          andthen (forK idx (\<lambda>j s. andthen (free_desc j s) (\<lambda>_ s. Ok (None :: unit option) s)) s) (\<lambda>_ s. Ok None s)
      | (Some i, s) \<Rightarrow> alloc3_loop k (idx @ [i]) s)"

definition alloc3_desc :: "'a virtio_state_scheme \<Rightarrow> (nat list option, 'a virtio_state_scheme) outcome" where
  "alloc3_desc s = alloc3_loop 3 [] s"

subsection \<open>Requests\<close>

text \<open>Formatting the descriptors \<open>i0\<close>, \<open>i1\<close>, \<open>i2\<close> of a request for buffer \<open>b\<close>, and telling the device.\<close>

definition virtio_submit ::
  "nat \<Rightarrow> bool \<Rightarrow> nat \<Rightarrow> nat \<Rightarrow> nat \<Rightarrow> 'a virtio_state_scheme \<Rightarrow> 'a virtio_state_scheme" where
  "virtio_submit b wr i0 i1 i2 s =
     (let sector = ucast (b_blockno (bufs s b) * of_nat (BSIZE div 512)) :: uint64;
          s = s\<lparr>vd_ops := (vd_ops s)(i0 := \<lparr>req_type = (if wr then VIRTIO_BLK_T_OUT else VIRTIO_BLK_T_IN),
                  req_reserved = 0, req_sector = sector\<rparr>)\<rparr>;
          s = set_desc i0 (\<lambda>d. d\<lparr>d_addr := DmaOps i0, d_len := 16, d_flags := VRING_DESC_F_NEXT, d_next := of_nat i1\<rparr>) s;
          s = set_desc i1 (\<lambda>d. d\<lparr>d_addr := DmaData b, d_len := of_nat BSIZE,
                d_flags := (if wr then 0 else VRING_DESC_F_WRITE)\<rparr>) s;
          s = set_desc i1 (\<lambda>d. d\<lparr>d_flags := d_flags d OR VRING_DESC_F_NEXT, d_next := of_nat i2\<rparr>) s;
          s = s\<lparr>info_status := (info_status s)(i0 := 0xff)\<rparr>;
          s = set_desc i2 (\<lambda>d. d\<lparr>d_addr := DmaStatus i0, d_len := 1, d_flags := VRING_DESC_F_WRITE, d_next := 0\<rparr>) s;
          s = set_buf b (\<lambda>x. x\<lparr>b_disk := True\<rparr>) s;
          s = s\<lparr>info_b := (info_b s)(i0 := Some b)\<rparr>;
          s = s\<lparr>avail_ring := (avail_ring s)(unat (avail_idx s) mod NUM := of_nat i0)\<rparr>;
          s = s\<lparr>avail_idx := avail_idx s + 1\<rparr>
      in vd_write VIRTIO_MMIO_QUEUE_NOTIFY 0 s)"

text \<open>
  Waiting for the request at descriptor \<open>i0\<close>; \<open>sleep\<close> does not return, and a process that has slept
  goes on in the \<open>_resume\<close> definitions.
\<close>

definition virtio_disk_wait :: "nat \<Rightarrow> nat \<Rightarrow> 'a virtio_state_scheme \<Rightarrow> (unit, 'a virtio_state_scheme) outcome" where
  "virtio_disk_wait b i0 s =
     (if b_disk (bufs s b) then sleep (Some (Ch_buf b)) L_vdisk s
      else andthen (free_chain i0 (s\<lparr>info_b := (info_b s)(i0 := None)\<rparr>)) (\<lambda>_ s. release L_vdisk s))"

definition virtio_disk_start :: "nat \<Rightarrow> bool \<Rightarrow> 'a virtio_state_scheme \<Rightarrow> (unit, 'a virtio_state_scheme) outcome" where
  "virtio_disk_start b wr s =
     andthen (alloc3_desc s) (\<lambda>r s.
     case r of
       Some idx \<Rightarrow> virtio_disk_wait b (idx ! 0) (virtio_submit b wr (idx ! 0) (idx ! 1) (idx ! 2) s)
     | None \<Rightarrow> sleep (Some Ch_disk_free) L_vdisk s)"

definition virtio_disk_rw :: "nat \<Rightarrow> bool \<Rightarrow> 'a virtio_state_scheme \<Rightarrow> (unit, 'a virtio_state_scheme) outcome" where
  "virtio_disk_rw b wr s = andthen (acquire L_vdisk s) (\<lambda>_ s. virtio_disk_start b wr s)"

definition virtio_disk_start_resume ::
  "nat \<Rightarrow> bool \<Rightarrow> nat \<Rightarrow> bool \<Rightarrow> 'a virtio_state_scheme \<Rightarrow> (unit, 'a virtio_state_scheme) outcome" where
  "virtio_disk_start_resume p intena0 b wr s =
     andthen (sleep_resume p intena0 L_vdisk s) (\<lambda>_ s. virtio_disk_start b wr s)"

definition virtio_disk_wait_resume ::
  "nat \<Rightarrow> bool \<Rightarrow> nat \<Rightarrow> nat \<Rightarrow> 'a virtio_state_scheme \<Rightarrow> (unit, 'a virtio_state_scheme) outcome" where
  "virtio_disk_wait_resume p intena0 b i0 s =
     andthen (sleep_resume p intena0 L_vdisk s) (\<lambda>_ s. virtio_disk_wait b i0 s)"

subsection \<open>The interrupt\<close>

text \<open>
  The loop over the completed requests, which ends when the driver's index has caught up with the
  device's; an index has \<open>2 ^ 16\<close> values.
\<close>

function virtio_intr_loop :: "uint16 \<Rightarrow> uint16 \<Rightarrow> 'a virtio_state_scheme \<Rightarrow> (unit, 'a virtio_state_scheme) outcome" where
  "virtio_intr_loop i lim s =
     (if i = lim then Ok () s
      else let ident = unat (used_ring s (unat i mod NUM)) in
        if info_status s ident \<noteq> 0 then Panic ''virtio_disk_intr status''
        else deref (info_b s ident) (\<lambda>b.
             andthen (wakeup (Some (Ch_buf b)) (set_buf b (\<lambda>x. x\<lparr>b_disk := False\<rparr>) s)) (\<lambda>_ s.
             virtio_intr_loop (i + 1) lim (s\<lparr>vd_used_idx := i + 1\<rparr>))))"
  by pat_completeness auto
termination
proof (relation "measure (\<lambda>(i, lim, s). unat (lim - i))", goal_cases)
  case (2 i lim)
  then have "lim - i \<noteq> 0" by simp
  then have "unat (lim - i - 1) < unat (lim - i)" by (simp add: unat_minus_one unat_gt_0)
  then show ?case by (simp add: algebra_simps)
qed simp

declare virtio_intr_loop.simps [simp del]

definition virtio_disk_intr ::
  "(virtio_reg \<Rightarrow> 'a virtio_state_scheme \<Rightarrow> uint32) \<Rightarrow> 'a virtio_state_scheme \<Rightarrow> (unit, 'a virtio_state_scheme) outcome" where
  "virtio_disk_intr rd s =
     andthen (acquire L_vdisk s) (\<lambda>_ s.
     let s = vd_write VIRTIO_MMIO_INTERRUPT_ACK (rd VIRTIO_MMIO_INTERRUPT_STATUS s AND 3) s in
     andthen (virtio_intr_loop (vd_used_idx s) (used_idx s) s) (\<lambda>_ s. release L_vdisk s))"

subsection \<open>What the device does\<close>

text \<open>
  The three descriptors that start at \<open>h\<close> ask for a transfer of buffer \<open>b\<close>, as section 5.2 of the virtio
  specification describes requests of a block device.
\<close>

definition request_at :: "nat \<Rightarrow> nat \<Rightarrow> bool \<Rightarrow> 'a virtio_state_scheme \<Rightarrow> bool" where
  "request_at h b wr s \<longleftrightarrow>
     (let d0 = vq_desc s h; d1 = vq_desc s (unat (d_next d0)); d2 = vq_desc s (unat (d_next d1)) in
      d_addr d0 = DmaOps h \<and> d_len d0 = 16 \<and> d_flags d0 = VRING_DESC_F_NEXT \<and>
      d_addr d1 = DmaData b \<and> d_len d1 = of_nat BSIZE \<and>
      d_flags d1 = (if wr then VRING_DESC_F_NEXT else VRING_DESC_F_WRITE OR VRING_DESC_F_NEXT) \<and>
      d_addr d2 = DmaStatus h \<and> d_len d2 = 1 \<and> d_flags d2 = VRING_DESC_F_WRITE \<and>
      req_type (vd_ops s h) = (if wr then VIRTIO_BLK_T_OUT else VIRTIO_BLK_T_IN))"

text \<open>
  The state once the device has served that request: the data are transferred, the status byte is zero,
  and the head of the chain is the next entry of the ring of used requests.  A block is two sectors.
\<close>

definition served :: "nat \<Rightarrow> nat \<Rightarrow> bool \<Rightarrow> 'a virtio_state_scheme \<Rightarrow> 'a virtio_state_scheme" where
  "served h b wr s =
     (let n = ucast (req_sector (vd_ops s h) div 2) :: uint32;
          s = (if wr then s\<lparr>disk := (disk s)(n := b_data (bufs s b)), dwrites := dwrites s @ [(n, b_data (bufs s b))]\<rparr>
               else set_buf b (\<lambda>x. x\<lparr>b_data := disk s n\<rparr>) s)
      in s\<lparr>info_status := (info_status s)(h := 0),
           used_ring := (used_ring s)(unat (used_idx s) mod NUM := of_nat h),
           used_idx := used_idx s + 1, dev_seen := dev_seen s + 1\<rparr>)"

text \<open>
  The documented behaviour of the device \<open>dev\<close>: it serves the next request of the ring of available
  requests.
\<close>

definition virtio_device :: "('a virtio_state_scheme \<Rightarrow> 'a virtio_state_scheme) \<Rightarrow> bool" where
  "virtio_device dev \<longleftrightarrow> (\<forall>s h b wr.
     dev_seen s \<noteq> avail_idx s \<and> avail_ring s (unat (dev_seen s) mod NUM) = of_nat h \<and> h < NUM \<and> request_at h b wr s \<and>
     even (unat (req_sector (vd_ops s h))) \<and> req_sector (vd_ops s h) < 2 ^ 32 \<longrightarrow> dev s = served h b wr s)"

subsection \<open>The driver carries out a disk transfer\<close>

lemma alloc_desc_some:
  assumes "i < NUM" "vd_free s i"
  obtains j where "j < NUM" "vd_free s j" "alloc_desc s = (Some j, s\<lparr>vd_free := (vd_free s)(j := False)\<rparr>)"
proof -
  have "find (vd_free s) [0..<NUM] \<noteq> None" using assms by (auto simp: find_None_iff)
  then obtain j where "find (vd_free s) [0..<NUM] = Some j" by blast
  moreover from this have "j < NUM" "vd_free s j" by (auto simp: find_Some_iff)
  ultimately show ?thesis using that [of j] by (simp add: alloc_desc_def)
qed

lemma alloc3_loop_ok:
  assumes "k \<le> card {i. i < NUM \<and> vd_free s i}"
  shows "\<exists>js. length js = k \<and> distinct js \<and> set js \<subseteq> {i. i < NUM \<and> vd_free s i} \<and>
    alloc3_loop k idx s = Ok (Some (idx @ js)) (s\<lparr>vd_free := \<lambda>i. vd_free s i \<and> i \<notin> set js\<rparr>)"
  using assms
proof (induction k arbitrary: idx s)
  case (Suc k)
  let ?F = "{i. i < NUM \<and> vd_free s i}"
  have "0 < card ?F" using Suc.prems by linarith
  then have "?F \<noteq> {}" unfolding card_gt_0_iff by blast
  then obtain i where "i < NUM" "vd_free s i" by blast
  then obtain j where j: "j < NUM" "vd_free s j" "alloc_desc s = (Some j, s\<lparr>vd_free := (vd_free s)(j := False)\<rparr>)"
    by (rule alloc_desc_some)
  let ?s = "s\<lparr>vd_free := (vd_free s)(j := False)\<rparr>"
  have F: "{i. i < NUM \<and> vd_free ?s i} = ?F - {j}" by auto
  have "k \<le> card {i. i < NUM \<and> vd_free ?s i}" unfolding F using Suc.prems j by simp
  from Suc.IH [OF this, of "idx @ [j]"] obtain js where js: "length js = k" "distinct js" "set js \<subseteq> ?F - {j}"
      "alloc3_loop k (idx @ [j]) ?s = Ok (Some ((idx @ [j]) @ js)) (?s\<lparr>vd_free := \<lambda>i. vd_free ?s i \<and> i \<notin> set js\<rparr>)"
    unfolding F by (elim exE conjE)
  have v: "(\<lambda>i. vd_free ?s i \<and> i \<notin> set js) = (\<lambda>i. vd_free s i \<and> i \<notin> set (j # js))" by auto
  have "alloc3_loop (Suc k) idx s = Ok (Some (idx @ j # js)) (s\<lparr>vd_free := \<lambda>i. vd_free s i \<and> i \<notin> set (j # js)\<rparr>)"
    using js(4) unfolding v by (simp add: j(3))
  moreover have "distinct (j # js)" "set (j # js) \<subseteq> ?F" using js(2,3) j(1,2) by auto
  ultimately show ?case using js(1) by (intro exI [of _ "j # js"]) simp
next
  case 0
  show ?case by (intro exI [of _ "[]"]) simp
qed

lemma alloc3_desc_ok:
  assumes "3 \<le> card {i. i < NUM \<and> vd_free s i}"
  obtains i0 i1 i2 where "distinct [i0, i1, i2]" "i0 < NUM" "i1 < NUM" "i2 < NUM" "vd_free s i0" "vd_free s i1" "vd_free s i2"
    "alloc3_desc s = Ok (Some [i0, i1, i2]) (s\<lparr>vd_free := \<lambda>i. vd_free s i \<and> i \<notin> {i0, i1, i2}\<rparr>)"
proof -
  obtain js where js: "length js = 3" "distinct js" "set js \<subseteq> {i. i < NUM \<and> vd_free s i}"
      "alloc3_loop 3 [] s = Ok (Some js) (s\<lparr>vd_free := \<lambda>i. vd_free s i \<and> i \<notin> set js\<rparr>)"
    using alloc3_loop_ok [OF assms, of "[]"] by auto
  obtain i0 i1 i2 where "js = [i0, i1, i2]" using js(1) by (auto simp: length_Suc_conv eval_nat_numeral)
  then show ?thesis using that [of i0 i1 i2] js by (simp add: alloc3_desc_def)
qed

lemma free_desc_eq:
  assumes "ready s" "proc_locks_free (curproc s) (spin s)" "i < NUM" "\<not> vd_free s i"
  shows "free_desc i s = Ok () (s\<lparr>vq_desc := (vq_desc s)(i := \<lparr>d_addr = DmaNull, d_len = 0, d_flags = 0, d_next = 0\<rparr>),
    vd_free := (vd_free s)(i := True), procs := wake (Some Ch_disk_free) (curproc s) (procs s)\<rparr>)"
proof -
  let ?d = "\<lparr>d_addr = DmaNull, d_len = 0, d_flags = 0, d_next = 0\<rparr>"
  let ?t = "s\<lparr>vq_desc := (vq_desc s)(i := ?d), vd_free := (vd_free s)(i := True)\<rparr>"
  have e: "(vq_desc s i)\<lparr>d_addr := DmaNull, d_len := 0, d_flags := 0, d_next := 0\<rparr> = ?d" by (cases "vq_desc s i") simp
  have "free_desc i s = wakeup (Some Ch_disk_free) ?t" using assms(3,4) unfolding free_desc_def Let_def e by simp
  also have "\<dots> = Ok () (?t\<lparr>procs := wake (Some Ch_disk_free) (curproc ?t) (procs ?t)\<rparr>)"
    using assms(1,2) by (intro wakeup_eq) simp_all
  finally show ?thesis by simp
qed

text \<open>The part of the state a request for the disk touches.\<close>

definition vdisk_part where
  "vdisk_part s = (vq_desc s, avail_idx s, avail_ring s, used_idx s, used_ring s, vd_free s, vd_used_idx s, info_b s,
     info_status s, vd_ops s, dev_seen s, bufs s, disk s, dwrites s)"

text \<open>The descriptors \<open>i0\<close>, \<open>i1\<close>, \<open>i2\<close> hold a request for buffer \<open>b\<close>.\<close>

definition in_flight :: "nat \<Rightarrow> nat \<Rightarrow> nat \<Rightarrow> nat \<Rightarrow> bool \<Rightarrow> 'a virtio_state_scheme \<Rightarrow> bool" where
  "in_flight i0 i1 i2 b wr s \<longleftrightarrow>
     distinct [i0, i1, i2] \<and> i0 < NUM \<and> i1 < NUM \<and> i2 < NUM \<and> \<not> vd_free s i0 \<and> \<not> vd_free s i1 \<and> \<not> vd_free s i2 \<and>
     vq_desc s i0 = \<lparr>d_addr = DmaOps i0, d_len = 16, d_flags = VRING_DESC_F_NEXT, d_next = of_nat i1\<rparr> \<and>
     vq_desc s i1 = \<lparr>d_addr = DmaData b, d_len = of_nat BSIZE,
       d_flags = (if wr then 0 else VRING_DESC_F_WRITE) OR VRING_DESC_F_NEXT, d_next = of_nat i2\<rparr> \<and>
     vq_desc s i2 = \<lparr>d_addr = DmaStatus i0, d_len = 1, d_flags = VRING_DESC_F_WRITE, d_next = 0\<rparr> \<and>
     req_type (vd_ops s i0) = (if wr then VIRTIO_BLK_T_OUT else VIRTIO_BLK_T_IN) \<and>
     req_sector (vd_ops s i0) = ucast (b_blockno (bufs s b) * of_nat (BSIZE div 512)) \<and> info_b s i0 = Some b"

lemma unat_desc: "i < NUM \<Longrightarrow> unat (of_nat i :: uint16) = i" "i < NUM \<Longrightarrow> unat (of_nat i :: uint32) = i"
  by (simp_all add: unat_of_nat NUM_def take_bit_nat_eq_self)

lemma in_flight_request: "in_flight i0 i1 i2 b wr s \<Longrightarrow> request_at i0 b wr s"
  by (simp add: in_flight_def request_at_def unat_desc Let_def)

lemma sector_block:
  fixes n :: uint32
  assumes "unat n < 2 ^ 31"
  shows "even (unat (ucast (n * of_nat (BSIZE div 512)) :: uint64))" "(ucast (n * of_nat (BSIZE div 512)) :: uint64) < 2 ^ 32"
    "ucast ((ucast (n * of_nat (BSIZE div 512)) :: uint64) div 2) = n"
proof -
  have u: "unat (ucast (n * of_nat (BSIZE div 512)) :: uint64) = 2 * unat n"
    using assms by (simp add: BSIZE_def unsigned_ucast_eq unat_word_ariths take_bit_nat_eq_self)
  show "even (unat (ucast (n * of_nat (BSIZE div 512)) :: uint64))" unfolding u by simp
  show "(ucast (n * of_nat (BSIZE div 512)) :: uint64) < 2 ^ 32" using assms u by (simp add: word_less_nat_alt)
  have "unat ((ucast (n * of_nat (BSIZE div 512)) :: uint64) div 2) = unat n" using u by (simp add: unat_div)
  then show "ucast ((ucast (n * of_nat (BSIZE div 512)) :: uint64) div 2) = n"
    using assms by (simp add: word_unat_eq_iff unsigned_ucast_eq take_bit_nat_eq_self)
qed

lemma virtio_submit_in_flight:
  assumes "distinct [i0, i1, i2]" "i0 < NUM" "i1 < NUM" "i2 < NUM" "\<not> vd_free s i0" "\<not> vd_free s i1" "\<not> vd_free s i2"
  shows "in_flight i0 i1 i2 b wr (virtio_submit b wr i0 i1 i2 s)"
  using assms by (simp add: in_flight_def virtio_submit_def Let_def vd_write_def)

lemma virtio_submit_fields:
  "cur (virtio_submit b wr i0 i1 i2 s) = cur s" "regs (virtio_submit b wr i0 i1 i2 s) = regs s"
  "cpus (virtio_submit b wr i0 i1 i2 s) = cpus s" "spin (virtio_submit b wr i0 i1 i2 s) = spin s"
  "procs (virtio_submit b wr i0 i1 i2 s) = procs s" "bufs (virtio_submit b wr i0 i1 i2 s) = (bufs s)(b := (bufs s b)\<lparr>b_disk := True\<rparr>)"
  "disk (virtio_submit b wr i0 i1 i2 s) = disk s" "dwrites (virtio_submit b wr i0 i1 i2 s) = dwrites s"
  "avail_idx (virtio_submit b wr i0 i1 i2 s) = avail_idx s + 1"
  "avail_ring (virtio_submit b wr i0 i1 i2 s) (unat (avail_idx s) mod NUM) = of_nat i0"
  "dev_seen (virtio_submit b wr i0 i1 i2 s) = dev_seen s" "used_idx (virtio_submit b wr i0 i1 i2 s) = used_idx s"
  "vd_used_idx (virtio_submit b wr i0 i1 i2 s) = vd_used_idx s" "vd_free (virtio_submit b wr i0 i1 i2 s) = vd_free s"
  by (simp_all add: virtio_submit_def Let_def vd_write_def)

lemma free_chain_request:
  assumes "ready s" "proc_locks_free (curproc s) (spin s)" "distinct [i0, i1, i2]" "i0 < NUM" "i1 < NUM" "i2 < NUM"
    "\<not> vd_free s i0" "\<not> vd_free s i1" "\<not> vd_free s i2"
    "d_flags (vq_desc s i0) AND VRING_DESC_F_NEXT \<noteq> 0" "d_next (vq_desc s i0) = of_nat i1"
    "d_flags (vq_desc s i1) AND VRING_DESC_F_NEXT \<noteq> 0" "d_next (vq_desc s i1) = of_nat i2"
    "d_flags (vq_desc s i2) AND VRING_DESC_F_NEXT = 0"
  shows "\<exists>D. free_chain i0 s = Ok () (s\<lparr>vq_desc := D, vd_free := (vd_free s)(i0 := True, i1 := True, i2 := True),
    procs := wake (Some Ch_disk_free) (curproc s) (procs s)\<rparr>)"
proof -
  have n: "unat (of_nat i :: uint16) = i" if "i < NUM" for i
    using that by (simp add: unat_of_nat NUM_def take_bit_nat_eq_self)
  obtain k where k: "Suc NUM = Suc (Suc (Suc k))" by (simp add: NUM_def)
  show ?thesis using assms unfolding free_chain_def k
    by (auto simp: free_desc_eq n)
qed

lemma virtio_device_serves:
  assumes "virtio_device dev" "in_flight i0 i1 i2 b wr s" "dev_seen s \<noteq> avail_idx s"
    "avail_ring s (unat (dev_seen s) mod NUM) = of_nat i0" "unat (b_blockno (bufs s b)) < 2 ^ 31"
  shows "dev s = served i0 b wr s"
proof -
  have "i0 < NUM" and q: "req_sector (vd_ops s i0) = ucast (b_blockno (bufs s b) * of_nat (BSIZE div 512))"
    using assms(2) by (simp_all add: in_flight_def)
  then show ?thesis
    using assms(1) [unfolded virtio_device_def, rule_format, of s i0 b wr] assms(3,4) sector_block(1,2) [OF assms(5)]
      in_flight_request [OF assms(2)] unfolding q by simp
qed

text \<open>The transfer as the device and the interrupt handler leave it.\<close>

lemma served_fields:
  "cur (served h b wr s) = cur s" "regs (served h b wr s) = regs s"
  "cpus (served h b wr s) = cpus s" "spin (served h b wr s) = spin s" "procs (served h b wr s) = procs s"
  "info_status (served h b wr s) = (info_status s)(h := 0)" "info_b (served h b wr s) = info_b s"
  "used_ring (served h b wr s) = (used_ring s)(unat (used_idx s) mod NUM := of_nat h)"
  "used_idx (served h b wr s) = used_idx s + 1" "vd_used_idx (served h b wr s) = vd_used_idx s"
  "vq_desc (served h b wr s) = vq_desc s" "vd_free (served h b wr s) = vd_free s"
  by (simp_all add: served_def Let_def)

lemma virtio_intr_one:
  fixes s :: "'a virtio_state_scheme"
  assumes "ready s" "free_lock L_vdisk s" "proc_locks_free (curproc s) (spin s)" "h < NUM" "info_b s h = Some b"
    "vd_used_idx s = used_idx s"
  shows "\<exists>S. virtio_disk_intr rd (served h b wr s) = Ok () ((served h b wr s)\<lparr>vd_stores := S,
      bufs := (bufs (served h b wr s))(b := (bufs (served h b wr s) b)\<lparr>b_disk := False\<rparr>),
      procs := wake (Some (Ch_buf b)) (curproc s) (procs s), vd_used_idx := used_idx s + 1\<rparr>)"
proof -
  let ?u = "served h b wr s"
  let ?a = "\<lambda>S. ?u\<lparr>regs := acq_regs (cur s) (regs s), cpus := acq_cpus (cur s) (regs s) (cpus s),
    spin := acq_spin L_vdisk (cur s) (regs s) (spin s), vd_stores := S\<rparr>"
  have one: "virtio_intr_loop i (i + 1) t = andthen (wakeup (Some (Ch_buf b)) (set_buf b (\<lambda>x. x\<lparr>b_disk := False\<rparr>) t)) (\<lambda>_ s.
      Ok () (s\<lparr>vd_used_idx := i + 1\<rparr>))"
    if "used_ring t (unat i mod NUM) = of_nat h" "info_status t h = 0" "info_b t h = Some b" for i and t :: "'a virtio_state_scheme"
    using that assms(4) by (subst virtio_intr_loop.simps) (simp add: virtio_intr_loop.simps [of _ _ _] unat_desc Let_def)
  obtain S where "virtio_disk_intr rd ?u = andthen (virtio_intr_loop (used_idx s) (used_idx s + 1) (?a S)) (\<lambda>_ s. release L_vdisk s)"
    using assms by (simp add: virtio_disk_intr_def acquire_eq served_fields vd_write_def Let_def)
  then show ?thesis
    using assms by (intro exI [of _ S]) (simp add: one served_fields wakeup_eq release_eq)
qed

lemma virtio_finish:
  fixes s :: "'a virtio_state_scheme"
  assumes "curproc s = Some p" "noff s = 1" "\<not> intr_get s" "holding (L_proc p) s" "free_lock L_vdisk s"
    "proc_locks_free (Some p) (spin s)" "in_flight i0 i1 i2 b wr s" "\<not> b_disk (bufs s b)"
  shows "\<exists>t. virtio_disk_wait_resume p intena0 b i0 s = Ok () t \<and> bufs t = bufs s \<and> disk t = disk s \<and>
    dwrites t = dwrites s \<and> vd_free t = (vd_free s)(i0 := True, i1 := True, i2 := True)"
proof -
  obtain R C where r: "sleep_resume p intena0 L_vdisk s = Ok () (s\<lparr>regs := acq_regs (cur s) R, cpus := acq_cpus (cur s) R C,
      spin := acq_spin L_vdisk (cur s) R (rel_spin (L_proc p) (spin s)), procs := (procs s)(p := (procs s p)\<lparr>p_chan := None\<rparr>)\<rparr>)"
      "settled (cur s) R C" "cpu_proc (C (me (cur s) R)) = Some p"
    using sleep_resume_eq [OF assms(1-5), of intena0] by auto
  let ?s = "s\<lparr>regs := acq_regs (cur s) R, cpus := acq_cpus (cur s) R C,
      spin := acq_spin L_vdisk (cur s) R (rel_spin (L_proc p) (spin s)), procs := (procs s)(p := (procs s p)\<lparr>p_chan := None\<rparr>),
      info_b := (info_b s)(i0 := None)\<rparr>"
  have "proc_locks_free (Some p) (rel_spin (L_proc p) (spin s))"
    using assms(6) unfolding proc_locks_free_def by (auto simp: lk_free_def rel_spin_def)
  then have l: "ready ?s" "proc_locks_free (curproc ?s) (spin ?s)" using r(2,3) by simp_all
  have f: "VRING_DESC_F_NEXT AND VRING_DESC_F_NEXT \<noteq> 0" "((if wr then 0 else VRING_DESC_F_WRITE) OR VRING_DESC_F_NEXT) AND VRING_DESC_F_NEXT \<noteq> 0"
      "VRING_DESC_F_WRITE AND VRING_DESC_F_NEXT = 0"
    by (simp_all add: VRING_DESC_F_NEXT_def VRING_DESC_F_WRITE_def and_one_eq)
  obtain D where "free_chain i0 ?s = Ok () (?s\<lparr>vq_desc := D, vd_free := (vd_free s)(i0 := True, i1 := True, i2 := True),
      procs := wake (Some Ch_disk_free) (curproc ?s) (procs ?s)\<rparr>)"
    using free_chain_request [OF l, of i0 i1 i2] assms(7) f by (auto simp: in_flight_def)
  then show ?thesis using r(1,2) assms(8) l by (simp add: virtio_disk_wait_resume_def virtio_disk_wait_def release_eq)
qed

lemma vdisk_partD:
  assumes "vdisk_part u = vdisk_part t"
  shows "bufs u = bufs t" "disk u = disk t" "dwrites u = dwrites t" "vd_free u = vd_free t"
  using assms by (simp_all add: vdisk_part_def)

lemma in_flight_part: "vdisk_part u = vdisk_part t \<Longrightarrow> in_flight i0 i1 i2 b wr u = in_flight i0 i1 i2 b wr t"
  by (simp add: vdisk_part_def in_flight_def)

text \<open>
  C32. The driver, the device and the interrupt handler together carry out the disk transfer the buffer
  cache relies on.  A process that asks for a transfer goes to sleep with its request queued; when the
  device, which behaves as documented, has served it, the interrupt handler makes the process runnable;
  when the process runs again, \<open>virtio_disk_rw\<close> returns with the buffers, the disk and its record of writes
  exactly as \<open>disk_transfer\<close> leaves them, and with every descriptor given back.
\<close>

theorem virtio_implements_disk_transfer:
  fixes s :: "'a virtio_state_scheme"
  assumes "virtio_device dev" "ready s" "curproc s = Some p" "noff s = 0" "p < NPROC" "\<forall>lk. free_lock lk s"
    "3 \<le> card {i. i < NUM \<and> vd_free s i}" "dev_seen s = avail_idx s" "vd_used_idx s = used_idx s"
    "unat (b_blockno (bufs s b)) < 2 ^ 31"
  shows "\<exists>t i0. virtio_disk_rw b wr s = Switch t \<and> p_state (procs t p) = SLEEPING \<and>
    (\<forall>u :: 'a virtio_state_scheme. ready u \<and> curproc u \<noteq> Some p \<and> free_lock L_vdisk u \<and> proc_locks_free (curproc u) (spin u) \<and>
       procs u p = procs t p \<and> vdisk_part u = vdisk_part t \<longrightarrow>
       (\<exists>v. virtio_disk_intr rd (dev u) = Ok () v \<and> p_state (procs v p) = RUNNABLE \<and>
         (\<forall>w :: 'a virtio_state_scheme. curproc w = Some p \<and> noff w = 1 \<and> \<not> intr_get w \<and> holding (L_proc p) w \<and> free_lock L_vdisk w \<and>
            proc_locks_free (Some p) (spin w) \<and> vdisk_part w = vdisk_part v \<longrightarrow>
            (\<exists>x s'. virtio_disk_wait_resume p intena0 b i0 w = Ok () x \<and> disk_transfer b wr s = Ok () s' \<and>
              bufs x = bufs s' \<and> disk x = disk s' \<and> dwrites x = dwrites s' \<and> vd_free x = vd_free s))))"
proof -
  let ?a = "s\<lparr>regs := acq_regs (cur s) (regs s), cpus := acq_cpus (cur s) (regs s) (cpus s),
      spin := acq_spin L_vdisk (cur s) (regs s) (spin s)\<rparr>"
  obtain i0 i1 i2 where i: "distinct [i0, i1, i2]" "i0 < NUM" "i1 < NUM" "i2 < NUM" "vd_free s i0" "vd_free s i1" "vd_free s i2"
      "alloc3_desc ?a = Ok (Some [i0, i1, i2]) (?a\<lparr>vd_free := \<lambda>i. vd_free s i \<and> i \<notin> {i0, i1, i2}\<rparr>)"
    using alloc3_desc_ok [of ?a] assms(7) by auto
  let ?r = "virtio_submit b wr i0 i1 i2 (?a\<lparr>vd_free := \<lambda>i. vd_free s i \<and> i \<notin> {i0, i1, i2}\<rparr>)"
  let ?t = "?r\<lparr>spin := rel_spin L_vdisk (acq_spin (L_proc p) (cur s) (regs ?r) (spin ?r)),
      procs := (procs s)(p := (procs s p)\<lparr>p_chan := Some (Ch_buf b), p_state := SLEEPING\<rparr>)\<rparr>"
  have "virtio_disk_rw b wr s = sleep (Some (Ch_buf b)) L_vdisk ?r"
    using assms(6) i(8) by (simp add: virtio_disk_rw_def acquire_eq virtio_disk_start_def virtio_disk_wait_def virtio_submit_fields)
  also have "\<dots> = Switch ?t"
    using assms(2-4,6) sleep_eq [of ?r p L_vdisk "Some (Ch_buf b)"] by (simp add: virtio_submit_fields mycpu_me)
  finally have t: "virtio_disk_rw b wr s = Switch ?t" .
  have fl: "in_flight i0 i1 i2 b wr ?r" using i by (intro virtio_submit_in_flight) simp_all
  have wk: "\<exists>v. virtio_disk_intr rd (dev u) = Ok () v \<and> p_state (procs v p) = RUNNABLE \<and>
         (\<forall>w :: 'a virtio_state_scheme. curproc w = Some p \<and> noff w = 1 \<and> \<not> intr_get w \<and> holding (L_proc p) w \<and> free_lock L_vdisk w \<and>
            proc_locks_free (Some p) (spin w) \<and> vdisk_part w = vdisk_part v \<longrightarrow>
            (\<exists>x s'. virtio_disk_wait_resume p intena0 b i0 w = Ok () x \<and> disk_transfer b wr s = Ok () s' \<and>
              bufs x = bufs s' \<and> disk x = disk s' \<and> dwrites x = dwrites s' \<and> vd_free x = vd_free s))"
    if u: "ready u" "curproc u \<noteq> Some p" "free_lock L_vdisk u" "proc_locks_free (curproc u) (spin u)" "procs u p = procs ?t p"
      "vdisk_part u = vdisk_part ?t" for u :: "'a virtio_state_scheme"
  proof -
    have "vdisk_part ?t = vdisk_part ?r" by (simp add: vdisk_part_def)
    with u(6) have ur: "vdisk_part u = vdisk_part ?r" by simp
    then have f: "bufs u = (bufs s)(b := (bufs s b)\<lparr>b_disk := True\<rparr>)" "disk u = disk s" "dwrites u = dwrites s"
        "dev_seen u = avail_idx s" "avail_idx u = avail_idx s + 1" "used_idx u = used_idx s" "vd_used_idx u = used_idx s"
        "avail_ring u = avail_ring ?r" "vd_free u = (\<lambda>i. vd_free s i \<and> i \<notin> {i0, i1, i2})"
      using assms(8,9) by (simp_all add: vdisk_part_def virtio_submit_fields)
    have uf: "in_flight i0 i1 i2 b wr u" using fl in_flight_part [OF ur] by simp
    have d: "dev u = served i0 b wr u"
      using virtio_device_serves [OF assms(1) uf] f assms(10) virtio_submit_fields(10) [of b wr i0 i1 i2 "?a\<lparr>vd_free := \<lambda>i. vd_free s i \<and> i \<notin> {i0, i1, i2}\<rparr>"]
      by simp
    have ib: "info_b u i0 = Some b" and sec: "req_sector (vd_ops u i0) = ucast (b_blockno (bufs s b) * of_nat (BSIZE div 512))"
      using uf f(1) by (simp_all add: in_flight_def)
    obtain S where S: "virtio_disk_intr rd (dev u) = Ok () ((served i0 b wr u)\<lparr>vd_stores := S,
        bufs := (bufs (served i0 b wr u))(b := (bufs (served i0 b wr u) b)\<lparr>b_disk := False\<rparr>),
        procs := wake (Some (Ch_buf b)) (curproc u) (procs u), vd_used_idx := used_idx u + 1\<rparr>)" (is "_ = Ok () ?v")
      using virtio_intr_one [OF u(1,3,4) i(2) ib, of rd wr] f unfolding d by auto
    have run: "p_state (procs ?v p) = RUNNABLE" using u(2,5) assms(5) by (auto simp: wake_def)
    obtain s' where s': "disk_transfer b wr s = Ok () s'" by (cases wr) (simp_all add: disk_transfer_def Let_def)
    then have "bufs ?v = bufs s'" "disk ?v = disk s'" "dwrites ?v = dwrites s'"
      using sector_block(3) [OF assms(10)] f sec by (cases wr; auto simp: disk_transfer_def served_def Let_def)+
    note tr = s' this
    have fv: "in_flight i0 i1 i2 b wr ?v" "\<not> b_disk (bufs ?v b)" and vf: "vd_free ?v = vd_free u"
      using uf by (auto simp: in_flight_def served_def Let_def)
    have fin: "\<exists>x. virtio_disk_wait_resume p intena0 b i0 w = Ok () x \<and> bufs x = bufs s' \<and> disk x = disk s' \<and>
        dwrites x = dwrites s' \<and> vd_free x = vd_free s"
      if w: "curproc w = Some p" "noff w = 1" "\<not> intr_get w" "holding (L_proc p) w" "free_lock L_vdisk w"
        "proc_locks_free (Some p) (spin w)" "vdisk_part w = vdisk_part ?v" for w :: "'a virtio_state_scheme"
    proof -
      have wv: "bufs w = bufs ?v" "disk w = disk ?v" "dwrites w = dwrites ?v" "vd_free w = vd_free ?v"
        by (rule vdisk_partD [OF w(7)])+
      have "(vd_free u)(i0 := True, i1 := True, i2 := True) = vd_free s" using f(9) i(5-7) by (auto simp: fun_eq_iff)
      then show ?thesis
        using virtio_finish [OF w(1-6), of i0 i1 i2 b wr intena0] fv in_flight_part [OF w(7)] wv vf tr(2-4) by auto
    qed
    show ?thesis
      unfolding S using run fin tr(1) by (intro exI [of _ ?v]) auto
  qed
  show ?thesis
    by (rule exI [of _ ?t], rule exI [of _ i0]) (use t wk in simp)
qed

text \<open>A machine with an idle disk, and a device that serves the requests \<open>virtio_disk_rw\<close> makes.\<close>

definition sample_vdisk :: "'z \<Rightarrow> 'z virtio_state_scheme" where
  "sample_vdisk z = sample_files
     \<lparr>vq_desc = (\<lambda>_. \<lparr>d_addr = DmaNull, d_len = 0, d_flags = 0, d_next = 0\<rparr>), avail_idx = 0, avail_ring = (\<lambda>_. 0),
      used_idx = 0, used_ring = (\<lambda>_. 0), vd_free = (\<lambda>i. i < NUM), vd_used_idx = 0, info_b = (\<lambda>_. None), info_status = (\<lambda>_. 0),
      vd_ops = (\<lambda>_. \<lparr>req_type = 0, req_reserved = 0, req_sector = 0\<rparr>), vd_stores = [], dev_seen = 0, \<dots> = z\<rparr>"

definition sample_device :: "'a virtio_state_scheme \<Rightarrow> 'a virtio_state_scheme" where
  "sample_device s =
     (let h = unat (avail_ring s (unat (dev_seen s) mod NUM)); d1 = vq_desc s (unat (d_next (vq_desc s h)))
      in if dev_seen s = avail_idx s then s
         else case d_addr d1 of DmaData b \<Rightarrow> served h b (req_type (vd_ops s h) = VIRTIO_BLK_T_OUT) s | _ \<Rightarrow> s)"

lemma sample_device_ok: "virtio_device sample_device"
  unfolding virtio_device_def
proof (intro allI impI, elim conjE)
  fix s :: "'a virtio_state_scheme" and h b wr
  assume a: "dev_seen s \<noteq> avail_idx s" "avail_ring s (unat (dev_seen s) mod NUM) = of_nat h" "h < NUM" "request_at h b wr s"
  have "(if wr then VIRTIO_BLK_T_OUT else VIRTIO_BLK_T_IN) = VIRTIO_BLK_T_OUT \<longleftrightarrow> wr"
    by (simp add: VIRTIO_BLK_T_OUT_def VIRTIO_BLK_T_IN_def)
  then show "sample_device s = served h b wr s"
    using a by (simp add: sample_device_def request_at_def unat_desc Let_def)
qed

theorem virtio_implements_disk_transfer_witness:
  "\<exists>t. virtio_disk_rw 0 True (sample_vdisk ()) = Switch t \<and> p_state (procs t 0) = SLEEPING"
proof -
  let ?s = "sample_vdisk ()"
  have r: "running 0 ?s" unfolding sample_vdisk_def by (rule sample_files_facts(1))
  have "noff ?s = 0" "3 \<le> card {i. i < NUM \<and> vd_free ?s i}" "unat (b_blockno (bufs ?s 0)) < 2 ^ 31"
    "dev_seen ?s = avail_idx ?s" "vd_used_idx ?s = used_idx ?s"
    by (simp_all add: sample_vdisk_def NUM_def sample_files_def sample_cons_def sample_boot_def sample_sleeping_def
        sample_user_def sample_procs_def sample_phys_def mycpu_me)
  then show ?thesis
    using virtio_implements_disk_transfer [OF sample_device_ok, where s = ?s and p = 0 and b = 0 and wr = True and
        rd = "\<lambda>_ _. 0" and ?intena0.0 = True] runningD [OF r]
    by (auto simp: NPROC_def)
qed

end
