(* ===== verification/Sysproc.thy ===== *)
theory Sysproc
  imports Proclife Exec Virtio Getprocs
begin

section \<open>System calls on processes (sysproc.c)\<close>

text \<open>
  The handlers take their arguments from the trapframe of the current process and return the value that
  goes into its \<open>a0\<close>; a negative C value is converted to 64 bits.  \<open>ticks\<close> counts clock interrupts;
  the stores to the interrupt controller are recorded in order.
\<close>

record trap_state = virtio_state +
  ticks :: uint32
  plic_stores :: "(uint64 \<times> uint32) list"
  started :: bool

definition SBRK_EAGER :: int where "SBRK_EAGER = 1"
definition SBRK_LAZY :: int where "SBRK_LAZY = 2"

definition sys_exit :: "'a trap_state_scheme \<Rightarrow> (uint64, 'a trap_state_scheme) outcome" where
  "sys_exit s = andthen (argint 0 s) (\<lambda>n s. andthen (kexit n s) (\<lambda>_ s. Ok 0 s))"

definition sys_getpid :: "'a trap_state_scheme \<Rightarrow> (uint64, 'a trap_state_scheme) outcome" where
  "sys_getpid s = andthen (myproc s) (\<lambda>p s. deref p (\<lambda>p. Ok (u64_of_int (p_pid (procs s p))) s))"

definition sys_fork :: "'a trap_state_scheme \<Rightarrow> (uint64, 'a trap_state_scheme) outcome" where
  "sys_fork s = andthen (kfork s) (\<lambda>r s. Ok (u64_of_int r) s)"

definition sys_wait :: "'a trap_state_scheme \<Rightarrow> (uint64, 'a trap_state_scheme) outcome" where
  "sys_wait s = andthen (argaddr 0 s) (\<lambda>p s. andthen (kwait p s) (\<lambda>r s. Ok (u64_of_int r) s))"

definition sys_sbrk :: "'a trap_state_scheme \<Rightarrow> (uint64, 'a trap_state_scheme) outcome" where
  "sys_sbrk s =
     andthen (argint 0 s) (\<lambda>n s.
     andthen (argint 1 s) (\<lambda>t s.
     andthen (myproc s) (\<lambda>p s. deref p (\<lambda>p.
     let addr = p_sz (procs s p) in
     if t = SBRK_EAGER \<or> n < 0 then
       andthen (growproc n s) (\<lambda>r s. if r < 0 then Ok (- 1) s else Ok addr s)
     else if addr + u64_of_int n < addr then Ok (- 1) s
     else if addr + u64_of_int n > TRAPFRAME then Ok (- 1) s
     else Ok addr (set_proc p (\<lambda>q. q\<lparr>p_sz := p_sz q + u64_of_int n\<rparr>) s)))))"

text \<open>
  The loop of \<open>sys_pause\<close>: the comparison is one of unsigned 32-bit numbers, so it survives the
  wrap-around of the counter.
\<close>

definition pause_loop :: "uint32 \<Rightarrow> int \<Rightarrow> 'a trap_state_scheme \<Rightarrow> (uint64, 'a trap_state_scheme) outcome" where
  "pause_loop ticks0 n s =
     (if ticks s - ticks0 < word_of_int n then
        andthen (myproc s) (\<lambda>p s. deref p (\<lambda>p.
        andthen (killed p s) (\<lambda>k s.
        if k \<noteq> 0 then andthen (release L_ticks s) (\<lambda>_ s. Ok (- 1) s)
        else andthen (sleep (Some Ch_ticks) L_ticks s) (\<lambda>_ s. Spin s))))
      else andthen (release L_ticks s) (\<lambda>_ s. Ok 0 s))"

definition sys_pause :: "'a trap_state_scheme \<Rightarrow> (uint64, 'a trap_state_scheme) outcome" where
  "sys_pause s =
     andthen (argint 0 s) (\<lambda>n s.
     let n = (if n < 0 then 0 else n) in
     andthen (acquire L_ticks s) (\<lambda>_ s. pause_loop (ticks s) n s))"

definition pause_resume ::
  "nat \<Rightarrow> bool \<Rightarrow> uint32 \<Rightarrow> int \<Rightarrow> 'a trap_state_scheme \<Rightarrow> (uint64, 'a trap_state_scheme) outcome" where
  "pause_resume p intena0 ticks0 n s =
     andthen (sleep_resume p intena0 L_ticks s) (\<lambda>_ s. pause_loop ticks0 n s)"

definition sys_kill :: "'a trap_state_scheme \<Rightarrow> (uint64, 'a trap_state_scheme) outcome" where
  "sys_kill s = andthen (argint 0 s) (\<lambda>pid s. andthen (kkill pid s) (\<lambda>r s. Ok (u64_of_int r) s))"

definition sys_uptime :: "'a trap_state_scheme \<Rightarrow> (uint64, 'a trap_state_scheme) outcome" where
  "sys_uptime s =
     andthen (acquire L_ticks s) (\<lambda>_ s.
     let xticks = ticks s in andthen (release L_ticks s) (\<lambda>_ s. Ok (ucast xticks) s))"

end
