(* ===== verification/Sysfile.thy ===== *)
theory Sysfile
  imports File Exec
begin

section \<open>System calls on files (sysfile.c)\<close>

text \<open>
  The handlers check their arguments and call the file layer.  The local array \<open>name\<close> is written before
  it is read; it starts here as zeros.  The failure value 0 of \<open>argfd\<close> and \<open>create\<close> is \<open>None\<close>.
\<close>

subsection \<open>File descriptors\<close>

definition argfd :: "nat \<Rightarrow> 'a file_state_scheme \<Rightarrow> ((nat \<times> nat) option, 'a file_state_scheme) outcome" where
  "argfd n s =
     andthen (argint n s) (\<lambda>fd s.
     if fd < 0 \<or> fd \<ge> int NOFILE then Ok None s
     else andthen (myproc s) (\<lambda>p s. deref p (\<lambda>p.
          case p_ofile (procs s p) (nat fd) of None \<Rightarrow> Ok None s | Some f \<Rightarrow> Ok (Some (nat fd, f)) s)))"

definition fdalloc :: "nat \<Rightarrow> 'a file_state_scheme \<Rightarrow> (int, 'a file_state_scheme) outcome" where
  "fdalloc f s =
     andthen (myproc s) (\<lambda>p s. deref p (\<lambda>p.
     case find (\<lambda>fd. p_ofile (procs s p) fd = None) [0..<NOFILE] of
       None \<Rightarrow> Ok (- 1) s
     | Some fd \<Rightarrow> Ok (int fd) (set_proc p (\<lambda>q. q\<lparr>p_ofile := (p_ofile q)(fd := Some f)\<rparr>) s)))"

definition sys_dup :: "'a file_state_scheme \<Rightarrow> (uint64, 'a file_state_scheme) outcome" where
  "sys_dup s =
     andthen (argfd 0 s) (\<lambda>r s.
     case r of None \<Rightarrow> Ok (- 1) s
     | Some (fd0, f) \<Rightarrow>
         andthen (fdalloc f s) (\<lambda>fd s.
         if fd < 0 then Ok (- 1) s
         else andthen (filedup f s) (\<lambda>_ s. Ok (u64_of_int fd) s)))"

definition sys_read :: "'a file_state_scheme \<Rightarrow> (uint64, 'a file_state_scheme) outcome" where
  "sys_read s =
     andthen (argaddr 1 s) (\<lambda>p s.
     andthen (argint 2 s) (\<lambda>n s.
     andthen (argfd 0 s) (\<lambda>r s.
     case r of None \<Rightarrow> Ok (- 1) s
     | Some (fd, f) \<Rightarrow> andthen (fileread f p n s) (\<lambda>r s. Ok (u64_of_int r) s))))"

definition sys_write :: "'a file_state_scheme \<Rightarrow> (uint64, 'a file_state_scheme) outcome" where
  "sys_write s =
     andthen (argaddr 1 s) (\<lambda>p s.
     andthen (argint 2 s) (\<lambda>n s.
     andthen (argfd 0 s) (\<lambda>r s.
     case r of None \<Rightarrow> Ok (- 1) s
     | Some (fd, f) \<Rightarrow> andthen (filewrite f p n s) (\<lambda>r s. Ok (u64_of_int r) s))))"

definition sys_close :: "'a file_state_scheme \<Rightarrow> (uint64, 'a file_state_scheme) outcome" where
  "sys_close s =
     andthen (argfd 0 s) (\<lambda>r s.
     case r of None \<Rightarrow> Ok (- 1) s
     | Some (fd, f) \<Rightarrow>
         andthen (myproc s) (\<lambda>p s. deref p (\<lambda>p.
         andthen (fileclose f (set_proc p (\<lambda>q. q\<lparr>p_ofile := (p_ofile q)(fd := None)\<rparr>) s)) (\<lambda>_ s.
         Ok 0 s))))"

definition sys_fstat :: "byte list \<Rightarrow> 'a file_state_scheme \<Rightarrow> (uint64, 'a file_state_scheme) outcome" where
  "sys_fstat pad s =
     andthen (argaddr 1 s) (\<lambda>st s.
     andthen (argfd 0 s) (\<lambda>r s.
     case r of None \<Rightarrow> Ok (- 1) s
     | Some (fd, f) \<Rightarrow> andthen (filestat pad f st s) (\<lambda>r s. Ok (u64_of_int r) s)))"

subsection \<open>Links\<close>

definition set_nlink :: "nat \<Rightarrow> (uint16 \<Rightarrow> uint16) \<Rightarrow> 'a fs_state_scheme \<Rightarrow> 'a fs_state_scheme" where
  "set_nlink ip f s = set_inode ip (\<lambda>x. x\<lparr>i_nlink := f (i_nlink x)\<rparr>) s"

definition sys_link_bad :: "nat \<Rightarrow> 'a fs_state_scheme \<Rightarrow> (uint64, 'a fs_state_scheme) outcome" where
  "sys_link_bad ip s =
     andthen (ilock (Some ip) s) (\<lambda>_ s.
     andthen (iupdate ip (set_nlink ip (\<lambda>n. n - 1) s)) (\<lambda>_ s.
     andthen (iunlockput (Some ip) s) (\<lambda>_ s.
     andthen (end_op s) (\<lambda>_ s. Ok (- 1) s))))"

definition sys_link :: "'a file_state_scheme \<Rightarrow> (uint64, 'a file_state_scheme) outcome" where
  "sys_link s =
     andthen (argstr 0 MAXPATH s) (\<lambda>(r, old) s.
     if r < 0 then Ok (- 1) s
     else andthen (argstr 1 MAXPATH s) (\<lambda>(r, new) s.
     if r < 0 then Ok (- 1) s
     else andthen (begin_op s) (\<lambda>_ s.
     andthen (namei old s) (\<lambda>ip s.
     case ip of
       None \<Rightarrow> andthen (end_op s) (\<lambda>_ s. Ok (- 1) s)
     | Some i \<Rightarrow>
         andthen (ilock ip s) (\<lambda>_ s.
         if i_type (itab s i) = T_DIR then
           andthen (iunlockput ip s) (\<lambda>_ s. andthen (end_op s) (\<lambda>_ s. Ok (- 1) s))
         else andthen (iupdate i (set_nlink i (\<lambda>n. n + 1) s)) (\<lambda>_ s.
         andthen (iunlock ip s) (\<lambda>_ s.
         andthen (nameiparent new (replicate DIRSIZ 0) s) (\<lambda>(dp, name) s.
         case dp of
           None \<Rightarrow> sys_link_bad i s
         | Some d \<Rightarrow>
             andthen (ilock dp s) (\<lambda>_ s.
             andthen (if i_dev (itab s d) \<noteq> i_dev (itab s i) then Ok (- 1) s
                      else dirlink d name (i_inum (itab s i)) s) (\<lambda>r s.
             if r < 0 then andthen (iunlockput dp s) (\<lambda>_ s. sys_link_bad i s)
             else andthen (iunlockput dp s) (\<lambda>_ s.
                  andthen (iput ip s) (\<lambda>_ s.
                  andthen (end_op s) (\<lambda>_ s. Ok 0 s)))))))))))))"

definition isdirempty :: "nat \<Rightarrow> 'a fs_state_scheme \<Rightarrow> (bool, 'a fs_state_scheme) outcome" where
  "isdirempty dp s =
     andthen (forK [2..<dirents (itab s dp)] (\<lambda>k s.
       andthen (read_dirent dp (of_nat (k * sizeof_dirent)) s) (\<lambda>(r, bs) s.
       if r \<noteq> int sizeof_dirent then Panic ''isdirempty: readi''
       else if de_inum (bytes_dirent bs) \<noteq> 0 then Ok (Some ()) s
       else Ok None s)) s) (\<lambda>r s. Ok (r = None) s)"

abbreviation dot :: "byte list" where
  "dot \<equiv> [46, 0]"

abbreviation dotdot :: "byte list" where
  "dotdot \<equiv> [46, 46, 0]"

definition sys_unlink_bad :: "nat option \<Rightarrow> 'a fs_state_scheme \<Rightarrow> (uint64, 'a fs_state_scheme) outcome" where
  "sys_unlink_bad dp s = andthen (iunlockput dp s) (\<lambda>_ s. andthen (end_op s) (\<lambda>_ s. Ok (- 1) s))"

definition sys_unlink :: "'a file_state_scheme \<Rightarrow> (uint64, 'a file_state_scheme) outcome" where
  "sys_unlink s =
     andthen (argstr 0 MAXPATH s) (\<lambda>(r, path) s.
     if r < 0 then Ok (- 1) s
     else andthen (begin_op s) (\<lambda>_ s.
     andthen (nameiparent path (replicate DIRSIZ 0) s) (\<lambda>(dp, name) s.
     case dp of
       None \<Rightarrow> andthen (end_op s) (\<lambda>_ s. Ok (- 1) s)
     | Some d \<Rightarrow>
         andthen (ilock dp s) (\<lambda>_ s.
         if namecmp name dot = 0 \<or> namecmp name dotdot = 0 then sys_unlink_bad dp s
         else andthen (dirlookup d name s) (\<lambda>r s.
         case r of
           None \<Rightarrow> sys_unlink_bad dp s
         | Some (i, off) \<Rightarrow>
             andthen (ilock (Some i) s) (\<lambda>_ s.
             if sint (i_nlink (itab s i)) < 1 then Panic ''unlink: nlink < 1''
             else andthen (if i_type (itab s i) = T_DIR then isdirempty i s else Ok True s) (\<lambda>e s.
             if \<not> e then andthen (iunlockput (Some i) s) (\<lambda>_ s. sys_unlink_bad dp s)
             else andthen (writei d (BufSrc (replicate sizeof_dirent 0)) off (of_nat sizeof_dirent) s) (\<lambda>r s.
             if r \<noteq> int sizeof_dirent then Panic ''unlink: writei''
             else andthen (if i_type (itab s i) = T_DIR then iupdate d (set_nlink d (\<lambda>n. n - 1) s) else Ok () s) (\<lambda>_ s.
             andthen (iunlockput dp s) (\<lambda>_ s.
             andthen (iupdate i (set_nlink i (\<lambda>n. n - 1) s)) (\<lambda>_ s.
             andthen (iunlockput (Some i) s) (\<lambda>_ s.
             andthen (end_op s) (\<lambda>_ s. Ok 0 s)))))))))))))"

subsection \<open>Creating and opening\<close>

definition create_fail :: "nat \<Rightarrow> nat \<Rightarrow> 'a fs_state_scheme \<Rightarrow> (nat option, 'a fs_state_scheme) outcome" where
  "create_fail ip dp s =
     andthen (iupdate ip (set_nlink ip (\<lambda>_. 0) s)) (\<lambda>_ s.
     andthen (iunlockput (Some ip) s) (\<lambda>_ s.
     andthen (iunlockput (Some dp) s) (\<lambda>_ s. Ok None s)))"

text \<open>Filling in the new inode \<open>ip\<close> and linking it into the directory \<open>dp\<close>.\<close>

definition create_new ::
  "nat \<Rightarrow> nat \<Rightarrow> byte list \<Rightarrow> uint16 \<Rightarrow> uint16 \<Rightarrow> uint16 \<Rightarrow> 'a fs_state_scheme \<Rightarrow> (nat option, 'a fs_state_scheme) outcome" where
  "create_new ip dp name type major minor s =
     andthen (ilock (Some ip) s) (\<lambda>_ s.
     andthen (iupdate ip (set_inode ip (\<lambda>x. x\<lparr>i_major := major, i_minor := minor, i_nlink := 1\<rparr>) s)) (\<lambda>_ s.
     andthen (if type = T_DIR then
                andthen (dirlink ip dot (i_inum (itab s ip)) s) (\<lambda>r s.
                if r < 0 then Ok r s else dirlink ip dotdot (i_inum (itab s dp)) s)
              else Ok 0 s) (\<lambda>r s.
     if r < 0 then create_fail ip dp s
     else andthen (dirlink dp name (i_inum (itab s ip)) s) (\<lambda>r s.
     if r < 0 then create_fail ip dp s
     else andthen (if type = T_DIR then iupdate dp (set_nlink dp (\<lambda>n. n + 1) s) else Ok () s) (\<lambda>_ s.
     andthen (iunlockput (Some dp) s) (\<lambda>_ s. Ok (Some ip) s))))))"

definition create ::
  "byte list \<Rightarrow> uint16 \<Rightarrow> uint16 \<Rightarrow> uint16 \<Rightarrow> 'a fs_state_scheme \<Rightarrow> (nat option, 'a fs_state_scheme) outcome" where
  "create path type major minor s =
     andthen (nameiparent path (replicate DIRSIZ 0) s) (\<lambda>(dp, name) s.
     case dp of
       None \<Rightarrow> Ok None s
     | Some d \<Rightarrow>
         andthen (ilock dp s) (\<lambda>_ s.
         andthen (dirlookup d name s) (\<lambda>r s.
         case r of
           Some (i, off) \<Rightarrow>
             andthen (iunlockput dp s) (\<lambda>_ s.
             andthen (ilock (Some i) s) (\<lambda>_ s.
             if type = T_FILE \<and> (i_type (itab s i) = T_FILE \<or> i_type (itab s i) = T_DEVICE) then Ok (Some i) s
             else andthen (iunlockput (Some i) s) (\<lambda>_ s. Ok None s)))
         | None \<Rightarrow>
             andthen (ialloc (i_dev (itab s d)) type s) (\<lambda>ip s.
             case ip of
               None \<Rightarrow> andthen (iunlockput dp s) (\<lambda>_ s. Ok None s)
             | Some i \<Rightarrow> create_new i d name type major minor s))))"

text \<open>The rest of \<open>sys_open\<close>, with the inode found or created and locked.\<close>

definition open_inode :: "nat \<Rightarrow> int \<Rightarrow> 'a file_state_scheme \<Rightarrow> (uint64, 'a file_state_scheme) outcome" where
  "open_inode ip omode s =
     (let bad = (\<lambda>s. andthen (iunlockput (Some ip) s) (\<lambda>_ s. andthen (end_op s) (\<lambda>_ s. Ok (- 1) s))) in
      if i_type (itab s ip) = T_DEVICE \<and> (sint (i_major (itab s ip)) < 0 \<or> sint (i_major (itab s ip)) \<ge> int NDEV) then bad s
      else andthen (filealloc s) (\<lambda>f s.
      case f of
        None \<Rightarrow> bad s
      | Some f \<Rightarrow>
          andthen (fdalloc f s) (\<lambda>fd s.
          if fd < 0 then andthen (fileclose f s) (\<lambda>_ s. bad s)
          else let s = (if i_type (itab s ip) = T_DEVICE
                        then set_file f (\<lambda>x. x\<lparr>f_type := FD_DEVICE, f_major := i_major (itab s ip)\<rparr>) s
                        else set_file f (\<lambda>x. x\<lparr>f_type := FD_INODE, f_off := 0\<rparr>) s);
                   s = set_file f (\<lambda>x. x\<lparr>f_ip := Some ip, f_readable := (omode AND omode_bits O_WRONLY = 0),
                         f_writable := (omode AND omode_bits O_WRONLY \<noteq> 0 \<or> omode AND omode_bits O_RDWR \<noteq> 0)\<rparr>) s in
          andthen (if omode AND omode_bits O_TRUNC \<noteq> 0 \<and> i_type (itab s ip) = T_FILE then itrunc ip s else Ok () s) (\<lambda>_ s.
          andthen (iunlock (Some ip) s) (\<lambda>_ s.
          andthen (end_op s) (\<lambda>_ s. Ok (u64_of_int fd) s))))))"

definition sys_open :: "'a file_state_scheme \<Rightarrow> (uint64, 'a file_state_scheme) outcome" where
  "sys_open s =
     andthen (argint 1 s) (\<lambda>omode s.
     andthen (argstr 0 MAXPATH s) (\<lambda>(n, path) s.
     if n < 0 then Ok (- 1) s
     else andthen (begin_op s) (\<lambda>_ s.
     if omode AND omode_bits O_CREATE \<noteq> 0 then
       andthen (create path T_FILE 0 0 s) (\<lambda>ip s.
       case ip of None \<Rightarrow> andthen (end_op s) (\<lambda>_ s. Ok (- 1) s) | Some i \<Rightarrow> open_inode i omode s)
     else
       andthen (namei path s) (\<lambda>ip s.
       case ip of
         None \<Rightarrow> andthen (end_op s) (\<lambda>_ s. Ok (- 1) s)
       | Some i \<Rightarrow>
           andthen (ilock ip s) (\<lambda>_ s.
           if i_type (itab s i) = T_DIR \<and> omode \<noteq> omode_bits O_RDONLY
           then andthen (iunlockput ip s) (\<lambda>_ s. andthen (end_op s) (\<lambda>_ s. Ok (- 1) s))
           else open_inode i omode s)))))"

definition sys_mkdir :: "'a file_state_scheme \<Rightarrow> (uint64, 'a file_state_scheme) outcome" where
  "sys_mkdir s =
     andthen (begin_op s) (\<lambda>_ s.
     andthen (argstr 0 MAXPATH s) (\<lambda>(r, path) s.
     andthen (if r < 0 then Ok None s else create path T_DIR 0 0 s) (\<lambda>ip s.
     if ip = None then andthen (end_op s) (\<lambda>_ s. Ok (- 1) s)
     else andthen (iunlockput ip s) (\<lambda>_ s. andthen (end_op s) (\<lambda>_ s. Ok 0 s)))))"

definition sys_mknod :: "'a file_state_scheme \<Rightarrow> (uint64, 'a file_state_scheme) outcome" where
  "sys_mknod s =
     andthen (begin_op s) (\<lambda>_ s.
     andthen (argint 1 s) (\<lambda>major s.
     andthen (argint 2 s) (\<lambda>minor s.
     andthen (argstr 0 MAXPATH s) (\<lambda>(r, path) s.
     andthen (if r < 0 then Ok None s else create path T_DEVICE (word_of_int major) (word_of_int minor) s) (\<lambda>ip s.
     if ip = None then andthen (end_op s) (\<lambda>_ s. Ok (- 1) s)
     else andthen (iunlockput ip s) (\<lambda>_ s. andthen (end_op s) (\<lambda>_ s. Ok 0 s)))))))"

definition sys_chdir :: "'a file_state_scheme \<Rightarrow> (uint64, 'a file_state_scheme) outcome" where
  "sys_chdir s =
     andthen (myproc s) (\<lambda>p s.
     andthen (begin_op s) (\<lambda>_ s.
     andthen (argstr 0 MAXPATH s) (\<lambda>(r, path) s.
     andthen (if r < 0 then Ok None s else namei path s) (\<lambda>ip s.
     case ip of
       None \<Rightarrow> andthen (end_op s) (\<lambda>_ s. Ok (- 1) s)
     | Some i \<Rightarrow>
         andthen (ilock ip s) (\<lambda>_ s.
         if i_type (itab s i) \<noteq> T_DIR then andthen (iunlockput ip s) (\<lambda>_ s. andthen (end_op s) (\<lambda>_ s. Ok (- 1) s))
         else andthen (iunlock ip s) (\<lambda>_ s. deref p (\<lambda>p.
              andthen (iput (p_cwd (procs s p)) s) (\<lambda>_ s.
              andthen (end_op s) (\<lambda>_ s.
              Ok 0 (set_proc p (\<lambda>q. q\<lparr>p_cwd := ip\<rparr>) s))))))))))"

subsection \<open>Exec and pipes\<close>

text \<open>
  Fetching the arguments from index \<open>i\<close> on.  Each goes into a page of its own; the result is whether all
  was well, with the pages and the strings in them.
\<close>

function fetch_argv ::
  "uint64 \<Rightarrow> nat \<Rightarrow> (uint64 \<times> byte list) list \<Rightarrow> 'a file_state_scheme \<Rightarrow>
   (bool \<times> (uint64 \<times> byte list) list, 'a file_state_scheme) outcome" where
  "fetch_argv uargv i argv s =
     (if i \<ge> MAXARG then Ok (False, argv) s
      else andthen (fetchaddr (uargv + 8 * of_nat i) s) (\<lambda>(r, bs) s.
      if r < 0 then Ok (False, argv) s
      else let uarg = get64 bs 0 in
      if uarg = 0 then Ok (True, argv) s
      else andthen (kalloc s) (\<lambda>pa s.
      if pa = 0 then Ok (False, argv) s
      else andthen (fetchstr uarg (unat PGSIZE) s) (\<lambda>(r, buf) s.
      let s = s\<lparr>mem := write_bytes (mem s) pa buf\<rparr> in
      if r < 0 then Ok (False, argv @ [(pa, buf)]) s
      else fetch_argv uargv (i + 1) (argv @ [(pa, buf)]) s))))"
  by pat_completeness auto
termination
  by (relation "measure (\<lambda>(uargv, i, argv, s). MAXARG - i)") auto

declare fetch_argv.simps [simp del]

definition free_argv :: "(uint64 \<times> byte list) list \<Rightarrow> 'a file_state_scheme \<Rightarrow> (unit, 'a file_state_scheme) outcome" where
  "free_argv argv s =
     andthen (forK [0..<length argv] (\<lambda>i s.
       andthen (kfree (fst (argv ! i)) s) (\<lambda>_ s. Ok (None :: unit option) s)) s) (\<lambda>_ s. Ok () s)"

definition sys_exec :: "'a file_state_scheme \<Rightarrow> (uint64, 'a file_state_scheme) outcome" where
  "sys_exec s =
     andthen (argaddr 1 s) (\<lambda>uargv s.
     andthen (argstr 0 MAXPATH s) (\<lambda>(r, path) s.
     if r < 0 then Ok (- 1) s
     else andthen (fetch_argv uargv 0 [] s) (\<lambda>(ok, argv) s.
     if ok then
       andthen (kexec path (map snd argv) s) (\<lambda>ret s.
       andthen (free_argv argv s) (\<lambda>_ s. Ok (u64_of_int ret) s))
     else andthen (free_argv argv s) (\<lambda>_ s. Ok (- 1) s))))"

definition sys_pipe :: "'a file_state_scheme \<Rightarrow> (uint64, 'a file_state_scheme) outcome" where
  "sys_pipe s =
     andthen (myproc s) (\<lambda>p s.
     andthen (argaddr 0 s) (\<lambda>fdarray s.
     andthen (pipealloc s) (\<lambda>(r, rf, wf) s.
     if r < 0 then Ok (- 1) s
     else deref rf (\<lambda>rf. deref wf (\<lambda>wf. deref p (\<lambda>p.
     let clear = (\<lambda>fd s. set_proc p (\<lambda>q. q\<lparr>p_ofile := (p_ofile q)(nat fd := None)\<rparr>) s);
         closeboth = (\<lambda>s. andthen (fileclose rf s) (\<lambda>_ s. andthen (fileclose wf s) (\<lambda>_ s. Ok (- 1) s))) in
     andthen (fdalloc rf s) (\<lambda>fd0 s.
     if fd0 < 0 then closeboth s
     else andthen (fdalloc wf s) (\<lambda>fd1 s.
     if fd1 < 0 then closeboth (clear fd0 s)
     else andthen (copyout (p_pagetable (procs s p)) fdarray (bytes32 (word_of_int fd0)) s) (\<lambda>r s.
     if r < 0 then closeboth (clear fd1 (clear fd0 s))
     else andthen (copyout (p_pagetable (procs s p)) (fdarray + 4) (bytes32 (word_of_int fd1)) s) (\<lambda>r s.
     if r < 0 then closeboth (clear fd1 (clear fd0 s)) else Ok 0 s))))))))))"

end
