(* ===== verification/Syscall.thy ===== *)
theory Syscall
  imports Sysproc Sysfile
begin

section \<open>Dispatching system calls (syscall.c)\<close>

text \<open>
  The table from numbers to handlers.  Two handlers copy out structures with bytes the code never
  initialises; these bytes are the parameters \<open>env_pad\<close> (the padding of \<open>struct stat\<close>) and \<open>env_name\<close> (the
  array in \<open>struct pinfo\<close>).
\<close>

record sysenv =
  env_pad :: "byte list"
  env_name :: "byte list"

datatype sysno =
    SYS_fork | SYS_exit | SYS_wait | SYS_pipe | SYS_read | SYS_kill
  | SYS_exec | SYS_fstat | SYS_chdir | SYS_dup | SYS_getpid | SYS_sbrk
  | SYS_pause | SYS_uptime | SYS_open | SYS_write | SYS_mknod | SYS_unlink
  | SYS_link | SYS_mkdir | SYS_close | SYS_getprocs

primrec sysnum :: "sysno \<Rightarrow> int" where
  "sysnum SYS_fork = 1"
| "sysnum SYS_exit = 2"
| "sysnum SYS_wait = 3"
| "sysnum SYS_pipe = 4"
| "sysnum SYS_read = 5"
| "sysnum SYS_kill = 6"
| "sysnum SYS_exec = 7"
| "sysnum SYS_fstat = 8"
| "sysnum SYS_chdir = 9"
| "sysnum SYS_dup = 10"
| "sysnum SYS_getpid = 11"
| "sysnum SYS_sbrk = 12"
| "sysnum SYS_pause = 13"
| "sysnum SYS_uptime = 14"
| "sysnum SYS_open = 15"
| "sysnum SYS_write = 16"
| "sysnum SYS_mknod = 17"
| "sysnum SYS_unlink = 18"
| "sysnum SYS_link = 19"
| "sysnum SYS_mkdir = 20"
| "sysnum SYS_close = 21"
| "sysnum SYS_getprocs = 22"

definition syscalls ::
  "sysenv \<Rightarrow> (int \<times> ('a trap_state_scheme \<Rightarrow> (uint64, 'a trap_state_scheme) outcome)) list" where
  "syscalls e = map (\<lambda>(n, f). (sysnum n, f))
    [(SYS_fork, sys_fork), (SYS_exit, sys_exit), (SYS_wait, sys_wait), (SYS_pipe, sys_pipe), (SYS_read, sys_read),
     (SYS_kill, sys_kill), (SYS_exec, sys_exec), (SYS_fstat, sys_fstat (env_pad e)), (SYS_chdir, sys_chdir), (SYS_dup, sys_dup),
     (SYS_getpid, sys_getpid), (SYS_sbrk, sys_sbrk), (SYS_pause, sys_pause), (SYS_uptime, sys_uptime), (SYS_open, sys_open),
     (SYS_write, sys_write), (SYS_mknod, sys_mknod), (SYS_unlink, sys_unlink), (SYS_link, sys_link), (SYS_mkdir, sys_mkdir),
     (SYS_close, sys_close),
     (SYS_getprocs, \<lambda>s. andthen (sys_getprocs (env_name e) s) (\<lambda>r s. Ok (u64_of_int r) s))]"

text \<open>Storing the result; a system call that has slept comes here when it is done.\<close>

definition syscall_return :: "nat \<Rightarrow> uint64 \<Rightarrow> 'a proc_state_scheme \<Rightarrow> (unit, 'a proc_state_scheme) outcome" where
  "syscall_return p r s = tf_write p (tf_offset (TF_a 0)) r s"

definition syscall :: "sysenv \<Rightarrow> 'a trap_state_scheme \<Rightarrow> (unit, 'a trap_state_scheme) outcome" where
  "syscall e s =
     andthen (myproc s) (\<lambda>p s. deref p (\<lambda>p.
     andthen (tf_read p (tf_offset (TF_a 7)) s) (\<lambda>a7 s.
     let num = int_of_u64 a7 in
     case map_of (syscalls e) num of
       Some f \<Rightarrow> andthen (f s) (\<lambda>r s. syscall_return p r s)
     | None \<Rightarrow>
         andthen (printf (''%d %s: unknown sys call %d'' @ [CHR 0x0A])
           [Arg (u64_of_int (p_pid (procs s p))), ArgStr (Some (p_name (procs s p))), Arg (u64_of_int num)] s) (\<lambda>_ s.
         syscall_return p (- 1) s))))"

end
