(* ===== verification/Trap.thy ===== *)
theory Trap
  imports Syscall
begin

section \<open>Traps and interrupts (trap.c, plic.c, forkret of proc.c)\<close>

text \<open>
  What a read of a register of the disk or of the interrupt controller returns is a parameter
  (\<open>dev_vd\<close>, \<open>dev_plic\<close>).  A trap that gives up the hart goes on in a \<open>_resume\<close> definition.  The value
  \<open>usertrap\<close> returns and \<open>forkret\<close> jumps with is the page table register for the trampoline.
\<close>

record 's devices =
  dev_vd :: "virtio_reg \<Rightarrow> 's \<Rightarrow> uint32"
  dev_plic :: "uint64 \<Rightarrow> 's \<Rightarrow> uint32"

subsection \<open>The interrupt controller\<close>

definition plic_write :: "uint64 \<Rightarrow> uint32 \<Rightarrow> 'a trap_state_scheme \<Rightarrow> 'a trap_state_scheme" where
  "plic_write a v s = s\<lparr>plic_stores := plic_stores s @ [(a, v)]\<rparr>"

definition plicinit :: "'a trap_state_scheme \<Rightarrow> 'a trap_state_scheme" where
  "plicinit s = plic_write (PLIC + word_of_int (VIRTIO0_IRQ * 4)) 1 (plic_write (PLIC + word_of_int (UART0_IRQ * 4)) 1 s)"

definition plicinithart :: "'a trap_state_scheme \<Rightarrow> 'a trap_state_scheme" where
  "plicinithart s =
     (let hart = cpuid s;
          s = plic_write (PLIC_SENABLE hart) (push_bit (nat UART0_IRQ) 1 OR push_bit (nat VIRTIO0_IRQ) 1) s
      in plic_write (PLIC_SPRIORITY hart) 0 s)"

definition plic_claim :: "('a trap_state_scheme) devices \<Rightarrow> 'a trap_state_scheme \<Rightarrow> int" where
  "plic_claim d s = sint (dev_plic d (PLIC_SCLAIM (cpuid s)) s)"

definition plic_complete :: "int \<Rightarrow> 'a trap_state_scheme \<Rightarrow> 'a trap_state_scheme" where
  "plic_complete irq s = plic_write (PLIC_SCLAIM (cpuid s)) (word_of_int irq) s"

subsection \<open>Interrupts\<close>

definition trapinit :: "'a trap_state_scheme \<Rightarrow> 'a trap_state_scheme" where
  "trapinit s = initlock L_ticks ''time'' s"

definition trapinithart :: "'a trap_state_scheme \<Rightarrow> 'a trap_state_scheme" where
  "trapinithart s = w_stvec (sym_kernelvec s) s"

definition clockintr :: "'a trap_state_scheme \<Rightarrow> (unit, 'a trap_state_scheme) outcome" where
  "clockintr s =
     andthen (if cpuid s = 0 then
                andthen (acquire L_ticks s) (\<lambda>_ s.
                andthen (wakeup (Some Ch_ticks) (s\<lparr>ticks := ticks s + 1\<rparr>)) (\<lambda>_ s.
                release L_ticks s))
              else Ok () s) (\<lambda>_ s.
     Ok () (w_stimecmp (r_time s + 1000000) s))"

definition devintr :: "('a trap_state_scheme) devices \<Rightarrow> 'a trap_state_scheme \<Rightarrow> (int, 'a trap_state_scheme) outcome" where
  "devintr d s =
     (if r_scause s = 0x8000000000000009 then
        let irq = plic_claim d s in
        andthen (if irq = UART0_IRQ then uartintr s
                 else if irq = VIRTIO0_IRQ then virtio_disk_intr (dev_vd d) s
                 else if irq \<noteq> 0 then printf (''unexpected interrupt irq=%d'' @ [CHR 0x0A]) [Arg (u64_of_int irq)] s
                 else Ok () s) (\<lambda>_ s.
        Ok 1 (if irq \<noteq> 0 then plic_complete irq s else s))
      else if r_scause s = 0x8000000000000005 then andthen (clockintr s) (\<lambda>_ s. Ok 2 s)
      else Ok 0 s)"

subsection \<open>Returning to user space\<close>

definition prepare_return :: "'a trap_state_scheme \<Rightarrow> (unit, 'a trap_state_scheme) outcome" where
  "prepare_return s =
     andthen (myproc s) (\<lambda>p s.
     let s = intr_off s;
         s = w_stvec (TRAMPOLINE + (sym_uservec s - sym_trampoline s)) s in
     deref p (\<lambda>p.
     andthen (tf_write p (tf_offset TF_kernel_satp) (r_satp s) s) (\<lambda>_ s.
     andthen (tf_write p (tf_offset TF_kernel_sp) (p_kstack (procs s p) + PGSIZE) s) (\<lambda>_ s.
     andthen (tf_write p (tf_offset TF_kernel_trap) (sym_usertrap s) s) (\<lambda>_ s.
     andthen (tf_write p (tf_offset TF_kernel_hartid) (r_tp s) s) (\<lambda>_ s.
     let x = (r_sstatus s AND NOT SSTATUS_SPP) OR SSTATUS_SPIE;
         s = w_sstatus x s in
     andthen (tf_read p (tf_offset TF_epc) s) (\<lambda>epc s. Ok () (w_sepc epc s))))))))"

text \<open>The end of \<open>usertrap\<close>, after a possible \<open>yield\<close>.\<close>

definition usertrap_return :: "nat \<Rightarrow> 'a trap_state_scheme \<Rightarrow> (uint64, 'a trap_state_scheme) outcome" where
  "usertrap_return p s = andthen (prepare_return s) (\<lambda>_ s. Ok (MAKE_SATP (p_pagetable (procs s p))) s)"

definition exit_if_killed :: "nat \<Rightarrow> 'a trap_state_scheme \<Rightarrow> (unit, 'a trap_state_scheme) outcome" where
  "exit_if_killed p s = andthen (killed p s) (\<lambda>k s. if k \<noteq> 0 then kexit (- 1) s else Ok () s)"

text \<open>Finding out why the trap happened, and doing what it asks for; the result is \<open>which_dev\<close>.\<close>

definition usertrap_cause ::
  "sysenv \<Rightarrow> ('a trap_state_scheme) devices \<Rightarrow> nat \<Rightarrow> 'a trap_state_scheme \<Rightarrow> (int, 'a trap_state_scheme) outcome" where
  "usertrap_cause e d p s =
     (if r_scause s = 8 then
        andthen (exit_if_killed p s) (\<lambda>_ s.
        andthen (tf_read p (tf_offset TF_epc) s) (\<lambda>epc s.
        andthen (tf_write p (tf_offset TF_epc) (epc + 4) s) (\<lambda>_ s.
        andthen (syscall e (intr_on s)) (\<lambda>_ s. Ok 0 s))))
      else andthen (devintr d s) (\<lambda>which_dev s.
        if which_dev \<noteq> 0 then Ok which_dev s
        else andthen (if r_scause s = 15 \<or> r_scause s = 13
                      then vmfault (p_pagetable (procs s p)) (r_stval s) (r_scause s = 13) s
                      else Ok 0 s) (\<lambda>va s.
        if va \<noteq> 0 then Ok 0 s
        else andthen (printf (''usertrap(): unexpected scause 0x%lx pid=%d'' @ [CHR 0x0A])
                       [Arg (r_scause s), Arg (u64_of_int (p_pid (procs s p)))] s) (\<lambda>_ s.
             andthen (printf (''            sepc=0x%lx stval=0x%lx'' @ [CHR 0x0A]) [Arg (r_sepc s), Arg (r_stval s)] s) (\<lambda>_ s.
             andthen (setkilled p s) (\<lambda>_ s. Ok 0 s))))))"

definition usertrap ::
  "sysenv \<Rightarrow> ('a trap_state_scheme) devices \<Rightarrow> 'a trap_state_scheme \<Rightarrow> (uint64, 'a trap_state_scheme) outcome" where
  "usertrap e d s =
     (if r_sstatus s AND SSTATUS_SPP \<noteq> 0 then Panic ''usertrap: not from user mode''
      else let s = w_stvec (sym_kernelvec s) s in
      andthen (myproc s) (\<lambda>p s. deref p (\<lambda>p.
      andthen (tf_write p (tf_offset TF_epc) (r_sepc s) s) (\<lambda>_ s.
      andthen (usertrap_cause e d p s) (\<lambda>which_dev s.
      andthen (exit_if_killed p s) (\<lambda>_ s.
      andthen (if which_dev = 2 then yield s else Ok () s) (\<lambda>_ s.
      usertrap_return p s)))))))"

definition usertrap_resume :: "nat \<Rightarrow> bool \<Rightarrow> 'a trap_state_scheme \<Rightarrow> (uint64, 'a trap_state_scheme) outcome" where
  "usertrap_resume p intena0 s = andthen (yield_resume p intena0 s) (\<lambda>_ s. usertrap_return p s)"

subsection \<open>Traps in the kernel\<close>

text \<open>The saved registers \<open>sepc\<close> and \<open>sstatus\<close> are on the stack of the interrupted thread.\<close>

definition kerneltrap_return :: "uint64 \<Rightarrow> uint64 \<Rightarrow> 'a trap_state_scheme \<Rightarrow> 'a trap_state_scheme" where
  "kerneltrap_return sepc sstatus s = w_sstatus sstatus (w_sepc sepc s)"

definition kerneltrap ::
  "('a trap_state_scheme) devices \<Rightarrow> 'a trap_state_scheme \<Rightarrow> (unit, 'a trap_state_scheme) outcome" where
  "kerneltrap d s =
     (let sepc = r_sepc s; sstatus = r_sstatus s; scause = r_scause s in
      if sstatus AND SSTATUS_SPP = 0 then Panic ''kerneltrap: not from supervisor mode''
      else if intr_get s then Panic ''kerneltrap: interrupts enabled''
      else andthen (devintr d s) (\<lambda>which_dev s.
      if which_dev = 0 then
        andthen (printf (''scause=0x%lx sepc=0x%lx stval=0x%lx'' @ [CHR 0x0A]) [Arg scause, Arg (r_sepc s), Arg (r_stval s)] s) (\<lambda>_ s.
        Panic ''kerneltrap'')
      else andthen (if which_dev = 2 then myproc s else Ok None s) (\<lambda>p s.
      andthen (if p \<noteq> None then yield s else Ok () s) (\<lambda>_ s.
      Ok () (kerneltrap_return sepc sstatus s)))))"

definition kerneltrap_resume ::
  "nat \<Rightarrow> bool \<Rightarrow> uint64 \<Rightarrow> uint64 \<Rightarrow> 'a trap_state_scheme \<Rightarrow> (unit, 'a trap_state_scheme) outcome" where
  "kerneltrap_resume p intena0 sepc sstatus s =
     andthen (yield_resume p intena0 s) (\<lambda>_ s. Ok () (kerneltrap_return sepc sstatus s))"

subsection \<open>The first return to user space\<close>

abbreviation init_path :: "byte list" where
  "init_path \<equiv> [47, 105, 110, 105, 116, 0]"

definition forkret :: "'a trap_state_scheme \<Rightarrow> (uint64, 'a trap_state_scheme) outcome" where
  "forkret s =
     andthen (myproc s) (\<lambda>p s. deref p (\<lambda>p.
     andthen (release (L_proc p) s) (\<lambda>_ s.
     andthen (if forkret_first s then
                andthen (fsinit ROOTDEV s) (\<lambda>_ s.
                let s = s\<lparr>forkret_first := False\<rparr> in
                andthen (kexec init_path [init_path] s) (\<lambda>r s.
                andthen (tf_write p (tf_offset (TF_a 0)) (u64_of_int r) s) (\<lambda>_ s.
                if u64_of_int r = - 1 then Panic ''exec'' else Ok () s)))
              else Ok () s) (\<lambda>_ s.
     usertrap_return p s))))"

end
