(* ===== verification/Boot.thy ===== *)
theory Boot
  imports Trap
begin

section \<open>Starting the machine (start.c, main.c, panic)\<close>

text \<open>
  \<open>start\<close> runs in machine mode on every hart and ends in \<open>mret\<close>, which goes to the address of \<open>main\<close>, the
  parameter \<open>main_addr\<close>.  In \<open>main\<close>, hart 0 sets up the kernel and the others wait for it.
\<close>

definition timerinit :: "'a machine_scheme \<Rightarrow> 'a machine_scheme" where
  "timerinit s =
     (let s = w_mie (r_mie s OR MIE_STIE) s;
          s = w_menvcfg (r_menvcfg s OR push_bit 63 1) s;
          s = w_mcounteren (r_mcounteren s OR 2) s
      in w_stimecmp (r_time s + 1000000) s)"

definition start :: "uint64 \<Rightarrow> 'a machine_scheme \<Rightarrow> 'a machine_scheme" where
  "start main_addr s =
     (let x = (r_mstatus s AND NOT MSTATUS_MPP_MASK) OR MSTATUS_MPP_S;
          s = w_mstatus x s;
          s = w_mepc main_addr s;
          s = w_satp 0 s;
          s = w_medeleg 0xffff s;
          s = w_mideleg 0xffff s;
          s = w_sie (r_sie s OR SIE_SEIE OR SIE_STIE) s;
          s = w_pmpaddr0 0x3fffffffffffff s;
          s = w_pmpcfg0 0xf s;
          s = timerinit s;
          hart = int_of_u64 (r_mhartid s)
      in w_tp (u64_of_int hart) s)"

definition panic :: "string \<Rightarrow> 'a uart_state_scheme \<Rightarrow> (unit, 'a uart_state_scheme) outcome" where
  "panic msg s =
     andthen (printf ''panic: '' [] (s\<lparr>panicking := True\<rparr>)) (\<lambda>_ s.
     andthen (printf (''%s'' @ [CHR 0x0A]) [ArgStr (Some (map of_char msg))] s) (\<lambda>_ s.
     Spin (s\<lparr>panicked := True\<rparr>)))"

definition printfinit :: "'a lock_state_scheme \<Rightarrow> 'a lock_state_scheme" where
  "printfinit s = initlock L_pr ''pr'' s"

text \<open>The initialisation hart 0 does, up to where it lets the others go.\<close>

definition main_init :: "('a trap_state_scheme) devices \<Rightarrow> 'a trap_state_scheme \<Rightarrow> (unit, 'a trap_state_scheme) outcome" where
  "main_init d s =
     (let s = consoleinit s; s = printfinit s in
      andthen (printf [CHR 0x0A] [] s) (\<lambda>_ s.
      andthen (printf (''xv6 kernel is booting'' @ [CHR 0x0A]) [] s) (\<lambda>_ s.
      andthen (printf [CHR 0x0A] [] s) (\<lambda>_ s.
      andthen (kinit s) (\<lambda>_ s.
      andthen (kvminit s) (\<lambda>_ s.
      let s = kvminithart s; s = procinit s; s = trapinit s; s = trapinithart s; s = plicinit s; s = plicinithart s;
          s = binit s; s = iinit s; s = fileinit s in
      andthen (virtio_disk_init (dev_vd d) s) (\<lambda>_ s.
      andthen (userinit s) (\<lambda>_ s.
      Ok () (s\<lparr>started := True\<rparr>)))))))))"

definition main_other :: "'a trap_state_scheme \<Rightarrow> (unit, 'a trap_state_scheme) outcome" where
  "main_other s =
     (if \<not> started s then Spin s
      else andthen (printf (''hart %d starting'' @ [CHR 0x0A]) [Arg (u64_of_int (cpuid s))] s) (\<lambda>_ s.
           Ok () (plicinithart (trapinithart (kvminithart s)))))"

definition main :: "('a trap_state_scheme) devices \<Rightarrow> 'a trap_state_scheme \<Rightarrow> (unit, 'a trap_state_scheme) outcome" where
  "main d s = andthen (if cpuid s = 0 then main_init d s else main_other s) (\<lambda>_ s. scheduler s)"

end
