(* ===== verification/Shell.thy ===== *)
theory Shell
  imports Ulib Fsdefs
begin

section \<open>The shell (user/sh.c)\<close>

text \<open>
  The recursive-descent parser of the shell and the execution of parsed commands.  The line is a buffer
  \<open>B\<close> and pointers into it are indices; reading at or past the end of the list gives NUL.  \<open>es\<close> is the end
  of the string.  A word is the pair of the pointers to its first character and behind its last.

  The commands are built with \<open>malloc\<close>, which is taken to succeed.  \<open>parseexec\<close> fills in the arguments of a
  command it has already wrapped in redirections; here the redirections are collected and wrapped around
  the command when its arguments are known.

  A syntax error, for which the shell prints a message and exits, is \<open>Inl\<close>.  The four functions that call
  each other take a number \<open>k\<close> that bounds the depth of their recursion and return \<open>None\<close> when it is used
  up; \<open>parsecmd\<close> passes one that always suffices.
\<close>

text \<open>
  Commands over a type \<open>'w\<close> of words: the parser's commands hold positions in the buffer.
\<close>

datatype 'w cmd =
    EXEC "'w list"
  | REDIR "'w cmd" 'w int int
  | PIPE "'w cmd" "'w cmd"
  | LIST "'w cmd" "'w cmd"
  | BACK "'w cmd"

type_synonym word_pos = "nat \<times> nat"
type_synonym pcmd = "word_pos cmd"

text \<open>The two ways to report a syntax error.\<close>

datatype sherr = ShPanic string | Leftovers "byte list"

definition MAXARGS :: nat where "MAXARGS = 10"

text \<open>The open modes, as in \<open>kernel/fcntl.h\<close>.\<close>

abbreviation mode_read :: int where
  "mode_read \<equiv> omode_bits O_RDONLY"

abbreviation mode_trunc :: int where
  "mode_trunc \<equiv> omode_bits O_WRONLY OR omode_bits O_CREATE OR omode_bits O_TRUNC"

abbreviation mode_append :: int where
  "mode_append \<equiv> omode_bits O_WRONLY OR omode_bits O_CREATE"

subsection \<open>Tokens\<close>

definition whitespace :: "byte list" where "whitespace = [32, 9, 13, 10, 11]"
definition symbols :: "byte list" where "symbols = [60, 124, 62, 38, 59, 40, 41]"

definition at :: "byte list \<Rightarrow> nat \<Rightarrow> byte" where
  "at B i = (if i < length B then B ! i else 0)"

definition in_str :: "byte list \<Rightarrow> byte \<Rightarrow> bool" where
  "in_str toks c \<longleftrightarrow> u_strchr toks c \<noteq> None"

function skipws :: "byte list \<Rightarrow> nat \<Rightarrow> nat \<Rightarrow> nat" where
  "skipws B es s = (if s < es \<and> in_str whitespace (at B s) then skipws B es (Suc s) else s)"
  by pat_completeness auto
termination by (relation "measure (\<lambda>(B, es, s). es - s)") auto

function skipword :: "byte list \<Rightarrow> nat \<Rightarrow> nat \<Rightarrow> nat" where
  "skipword B es s =
     (if s < es \<and> \<not> in_str whitespace (at B s) \<and> \<not> in_str symbols (at B s) then skipword B es (Suc s) else s)"
  by pat_completeness auto
termination by (relation "measure (\<lambda>(B, es, s). es - s)") auto

declare skipws.simps [simp del] skipword.simps [simp del]

text \<open>The kind of the token, where it starts and ends, and where the next one starts.\<close>

definition gettoken :: "byte list \<Rightarrow> nat \<Rightarrow> nat \<Rightarrow> byte \<times> nat \<times> nat \<times> nat" where
  "gettoken B es s =
     (let q = skipws B es s; c = at B q;
          (ret, eq) =
            (if c = 0 then (0, q)
             else if c \<in> {124, 40, 41, 59, 38, 60} then (c, Suc q)
             else if c = 62 then (if at B (Suc q) = 62 then (43, Suc (Suc q)) else (62, Suc q))
             else (97, skipword B es q))
      in (ret, q, eq, skipws B es eq))"

definition peek :: "byte list \<Rightarrow> nat \<Rightarrow> byte list \<Rightarrow> nat \<Rightarrow> bool \<times> nat" where
  "peek B es toks s = (let s = skipws B es s in (at B s \<noteq> 0 \<and> in_str toks (at B s), s))"

definition next_tok :: "byte list \<Rightarrow> nat \<Rightarrow> nat \<Rightarrow> nat" where
  "next_tok B es s = snd (snd (snd (gettoken B es s)))"

lemma skipws_ge: "s \<le> skipws B es s"
proof (induction B es s rule: skipws.induct)
  case (1 B es s)
  then show ?case by (subst skipws.simps) (auto dest: Suc_leD)
qed

lemma skipword_ge: "s \<le> skipword B es s"
proof (induction B es s rule: skipword.induct)
  case (1 B es s)
  then show ?case by (subst skipword.simps) (auto dest: Suc_leD)
qed

lemma skipws_stop: "\<not> (skipws B es s < es \<and> in_str whitespace (at B (skipws B es s)))"
proof (induction B es s rule: skipws.induct)
  case (1 B es s)
  then show ?case
    by (cases "s < es \<and> in_str whitespace (at B s)") (auto simp: skipws.simps [of B es s])
qed

lemma skipws_skipws [simp]: "skipws B es (skipws B es s) = skipws B es s"
  using skipws_stop [of B es s] by (subst skipws.simps) auto

lemma gettoken_ge: "s \<le> next_tok B es s"
proof -
  have a: "s \<le> skipws B es s" by (rule skipws_ge)
  have "s \<le> skipws B es e" if "skipws B es s \<le> e" for e using a that skipws_ge [of e B es] by linarith
  then show ?thesis using a skipword_ge [of "skipws B es s" B es] by (simp add: next_tok_def gettoken_def Let_def)
qed

lemma in_str_ops:
  "in_str [60, 62] c \<longleftrightarrow> c = 60 \<or> c = 62" "in_str [38] c \<longleftrightarrow> c = 38" "in_str [59] c \<longleftrightarrow> c = 59"
  "in_str [124] c \<longleftrightarrow> c = 124" "in_str [40] c \<longleftrightarrow> c = 40" "in_str [41] c \<longleftrightarrow> c = 41"
  "in_str [124, 41, 38, 59] c \<longleftrightarrow> c = 124 \<or> c = 41 \<or> c = 38 \<or> c = 59"
  by (auto simp: in_str_def)

subsection \<open>The parser\<close>

definition redir_of :: "byte \<Rightarrow> word_pos \<Rightarrow> pcmd \<Rightarrow> pcmd" where
  "redir_of tok w c =
     (if tok = 60 then REDIR c w mode_read 0
      else if tok = 62 then REDIR c w mode_trunc 1
      else REDIR c w mode_append 1)"

lemma redir_measure:
  assumes "(True, s1) = peek B es [60, 62] s" "(tok, q1, eq1, s2) = gettoken B es s1" "(t, q, eq, s3) = gettoken B es s2"
  shows "length B - s3 < length B - s"
proof -
  have p: "s1 = skipws B es s" "at B s1 = 60 \<or> at B s1 = 62"
    using assms(1) by (auto simp: peek_def Let_def in_str_ops)
  then have l: "s1 < length B" by (auto simp: at_def split: if_splits)
  have "Suc s1 \<le> skipws B es (Suc s1)" "Suc s1 \<le> skipws B es (Suc (Suc s1))"
    using skipws_ge [of "Suc s1" B es] skipws_ge [of "Suc (Suc s1)" B es] by linarith+
  then have "Suc s1 \<le> next_tok B es s1" using p by (auto simp: next_tok_def gettoken_def Let_def)
  moreover have "next_tok B es s1 = s2" "next_tok B es s2 = s3"
    using assms(2,3) [symmetric] by (simp_all add: next_tok_def)
  ultimately show ?thesis using gettoken_ge [of s2 B es] l skipws_ge [of s B es] p(1) by linarith
qed

text \<open>The redirections at \<open>s\<close>, each as its token and its file, and where they end.\<close>

function parseredirs :: "byte list \<Rightarrow> nat \<Rightarrow> nat \<Rightarrow> sherr + (byte \<times> word_pos) list \<times> nat" where
  "parseredirs B es s =
     (let (more, s) = peek B es [60, 62] s in
      if more then
        let (tok, _, _, s1) = gettoken B es s; (t, q, eq, s2) = gettoken B es s1 in
        if t \<noteq> 97 then Inl (ShPanic ''missing file for redirection'')
        else case parseredirs B es s2 of
               Inl e \<Rightarrow> Inl e
             | Inr (rs, s3) \<Rightarrow> Inr ((tok, (q, eq)) # rs, s3)
      else Inr ([], s))"
  by pat_completeness auto
termination
  by (relation "measure (\<lambda>(B, es, s). length B - s)") (auto intro: redir_measure)

declare parseredirs.simps [simp del]

definition wrap :: "pcmd \<Rightarrow> (byte \<times> word_pos) list \<Rightarrow> pcmd" where
  "wrap c rs = fold (\<lambda>(tok, w) c. redir_of tok w c) rs c"

lemma amp_measure:
  assumes "(True, s1) = peek B es [38] s"
  shows "length B - next_tok B es s1 < length B - s"
proof -
  have p: "s1 = skipws B es s" "at B s1 = 38" using assms by (auto simp: peek_def Let_def in_str_ops)
  then have "s1 < length B" by (auto simp: at_def split: if_splits)
  moreover have "Suc s1 \<le> next_tok B es s1"
    using p skipws_ge [of "Suc s1" B es] by (simp add: next_tok_def gettoken_def Let_def)
  ultimately show ?thesis using skipws_ge [of s B es] p(1) by linarith
qed

function parseamps :: "byte list \<Rightarrow> nat \<Rightarrow> pcmd \<Rightarrow> nat \<Rightarrow> pcmd \<times> nat" where
  "parseamps B es c s =
     (let (more, s) = peek B es [38] s
      in if more then parseamps B es (BACK c) (next_tok B es s) else (c, s))"
  by pat_completeness auto
termination
  by (relation "measure (\<lambda>(B, es, c, s). length B - s)") (auto intro: amp_measure)

declare parseamps.simps [simp del]

definition bindp :: "(sherr + 'a) option \<Rightarrow> ('a \<Rightarrow> (sherr + 'b) option) \<Rightarrow> (sherr + 'b) option" where
  "bindp r f = (case r of None \<Rightarrow> None | Some (Inl e) \<Rightarrow> Some (Inl e) | Some (Inr x) \<Rightarrow> f x)"

text \<open>
  The functions that call each other: each takes the others as the parameter \<open>P\<close>, which \<open>parse\<close> supplies.
\<close>

datatype parser = Parseline | Parsepipe | Parseexec | Parseblock | Parseargs "word_pos list" "(byte \<times> word_pos) list"

type_synonym parse_fun = "parser \<Rightarrow> byte list \<Rightarrow> nat \<Rightarrow> nat \<Rightarrow> (sherr + pcmd \<times> nat) option"

definition parseline :: "parse_fun \<Rightarrow> byte list \<Rightarrow> nat \<Rightarrow> nat \<Rightarrow> (sherr + pcmd \<times> nat) option" where
  "parseline P B es s =
     bindp (P Parsepipe B es s) (\<lambda>(c, s).
     let (c, s) = parseamps B es c s; (semi, s) = peek B es [59] s in
     if semi then bindp (P Parseline B es (next_tok B es s)) (\<lambda>(r, s). Some (Inr (LIST c r, s)))
     else Some (Inr (c, s)))"

definition parsepipe :: "parse_fun \<Rightarrow> byte list \<Rightarrow> nat \<Rightarrow> nat \<Rightarrow> (sherr + pcmd \<times> nat) option" where
  "parsepipe P B es s =
     bindp (P Parseexec B es s) (\<lambda>(c, s).
     let (bar, s) = peek B es [124] s in
     if bar then bindp (P Parsepipe B es (next_tok B es s)) (\<lambda>(r, s). Some (Inr (PIPE c r, s)))
     else Some (Inr (c, s)))"

definition parseblock :: "parse_fun \<Rightarrow> byte list \<Rightarrow> nat \<Rightarrow> nat \<Rightarrow> (sherr + pcmd \<times> nat) option" where
  "parseblock P B es s =
     (let (lpar, s) = peek B es [40] s in
      if \<not> lpar then Some (Inl (ShPanic ''parseblock''))
      else bindp (P Parseline B es (next_tok B es s)) (\<lambda>(c, s).
           let (rpar, s) = peek B es [41] s in
           if \<not> rpar then Some (Inl (ShPanic ''syntax - missing )''))
           else bindp (Some (parseredirs B es (next_tok B es s))) (\<lambda>(rs, s). Some (Inr (wrap c rs, s)))))"

definition parseexec :: "parse_fun \<Rightarrow> byte list \<Rightarrow> nat \<Rightarrow> nat \<Rightarrow> (sherr + pcmd \<times> nat) option" where
  "parseexec P B es s =
     (let (lpar, s) = peek B es [40] s in
      if lpar then P Parseblock B es s
      else bindp (Some (parseredirs B es s)) (\<lambda>(rs, s). P (Parseargs [] rs) B es s))"

text \<open>The loop of \<open>parseexec\<close>, with the arguments and the redirections so far.\<close>

definition parseargs ::
  "parse_fun \<Rightarrow> word_pos list \<Rightarrow> (byte \<times> word_pos) list \<Rightarrow> byte list \<Rightarrow> nat \<Rightarrow> nat \<Rightarrow> (sherr + pcmd \<times> nat) option" where
  "parseargs P argv rs B es s =
     (let (stop, s) = peek B es [124, 41, 38, 59] s in
      if stop then Some (Inr (wrap (EXEC argv) rs, s))
      else let (tok, q, eq, s) = gettoken B es s in
      if tok = 0 then Some (Inr (wrap (EXEC argv) rs, s))
      else if tok \<noteq> 97 then Some (Inl (ShPanic ''syntax''))
      else if length argv + 1 \<ge> MAXARGS then Some (Inl (ShPanic ''too many args''))
      else bindp (Some (parseredirs B es s)) (\<lambda>(rs', s). P (Parseargs (argv @ [(q, eq)]) (rs @ rs')) B es s))"

primrec parse :: "nat \<Rightarrow> parse_fun" where
  "parse 0 f = (\<lambda>B es s. None)"
| "parse (Suc k) f =
     (case f of
        Parseline \<Rightarrow> parseline (parse k)
      | Parsepipe \<Rightarrow> parsepipe (parse k)
      | Parseexec \<Rightarrow> parseexec (parse k)
      | Parseblock \<Rightarrow> parseblock (parse k)
      | Parseargs argv rs \<Rightarrow> parseargs (parse k) argv rs)"

text \<open>Putting a NUL behind every word.\<close>

primrec nulterminate :: "pcmd \<Rightarrow> byte list \<Rightarrow> byte list" where
  "nulterminate (EXEC argv) B = fold (\<lambda>(q, eq) B. B[eq := 0]) argv B"
| "nulterminate (REDIR c w mode fd) B = (nulterminate c B)[snd w := 0]"
| "nulterminate (PIPE l r) B = nulterminate r (nulterminate l B)"
| "nulterminate (LIST l r) B = nulterminate r (nulterminate l B)"
| "nulterminate (BACK c) B = nulterminate c B"

text \<open>The command and the buffer with the terminated words.\<close>

definition parsecmd :: "byte list \<Rightarrow> (sherr + pcmd \<times> byte list) option" where
  "parsecmd B =
     (let es = u_strlen B in
      bindp (parse (6 * es + 6) Parseline B es 0) (\<lambda>(c, s).
      let (_, s) = peek B es [] s in
      if s \<noteq> es then Some (Inl (Leftovers (drop s B))) else Some (Inr (c, nulterminate c B))))"

subsection \<open>Running commands\<close>

text \<open>
  What the shell asks of the kernel, as a tree: each system call with what the shell does next, once for
  every kind of result it tells apart.  \<open>Fork\<close> has the failure, the child and the parent; \<open>MkPipe\<close> goes on
  with the two descriptors; \<open>Eprint\<close> writes to descriptor 2.
\<close>

datatype shprog =
    Exit int
  | Exec "byte list list" shprog
  | Close int shprog
  | Dup int shprog
  | Wait shprog
  | Open "byte list" int shprog shprog
  | Chdir "byte list" shprog shprog
  | MkPipe shprog "int \<Rightarrow> int \<Rightarrow> shprog"
  | Fork shprog shprog shprog
  | Eprint "byte list" shprog

definition str_at :: "byte list \<Rightarrow> nat \<Rightarrow> byte list" where
  "str_at B i = takeWhile (\<lambda>c. c \<noteq> 0) (drop i B)"

definition sh_panic :: "string \<Rightarrow> shprog" where
  "sh_panic msg = Eprint (u_printf (''%s'' @ [CHR 0x0A]) [ArgStr (Some (map of_char msg))]) (Exit 1)"

definition fork1 :: "shprog \<Rightarrow> shprog \<Rightarrow> shprog" where
  "fork1 child parent = Fork (sh_panic ''fork'') child parent"

primrec runcmd :: "byte list \<Rightarrow> pcmd \<Rightarrow> shprog" where
  "runcmd B (EXEC argv) =
     (if argv = [] then Exit 1
      else Exec (map (\<lambda>w. str_at B (fst w)) argv)
             (Eprint (u_printf (''exec %s failed'' @ [CHR 0x0A]) [ArgStr (Some (str_at B (fst (hd argv))))]) (Exit 0)))"
| "runcmd B (REDIR c w mode fd) =
     Close fd (Open (str_at B (fst w)) mode
       (Eprint (u_printf (''open %s failed'' @ [CHR 0x0A]) [ArgStr (Some (str_at B (fst w)))]) (Exit 1))
       (runcmd B c))"
| "runcmd B (LIST l r) = fork1 (runcmd B l) (Wait (runcmd B r))"
| "runcmd B (PIPE l r) =
     MkPipe (sh_panic ''pipe'') (\<lambda>p0 p1.
       fork1 (Close 1 (Dup p1 (Close p0 (Close p1 (runcmd B l)))))
      (fork1 (Close 0 (Dup p0 (Close p0 (Close p1 (runcmd B r)))))
             (Close p0 (Close p1 (Wait (Wait (Exit 0)))))))"
| "runcmd B (BACK c) = fork1 (runcmd B c) (Exit 0)"

text \<open>What the child does with a line: a line that does not parse is reported.\<close>

definition run_line :: "byte list \<Rightarrow> shprog" where
  "run_line B =
     (case parsecmd B of
        Some (Inr (c, B')) \<Rightarrow> runcmd B' c
      | Some (Inl (ShPanic msg)) \<Rightarrow> sh_panic msg
      | Some (Inl (Leftovers l)) \<Rightarrow>
          Eprint (u_printf (''leftovers: %s'' @ [CHR 0x0A]) [ArgStr (Some l)]) (sh_panic ''syntax'')
      | None \<Rightarrow> Exit 1)"

function skip_blanks :: "byte list \<Rightarrow> byte list" where
  "skip_blanks cmd = (if hd0 cmd = 32 \<or> hd0 cmd = 9 then skip_blanks (tl cmd) else cmd)"
  by pat_completeness auto
termination by (relation "measure length") (auto simp: hd0_def split: list.splits)

declare skip_blanks.simps [simp del]

text \<open>The body of the loop of \<open>main\<close> for the line \<open>buf\<close>; \<open>again\<close> is the rest of the loop.\<close>

definition sh_line :: "byte list \<Rightarrow> shprog \<Rightarrow> shprog" where
  "sh_line buf again =
     (let cmd = skip_blanks buf in
      if hd0 cmd = 10 then again
      else if at cmd 0 = 99 \<and> at cmd 1 = 100 \<and> at cmd 2 = 32 then
        let cmd = cmd[u_strlen cmd - 1 := 0] in
        Chdir (str_at cmd 3) (Eprint (u_printf (''cannot cd %s'' @ [CHR 0x0A]) [ArgStr (Some (str_at cmd 3))]) again) again
      else fork1 (run_line cmd) (Wait again))"

end
