(* ===== verification/Shellparse.thy ===== *)
theory Shellparse
  imports Shell
begin

section \<open>The shell's parser always returns\<close>

text \<open>
  The parser always ends, whatever the line is, and the words in what it returns are runs of ordinary
  characters, so that the terminators put behind them destroy no other word.
\<close>

subsection \<open>Where the parser stops\<close>

definition ordinary :: "byte \<Rightarrow> bool" where
  "ordinary c \<longleftrightarrow> \<not> in_str whitespace c \<and> \<not> in_str symbols c"

lemma at_es [simp]: "at B (u_strlen B) = 0"
  by (induction B) (auto simp: at_def)

lemma at_inside: "i < u_strlen B \<Longrightarrow> at B i \<noteq> 0"
proof (induction B arbitrary: i)
  case (Cons b B)
  show ?case
  proof (cases i)
    case 0
    then show ?thesis using Cons.prems by (auto simp: at_def split: if_splits)
  next
    case (Suc j)
    then show ?thesis using Cons.prems Cons.IH [of j] by (auto simp: at_def split: if_splits)
  qed
qed simp

lemma before_end: "i \<le> u_strlen B \<Longrightarrow> at B i \<noteq> 0 \<Longrightarrow> i < u_strlen B"
  using at_es [of B] by (cases "i = u_strlen B") auto

lemma skipws_le: "s \<le> es \<Longrightarrow> skipws B es s \<le> es"
proof (induction B es s rule: skipws.induct)
  case (1 B es s)
  then show ?case by (subst skipws.simps) auto
qed

lemma skipword_le: "s \<le> es \<Longrightarrow> skipword B es s \<le> es"
proof (induction B es s rule: skipword.induct)
  case (1 B es s)
  then show ?case by (subst skipword.simps) auto
qed

lemma skipword_stop: "skipword B es s < es \<Longrightarrow> \<not> ordinary (at B (skipword B es s))"
proof (induction B es s rule: skipword.induct)
  case (1 B es s)
  then show ?case
    by (cases "s < es \<and> \<not> in_str whitespace (at B s) \<and> \<not> in_str symbols (at B s)")
       (auto simp: skipword.simps [of B es s] ordinary_def)
qed

lemma skipword_run: "s \<le> i \<Longrightarrow> i < skipword B es s \<Longrightarrow> ordinary (at B i)"
proof (induction B es s rule: skipword.induct)
  case (1 B es s)
  show ?case
  proof (cases "s < es \<and> ordinary (at B s)")
    case True
    then have "skipword B es s = skipword B es (Suc s)" by (subst skipword.simps) (simp add: ordinary_def)
    then show ?thesis using 1 True by (cases "s = i") (auto simp: ordinary_def)
  next
    case False
    then have "skipword B es s = s" by (subst skipword.simps) (auto simp: ordinary_def)
    then show ?thesis using 1 by simp
  qed
qed

text \<open>A word: a maximal run of ordinary characters up to its end, inside the string.\<close>

definition word_ok :: "byte list \<Rightarrow> word_pos \<Rightarrow> bool" where
  "word_ok B w \<longleftrightarrow> fst w < snd w \<and> snd w \<le> u_strlen B \<and> (\<forall>i. fst w \<le> i \<and> i < snd w \<longrightarrow> ordinary (at B i)) \<and>
     (snd w < u_strlen B \<longrightarrow> \<not> ordinary (at B (snd w)))"

lemma in_symbols: "in_str symbols c \<longleftrightarrow> c \<in> {60, 124, 62, 38, 59, 40, 41}"
  by (auto simp: in_str_def symbols_def)

lemma gettoken_spec:
  assumes "gettoken B (u_strlen B) s = (tok, q, eq, s')" "s \<le> u_strlen B"
  shows "s \<le> s'" "s' \<le> u_strlen B" "tok \<noteq> 0 \<Longrightarrow> s < s'" "tok = 97 \<Longrightarrow> word_ok B (q, eq)"
proof -
  let ?es = "u_strlen B"
  have q: "q = skipws B ?es s" "s \<le> q" "q \<le> ?es" and s': "s' = skipws B ?es eq"
    using assms skipws_ge [of s B ?es] skipws_le [of s ?es B] by (auto simp: gettoken_def Let_def split: if_splits)
  have "q \<le> eq \<and> eq \<le> ?es \<and> (tok \<noteq> 0 \<longrightarrow> q < eq) \<and> (tok = 97 \<longrightarrow> word_ok B (q, eq))"
  proof (cases "at B q = 0")
    case True
    then show ?thesis using assms(1) q by (simp add: gettoken_def Let_def)
  next
    case False
    then have lt: "q < ?es" using q(3) by (rule before_end [rotated])
    then have nw: "\<not> in_str whitespace (at B q)" using skipws_stop [of B ?es s] q(1) by simp
    show ?thesis
    proof (cases "in_str symbols (at B q)")
      case True
      moreover have "Suc (Suc q) \<le> ?es" if "at B (Suc q) = 62"
        using before_end [of "Suc q" B] that lt by simp
      ultimately show ?thesis using assms(1) q lt False
        by (auto simp: gettoken_def Let_def in_symbols split: if_splits)
    next
      case False
      then have "skipword B ?es q = skipword B ?es (Suc q)" using lt nw by (subst skipword.simps) simp
      then have "q < skipword B ?es q" using skipword_ge [of "Suc q" B ?es] by simp
      moreover have "tok = 97" "eq = skipword B ?es q"
        using assms(1) q(1) False \<open>at B q \<noteq> 0\<close> by (auto simp: gettoken_def Let_def in_symbols)
      ultimately show ?thesis
        using skipword_le [of q ?es B] q(3) skipword_run [of q _ B ?es] skipword_stop [of B ?es q]
        by (auto simp: word_ok_def)
    qed
  qed
  then show "s \<le> s'" "s' \<le> ?es" "tok \<noteq> 0 \<Longrightarrow> s < s'" "tok = 97 \<Longrightarrow> word_ok B (q, eq)"
    using q(2) s' skipws_ge [of eq B ?es] skipws_le [of eq ?es B] by auto
qed

lemma peek_spec:
  assumes "peek B (u_strlen B) toks s = (b, s')" "s \<le> u_strlen B"
  shows "s \<le> s'" "s' \<le> u_strlen B" "b \<Longrightarrow> at B s' \<noteq> 0" "b \<Longrightarrow> in_str toks (at B s')"
  using assms skipws_ge [of s B "u_strlen B"] skipws_le [of s "u_strlen B" B] by (auto simp: peek_def Let_def)

lemma next_tok_spec:
  assumes "peek B (u_strlen B) toks s = (True, s')" "s \<le> u_strlen B"
  shows "s < next_tok B (u_strlen B) s'" "next_tok B (u_strlen B) s' \<le> u_strlen B"
proof -
  note p = peek_spec [OF assms]
  obtain tok q eq s2 where g: "gettoken B (u_strlen B) s' = (tok, q, eq, s2)" by (metis prod_cases4)
  have "skipws B (u_strlen B) s' = s'" using assms(1) by (auto simp: peek_def Let_def)
  then have "tok \<noteq> 0" using g p(3) by (auto simp: gettoken_def Let_def split: if_splits)
  then show "s < next_tok B (u_strlen B) s'" "next_tok B (u_strlen B) s' \<le> u_strlen B"
    using gettoken_spec [OF g p(2)] p(1) by (simp_all add: next_tok_def g)
qed

subsection \<open>The commands the parser builds\<close>

primrec cmd_ok :: "byte list \<Rightarrow> pcmd \<Rightarrow> bool" where
  "cmd_ok B (EXEC argv) \<longleftrightarrow> length argv < MAXARGS \<and> list_all (word_ok B) argv"
| "cmd_ok B (REDIR c w mode fd) \<longleftrightarrow>
     cmd_ok B c \<and> word_ok B w \<and> (mode, fd) \<in> {(mode_read, 0), (mode_trunc, 1), (mode_append, 1)}"
| "cmd_ok B (PIPE l r) \<longleftrightarrow> cmd_ok B l \<and> cmd_ok B r"
| "cmd_ok B (LIST l r) \<longleftrightarrow> cmd_ok B l \<and> cmd_ok B r"
| "cmd_ok B (BACK c) \<longleftrightarrow> cmd_ok B c"

text \<open>A parser returned: with an error, or with a value that satisfies \<open>Q\<close>.\<close>

definition fine :: "('a \<Rightarrow> bool) \<Rightarrow> (sherr + 'a) option \<Rightarrow> bool" where
  "fine Q r \<longleftrightarrow> (case r of None \<Rightarrow> False | Some (Inl e) \<Rightarrow> True | Some (Inr x) \<Rightarrow> Q x)"

lemma fine_simps [simp]: "fine Q (Some (Inl e))" "fine Q (Some (Inr x)) \<longleftrightarrow> Q x" "\<not> fine Q None"
  by (simp_all add: fine_def)

lemma fine_bindp: "fine Q r \<Longrightarrow> (\<And>x. Q x \<Longrightarrow> fine R (f x)) \<Longrightarrow> fine R (bindp r f)"
  unfolding fine_def bindp_def by (cases r) (auto split: sum.splits)

lemma fine_mono: "fine Q r \<Longrightarrow> (\<And>x. Q x \<Longrightarrow> R x) \<Longrightarrow> fine R r"
  by (auto simp: fine_def split: option.splits sum.splits)

lemma redirs_fine:
  "s \<le> u_strlen B \<Longrightarrow> fine (\<lambda>(rs, s'). s \<le> s' \<and> s' \<le> u_strlen B \<and> list_all (\<lambda>r. word_ok B (snd r)) rs)
     (Some (parseredirs B (u_strlen B) s))"
proof (induction B "u_strlen B" s rule: parseredirs.induct)
  case (1 B s)
  let ?es = "u_strlen B"
  obtain more s1 where p: "peek B ?es [60, 62] s = (more, s1)" by (cases "peek B ?es [60, 62] s") auto
  note ps = peek_spec [OF p "1.prems"]
  show ?case
  proof (cases more)
    case False
    then show ?thesis using ps by (subst parseredirs.simps) (simp add: p)
  next
    case True
    obtain tok q1 e1 s2 where g1: "gettoken B ?es s1 = (tok, q1, e1, s2)" by (metis prod_cases4)
    obtain t q eq s3 where g2: "gettoken B ?es s2 = (t, q, eq, s3)" by (metis prod_cases4)
    note g1s = gettoken_spec [OF g1 ps(2)]
    note g2s = gettoken_spec [OF g2 g1s(2)]
    show ?thesis
    proof (cases "t = 97")
      case False
      then show ?thesis using \<open>more\<close> by (subst parseredirs.simps) (simp add: p g1 g2)
    next
      case t: True
      have "fine (\<lambda>(rs, s'). s3 \<le> s' \<and> s' \<le> ?es \<and> list_all (\<lambda>r. word_ok B (snd r)) rs) (Some (parseredirs B ?es s3))"
        using "1.hyps" [OF p [symmetric] refl True g1 [symmetric] refl refl refl g2 [symmetric] refl refl refl] t g2s(2) by simp
      then show ?thesis using \<open>more\<close> t ps g1s g2s
        by (subst parseredirs.simps) (auto simp: p g1 g2 split: sum.splits)
    qed
  qed
qed

lemma amps_ok:
  "s \<le> u_strlen B \<Longrightarrow> cmd_ok B c \<Longrightarrow> parseamps B (u_strlen B) c s = (c', s') \<Longrightarrow> s \<le> s' \<and> s' \<le> u_strlen B \<and> cmd_ok B c'"
proof (induction B "u_strlen B" c s rule: parseamps.induct)
  case (1 B c s)
  let ?es = "u_strlen B"
  obtain more s1 where p: "peek B ?es [38] s = (more, s1)" by (cases "peek B ?es [38] s") auto
  note ps = peek_spec [OF p "1.prems"(1)]
  show ?case
  proof (cases more)
    case False
    then show ?thesis using ps "1.prems" by (simp add: parseamps.simps [of B ?es c s] p)
  next
    case True
    then have "peek B ?es [38] s = (True, s1)" using p by simp
    note n = next_tok_spec [OF this "1.prems"(1)]
    show ?thesis
      using "1.hyps" [OF p [symmetric] refl True n(2)] "1.prems" n True by (simp add: parseamps.simps [of B ?es c s] p)
  qed
qed

lemma wrap_ok: "cmd_ok B c \<Longrightarrow> list_all (\<lambda>r. word_ok B (snd r)) rs \<Longrightarrow> cmd_ok B (wrap c rs)"
proof (induction rs arbitrary: c)
  case (Cons r rs)
  obtain tok w where r: "r = (tok, w)" by (cases r)
  have "cmd_ok B (redir_of tok w c)" using Cons.prems r by (auto simp: redir_of_def)
  then show ?case using Cons.IH Cons.prems r by (simp add: wrap_def)
qed (simp add: wrap_def)

text \<open>How deep the recursion can get from position \<open>s\<close>.\<close>

definition depth :: "parser \<Rightarrow> nat \<Rightarrow> nat \<Rightarrow> nat" where
  "depth f es s = 6 * (es - s) +
     (case f of Parseline \<Rightarrow> 5 | Parsepipe \<Rightarrow> 4 | Parseexec \<Rightarrow> 3 | Parseblock \<Rightarrow> 2 | Parseargs _ _ \<Rightarrow> 2)"

definition args_ok :: "byte list \<Rightarrow> parser \<Rightarrow> bool" where
  "args_ok B f \<longleftrightarrow> (case f of Parseargs argv rs \<Rightarrow>
       length argv < MAXARGS \<and> list_all (word_ok B) argv \<and> list_all (\<lambda>r. word_ok B (snd r)) rs
     | _ \<Rightarrow> True)"

lemma args_ok_simps [simp]:
  "args_ok B Parseline" "args_ok B Parsepipe" "args_ok B Parseexec" "args_ok B Parseblock"
  "args_ok B (Parseargs argv rs) \<longleftrightarrow>
     length argv < MAXARGS \<and> list_all (word_ok B) argv \<and> list_all (\<lambda>r. word_ok B (snd r)) rs"
  by (simp_all add: args_ok_def)

definition parsed :: "byte list \<Rightarrow> nat \<Rightarrow> pcmd \<times> nat \<Rightarrow> bool" where
  "parsed B s r \<longleftrightarrow> cmd_ok B (fst r) \<and> s \<le> snd r \<and> snd r \<le> u_strlen B"

text \<open>The functions the parser calls return good results from every position they may be called at.\<close>

definition supplied :: "byte list \<Rightarrow> nat \<Rightarrow> parse_fun \<Rightarrow> bool" where
  "supplied B k P \<longleftrightarrow> (\<forall>f s. s \<le> u_strlen B \<longrightarrow> depth f (u_strlen B) s \<le> k \<longrightarrow> args_ok B f \<longrightarrow>
     fine (parsed B s) (P f B (u_strlen B) s))"

lemma suppliedD:
  "supplied B k P \<Longrightarrow> s \<le> u_strlen B \<Longrightarrow> depth f (u_strlen B) s \<le> k \<Longrightarrow> args_ok B f \<Longrightarrow>
   fine (parsed B s) (P f B (u_strlen B) s)"
  by (simp add: supplied_def)

lemma parseline_fine:
  assumes "supplied B k P" "s \<le> u_strlen B" "depth Parseline (u_strlen B) s \<le> Suc k"
  shows "fine (parsed B s) (parseline P B (u_strlen B) s)"
  unfolding parseline_def
proof (rule fine_bindp [OF suppliedD [OF assms(1,2)]])
  let ?es = "u_strlen B"
  show "depth Parsepipe ?es s \<le> k" using assms(3) by (simp add: depth_def)
  fix x assume "parsed B s x"
  then obtain c s1 where x: "x = (c, s1)" and c: "cmd_ok B c" "s \<le> s1" "s1 \<le> ?es"
    by (cases x) (auto simp: parsed_def)
  obtain c2 s2 where a: "parseamps B ?es c s1 = (c2, s2)" by (cases "parseamps B ?es c s1")
  note as = amps_ok [OF c(3,1) a]
  obtain semi s3 where p: "peek B ?es [59] s2 = (semi, s3)" by (cases "peek B ?es [59] s2")
  note ps = peek_spec [OF p]
  show "fine (parsed B s) (case x of (c, s) \<Rightarrow> let (c, s) = parseamps B ?es c s; (semi, s) = peek B ?es [59] s in
     if semi then bindp (P Parseline B ?es (next_tok B ?es s)) (\<lambda>(r, s). Some (Inr (LIST c r, s)))
     else Some (Inr (c, s)))"
  proof (cases semi)
    case False
    then show ?thesis using c as ps by (simp add: x a p parsed_def)
  next
    case True
    then have "peek B ?es [59] s2 = (True, s3)" using p by simp
    note n = next_tok_spec [OF this]
    have lt: "s < next_tok B ?es s3" "next_tok B ?es s3 \<le> ?es" using n as c(2) by linarith+
    have "fine (parsed B (next_tok B ?es s3)) (P Parseline B ?es (next_tok B ?es s3))"
      by (rule suppliedD [OF assms(1)]) (use lt assms(3) in \<open>simp_all add: depth_def\<close>)
    then have "fine (parsed B s) (bindp (P Parseline B ?es (next_tok B ?es s3)) (\<lambda>(r, s). Some (Inr (LIST c2 r, s))))"
      by (rule fine_bindp) (use as c n in \<open>auto simp: parsed_def\<close>)
    then show ?thesis using True by (simp add: x a p)
  qed
qed simp

lemma parsepipe_fine:
  assumes "supplied B k P" "s \<le> u_strlen B" "depth Parsepipe (u_strlen B) s \<le> Suc k"
  shows "fine (parsed B s) (parsepipe P B (u_strlen B) s)"
  unfolding parsepipe_def
proof (rule fine_bindp [OF suppliedD [OF assms(1,2)]])
  let ?es = "u_strlen B"
  show "depth Parseexec ?es s \<le> k" using assms(3) by (simp add: depth_def)
  fix x assume "parsed B s x"
  then obtain c s1 where x: "x = (c, s1)" and c: "cmd_ok B c" "s \<le> s1" "s1 \<le> ?es"
    by (cases x) (auto simp: parsed_def)
  obtain bar s3 where p: "peek B ?es [124] s1 = (bar, s3)" by (cases "peek B ?es [124] s1")
  note ps = peek_spec [OF p c(3)]
  show "fine (parsed B s) (case x of (c, s) \<Rightarrow> let (bar, s) = peek B ?es [124] s in
     if bar then bindp (P Parsepipe B ?es (next_tok B ?es s)) (\<lambda>(r, s). Some (Inr (PIPE c r, s)))
     else Some (Inr (c, s)))"
  proof (cases bar)
    case False
    then show ?thesis using c ps by (simp add: x p parsed_def)
  next
    case True
    then have "peek B ?es [124] s1 = (True, s3)" using p by simp
    note n = next_tok_spec [OF this c(3)]
    have "fine (parsed B (next_tok B ?es s3)) (P Parsepipe B ?es (next_tok B ?es s3))"
      by (rule suppliedD [OF assms(1)]) (use n c assms(3) in \<open>simp_all add: depth_def\<close>)
    then have "fine (parsed B s) (bindp (P Parsepipe B ?es (next_tok B ?es s3)) (\<lambda>(r, s). Some (Inr (PIPE c r, s))))"
      by (rule fine_bindp) (use c n in \<open>auto simp: parsed_def\<close>)
    then show ?thesis using True by (simp add: x p)
  qed
qed simp

lemma redirs_then:
  assumes "s \<le> u_strlen B"
    "\<And>rs s'. s \<le> s' \<Longrightarrow> s' \<le> u_strlen B \<Longrightarrow> list_all (\<lambda>r. word_ok B (snd r)) rs \<Longrightarrow> fine Q (f (rs, s'))"
  shows "fine Q (bindp (Some (parseredirs B (u_strlen B) s)) f)"
  by (rule fine_bindp [OF redirs_fine [OF assms(1)]]) (use assms(2) in auto)

lemma parseblock_fine:
  assumes "supplied B k P" "s \<le> u_strlen B" "depth Parseblock (u_strlen B) s \<le> Suc k"
  shows "fine (parsed B s) (parseblock P B (u_strlen B) s)"
proof -
  let ?es = "u_strlen B"
  let ?after = "\<lambda>(c, s). let (rpar, s) = peek B ?es [41] s in
     if \<not> rpar then Some (Inl (ShPanic ''syntax - missing )''))
     else bindp (Some (parseredirs B ?es (next_tok B ?es s))) (\<lambda>(rs, s). Some (Inr (wrap c rs, s)))"
  obtain lpar s1 where p: "peek B ?es [40] s = (lpar, s1)" by (cases "peek B ?es [40] s")
  show ?thesis
  proof (cases lpar)
    case False
    then show ?thesis by (simp add: parseblock_def p)
  next
    case True
    then have "peek B ?es [40] s = (True, s1)" using p by simp
    note n = next_tok_spec [OF this assms(2)]
    have "fine (parsed B (next_tok B ?es s1)) (P Parseline B ?es (next_tok B ?es s1))"
      by (rule suppliedD [OF assms(1)]) (use n assms(3) in \<open>simp_all add: depth_def\<close>)
    then have "fine (parsed B s) (bindp (P Parseline B ?es (next_tok B ?es s1)) ?after)"
    proof (rule fine_bindp)
      fix x assume "parsed B (next_tok B ?es s1) x"
      then obtain c s2 where x: "x = (c, s2)" and c: "cmd_ok B c" "s \<le> s2" "s2 \<le> ?es"
        using n by (cases x) (auto simp: parsed_def)
      obtain rpar s3 where p2: "peek B ?es [41] s2 = (rpar, s3)" by (cases "peek B ?es [41] s2")
      show "fine (parsed B s) (?after x)"
      proof (cases rpar)
        case True
        then have "peek B ?es [41] s2 = (True, s3)" using p2 by simp
        note n2 = next_tok_spec [OF this c(3)]
        have "fine (parsed B s) (bindp (Some (parseredirs B ?es (next_tok B ?es s3))) (\<lambda>(rs, s). Some (Inr (wrap c rs, s))))"
          by (rule redirs_then) (use n2 c wrap_ok in \<open>auto simp: parsed_def\<close>)
        then show ?thesis using True by (simp add: x p2)
      qed (simp add: x p2)
    qed
    then show ?thesis using True by (simp add: parseblock_def p)
  qed
qed

lemma parseexec_fine:
  assumes "supplied B k P" "s \<le> u_strlen B" "depth Parseexec (u_strlen B) s \<le> Suc k"
  shows "fine (parsed B s) (parseexec P B (u_strlen B) s)"
proof -
  let ?es = "u_strlen B"
  obtain lpar s1 where p: "peek B ?es [40] s = (lpar, s1)" by (cases "peek B ?es [40] s")
  note ps = peek_spec [OF p assms(2)]
  have weak: "fine (parsed B s) r" if "fine (parsed B s') r" "s \<le> s'" for s' r
    using that(1) by (rule fine_mono) (use that(2) in \<open>auto simp: parsed_def\<close>)
  have "fine (parsed B s) (P Parseblock B ?es s1)"
    by (rule weak [OF suppliedD [OF assms(1)]]) (use ps assms(3) in \<open>simp_all add: depth_def\<close>)
  moreover have "fine (parsed B s) (bindp (Some (parseredirs B ?es s1)) (\<lambda>(rs, s). P (Parseargs [] rs) B ?es s))"
  proof (rule redirs_then [OF ps(2)], simp)
    fix rs :: "(byte \<times> word_pos) list" and s2 assume r: "s1 \<le> s2" "s2 \<le> ?es" "list_all (\<lambda>r. word_ok B (snd r)) rs"
    show "fine (parsed B s) (P (Parseargs [] rs) B ?es s2)"
      by (rule weak [OF suppliedD [OF assms(1)]]) (use ps assms(3) r in \<open>simp_all add: depth_def MAXARGS_def\<close>)
  qed
  ultimately show ?thesis by (simp add: parseexec_def p)
qed

lemma parseargs_fine:
  assumes "supplied B k P" "s \<le> u_strlen B" "depth (Parseargs argv rs) (u_strlen B) s \<le> Suc k"
    "args_ok B (Parseargs argv rs)"
  shows "fine (parsed B s) (parseargs P argv rs B (u_strlen B) s)"
proof -
  let ?es = "u_strlen B"
  obtain stop s1 where p: "peek B ?es [124, 41, 38, 59] s = (stop, s1)" by (cases "peek B ?es [124, 41, 38, 59] s")
  note ps = peek_spec [OF p assms(2)]
  obtain tok q eq s2 where g: "gettoken B ?es s1 = (tok, q, eq, s2)" by (metis prod_cases4)
  note gs = gettoken_spec [OF g ps(2)]
  have built: "cmd_ok B (wrap (EXEC argv) rs)" using assms(4) by (auto intro: wrap_ok)
  have "fine (parsed B s) (bindp (Some (parseredirs B ?es s2)) (\<lambda>(rs', s). P (Parseargs (argv @ [(q, eq)]) (rs @ rs')) B ?es s))"
    if "tok = 97" "length argv + 1 < MAXARGS"
  proof (rule redirs_then [OF gs(2)], simp)
    fix rs' :: "(byte \<times> word_pos) list" and s3 assume r: "s2 \<le> s3" "s3 \<le> ?es" "list_all (\<lambda>r. word_ok B (snd r)) rs'"
    have lt: "s < s3" using gs(3) ps(1) r(1) that(1) by simp
    have "fine (parsed B s3) (P (Parseargs (argv @ [(q, eq)]) (rs @ rs')) B ?es s3)"
      by (rule suppliedD [OF assms(1)]) (use lt r gs(4) that assms(3,4) in \<open>simp_all add: depth_def\<close>)
    then show "fine (parsed B s) (P (Parseargs (argv @ [(q, eq)]) (rs @ rs')) B ?es s3)"
      by (rule fine_mono) (use lt in \<open>auto simp: parsed_def\<close>)
  qed
  then show ?thesis using built ps gs by (simp add: parseargs_def p g parsed_def)
qed

lemma parse_fine:
  "s \<le> u_strlen B \<Longrightarrow> depth f (u_strlen B) s \<le> k \<Longrightarrow> args_ok B f \<Longrightarrow> fine (parsed B s) (parse k f B (u_strlen B) s)"
proof (induction k arbitrary: f s)
  case 0
  then show ?case by (auto simp: depth_def split: parser.splits)
next
  case (Suc k)
  have P: "supplied B k (parse k)" using Suc.IH by (auto simp: supplied_def)
  show ?case
    using Suc.prems parseline_fine [OF P] parsepipe_fine [OF P] parseexec_fine [OF P] parseblock_fine [OF P]
      parseargs_fine [OF P]
    by (cases f) simp_all
qed

subsection \<open>The words behind their terminators\<close>

definition word_text :: "byte list \<Rightarrow> word_pos \<Rightarrow> byte list" where
  "word_text B w = map (at B) [fst w..<snd w]"

lemma at_nul: "at (B[e := 0]) i = (if i = e then 0 else at B i)"
  by (auto simp: at_def)

lemma at_nuls: "at (fold (\<lambda>(q, eq) B. B[eq := 0]) ws B) i = (if i \<in> snd ` set ws then 0 else at B i)"
  by (induction ws arbitrary: B) (auto simp: at_nul)

lemma at_nulterminate: "at (nulterminate c B) i = (if i \<in> snd ` set_cmd c then 0 else at B i)"
  by (induction c arbitrary: B) (auto simp: at_nul at_nuls)

lemma str_at_step: "str_at B q = (if at B q = 0 then [] else at B q # str_at B (Suc q))"
proof (cases "q < length B")
  case True
  then have "drop q B = B ! q # drop (Suc q) B" by (rule Cons_nth_drop_Suc [symmetric])
  then show ?thesis using True by (simp add: str_at_def at_def)
qed (simp add: str_at_def at_def)

lemma str_at_run:
  "q \<le> e \<Longrightarrow> (\<And>i. q \<le> i \<Longrightarrow> i < e \<Longrightarrow> at B i \<noteq> 0) \<Longrightarrow> at B e = 0 \<Longrightarrow> str_at B q = map (at B) [q..<e]"
proof (induction "e - q" arbitrary: q)
  case 0
  then show ?case by (simp add: str_at_step [of B q])
next
  case (Suc n)
  then have "q < e" by simp
  then have "str_at B (Suc q) = map (at B) [Suc q..<e]" using Suc by simp
  then show ?case using \<open>q < e\<close> Suc.prems(2) [of q] by (simp add: str_at_step [of B q] upt_conv_Cons)
qed

lemma cmd_ok_words: "cmd_ok B c \<Longrightarrow> w \<in> set_cmd c \<Longrightarrow> word_ok B w"
  by (induction c) (auto simp: list_all_iff)

lemma str_at_nulterminate:
  assumes "cmd_ok B c" "w \<in> set_cmd c"
  shows "str_at (nulterminate c B) (fst w) = word_text B w"
proof -
  have w: "word_ok B w" using assms by (rule cmd_ok_words)
  have away: "i \<notin> snd ` set_cmd c" if i: "fst w \<le> i" "i < snd w" for i
  proof
    assume "i \<in> snd ` set_cmd c"
    then obtain v where v: "v \<in> set_cmd c" "snd v = i" by auto
    then have "word_ok B v" using assms(1) by (auto dest: cmd_ok_words)
    moreover have "i < u_strlen B" "ordinary (at B i)" using w i by (auto simp: word_ok_def)
    ultimately show False using v by (simp add: word_ok_def)
  qed
  have "str_at (nulterminate c B) (fst w) = map (at (nulterminate c B)) [fst w..<snd w]"
  proof (rule str_at_run)
    show "fst w \<le> snd w" using w by (simp add: word_ok_def)
    show "at (nulterminate c B) (snd w) = 0" using assms(2) by (simp add: at_nulterminate)
    show "at (nulterminate c B) i \<noteq> 0" if "fst w \<le> i" "i < snd w" for i
      using away [OF that] at_inside [of i B] that w by (simp add: at_nulterminate word_ok_def)
  qed
  then show ?thesis using away by (simp add: word_text_def at_nulterminate)
qed

lemma map_cmd_nulterminate:
  "cmd_ok B c \<Longrightarrow> map_cmd (\<lambda>w. str_at (nulterminate c B) (fst w)) c = map_cmd (word_text B) c"
  by (rule cmd.map_cong) (auto simp: str_at_nulterminate)

lemma parsecmd_fine:
  "fine (\<lambda>(c, B'). cmd_ok B c \<and> B' = nulterminate c B) (parsecmd B)"
  unfolding parsecmd_def Let_def
  by (rule fine_bindp [OF parse_fine]) (auto simp: depth_def parsed_def split: prod.splits)

text \<open>
  C33. Whatever line the shell is given, its parser returns: with a syntax error, or with a command all of
  whose words are non-empty runs of characters that are neither blanks nor symbols, whose calls have fewer
  than \<open>MAXARGS\<close> arguments and whose redirections have one of the three modes; and after the NULs have
  been put behind the words, the C string at each word is exactly the text of the word in the line.
\<close>

theorem parsecmd_returns_words:
  "\<exists>r. parsecmd B = Some r \<and>
     (case r of Inl e \<Rightarrow> True
      | Inr (c, B') \<Rightarrow> cmd_ok B c \<and> map_cmd (\<lambda>w. str_at B' (fst w)) c = map_cmd (word_text B) c)"
  using parsecmd_fine [of B] map_cmd_nulterminate by (auto simp: fine_def split: option.splits sum.splits)

end
