(* ===== verification/Shelltext.thy ===== *)
theory Shelltext
  imports Shellparse
begin

section \<open>The shell's parser reads back what is printed\<close>

text \<open>
  A command is written as text, with parentheses where they are needed; the parser is then followed
  token by token: each of its functions, started in front of the text of a command of its level, stops
  behind it with that command.
\<close>

subsection \<open>Commands as text\<close>

text \<open>The tokens of the language, their spelling, and the kind \<open>gettoken\<close> reports for them.\<close>

datatype token = Word "byte list" | Sym byte | Append

fun spell :: "token \<Rightarrow> byte list" where
  "spell (Word w) = w"
| "spell (Sym c) = [c]"
| "spell Append = [62, 62]"

fun kind :: "token \<Rightarrow> byte" where
  "kind (Word w) = 97"
| "kind (Sym c) = c"
| "kind Append = 43"

definition word_str :: "byte list \<Rightarrow> bool" where
  "word_str w \<longleftrightarrow> w \<noteq> [] \<and> list_all (\<lambda>c. ordinary c \<and> c \<noteq> 0) w"

fun token_ok :: "token \<Rightarrow> bool" where
  "token_ok (Word w) \<longleftrightarrow> word_str w"
| "token_ok (Sym c) \<longleftrightarrow> in_str symbols c"
| "token_ok Append \<longleftrightarrow> True"

definition enc :: "token list \<Rightarrow> byte list" where
  "enc ts = concat (map (\<lambda>t. spell t @ [32]) ts)"

text \<open>A line that holds the tokens \<open>ts\<close>, with whatever stands in the buffer behind the terminator.\<close>

definition line_of :: "token list \<Rightarrow> byte list \<Rightarrow> byte list" where
  "line_of ts junk = enc ts @ 0 # junk"

text \<open>
  The text of a command, with parentheses where the level \<open>p\<close> asks for them: a list of commands is level 0,
  one that may run in the background level 1, a pipeline level 2, a single command level 3.
\<close>

definition paren :: "bool \<Rightarrow> token list \<Rightarrow> token list" where
  "paren b ts = (if b then Sym 40 # ts @ [Sym 41] else ts)"

definition redir_sym :: "int \<Rightarrow> token" where
  "redir_sym mode = (if mode = mode_read then Sym 60 else if mode = mode_trunc then Sym 62 else Append)"

primrec tokens :: "byte list cmd \<Rightarrow> nat \<Rightarrow> token list" where
  "tokens (EXEC argv) p = map Word argv"
| "tokens (REDIR c f mode fd) p = tokens c 3 @ [redir_sym mode, Word f]"
| "tokens (PIPE l r) p = paren (2 < p) (tokens l 3 @ [Sym 124] @ tokens r 2)"
| "tokens (BACK c) p = paren (1 < p) (tokens c 1 @ [Sym 38])"
| "tokens (LIST l r) p = paren (0 < p) (tokens l 1 @ [Sym 59] @ tokens r 0)"

primrec source_ok :: "byte list cmd \<Rightarrow> bool" where
  "source_ok (EXEC argv) \<longleftrightarrow> length argv < MAXARGS \<and> list_all word_str argv"
| "source_ok (REDIR c f mode fd) \<longleftrightarrow>
     source_ok c \<and> word_str f \<and> (mode, fd) \<in> {(mode_read, 0), (mode_trunc, 1), (mode_append, 1)}"
| "source_ok (PIPE l r) \<longleftrightarrow> source_ok l \<and> source_ok r"
| "source_ok (LIST l r) \<longleftrightarrow> source_ok l \<and> source_ok r"
| "source_ok (BACK c) \<longleftrightarrow> source_ok c"

lemma enc_simps [simp]: "enc [] = []" "enc (t # ts) = spell t @ 32 # enc ts" "enc (ts @ us) = enc ts @ enc us"
  by (simp_all add: enc_def)

lemma tokens_ok: "source_ok a \<Longrightarrow> list_all token_ok (tokens a p)"
  by (induction a arbitrary: p)
     (auto simp: list_all_iff paren_def redir_sym_def in_str_def symbols_def)

subsection \<open>Reading the tokens\<close>

lemma symbols_not_blank: "in_str symbols c \<Longrightarrow> \<not> in_str whitespace c \<and> c \<noteq> 0"
  by (auto simp: in_str_def symbols_def whitespace_def split: if_splits)

lemma blank_32: "in_str whitespace 32" by (simp add: in_str_def whitespace_def)

lemma spell_nonempty: "token_ok t \<Longrightarrow> spell t \<noteq> []"
  by (cases t) (auto simp: word_str_def)

lemma spell_chars: "token_ok t \<Longrightarrow> c \<in> set (spell t) \<Longrightarrow> \<not> in_str whitespace c \<and> c \<noteq> 0"
proof -
  have "\<not> in_str whitespace 62" by (simp add: in_str_def whitespace_def)
  then show "token_ok t \<Longrightarrow> c \<in> set (spell t) \<Longrightarrow> \<not> in_str whitespace c \<and> c \<noteq> 0"
    by (cases t) (auto simp: word_str_def list_all_iff ordinary_def dest: symbols_not_blank)
qed

lemma u_strlen_line: "list_all token_ok ts \<Longrightarrow> u_strlen (line_of ts junk) = length (enc ts)"
proof -
  have pre: "\<forall>c\<in>set xs. c \<noteq> 0 \<Longrightarrow> u_strlen (xs @ 0 # junk) = length xs" for xs :: "byte list"
    by (induction xs) auto
  assume "list_all token_ok ts"
  then have "\<forall>c\<in>set (enc ts). c \<noteq> 0" by (induction ts) (auto dest: spell_chars)
  then show ?thesis by (simp add: line_of_def pre)
qed

lemma at_append: "at (xs @ ys) (length xs + i) = at ys i"
  by (simp add: at_def nth_append)

lemma at_append0: "at (xs @ ys) (length xs) = at ys 0"
  using at_append [of xs ys 0] by simp

lemma at_start:
  "at (line_of (pre @ t # post) junk) (length (enc pre) + i) = at (spell t @ 32 # enc post @ 0 # junk) i"
  by (simp add: line_of_def at_append)

lemma skipws_here: "\<not> in_str whitespace (at B s) \<or> es \<le> s \<Longrightarrow> skipws B es s = s"
  by (subst skipws.simps) auto

lemma skipws_token:
  assumes "list_all token_ok (pre @ post)"
  shows "skipws (line_of (pre @ post) junk) (length (enc (pre @ post))) (length (enc pre)) = length (enc pre)"
proof (cases post)
  case (Cons t us)
  then have "spell t \<noteq> []" using assms spell_nonempty by simp
  then have "at (line_of (pre @ post) junk) (length (enc pre)) = hd (spell t)"
    using at_start [of pre t us junk 0] Cons by (cases "spell t") (simp_all add: at_def)
  then show ?thesis using spell_chars [of t "hd (spell t)"] assms Cons \<open>spell t \<noteq> []\<close> by (simp add: skipws_here)
qed (simp add: skipws_here)

lemma skipws_after:
  assumes "list_all token_ok (pre @ t # post)"
  shows "skipws (line_of (pre @ t # post) junk) (length (enc (pre @ t # post))) (length (enc pre) + length (spell t))
       = length (enc (pre @ [t]))"
proof -
  let ?B = "line_of (pre @ t # post) junk" and ?s = "length (enc pre) + length (spell t)"
  have "at ?B ?s = 32" by (simp add: at_start at_append0) (simp add: at_def)
  then have "skipws ?B (length (enc (pre @ t # post))) ?s = skipws ?B (length (enc (pre @ t # post))) (Suc ?s)"
    by (subst skipws.simps) (simp add: blank_32)
  then show ?thesis using skipws_token [of "pre @ [t]" post junk] assms by simp
qed

lemma skipword_is:
  "s \<le> e \<Longrightarrow> e \<le> es \<Longrightarrow> (\<And>i. s \<le> i \<Longrightarrow> i < e \<Longrightarrow> ordinary (at B i)) \<Longrightarrow> \<not> ordinary (at B e) \<Longrightarrow> skipword B es s = e"
proof (induction "e - s" arbitrary: s)
  case 0
  then show ?case by (subst skipword.simps) (auto simp: ordinary_def)
next
  case (Suc n)
  then have "skipword B es (Suc s) = e" by simp
  then show ?case using Suc.prems Suc.prems(3) [of s] Suc.hyps(2) by (subst skipword.simps) (auto simp: ordinary_def)
qed

lemma at_word: "i < length w \<Longrightarrow> at (w @ ys) i = w ! i"
  by (simp add: at_def nth_append)

lemma gettoken_line:
  assumes "list_all token_ok (pre @ t # post)"
  shows "gettoken (line_of (pre @ t # post) junk) (length (enc (pre @ t # post))) (length (enc pre))
       = (kind t, length (enc pre), length (enc pre) + length (spell t), length (enc (pre @ [t])))"
proof -
  let ?B = "line_of (pre @ t # post) junk" and ?es = "length (enc (pre @ t # post))" and ?s = "length (enc pre)"
  have q: "skipws ?B ?es ?s = ?s" using skipws_token [OF assms] .
  have after: "skipws ?B ?es (?s + length (spell t)) = length (enc (pre @ [t]))" using skipws_after [OF assms] .
  have c: "at ?B ?s = at (spell t @ 32 # enc post @ 0 # junk) 0"
    "at ?B (Suc ?s) = at (spell t @ 32 # enc post @ 0 # junk) 1"
    using at_start [of pre t post junk 0] at_start [of pre t post junk 1] by simp_all
  show ?thesis
  proof (cases t)
    case (Word w)
    then have "word_str w" using assms by simp
    then have w: "w \<noteq> []" "\<And>i. i < length w \<Longrightarrow> ordinary (w ! i) \<and> w ! i \<noteq> 0"
      by (auto simp: word_str_def list_all_length)
    have "skipword ?B ?es ?s = ?s + length w"
    proof (rule skipword_is)
      show "ordinary (at ?B i)" if "?s \<le> i" "i < ?s + length w" for i
        using at_start [of pre t post junk "i - ?s"] that w Word by (simp add: at_word)
      show "\<not> ordinary (at ?B (?s + length w))"
        using at_start [of pre t post junk "length w"] Word
        by (simp add: at_append0) (simp add: at_def ordinary_def blank_32)
    qed (simp_all add: Word)
    moreover have "at ?B ?s = w ! 0" using c Word w(1) by (simp add: at_word)
    moreover have "w ! 0 \<notin> {124, 40, 41, 59, 38, 60, 62, 0}"
      using w(2) [of 0] w(1) in_symbols [of "w ! 0"] by (auto simp: ordinary_def)
    ultimately show ?thesis using q after Word by (simp add: gettoken_def Let_def)
  next
    case (Sym x)
    then have "x \<in> {60, 124, 62, 38, 59, 40, 41}" using assms in_symbols by simp
    moreover have "at ?B ?s = x" "at ?B (Suc ?s) = 32" using c Sym by (simp_all add: at_def)
    ultimately show ?thesis using q after Sym by (auto simp: gettoken_def Let_def)
  next
    case Append
    then have "at ?B ?s = 62" "at ?B (Suc ?s) = 62" using c by (simp_all add: at_def)
    then show ?thesis using q after Append by (simp add: gettoken_def Let_def)
  qed
qed

lemma peek_line:
  assumes "list_all token_ok (pre @ post)"
  shows "peek (line_of (pre @ post) junk) (length (enc (pre @ post))) toks (length (enc pre))
       = (post \<noteq> [] \<and> in_str toks (hd (spell (hd post))), length (enc pre))"
proof (cases post)
  case Nil
  then show ?thesis by (simp add: peek_def skipws_here Let_def line_of_def at_append0) (simp add: at_def)
next
  case (Cons t us)
  then have "spell t \<noteq> []" using assms spell_nonempty by simp
  moreover from this have "at (line_of (pre @ post) junk) (length (enc pre)) = hd (spell t)"
    using at_start [of pre t us junk 0] Cons by (cases "spell t") (simp_all add: at_def)
  ultimately show ?thesis
    using skipws_token [OF assms] spell_chars [of t "hd (spell t)"] assms Cons by (simp add: peek_def Let_def)
qed

subsection \<open>Parsing the tokens\<close>

abbreviation pos :: "token list \<Rightarrow> nat" where
  "pos pre \<equiv> length (enc pre)"

definition follow :: "byte set \<Rightarrow> token list \<Rightarrow> bool" where
  "follow S post \<longleftrightarrow> post = [] \<or> hd post \<in> Sym ` S"

lemma followD: "follow S post \<Longrightarrow> post = [] \<or> (\<exists>c\<in>S. hd post = Sym c)"
  by (auto simp: follow_def)

lemma follow_mono: "follow S post \<Longrightarrow> S \<subseteq> S' \<Longrightarrow> follow S' post"
  by (auto simp: follow_def)

lemma follow_Sym [simp]: "follow S (Sym c # post) \<longleftrightarrow> c \<in> S"
  by (auto simp: follow_def)

lemma peek_at:
  assumes "list_all token_ok T" "T = pre @ post"
  shows "peek (line_of T junk) (pos T) toks (pos pre) = (post \<noteq> [] \<and> in_str toks (hd (spell (hd post))), pos pre)"
  using peek_line [of pre post junk toks] assms by simp

lemma gettoken_at:
  assumes "list_all token_ok T" "T = pre @ t # post"
  shows "gettoken (line_of T junk) (pos T) (pos pre) = (kind t, pos pre, pos pre + length (spell t), pos (pre @ [t]))"
  using gettoken_line [of pre t post junk] assms by simp

lemma next_tok_at:
  assumes "list_all token_ok T" "T = pre @ t # post"
  shows "next_tok (line_of T junk) (pos T) (pos pre) = pos (pre @ [t])"
  using gettoken_at [OF assms] by (simp add: next_tok_def)

lemma word_text_at:
  "T = pre @ Word w # post \<Longrightarrow> word_text (line_of T junk) (pos pre, pos pre + length w) = w"
  by (rule nth_equalityI) (simp_all add: word_text_def at_start at_word)

text \<open>Redirections: what stands in the text, and what the parser makes of it.\<close>

type_synonym redirection = "byte list \<times> int \<times> int"

definition rtoks :: "redirection list \<Rightarrow> token list" where
  "rtoks rs = concat (map (\<lambda>(f, mode, fd). [redir_sym mode, Word f]) rs)"

definition rewrap :: "byte list cmd \<Rightarrow> redirection list \<Rightarrow> byte list cmd" where
  "rewrap a rs = fold (\<lambda>(f, mode, fd) c. REDIR c f mode fd) rs a"

definition redir_ok :: "redirection \<Rightarrow> bool" where
  "redir_ok r \<longleftrightarrow> word_str (fst r) \<and> snd r \<in> {(mode_read, 0), (mode_trunc, 1), (mode_append, 1)}"

lemma redir_ok_iff:
  "redir_ok (f, mode, fd) \<longleftrightarrow> word_str f \<and> (mode, fd) \<in> {(mode_read, 0), (mode_trunc, 1), (mode_append, 1)}"
  by (simp add: redir_ok_def)

definition same_redir :: "byte list \<Rightarrow> byte \<times> word_pos \<Rightarrow> redirection \<Rightarrow> bool" where
  "same_redir B p r \<longleftrightarrow> redir_ok r \<and> fst p = kind (redir_sym (fst (snd r))) \<and> word_text B (snd p) = fst r"

lemma modes_differ: "mode_read \<noteq> mode_trunc" "mode_read \<noteq> mode_append" "mode_trunc \<noteq> mode_append"
  by (simp_all add: omode_bits.simps)

lemma redir_of_same:
  "same_redir B (tok, w) (f, mode, fd) \<Longrightarrow> map_cmd (word_text B) (redir_of tok w c) = REDIR (map_cmd (word_text B) c) f mode fd"
  using modes_differ by (auto simp: same_redir_def redir_ok_def redir_of_def redir_sym_def)

lemma wrap_same:
  "list_all2 (same_redir B) ps rs \<Longrightarrow> map_cmd (word_text B) (wrap c ps) = rewrap (map_cmd (word_text B) c) rs"
proof (induction ps rs arbitrary: c rule: list_all2_induct)
  case (Cons p ps r rs)
  obtain tok w where p: "p = (tok, w)" by (cases p)
  obtain f mode fd where r: "r = (f, mode, fd)" by (cases r)
  show ?case
    using Cons.IH [of "redir_of tok w c"] redir_of_same [of B tok w f mode fd c] Cons.hyps p r
    by (simp add: wrap_def rewrap_def)
qed (simp add: wrap_def rewrap_def)

lemma unredir:
  "source_ok a \<Longrightarrow> \<exists>b rs. a = rewrap b rs \<and> source_ok b \<and> tokens a 3 = tokens b 3 @ rtoks rs \<and> list_all redir_ok rs \<and>
     (case b of REDIR _ _ _ _ \<Rightarrow> False | _ \<Rightarrow> True)"
proof (induction a)
  case (REDIR a f mode fd)
  then obtain b rs where "a = rewrap b rs \<and> source_ok b \<and> tokens a 3 = tokens b 3 @ rtoks rs \<and> list_all redir_ok rs \<and>
     (case b of REDIR _ _ _ _ \<Rightarrow> False | _ \<Rightarrow> True)" by auto
  then show ?case using REDIR.prems
    by (intro exI [of _ b] exI [of _ "rs @ [(f, mode, fd)]"]) (auto simp: rewrap_def rtoks_def redir_ok_iff)
qed (auto intro!: exI [of _ "[]"] simp: rewrap_def rtoks_def)

lemma redir_sym_tokens: "hd (spell (redir_sym mode)) \<in> {60, 62}" "kind (redir_sym mode) \<noteq> 97"
  by (simp_all add: redir_sym_def)

lemma parseredirs_at:
  assumes "list_all token_ok T" "post \<noteq> [] \<longrightarrow> \<not> in_str [60, 62] (hd (spell (hd post)))"
  shows "T = pre @ rtoks rs @ post \<Longrightarrow> list_all redir_ok rs \<Longrightarrow>
    \<exists>ps. parseredirs (line_of T junk) (pos T) (pos pre) = Inr (ps, pos (pre @ rtoks rs)) \<and>
      list_all2 (same_redir (line_of T junk)) ps rs"
proof (induction rs arbitrary: pre)
  case Nil
  then have "peek (line_of T junk) (pos T) [60, 62] (pos pre) = (False, pos pre)"
    using assms(2) peek_at [OF assms(1), of pre post junk "[60, 62]"] by (auto simp: rtoks_def)
  then show ?case by (subst parseredirs.simps) (simp add: rtoks_def)
next
  case (Cons r rs)
  let ?B = "line_of T junk"
  obtain f mode fd where r: "r = (f, mode, fd)" by (cases r)
  have T: "T = pre @ redir_sym mode # Word f # rtoks rs @ post" "T = (pre @ [redir_sym mode]) @ Word f # rtoks rs @ post"
    using Cons.prems r by (simp_all add: rtoks_def)
  have T2: "T = (pre @ [redir_sym mode, Word f]) @ rtoks rs @ post" using T by simp
  obtain ps where ps: "parseredirs ?B (pos T) (pos (pre @ [redir_sym mode, Word f]))
      = Inr (ps, pos ((pre @ [redir_sym mode, Word f]) @ rtoks rs))" "list_all2 (same_redir ?B) ps rs"
    using Cons.IH [OF T2] Cons.prems by auto
  let ?w = "(pos (pre @ [redir_sym mode]), pos (pre @ [redir_sym mode]) + length f)"
  have "parseredirs ?B (pos T) (pos pre) = Inr ((kind (redir_sym mode), ?w) # ps, pos (pre @ rtoks (r # rs)))"
    using peek_at [OF assms(1) T(1), of junk "[60, 62]"] gettoken_at [OF assms(1) T(1), of junk]
      gettoken_at [OF assms(1) T(2), of junk] redir_sym_tokens(1) [of mode] ps(1) r
    by (subst parseredirs.simps) (auto simp: rtoks_def in_str_ops)
  moreover have "same_redir ?B (kind (redir_sym mode), ?w) r"
    using word_text_at [OF T(2), of junk] Cons.prems r by (simp add: same_redir_def)
  ultimately show ?case using ps(2) by auto
qed

text \<open>A parser that returned did so with the command \<open>a\<close> at position \<open>s'\<close>.\<close>

definition reads :: "byte list \<Rightarrow> byte list cmd \<Rightarrow> nat \<Rightarrow> (sherr + pcmd \<times> nat) option \<Rightarrow> bool" where
  "reads B a s' r \<longleftrightarrow>
     (case r of None \<Rightarrow> True | Some (Inl e) \<Rightarrow> False | Some (Inr (c, s)) \<Rightarrow> map_cmd (word_text B) c = a \<and> s = s')"

lemma reads_simps [simp]:
  "reads B a s' None" "reads B a s' (Some (Inr (c, s))) \<longleftrightarrow> map_cmd (word_text B) c = a \<and> s = s'"
  by (simp_all add: reads_def)

lemma reads_bindp:
  "reads B a s' r \<Longrightarrow> (\<And>c. map_cmd (word_text B) c = a \<Longrightarrow> reads B b s'' (f (c, s'))) \<Longrightarrow> reads B b s'' (bindp r f)"
  unfolding reads_def bindp_def by (cases r) (auto split: sum.splits)

lemma hd_word: "word_str w \<Longrightarrow> hd w \<notin> {60, 124, 62, 38, 59, 40, 41}"
  by (cases w) (auto simp: word_str_def ordinary_def in_symbols)

lemma parseargs_at:
  assumes "list_all token_ok T" "follow {124, 41, 38, 59} post"
  shows "T = pre @ map Word ws @ rtoks rs @ post \<Longrightarrow> (ws = [] \<Longrightarrow> rs = []) \<Longrightarrow> list_all redir_ok rs \<Longrightarrow>
    length argv + length ws < MAXARGS \<Longrightarrow> list_all2 (same_redir (line_of T junk)) ps rs0 \<Longrightarrow>
    reads (line_of T junk) (rewrap (EXEC (map (word_text (line_of T junk)) argv @ ws)) (rs0 @ rs)) (pos (pre @ map Word ws @ rtoks rs))
      (parse k (Parseargs argv ps) (line_of T junk) (pos T) (pos pre))"
proof (induction ws arbitrary: pre argv ps rs0 rs k)
  case Nil
  let ?B = "line_of T junk"
  have T: "T = pre @ post" "rs = []" using Nil.prems by (simp_all add: rtoks_def)
  have "gettoken ?B (pos T) (pos pre) = (0, pos pre, pos pre, pos pre)" if "post = []"
    using that T by (simp add: gettoken_def skipws_here Let_def line_of_def at_append0) (simp add: at_def)
  then have "parseargs P argv ps ?B (pos T) (pos pre) = Some (Inr (wrap (EXEC argv) ps, pos pre))" for P
    using followD [OF assms(2)] peek_at [OF assms(1) T(1), of junk "[124, 41, 38, 59]"]
    by (auto simp: parseargs_def in_str_ops)
  then show ?case using wrap_same [OF Nil.prems(5)] T(2) by (cases k) (simp_all add: rtoks_def)
next
  case (Cons w ws)
  let ?B = "line_of T junk" and ?v = "(pos pre, pos pre + length w)"
  have T: "T = pre @ Word w # map Word ws @ rtoks rs @ post" using Cons.prems(1) by simp
  have w: "word_text ?B ?v = w" using word_text_at [OF T] .
  have ww: "word_str w" using assms(1) T by simp
  then have nr: "hd w \<notin> {60, 124, 62, 38, 59, 40, 41}" by (rule hd_word)
  have pk: "peek ?B (pos T) [124, 41, 38, 59] (pos pre) = (False, pos pre)"
    using peek_at [OF assms(1) T, of junk "[124, 41, 38, 59]"] nr by (auto simp: in_str_ops)
  define rs1 where "rs1 = (if ws = [] then rs else [])"
  define rs2 where "rs2 = (if ws = [] then [] else rs)"
  define us where "us = map Word ws @ rtoks rs2 @ post"
  have rs: "rs1 @ rs2 = rs" "ws = [] \<Longrightarrow> rs2 = []" "list_all redir_ok rs1" "list_all redir_ok rs2"
    using Cons.prems(3) by (simp_all add: rs1_def rs2_def)
  have T1: "T = (pre @ [Word w]) @ rtoks rs1 @ us" using T by (simp add: rs1_def rs2_def us_def rtoks_def)
  have "us \<noteq> [] \<longrightarrow> \<not> in_str [60, 62] (hd (spell (hd us)))"
  proof (cases ws)
    case Nil
    then show ?thesis using followD [OF assms(2)] by (auto simp: us_def rs2_def rtoks_def in_str_ops)
  next
    case v: (Cons v vs)
    then have "word_str v" using assms(1) T by simp
    then show ?thesis using v hd_word [of v] by (auto simp: us_def in_str_ops)
  qed
  then obtain ps1 where ps1: "parseredirs ?B (pos T) (pos (pre @ [Word w])) = Inr (ps1, pos ((pre @ [Word w]) @ rtoks rs1))"
    "list_all2 (same_redir ?B) ps1 rs1"
    using parseredirs_at [OF assms(1) _ T1 rs(3)] by blast
  have step: "parseargs P argv ps ?B (pos T) (pos pre)
      = P (Parseargs (argv @ [?v]) (ps @ ps1)) ?B (pos T) (pos ((pre @ [Word w]) @ rtoks rs1))" for P
    using pk gettoken_at [OF assms(1) T, of junk] ps1(1) Cons.prems(4)
    by (simp add: parseargs_def bindp_def)
  have T3: "T = ((pre @ [Word w]) @ rtoks rs1) @ map Word ws @ rtoks rs2 @ post" using T1 by (simp add: us_def)
  have "reads ?B (rewrap (EXEC (map (word_text ?B) (argv @ [?v]) @ ws)) ((rs0 @ rs1) @ rs2))
      (pos (((pre @ [Word w]) @ rtoks rs1) @ map Word ws @ rtoks rs2))
      (parse j (Parseargs (argv @ [?v]) (ps @ ps1)) ?B (pos T) (pos ((pre @ [Word w]) @ rtoks rs1)))" for j
    by (rule Cons.IH [OF T3 rs(2,4)]) (use Cons.prems(4,5) ps1(2) in \<open>simp_all add: list_all2_appendI\<close>)
  moreover have "((pre @ [Word w]) @ rtoks rs1) @ map Word ws @ rtoks rs2 = pre @ map Word (w # ws) @ rtoks rs"
    by (simp add: rs1_def rs2_def rtoks_def)
  moreover have "map (word_text ?B) (argv @ [?v]) @ ws = map (word_text ?B) argv @ w # ws" "(rs0 @ rs1) @ rs2 = rs0 @ rs"
    using w rs(1) by simp_all
  ultimately have "reads ?B (rewrap (EXEC (map (word_text ?B) argv @ w # ws)) (rs0 @ rs)) (pos (pre @ map Word (w # ws) @ rtoks rs))
      (parse j (Parseargs (argv @ [?v]) (ps @ ps1)) ?B (pos T) (pos ((pre @ [Word w]) @ rtoks rs1)))" for j
    by (simp only:)
  then show ?case using step by (cases k) simp_all
qed

lemma parseamps_at:
  assumes "list_all token_ok T" "follow {59, 41} post"
  shows "T = pre @ replicate n (Sym 38) @ post \<Longrightarrow>
    parseamps (line_of T junk) (pos T) c (pos pre) = ((BACK ^^ n) c, pos (pre @ replicate n (Sym 38)))"
proof (induction n arbitrary: pre c)
  case 0
  then have "peek (line_of T junk) (pos T) [38] (pos pre) = (False, pos pre)"
    using followD [OF assms(2)] peek_at [OF assms(1), of pre post junk "[38]"] by (auto simp: in_str_ops)
  then show ?case by (subst parseamps.simps) simp
next
  case (Suc n)
  then have T: "T = pre @ Sym 38 # replicate n (Sym 38) @ post" by simp
  have "peek (line_of T junk) (pos T) [38] (pos pre) = (True, pos pre)"
    using peek_at [OF assms(1) T, of junk "[38]"] by (simp add: in_str_ops)
  then have "parseamps (line_of T junk) (pos T) c (pos pre) = parseamps (line_of T junk) (pos T) (BACK c) (pos (pre @ [Sym 38]))"
    using next_tok_at [OF assms(1) T, of junk] by (subst parseamps.simps) simp
  also have "\<dots> = ((BACK ^^ n) (BACK c), pos ((pre @ [Sym 38]) @ replicate n (Sym 38)))"
    by (rule Suc.IH) (simp add: T)
  finally show ?case by (simp add: funpow_swap1)
qed

lemma unback: "source_ok a \<Longrightarrow> \<exists>b n. a = (BACK ^^ n) b \<and> source_ok b \<and> tokens a 1 = tokens b 2 @ replicate n (Sym 38)"
proof (induction a)
  case (BACK a)
  then obtain b n where b: "a = (BACK ^^ n) b" "source_ok b" and t: "tokens a 1 = tokens b 2 @ replicate n (Sym 38)" by auto
  have "tokens (BACK a) 1 = tokens b 2 @ replicate (Suc n) (Sym 38)"
    using t by (simp add: paren_def replicate_append_same)
  then show ?case using b by (intro exI [of _ b] exI [of _ "Suc n"]) simp
qed (auto intro!: exI [of _ "0::nat"] simp: paren_def)

lemma map_cmd_BACKs: "map_cmd h ((BACK ^^ n) c) = (BACK ^^ n) (map_cmd h c)"
  by (induction n) simp_all

text \<open>
  The function \<open>f\<close> reads the commands of level \<open>p\<close> that are followed by one of the symbols in \<open>S\<close>.
\<close>

definition parses :: "(byte list \<Rightarrow> nat \<Rightarrow> nat \<Rightarrow> (sherr + pcmd \<times> nat) option) \<Rightarrow> nat \<Rightarrow> byte set \<Rightarrow> bool" where
  "parses f p S \<longleftrightarrow> (\<forall>T junk a pre post. list_all token_ok T \<longrightarrow> T = pre @ tokens a p @ post \<longrightarrow> source_ok a \<longrightarrow> follow S post \<longrightarrow>
     reads (line_of T junk) a (pos (pre @ tokens a p)) (f (line_of T junk) (pos T) (pos pre)))"

definition parses_block :: "(byte list \<Rightarrow> nat \<Rightarrow> nat \<Rightarrow> (sherr + pcmd \<times> nat) option) \<Rightarrow> bool" where
  "parses_block f \<longleftrightarrow> (\<forall>T junk b rs pre post. list_all token_ok T \<longrightarrow>
     T = pre @ Sym 40 # tokens b 0 @ Sym 41 # rtoks rs @ post \<longrightarrow> source_ok b \<longrightarrow> list_all redir_ok rs \<longrightarrow>
     follow {124, 41, 38, 59} post \<longrightarrow>
     reads (line_of T junk) (rewrap b rs) (pos (pre @ Sym 40 # tokens b 0 @ Sym 41 # rtoks rs)) (f (line_of T junk) (pos T) (pos pre)))"

lemma parsesD:
  "parses f p S \<Longrightarrow> list_all token_ok T \<Longrightarrow> T = pre @ tokens a p @ post \<Longrightarrow> source_ok a \<Longrightarrow> follow S post \<Longrightarrow>
   reads (line_of T junk) a (pos (pre @ tokens a p)) (f (line_of T junk) (pos T) (pos pre))"
  unfolding parses_def by blast

lemma parses_blockD:
  "parses_block f \<Longrightarrow> list_all token_ok T \<Longrightarrow> T = pre @ Sym 40 # tokens b 0 @ Sym 41 # rtoks rs @ post \<Longrightarrow> source_ok b \<Longrightarrow>
   list_all redir_ok rs \<Longrightarrow> follow {124, 41, 38, 59} post \<Longrightarrow>
   reads (line_of T junk) (rewrap b rs) (pos (pre @ Sym 40 # tokens b 0 @ Sym 41 # rtoks rs)) (f (line_of T junk) (pos T) (pos pre))"
  unfolding parses_block_def by blast

lemma back_level:
  assumes pipe: "parses pp 2 {41, 38, 59}"
    and T: "list_all token_ok T" "T = pre @ tokens l 1 @ post" and l: "source_ok l" "follow {59, 41} post"
    and then_: "\<And>c. map_cmd (word_text (line_of T junk)) c = l \<Longrightarrow> reads (line_of T junk) a s' (g c (pos (pre @ tokens l 1)))"
  shows "reads (line_of T junk) a s' (bindp (pp (line_of T junk) (pos T) (pos pre))
           (\<lambda>(c, s). case parseamps (line_of T junk) (pos T) c s of (c, s) \<Rightarrow> g c s))"
proof -
  obtain b n where b: "l = (BACK ^^ n) b" "source_ok b" "tokens l 1 = tokens b 2 @ replicate n (Sym 38)"
    using unback [OF l(1)] by auto
  have f: "follow {41, 38, 59} (replicate n (Sym 38) @ post)"
    using l(2) by (cases n) (auto simp: follow_def)
  have T2: "T = pre @ tokens b 2 @ replicate n (Sym 38) @ post" "T = (pre @ tokens b 2) @ replicate n (Sym 38) @ post"
    using T(2) b(3) by simp_all
  show ?thesis
  proof (rule reads_bindp [OF parsesD [OF pipe T(1) T2(1) b(2) f]], simp only: prod.case)
    fix c assume c: "map_cmd (word_text (line_of T junk)) c = b"
    show "reads (line_of T junk) a s' (case parseamps (line_of T junk) (pos T) c (pos (pre @ tokens b 2)) of (c, s) \<Rightarrow> g c s)"
      using parseamps_at [OF T(1) l(2) T2(2), of junk c] then_ [of "(BACK ^^ n) c"] c b
      by (simp add: map_cmd_BACKs)
  qed
qed

lemma not_LIST: "(\<forall>l r. a \<noteq> LIST l r) \<Longrightarrow> tokens a 0 = tokens a 1"
  by (cases a) (simp_all add: paren_def)

lemma not_PIPE: "(\<forall>l r. a \<noteq> PIPE l r) \<Longrightarrow> tokens a 2 = tokens a 3"
  by (cases a) (simp_all add: paren_def)

lemma parseline_at:
  assumes pipe: "parses (P Parsepipe) 2 {41, 38, 59}" and line: "parses (P Parseline) 0 {41}"
  shows "parses (parseline P) 0 {41}"
  unfolding parses_def
proof (intro allI impI)
  fix T junk a pre post
  assume T: "list_all token_ok T" "T = pre @ tokens a 0 @ post" and a: "source_ok a" "follow {41} post"
  let ?B = "line_of T junk"
  show "reads ?B a (pos (pre @ tokens a 0)) (parseline P ?B (pos T) (pos pre))"
  proof (cases "\<exists>l r. a = LIST l r")
    case True
    then obtain l r where lr: "a = LIST l r" by auto
    then have T2: "T = pre @ tokens l 1 @ Sym 59 # tokens r 0 @ post" "T = (pre @ tokens l 1) @ Sym 59 # tokens r 0 @ post"
      "T = (pre @ tokens l 1 @ [Sym 59]) @ tokens r 0 @ post"
      using T(2) by (simp_all add: paren_def)
    show ?thesis unfolding parseline_def Let_def
    proof (rule back_level [OF pipe T(1) T2(1)])
      fix c assume c: "map_cmd (word_text ?B) c = l"
      have "reads ?B a (pos (pre @ tokens a 0)) (bindp (P Parseline ?B (pos T) (pos (pre @ tokens l 1 @ [Sym 59])))
          (\<lambda>(r, s). Some (Inr (LIST c r, s))))"
        by (rule reads_bindp [OF parsesD [OF line T(1) T2(3)]]) (use a lr c in \<open>simp_all add: paren_def\<close>)
      then show "reads ?B a (pos (pre @ tokens a 0)) (case peek ?B (pos T) [59] (pos (pre @ tokens l 1)) of (semi, s) \<Rightarrow>
          if semi then bindp (P Parseline ?B (pos T) (next_tok ?B (pos T) s)) (\<lambda>(r, s). Some (Inr (LIST c r, s)))
          else Some (Inr (c, s)))"
        using peek_at [OF T(1) T2(2), of junk "[59]"] next_tok_at [OF T(1) T2(2), of junk] by (simp add: in_str_ops)
    qed (use a lr in simp_all)
  next
    case False
    then have t: "tokens a 0 = tokens a 1" by (simp add: not_LIST)
    have T2: "T = pre @ tokens a 1 @ post" "T = (pre @ tokens a 1) @ post" using T(2) t by simp_all
    have "peek ?B (pos T) [59] (pos (pre @ tokens a 1)) = (False, pos (pre @ tokens a 1))"
      using peek_at [OF T(1) T2(2), of junk "[59]"] followD [OF a(2)] by (auto simp: in_str_ops)
    then show ?thesis unfolding parseline_def Let_def
      by (intro back_level [OF pipe T(1) T2(1) a(1) follow_mono [OF a(2)]]) (simp_all add: t)
  qed
qed

lemma parsepipe_at:
  assumes exec: "parses (P Parseexec) 3 {124, 41, 38, 59}" and pipe: "parses (P Parsepipe) 2 {41, 38, 59}"
  shows "parses (parsepipe P) 2 {41, 38, 59}"
  unfolding parses_def
proof (intro allI impI)
  fix T junk a pre post
  assume T: "list_all token_ok T" "T = pre @ tokens a 2 @ post" and a: "source_ok a" "follow {41, 38, 59} post"
  let ?B = "line_of T junk"
  show "reads ?B a (pos (pre @ tokens a 2)) (parsepipe P ?B (pos T) (pos pre))"
  proof (cases "\<exists>l r. a = PIPE l r")
    case True
    then obtain l r where lr: "a = PIPE l r" by auto
    then have T2: "T = pre @ tokens l 3 @ Sym 124 # tokens r 2 @ post" "T = (pre @ tokens l 3) @ Sym 124 # tokens r 2 @ post"
      "T = (pre @ tokens l 3 @ [Sym 124]) @ tokens r 2 @ post"
      using T(2) by (simp_all add: paren_def)
    show ?thesis unfolding parsepipe_def Let_def
    proof (rule reads_bindp [OF parsesD [OF exec T(1) T2(1)]], goal_cases)
      case (3 c)
      have "reads ?B a (pos (pre @ tokens a 2)) (bindp (P Parsepipe ?B (pos T) (pos (pre @ tokens l 3 @ [Sym 124])))
          (\<lambda>(r, s). Some (Inr (PIPE c r, s))))"
        by (rule reads_bindp [OF parsesD [OF pipe T(1) T2(3)]]) (use a lr 3 in \<open>simp_all add: paren_def\<close>)
      then show ?case
        using peek_at [OF T(1) T2(2), of junk "[124]"] next_tok_at [OF T(1) T2(2), of junk] by (simp add: in_str_ops)
    qed (use a lr in simp_all)
  next
    case False
    then have t: "tokens a 2 = tokens a 3" by (simp add: not_PIPE)
    have T2: "T = pre @ tokens a 3 @ post" "T = (pre @ tokens a 3) @ post" using T(2) t by simp_all
    have "peek ?B (pos T) [124] (pos (pre @ tokens a 3)) = (False, pos (pre @ tokens a 3))"
      using peek_at [OF T(1) T2(2), of junk "[124]"] followD [OF a(2)] by (auto simp: in_str_ops)
    then show ?thesis unfolding parsepipe_def Let_def
      by (intro reads_bindp [OF parsesD [OF exec T(1) T2(1) a(1) follow_mono [OF a(2)]]]) (auto simp: t)
  qed
qed

lemma parseblock_at:
  assumes line: "parses (P Parseline) 0 {41}"
  shows "parses_block (parseblock P)"
  unfolding parses_block_def
proof (intro allI impI)
  fix T junk b rs pre post
  assume T: "list_all token_ok T" "T = pre @ Sym 40 # tokens b 0 @ Sym 41 # rtoks rs @ post"
    and b: "source_ok b" "list_all redir_ok rs" "follow {124, 41, 38, 59} post"
  let ?B = "line_of T junk" and ?p1 = "pre @ [Sym 40]" and ?p2 = "(pre @ [Sym 40]) @ tokens b 0"
  have T2: "T = ?p1 @ tokens b 0 @ Sym 41 # rtoks rs @ post" "T = ?p2 @ Sym 41 # rtoks rs @ post"
    "T = (?p2 @ [Sym 41]) @ rtoks rs @ post"
    using T(2) by simp_all
  have "post \<noteq> [] \<longrightarrow> \<not> in_str [60, 62] (hd (spell (hd post)))" using followD [OF b(3)] by (auto simp: in_str_ops)
  then obtain ps where ps: "parseredirs ?B (pos T) (pos (?p2 @ [Sym 41])) = Inr (ps, pos ((?p2 @ [Sym 41]) @ rtoks rs))"
    "list_all2 (same_redir ?B) ps rs"
    using parseredirs_at [OF T(1) _ T2(3) b(2)] by blast
  have "reads ?B (rewrap b rs) (pos ((?p2 @ [Sym 41]) @ rtoks rs)) (bindp (P Parseline ?B (pos T) (pos ?p1)) (\<lambda>(c, s).
      case peek ?B (pos T) [41] s of (rpar, s) \<Rightarrow>
      if \<not> rpar then Some (Inl (ShPanic ''syntax - missing )''))
      else bindp (Some (parseredirs ?B (pos T) (next_tok ?B (pos T) s))) (\<lambda>(rs, s). Some (Inr (wrap c rs, s)))))"
  proof (rule reads_bindp [OF parsesD [OF line T(1) T2(1) b(1)]], goal_cases)
    case (2 c)
    then show ?case
      using peek_at [OF T(1) T2(2), of junk "[41]"] next_tok_at [OF T(1) T2(2), of junk] ps wrap_same [OF ps(2), of c]
      by (simp add: in_str_ops bindp_def)
  qed simp
  then show "reads ?B (rewrap b rs) (pos (pre @ Sym 40 # tokens b 0 @ Sym 41 # rtoks rs)) (parseblock P ?B (pos T) (pos pre))"
    using peek_at [OF T, of junk "[40]"] next_tok_at [OF T, of junk] by (simp add: parseblock_def Let_def in_str_ops)
qed

lemma no_paren:
  assumes "list_all word_str argv" "follow {124, 41, 38, 59} post" "map Word argv @ rtoks rs @ post \<noteq> []"
  shows "\<not> in_str [40] (hd (spell (hd (map Word argv @ rtoks rs @ post))))"
proof (cases argv)
  case (Cons v vs)
  then show ?thesis using assms(1) hd_word [of v] by (auto simp: in_str_ops)
next
  case Nil
  then show ?thesis
  proof (cases rs)
    case (Cons r rs)
    obtain f mode fd where "r = (f, mode, fd)" by (cases r)
    then show ?thesis using Cons Nil redir_sym_tokens(1) [of mode] by (auto simp: rtoks_def in_str_ops)
  qed (use assms followD [OF assms(2)] Nil in \<open>auto simp: rtoks_def in_str_ops\<close>)
qed

lemma parseexec_at:
  assumes block: "parses_block (parse k Parseblock)"
  shows "parses (parseexec (parse k)) 3 {124, 41, 38, 59}"
  unfolding parses_def
proof (intro allI impI)
  fix T junk a pre post
  assume T: "list_all token_ok T" "T = pre @ tokens a 3 @ post" and a: "source_ok a" "follow {124, 41, 38, 59} post"
  let ?B = "line_of T junk"
  obtain b rs where b: "a = rewrap b rs" "source_ok b" "tokens a 3 = tokens b 3 @ rtoks rs" "list_all redir_ok rs"
    and core: "case b of REDIR _ _ _ _ \<Rightarrow> False | _ \<Rightarrow> True"
    using unredir [OF a(1)] by auto
  show "reads ?B a (pos (pre @ tokens a 3)) (parseexec (parse k) ?B (pos T) (pos pre))"
  proof (cases "\<exists>argv. b = EXEC argv")
    case True
    then obtain argv where argv: "b = EXEC argv" by auto
    let ?rest = "map Word argv @ rtoks rs @ post"
    have T2: "T = pre @ ?rest" using T(2) b(3) argv by simp
    have pk: "peek ?B (pos T) [40] (pos pre) = (False, pos pre)"
      unfolding peek_at [OF T(1) T2] using no_paren [of argv post rs] a(2) b(2) argv by auto
    define rs1 where "rs1 = (if argv = [] then rs else [])"
    define rs2 where "rs2 = (if argv = [] then [] else rs)"
    have rs: "rs1 @ rs2 = rs" "argv = [] \<Longrightarrow> rs2 = []" "list_all redir_ok rs1" "list_all redir_ok rs2"
      using b(4) by (simp_all add: rs1_def rs2_def)
    have T3: "T = pre @ rtoks rs1 @ map Word argv @ rtoks rs2 @ post"
      "T = (pre @ rtoks rs1) @ map Word argv @ rtoks rs2 @ post"
      using T2 by (simp_all add: rs1_def rs2_def rtoks_def)
    have "map Word argv @ rtoks rs2 @ post \<noteq> [] \<longrightarrow> \<not> in_str [60, 62] (hd (spell (hd (map Word argv @ rtoks rs2 @ post))))"
    proof (cases argv)
      case Nil
      then show ?thesis using followD [OF a(2)] by (auto simp: rs2_def rtoks_def in_str_ops)
    next
      case (Cons v vs)
      then have "word_str v" using b(2) argv by simp
      then show ?thesis using Cons hd_word [of v] by (auto simp: in_str_ops)
    qed
    then obtain ps where ps: "parseredirs ?B (pos T) (pos pre) = Inr (ps, pos (pre @ rtoks rs1))"
      "list_all2 (same_redir ?B) ps rs1"
      using parseredirs_at [OF T(1) _ T3(1) rs(3)] by blast
    have "reads ?B (rewrap (EXEC (map (word_text ?B) [] @ argv)) (rs1 @ rs2)) (pos ((pre @ rtoks rs1) @ map Word argv @ rtoks rs2))
        (parse k (Parseargs [] ps) ?B (pos T) (pos (pre @ rtoks rs1)))"
      by (rule parseargs_at [OF T(1) a(2) T3(2) rs(2,4) _ ps(2)]) (use b(2) argv in simp_all)
    moreover have "(pre @ rtoks rs1) @ map Word argv @ rtoks rs2 = pre @ tokens a 3"
      by (simp add: b(3) argv rs1_def rs2_def rtoks_def)
    ultimately show ?thesis using pk ps(1) rs(1) b(1) argv by (simp add: parseexec_def bindp_def del: enc_simps)
  next
    case False
    then have t: "tokens b 3 = Sym 40 # tokens b 0 @ [Sym 41]" using core by (cases b) (simp_all add: paren_def)
    have T2: "T = pre @ Sym 40 # tokens b 0 @ Sym 41 # rtoks rs @ post" using T(2) b(3) t by simp
    have "peek ?B (pos T) [40] (pos pre) = (True, pos pre)"
      using peek_at [OF T(1) T2, of junk "[40]"] by (simp add: in_str_ops)
    then show ?thesis
      using parses_blockD [OF block T(1) T2 b(2,4) a(2), of junk] b(1,3) t by (simp add: parseexec_def)
  qed
qed

lemma parse_reads:
  "parses (parse k Parseline) 0 {41} \<and> parses (parse k Parsepipe) 2 {41, 38, 59} \<and>
   parses (parse k Parseexec) 3 {124, 41, 38, 59} \<and> parses_block (parse k Parseblock)"
proof (induction k)
  case 0
  show ?case by (simp add: parses_def parses_block_def)
next
  case (Suc k)
  then show ?case
    using parseline_at [of "parse k"] parsepipe_at [of "parse k"] parseexec_at [of k] parseblock_at [of "parse k"]
    by simp
qed

text \<open>
  C34. The parser reads back a command from its text: for every command whose words are non-empty and free
  of blanks and symbols, whose calls have fewer than \<open>MAXARGS\<close> arguments and whose redirections have one
  of the three modes, the shell's parser, given the text of the command (parenthesised where the
  precedence of the operators asks for it), returns that command, and the C strings at its words are
  the words.
\<close>

theorem parsecmd_reads_back:
  assumes "source_ok a"
  shows "\<exists>c B'. parsecmd (line_of (tokens a 0) junk) = Some (Inr (c, B')) \<and> map_cmd (\<lambda>w. str_at B' (fst w)) c = a"
proof -
  let ?T = "tokens a 0" and ?B = "line_of (tokens a 0) junk"
  have ok: "list_all token_ok ?T" using assms by (rule tokens_ok)
  have es: "u_strlen ?B = pos ?T" using ok by (rule u_strlen_line)
  have line: "parses (parse k Parseline) 0 {41}" for k using parse_reads by simp
  have r: "reads ?B a (pos ?T) (parse k Parseline ?B (pos ?T) 0)" for k
    using parsesD [OF line ok, of "[]" a "[]" junk] assms by (simp add: follow_def)
  have f: "fine (parsed ?B 0) (parse (6 * pos ?T + 6) Parseline ?B (pos ?T) 0)"
    using parse_fine [of 0 ?B Parseline "6 * pos ?T + 6"] by (simp add: es depth_def)
  obtain c where c: "parse (6 * pos ?T + 6) Parseline ?B (pos ?T) 0 = Some (Inr (c, pos ?T))" "map_cmd (word_text ?B) c = a"
    and ok_c: "cmd_ok ?B c"
    using r [of "6 * pos ?T + 6"] f by (auto simp: reads_def fine_def parsed_def split: option.splits sum.splits)
  have "peek ?B (pos ?T) [] (pos ?T) = (False, pos ?T)" using peek_at [OF ok, of ?T "[]" junk "[]"] by simp
  then have "parsecmd ?B = Some (Inr (c, nulterminate c ?B))" using c(1) by (simp add: parsecmd_def Let_def es bindp_def)
  then show ?thesis using map_cmd_nulterminate [OF ok_c] c(2) by simp
qed

text \<open>The line \<open>( ls x | wc ) > f & ; w\<close>.\<close>

theorem parsecmd_reads_back_witness:
  "source_ok (LIST (BACK (REDIR (PIPE (EXEC [[108, 115], [120]]) (EXEC [[119, 99]])) [102] mode_trunc 1)) (EXEC [[119]])) \<and>
   (\<exists>c B'. parsecmd (line_of (tokens (LIST (BACK (REDIR (PIPE (EXEC [[108, 115], [120]]) (EXEC [[119, 99]])) [102] mode_trunc 1))
       (EXEC [[119]])) 0) []) = Some (Inr (c, B')) \<and>
     map_cmd (\<lambda>w. str_at B' (fst w)) c
       = LIST (BACK (REDIR (PIPE (EXEC [[108, 115], [120]]) (EXEC [[119, 99]])) [102] mode_trunc 1)) (EXEC [[119]]))"
proof -
  have ok: "source_ok (LIST (BACK (REDIR (PIPE (EXEC [[108, 115], [120]]) (EXEC [[119, 99]])) [102] mode_trunc 1)) (EXEC [[119]]))"
    by (simp add: word_str_def ordinary_def in_str_def whitespace_def symbols_def MAXARGS_def)
  then show ?thesis using parsecmd_reads_back [OF ok, of "[]"] by blast
qed

end
