(* ===== verification/Umalloc.thy ===== *)
theory Umalloc
  imports Prelude
begin

section \<open>The user-level memory allocator (user/umalloc.c)\<close>

text \<open>
  The allocator of Kernighan and Ritchie: a circular list of free blocks in the order of their addresses,
  each starting with a header of 16 bytes that holds the next block and the size of the block in units of
  a header.

  Addresses are natural numbers; user addresses are far below \<open>2 ^ 64\<close>, so pointer arithmetic does not
  wrap around.  Sizes are kept as 32-bit words.  The headers in memory are the map \<open>hdr\<close>.  \<open>base_addr\<close> is
  the address of the static variable \<open>base\<close>, and \<open>brk\<close> the end of the process's memory.  Whether the kernel
  grants a request to grow is the parameter \<open>grant\<close>, a function of the end of the memory and the request.

  The two loops run around the list, and end only if it is well formed: they are partial functions, and
  \<open>None\<close> stands for a run that does not end.
\<close>

record header =
  h_ptr :: nat
  h_size :: uint32

record heap =
  hdr :: "nat \<Rightarrow> header"
  freep :: nat
  base_addr :: nat
  brk :: nat

abbreviation nxt :: "heap \<Rightarrow> nat \<Rightarrow> nat" where "nxt h p \<equiv> h_ptr (hdr h p)"
abbreviation hsize :: "heap \<Rightarrow> nat \<Rightarrow> uint32" where "hsize h p \<equiv> h_size (hdr h p)"

definition set_ptr :: "nat \<Rightarrow> nat \<Rightarrow> heap \<Rightarrow> heap" where
  "set_ptr p q h = h\<lparr>hdr := (hdr h)(p := (hdr h p)\<lparr>h_ptr := q\<rparr>)\<rparr>"

definition set_size :: "nat \<Rightarrow> uint32 \<Rightarrow> heap \<Rightarrow> heap" where
  "set_size p n h = h\<lparr>hdr := (hdr h)(p := (hdr h p)\<lparr>h_size := n\<rparr>)\<rparr>"

text \<open>The address \<open>n\<close> units behind \<open>p\<close>.\<close>

definition units_on :: "nat \<Rightarrow> uint32 \<Rightarrow> nat" where
  "units_on p n = p + 16 * unat n"

partial_function (option) free_find :: "heap \<Rightarrow> nat \<Rightarrow> nat \<Rightarrow> nat option" where
  "free_find h bp p =
     (if bp > p \<and> bp < nxt h p then Some p
      else if p \<ge> nxt h p \<and> (bp > p \<or> bp < nxt h p) then Some p
      else free_find h bp (nxt h p))"

text \<open>Linking the block at \<open>bp\<close> behind the free block at \<open>p\<close>.\<close>

definition free_link :: "nat \<Rightarrow> nat \<Rightarrow> heap \<Rightarrow> heap" where
  "free_link bp p h =
     (let h = (if units_on bp (hsize h bp) = nxt h p
               then let h = set_size bp (hsize h bp + hsize h (nxt h p)) h in set_ptr bp (nxt h (nxt h p)) h
               else set_ptr bp (nxt h p) h);
          h = (if units_on p (hsize h p) = bp
               then let h = set_size p (hsize h p + hsize h bp) h in set_ptr p (nxt h bp) h
               else set_ptr p bp h)
      in h\<lparr>freep := p\<rparr>)"

definition u_free :: "nat \<Rightarrow> heap \<Rightarrow> heap option" where
  "u_free ap h = (let bp = ap - 16 in Option.bind (free_find h bp (freep h)) (\<lambda>p. Some (free_link bp p h)))"

definition u_sbrk :: "(nat \<Rightarrow> int \<Rightarrow> bool) \<Rightarrow> int \<Rightarrow> heap \<Rightarrow> nat option \<times> heap" where
  "u_sbrk grant n h =
     (if grant (brk h) n then (Some (brk h), h\<lparr>brk := nat (int (brk h) + n)\<rparr>) else (None, h))"

definition morecore :: "(nat \<Rightarrow> int \<Rightarrow> bool) \<Rightarrow> uint32 \<Rightarrow> heap \<Rightarrow> (nat \<times> heap) option" where
  "morecore grant nu h =
     (let nu = (if nu < 4096 then 4096 else nu);
          (p, h) = u_sbrk grant (sint (ucast ((ucast nu :: uint64) * 16) :: uint32)) h
      in case p of
           None \<Rightarrow> Some (0, h)
         | Some hp \<Rightarrow> Option.bind (u_free (hp + 16) (set_size hp nu h)) (\<lambda>h. Some (freep h, h)))"

text \<open>
  The request is computed in 64 bits but passed to \<open>sbrk\<close> as an \<open>int\<close>: for the largest block a program can
  ask for, \<open>morecore\<close> asks the kernel for 16 bytes.
\<close>

definition malloc_units :: "uint32 \<Rightarrow> uint32" where
  "malloc_units nbytes = ucast (((ucast nbytes :: uint64) + 16 - 1) div 16 + 1)"

lemma morecore_truncates:
  "malloc_units 0xFFFFFFFF = 0x10000001" "sint (ucast ((ucast (malloc_units 0xFFFFFFFF) :: uint64) * 16) :: uint32) = 16"
  by (simp_all add: malloc_units_def)

text \<open>Taking \<open>nunits\<close> units from the block at \<open>p\<close>, from its end unless all of it is needed.\<close>

definition malloc_take :: "uint32 \<Rightarrow> nat \<Rightarrow> nat \<Rightarrow> heap \<Rightarrow> nat \<times> heap" where
  "malloc_take nunits prevp p h =
     (let (p, h) =
        (if hsize h p = nunits then (p, set_ptr prevp (nxt h p) h)
         else let h = set_size p (hsize h p - nunits) h; q = units_on p (hsize h p)
              in (q, set_size q nunits h))
      in (p + 16, h\<lparr>freep := prevp\<rparr>))"

partial_function (option) malloc_loop ::
  "(nat \<Rightarrow> int \<Rightarrow> bool) \<Rightarrow> uint32 \<Rightarrow> nat \<Rightarrow> nat \<Rightarrow> heap \<Rightarrow> (nat \<times> heap) option" where
  "malloc_loop grant nunits prevp p h =
     (if hsize h p \<ge> nunits then Some (malloc_take nunits prevp p h)
      else if p = freep h
      then Option.bind (morecore grant nunits h) (\<lambda>(p, h).
             if p = 0 then Some (0, h) else malloc_loop grant nunits p (nxt h p) h)
      else malloc_loop grant nunits p (nxt h p) h)"

definition malloc_init :: "heap \<Rightarrow> heap" where
  "malloc_init h =
     (if freep h = 0 then set_size (base_addr h) 0 (set_ptr (base_addr h) (base_addr h) (h\<lparr>freep := base_addr h\<rparr>))
      else h)"

definition u_malloc :: "(nat \<Rightarrow> int \<Rightarrow> bool) \<Rightarrow> uint32 \<Rightarrow> heap \<Rightarrow> (nat \<times> heap) option" where
  "u_malloc grant nbytes h =
     (let nunits = malloc_units nbytes; h = malloc_init h; prevp = freep h
      in malloc_loop grant nunits prevp (nxt h prevp) h)"

subsection \<open>The list of free blocks\<close>

type_synonym block = "nat \<times> uint32"

abbreviation stop :: "block \<Rightarrow> nat" where "stop b \<equiv> units_on (fst b) (snd b)"

definition span :: "block \<Rightarrow> nat set" where "span b = {fst b..<stop b}"

definition free_bytes :: "block list \<Rightarrow> nat set" where "free_bytes fl = \<Union> (span ` set fl)"

fun linked :: "heap \<Rightarrow> block list \<Rightarrow> bool" where
  "linked h (x # y # zs) \<longleftrightarrow> hdr h (fst x) = \<lparr>h_ptr = fst y, h_size = snd x\<rparr> \<and> linked h (y # zs)"
| "linked h _ \<longleftrightarrow> True"

definition ring :: "heap \<Rightarrow> block list \<Rightarrow> bool" where
  "ring h fl \<longleftrightarrow> fl \<noteq> [] \<and> linked h (fl @ [hd fl])"

fun apart :: "block list \<Rightarrow> bool" where
  "apart (x # y # zs) \<longleftrightarrow> stop x < fst y \<and> apart (y # zs)"
| "apart _ \<longleftrightarrow> True"

lemma free_bytes_simps [simp]:
  "free_bytes [] = {}" "free_bytes (b # fl) = span b \<union> free_bytes fl" "free_bytes (fl @ gl) = free_bytes fl \<union> free_bytes gl"
  by (simp_all add: free_bytes_def)

lemma linked_append: "linked h (xs @ y # ys) \<longleftrightarrow> linked h (xs @ [y]) \<and> linked h (y # ys)"
  by (induction h xs rule: linked.induct) auto

lemma apart_append: "apart (xs @ y # ys) \<longleftrightarrow> apart (xs @ [y]) \<and> apart (y # ys)"
  by (induction xs rule: apart.induct) auto

lemma ring_rotate: "ring h (A @ B) \<Longrightarrow> ring h (B @ A)"
proof (cases A; cases B)
  fix a A' b B' assume "ring h (A @ B)" and AB: "A = a # A'" "B = b # B'"
  then have "linked h ((a # A') @ b # B' @ [a])" by (simp add: ring_def)
  then have "linked h ((a # A') @ [b])" "linked h ((b # B') @ [a])"
    using linked_append [of h "a # A'" b "B' @ [a]"] by simp_all
  then have "linked h ((b # B') @ a # A' @ [b])" using linked_append [of h "b # B'" a "A' @ [b]"] by simp
  then show ?thesis using AB by (simp add: ring_def)
qed auto

lemma ring_hdr: "ring h (x # W) \<Longrightarrow> hdr h (fst x) = \<lparr>h_ptr = fst (hd (W @ [x])), h_size = snd x\<rparr>"
  by (cases W) (auto simp: ring_def)

lemma linked_cong: "(\<And>x. x \<in> set (butlast xs) \<Longrightarrow> hdr h' (fst x) = hdr h (fst x)) \<Longrightarrow> linked h' xs = linked h xs"
  by (induction h xs rule: linked.induct) auto

lemma linked_Cons: "linked h (x # W) \<longleftrightarrow> W = [] \<or> hdr h (fst x) = \<lparr>h_ptr = fst (hd W), h_size = snd x\<rparr> \<and> linked h W"
  by (cases W) auto

lemma linked_snoc_cong: "(\<And>z. z \<in> set W \<Longrightarrow> hdr h' (fst z) = hdr h (fst z)) \<Longrightarrow> linked h' (W @ [x]) = linked h (W @ [x])"
  by (rule linked_cong) simp

text \<open>The order of the blocks.\<close>

lemma stop_ge: "fst b \<le> stop b" by (simp add: units_on_def)

lemma apart_Cons: "apart (x # xs) \<longleftrightarrow> (xs = [] \<or> stop x < fst (hd xs)) \<and> apart xs"
  by (cases xs) auto

lemma apart_after: "apart (x # xs) \<Longrightarrow> y \<in> set xs \<Longrightarrow> stop x < fst y"
proof (induction xs arbitrary: x)
  case (Cons z zs)
  show ?case
  proof (cases "y = z")
    case False
    then have "stop z < fst y" using Cons by simp
    then show ?thesis using Cons.prems(1) stop_ge [of z] by simp
  qed (use Cons.prems in simp)
qed simp

lemma apart_before: "apart (xs @ [y]) \<Longrightarrow> x \<in> set xs \<Longrightarrow> stop x < fst y"
proof -
  assume "apart (xs @ [y])" "x \<in> set xs"
  moreover from this obtain us vs where "xs = us @ x # vs" by (meson split_list)
  ultimately show ?thesis using apart_append [of us x "vs @ [y]"] apart_after [of x "vs @ [y]" y] by simp
qed

lemma apart_order:
  assumes "apart (U @ y # V)"
  shows "x \<in> set U \<Longrightarrow> stop x < fst y" "v \<in> set V \<Longrightarrow> stop y < fst v" "x \<in> set U \<Longrightarrow> v \<in> set V \<Longrightarrow> stop x < fst v"
proof -
  have a: "apart (U @ [y])" "apart (y # V)" using assms apart_append by blast+
  show u: "x \<in> set U \<Longrightarrow> stop x < fst y" using a(1) by (rule apart_before)
  show v: "v \<in> set V \<Longrightarrow> stop y < fst v" using a(2) by (rule apart_after)
  show "x \<in> set U \<Longrightarrow> v \<in> set V \<Longrightarrow> stop x < fst v" using u v stop_ge [of y] by fastforce
qed

lemma apart_disjoint: "apart (U @ y # V) \<Longrightarrow> span y \<inter> free_bytes (U @ V) = {}"
  using apart_order [of U y V] by (fastforce simp: span_def free_bytes_def)

lemma apart_distinct: "apart fl \<Longrightarrow> distinct (map fst fl)"
proof (induction fl)
  case (Cons x fl)
  have "fst x \<notin> fst ` set fl"
  proof
    assume "fst x \<in> fst ` set fl"
    then obtain y where "y \<in> set fl" "fst y = fst x" by auto
    then show False using apart_after [OF Cons.prems, of y] stop_ge [of x] by simp
  qed
  then show ?case using Cons by (simp add: apart_Cons)
qed simp

lemma apart_remove: "apart (U @ y # V) \<Longrightarrow> apart (U @ V)"
proof (cases V)
  case Nil
  assume "apart (U @ y # V)"
  then have "apart (U @ [y])" using Nil by simp
  then show ?thesis using Nil by (induction U rule: apart.induct) auto
next
  case (Cons v V')
  assume a: "apart (U @ y # V)"
  then have f: "apart (U @ [y])" "stop y < fst v" "apart (v # V')" using Cons apart_append [of U y V] by simp_all
  have "fst y < fst v" using f(2) stop_ge [of y] by simp
  then have "apart (U @ [v])" using f(1) by (induction U rule: apart.induct) auto
  then show ?thesis using f(3) Cons apart_append [of U v V'] by simp
qed

lemma apart_shrink:
  assumes "apart (U @ (a, n) # V)" "unat m \<le> unat n"
  shows "apart (U @ (a, m) # V)"
proof -
  have a: "apart (U @ [(a, n)])" "apart ((a, n) # V)" using assms(1) apart_append by blast+
  have "apart (U @ [(a, m)])" using a(1) by (induction U rule: apart.induct) auto
  moreover have "apart ((a, m) # V)" using a(2) assms(2) by (auto simp: apart_Cons units_on_def)
  ultimately show ?thesis using apart_append by blast
qed

subsection \<open>Freeing\<close>

lemma ring_at: "ring h (U @ x # V) \<Longrightarrow> hdr h (fst x) = \<lparr>h_ptr = fst (hd (V @ U @ [x])), h_size = snd x\<rparr>"
  using ring_hdr [of h x "V @ U"] ring_rotate [of h U "x # V"] by simp

lemma free_find_slot:
  assumes r: "ring h (U @ a # V)" and s: "apart (U @ a # V)"
    and lo: "\<forall>x\<in>set (U @ [a]). fst x < bp" and hi: "\<forall>v\<in>set V. bp < fst v" and y: "y \<in> set (U @ a # V)"
  shows "free_find h bp (fst y) = Some (fst a)"
proof -
  have here: "free_find h bp (fst a) = Some (fst a)"
  proof (cases V)
    case Nil
    then have "nxt h (fst a) = fst (hd (U @ [a]))" using ring_at [OF r] by simp
    moreover have "fst (hd (U @ [a])) \<le> fst a" 
    proof (cases U)
      case (Cons u U')
      then have "stop u < fst a" using apart_order(1) [OF s, of u] by simp
      then show ?thesis using Cons stop_ge [of u] by simp
    qed simp
    ultimately show ?thesis using lo by (subst free_find.simps) auto
  next
    case (Cons v V')
    then have "nxt h (fst a) = fst v" using ring_at [OF r] by simp
    then show ?thesis using lo hi Cons by (subst free_find.simps) auto
  qed
  have left: "U = U1 @ x # U2 \<Longrightarrow> free_find h bp (fst x) = Some (fst a)" for U1 x U2
  proof (induction U2 arbitrary: U1 x)
    case Nil
    then have "ring h (U1 @ x # a # V)" "apart (U1 @ x # a # V)" using r s by simp_all
    then have "nxt h (fst x) = fst a" "fst x < fst a"
      using ring_at [of h U1 x "a # V"] apart_order(2) [of U1 x "a # V" a] stop_ge [of x] by auto
    then show ?case using lo here by (subst free_find.simps) auto
  next
    case (Cons z U2)
    then have "ring h (U1 @ x # z # U2 @ a # V)" "apart (U1 @ x # z # U2 @ a # V)" using r s by simp_all
    then have "nxt h (fst x) = fst z" "fst x < fst z"
      using ring_at [of h U1 x "z # U2 @ a # V"] apart_order(2) [of U1 x "z # U2 @ a # V" z] stop_ge [of x] by auto
    moreover have "free_find h bp (fst z) = Some (fst a)" using Cons.IH [of "U1 @ [x]" z] Cons.prems by simp
    moreover have "fst z < bp" using lo Cons.prems by auto
    ultimately show ?case by (subst free_find.simps) auto
  qed
  have front: "free_find h bp (fst (hd (U @ [a]))) = Some (fst a)" using left [of "[]"] here by (cases U) auto
  have right: "V = V1 @ x # V2 \<Longrightarrow> free_find h bp (fst x) = Some (fst a)" for V1 x V2
  proof (induction V2 arbitrary: V1 x)
    case Nil
    then have "ring h ((U @ a # V1) @ [x])" "apart ((U @ a # V1) @ [x])" using r s by simp_all
    then have n: "nxt h (fst x) = fst (hd (U @ [a]))" using ring_at [of h "U @ a # V1" x "[]"] by (cases U) auto
    moreover have "fst (hd (U @ [a])) < bp" using lo by (cases U) auto
    moreover have "bp < fst x" using hi Nil by simp
    ultimately show ?case using front by (subst free_find.simps) auto
  next
    case (Cons z V2)
    then have "ring h ((U @ a # V1) @ x # z # V2)" "apart ((U @ a # V1) @ x # z # V2)" using r s by simp_all
    then have "nxt h (fst x) = fst z" "fst x < fst z"
      using ring_at [of h "U @ a # V1" x "z # V2"] apart_order(2) [of "U @ a # V1" x "z # V2" z] stop_ge [of x] by auto
    moreover have "free_find h bp (fst z) = Some (fst a)" using Cons.IH [of "V1 @ [x]" z] Cons.prems by simp
    moreover have "bp < fst x" using hi Cons.prems by simp
    ultimately show ?case by (subst free_find.simps) auto
  qed
  consider "y \<in> set U" | "y = a" | "y \<in> set V" using y by auto
  then show ?thesis
  proof cases
    case 1
    then obtain U1 U2 where "U = U1 @ y # U2" by (meson split_list)
    then show ?thesis by (rule left)
  next
    case 3
    then obtain V1 V2 where "V = V1 @ y # V2" by (meson split_list)
    then show ?thesis by (rule right)
  qed (use here in simp)
qed

text \<open>What the list becomes: the new block is joined with the block behind it and the one in front of it.\<close>

definition join_up :: "block \<Rightarrow> block list \<Rightarrow> block list" where
  "join_up b W =
     (case W of v # W' \<Rightarrow> if stop b = fst v then (fst b, snd b + snd v) # W' else b # W | [] \<Rightarrow> [b])"

definition join :: "block \<Rightarrow> block list \<Rightarrow> block list" where
  "join a bs = (if stop a = fst (hd bs) then (fst a, snd a + snd (hd bs)) # tl bs else a # bs)"

lemma hdr_set [simp]:
  "hdr (set_ptr p q h) x = (if x = p then (hdr h p)\<lparr>h_ptr := q\<rparr> else hdr h x)"
  "hdr (set_size p n h) x = (if x = p then (hdr h p)\<lparr>h_size := n\<rparr> else hdr h x)"
  by (simp_all add: set_ptr_def set_size_def)

lemma join_up_Cons: "\<exists>b' W'. join_up b W = b' # W' \<and> fst b' = fst b \<and> set W' \<subseteq> set W"
  by (cases b; cases W) (auto simp: join_up_def)

lemma free_link_up:
  assumes r: "ring h (a # W)" and d: "distinct (map fst (a # W))" and bp: "bp \<notin> fst ` set (a # W)"
    and n: "hsize h bp = n" and not_a: "W = [] \<Longrightarrow> units_on bp n \<noteq> fst a"
  defines "h1 \<equiv> if units_on bp (hsize h bp) = nxt h (fst a)
               then let h = set_size bp (hsize h bp + hsize h (nxt h (fst a))) h in set_ptr bp (nxt h (nxt h (fst a))) h
               else set_ptr bp (nxt h (fst a)) h"
  shows "linked h1 (join_up (bp, n) W @ [a])" "hsize h1 (fst a) = snd a"
proof -
  have na: "nxt h (fst a) = fst (hd (W @ [a]))" "hsize h (fst a) = snd a" using ring_hdr [OF r] by simp_all
  have l: "linked h (W @ [a])" using r by (cases W) (auto simp: ring_def)
  have keep: "hdr h1 x = hdr h x" if "x \<noteq> bp" for x using that by (simp add: h1_def Let_def)
  have a: "fst a \<noteq> bp" using bp by auto
  show "hsize h1 (fst a) = snd a" using keep [OF a] na by simp
  show "linked h1 (join_up (bp, n) W @ [a])"
  proof (cases W)
    case Nil
    then show ?thesis using na not_a n a by (simp add: join_up_def h1_def Let_def)
  next
    case (Cons v W')
    have v: "hdr h (fst v) = \<lparr>h_ptr = fst (hd (W' @ [a])), h_size = snd v\<rparr>" "linked h (W' @ [a])" "fst v \<noteq> bp"
      using l Cons bp by (cases W'; auto)+
    have "hdr h1 (fst x) = hdr h (fst x)" if "x \<in> set (v # W')" for x
      using that Cons bp by (intro keep) auto
    then have same: "linked h1 (W' @ [a])" "linked h1 (v # W' @ [a])"
      using v(2) l Cons linked_cong [of "W' @ [a]" h1 h] linked_cong [of "v # W' @ [a]" h1 h] by simp_all
    show ?thesis
    proof (cases "units_on bp n = fst v")
      case True
      then have "hdr h1 bp = \<lparr>h_ptr = fst (hd (W' @ [a])), h_size = n + snd v\<rparr>"
        using na v Cons n a by (simp add: h1_def Let_def)
      then show ?thesis using True Cons same(1) by (cases W') (simp_all add: join_up_def)
    next
      case False
      then have "hdr h1 bp = \<lparr>h_ptr = fst v, h_size = n\<rparr>"
        using na Cons n by (simp add: h1_def Let_def)
      then show ?thesis using False Cons same(2) by (simp add: join_up_def)
    qed
  qed
qed

lemma linked_freep [simp]: "linked (h\<lparr>freep := p\<rparr>) xs = linked h xs" by (rule linked_cong) simp

lemma linked_last: "fst x = fst y \<Longrightarrow> linked h (W @ [x]) = linked h (W @ [y])"
  by (induction h W rule: linked.induct) auto

lemma free_link_ring:
  assumes r: "ring h (a # W)" and d: "distinct (map fst (a # W))" and bp: "bp \<notin> fst ` set (a # W)"
    and n: "hsize h bp = n" and not_a: "W = [] \<Longrightarrow> units_on bp n \<noteq> fst a"
  shows "ring (free_link bp (fst a) h) (join a (join_up (bp, n) W))"
proof -
  define h1 where "h1 = (if units_on bp (hsize h bp) = nxt h (fst a)
     then let h = set_size bp (hsize h bp + hsize h (nxt h (fst a))) h in set_ptr bp (nxt h (nxt h (fst a))) h
     else set_ptr bp (nxt h (fst a)) h)"
  note up = free_link_up [OF r d bp n not_a, folded h1_def]
  obtain b' W' where j: "join_up (bp, n) W = b' # W'" "fst b' = bp" "set W' \<subseteq> set W" using join_up_Cons [of "(bp, n)" W] by auto
  have a: "fst a \<noteq> bp" "fst a \<notin> fst ` set W'" using bp d j(3) by auto
  have hb: "hdr h1 bp = \<lparr>h_ptr = fst (hd (W' @ [a])), h_size = snd b'\<rparr>" and lw: "linked h1 (W' @ [a])"
    using up(1) j by (cases W'; auto)+
  define h2 where "h2 = (if units_on (fst a) (hsize h1 (fst a)) = bp
     then let h = set_size (fst a) (hsize h1 (fst a) + hsize h1 bp) h1 in set_ptr (fst a) (nxt h bp) h
     else set_ptr (fst a) bp h1)"
  have fl: "free_link bp (fst a) h = h2\<lparr>freep := fst a\<rparr>" by (simp add: free_link_def h1_def h2_def Let_def)
  have keep: "hdr h2 x = hdr h1 x" if "x \<noteq> fst a" for x using that by (simp add: h2_def Let_def)
  have "hdr h2 (fst x) = hdr h1 (fst x)" if "x \<in> set W'" for x
    using that a(2) by (intro keep) (metis image_eqI)
  then have lw2: "linked h2 (W' @ [a])" using lw linked_cong [of "W' @ [a]" h2 h1] by simp
  show ?thesis
  proof (cases "stop a = bp")
    case True
    let ?a = "(fst a, snd a + snd b')"
    have "hdr h2 (fst a) = \<lparr>h_ptr = fst (hd (W' @ [a])), h_size = snd a + snd b'\<rparr>"
      using True up(2) hb a(1) by (simp add: h2_def Let_def)
    moreover have "linked h2 (W' @ [?a])" using lw2 linked_last [of a ?a] by simp
    ultimately have "ring h2 (?a # W')" by (cases W') (simp_all add: ring_def)
    then show ?thesis using True j by (simp add: fl join_def ring_def)
  next
    case False
    have "hdr h2 (fst a) = \<lparr>h_ptr = bp, h_size = snd a\<rparr>" using False up(2) by (simp add: h2_def)
    moreover have "hdr h2 bp = hdr h1 bp" using a(1) by (intro keep) simp
    ultimately have "linked h2 (a # b' # W' @ [a])" using lw2 hb j(2) by (cases W') simp_all
    then show ?thesis using False j by (simp add: fl join_def ring_def)
  qed
qed

lemma free_link_frame:
  "x \<noteq> bp \<Longrightarrow> x \<noteq> p \<Longrightarrow> hdr (free_link bp p h) x = hdr h x" "freep (free_link bp p h) = p"
  "base_addr (free_link bp p h) = base_addr h" "brk (free_link bp p h) = brk h"
  by (simp_all add: free_link_def Let_def) (simp_all add: set_ptr_def set_size_def)

text \<open>The joined blocks are in order and cover what was free and the new block.\<close>

lemma join_bytes:
  assumes "stop a = fst b" "stop b < 2 ^ 36"
  shows "unat (snd a + snd b) = unat (snd a) + unat (snd b)" "stop (fst a, snd a + snd b) = stop b"
    "span (fst a, snd a + snd b) = span a \<union> span b"
proof -
  have "16 * (unat (snd a) + unat (snd b)) < 2 ^ 36" using assms by (simp add: units_on_def)
  then show u: "unat (snd a + snd b) = unat (snd a) + unat (snd b)" by (intro unat_add_32) simp
  then show e: "stop (fst a, snd a + snd b) = stop b" using assms(1) by (simp add: units_on_def)
  have "fst a \<le> stop a" "fst b \<le> stop b" by (rule stop_ge)+
  then show "span (fst a, snd a + snd b) = span a \<union> span b" using e assms(1) by (auto simp: span_def)
qed

lemma join_up_ok:
  assumes "apart V" "V \<noteq> [] \<Longrightarrow> stop b \<le> fst (hd V)" "\<forall>x\<in>set (b # V). 0 < unat (snd x) \<and> lo \<le> fst x \<and> stop x \<le> hi" "hi < 2 ^ 36"
  obtains b' V' where "join_up b V = b' # V'" "apart (b' # V')" "fst b' = fst b" "snd b \<le> snd b'"
    "free_bytes (b' # V') = span b \<union> free_bytes V" "\<forall>x\<in>set (b' # V'). 0 < unat (snd x) \<and> lo \<le> fst x \<and> stop x \<le> hi"
proof (cases "V \<noteq> [] \<and> stop b = fst (hd V)")
  case True
  then obtain v V' where V: "V = v # V'" "stop b = fst v" by (cases V) auto
  have "stop v < 2 ^ 36" using assms(3,4) V by auto
  note j = join_bytes [OF V(2) this]
  show ?thesis
  proof (rule that)
    show "join_up b V = (fst b, snd b + snd v) # V'" using V by (simp add: join_up_def)
    show "apart ((fst b, snd b + snd v) # V')" using assms(1) j(2) V by (auto simp: apart_Cons)
    show "snd b \<le> snd (fst b, snd b + snd v)" using j(1) by (simp add: word_le_nat_alt)
    show "free_bytes ((fst b, snd b + snd v) # V') = span b \<union> free_bytes V" using j(3) V by auto
    show "\<forall>x\<in>set ((fst b, snd b + snd v) # V'). 0 < unat (snd x) \<and> lo \<le> fst x \<and> stop x \<le> hi"
      using assms(3) j V by auto
  qed simp
next
  case False
  then have j: "join_up b V = b # V" by (cases V) (auto simp: join_up_def)
  have "apart (b # V)" using assms(1,2) False by (cases "V = []") (auto simp: apart_Cons)
  then show ?thesis using that [of b V] j assms(3) by simp
qed

lemma join_ok:
  assumes "apart (U @ [a])" "apart (b # V)" "stop a \<le> fst b" "stop b < 2 ^ 36"
  obtains a' V' where "join a (b # V) = a' # V'" "apart (U @ a' # V')" "fst a' = fst a"
    "free_bytes (U @ a' # V') = free_bytes (U @ [a]) \<union> free_bytes (b # V)"
    "(stop a = fst b \<and> a' = (fst a, snd a + snd b) \<and> V' = V \<and> unat (snd a') = unat (snd a) + unat (snd b) \<and> stop a' = stop b) \<or>
     (a' = a \<and> V' = b # V)"
proof (cases "stop a = fst b")
  case True
  note j = join_bytes [OF True assms(4)]
  let ?a = "(fst a, snd a + snd b)"
  have "apart (U @ [?a])" using assms(1) by (induction U rule: apart.induct) auto
  moreover have "apart (?a # V)" using assms(2) j(2) by (auto simp: apart_Cons)
  ultimately have "apart (U @ ?a # V)" using apart_append by blast
  then show ?thesis using that [of ?a V] True j by (simp add: join_def) blast
next
  case False
  then have "apart (a # b # V)" using assms(2,3) by simp
  then have "apart (U @ a # b # V)" using assms(1) apart_append by blast
  then show ?thesis using that [of a "b # V"] False by (simp add: join_def Un_assoc)
qed

text \<open>
  The invariant of the allocator: the list starts with \<open>base\<close>, its other blocks are not empty and lie
  between \<open>lo\<close>, where the memory obtained from the kernel starts, and the end of the memory.
\<close>

definition heap_inv :: "nat \<Rightarrow> heap \<Rightarrow> block list \<Rightarrow> bool" where
  "heap_inv lo h fl \<longleftrightarrow> ring h fl \<and> apart fl \<and> hd fl = (base_addr h, 0) \<and>
     (\<forall>x\<in>set (tl fl). 0 < unat (snd x) \<and> lo \<le> fst x \<and> stop x \<le> brk h) \<and> freep h \<in> fst ` set fl \<and>
     0 < base_addr h \<and> base_addr h + 16 \<le> lo \<and> lo \<le> brk h \<and> brk h < 2 ^ 36"

lemma heap_invD:
  assumes "heap_inv lo h fl"
  shows "ring h fl" "apart fl" "fl = (base_addr h, 0) # tl fl" "freep h \<in> fst ` set fl"
    "x \<in> set (tl fl) \<Longrightarrow> 0 < unat (snd x) \<and> lo \<le> fst x \<and> stop x \<le> brk h"
    "0 < base_addr h" "base_addr h + 16 \<le> lo" "lo \<le> brk h" "brk h < 2 ^ 36"
proof -
  have "fl \<noteq> []" using assms by (auto simp: heap_inv_def ring_def)
  then show "fl = (base_addr h, 0) # tl fl" using assms by (cases fl) (auto simp: heap_inv_def)
qed (use assms in \<open>auto simp: heap_inv_def\<close>)

lemma heap_below:
  assumes inv: "heap_inv lo h fl" and "x \<in> set fl"
  shows "fst x < brk h" "stop x \<le> brk h" "0 < fst x"
proof -
  note i = heap_invD [OF inv]
  have "fst x < brk h \<and> stop x \<le> brk h \<and> 0 < fst x"
  proof (cases "x \<in> set (tl fl)")
    case True
    then have "0 < unat (snd x)" "lo \<le> fst x" "stop x \<le> brk h" using i(5) [of x] by simp_all
    then show ?thesis using i(6,7) by (simp add: units_on_def)
  next
    case False
    then have "x = hd fl" using assms(2) by (cases fl) auto
    then show ?thesis using inv by (simp add: heap_inv_def units_on_def)
  qed
  then show "fst x < brk h" "stop x \<le> brk h" "0 < fst x" by simp_all
qed

text \<open>Where a block that is not free belongs.\<close>

lemma free_slot:
  assumes inv: "heap_inv lo h fl" and b: "0 < unat n" "lo \<le> bp" "span (bp, n) \<inter> free_bytes fl = {}"
  obtains U a V where "fl = U @ a # V" "\<forall>x\<in>set (U @ [a]). fst x < bp" "\<forall>v\<in>set V. bp < fst v \<and> units_on bp n \<le> fst v"
    "stop a \<le> bp" "U \<noteq> [] \<and> a \<in> set (tl fl) \<or> U = [] \<and> a = (base_addr h, 0)" "set V \<subseteq> set (tl fl)"
proof -
  note i = heap_invD [OF inv]
  define P where "P = takeWhile (\<lambda>x. fst x < bp) fl"
  define V where "V = dropWhile (\<lambda>x. fst x < bp) fl"
  have base: "base_addr h < bp" using i(7) b(2) by simp
  then have P: "P = (base_addr h, 0) # takeWhile (\<lambda>x. fst x < bp) (tl fl)" "V = dropWhile (\<lambda>x. fst x < bp) (tl fl)"
    unfolding P_def V_def by (subst i(3), simp)+
  define U where "U = butlast P"
  define a where "a = last P"
  have Ua: "P = U @ [a]" using P by (simp add: U_def a_def)
  have fl: "fl = U @ a # V" using Ua takeWhile_dropWhile_id [of "\<lambda>x. fst x < bp" fl, folded P_def V_def] by simp
  have lo: "\<forall>x\<in>set (U @ [a]). fst x < bp" unfolding Ua [symmetric] P_def by (auto dest: set_takeWhileD)
  have V: "set V \<subseteq> set (tl fl)" unfolding P(2) using set_dropWhileD by fastforce
  have meet: False if "x \<in> set fl" "y \<in> span (bp, n)" "y \<in> span x" for x y
    using that b(3) by (auto simp: free_bytes_def)
  have hi: "bp < fst v \<and> units_on bp n \<le> fst v" if v: "v \<in> set V" for v
  proof -
    have pos: "0 < unat (snd v)" using i(5) [of v] V v by blast
    have vf: "v \<in> set fl" using fl v by simp
    have "bp \<le> fst v"
    proof (cases V)
      case (Cons w V')
      then have "bp \<le> fst w" using hd_dropWhile [of "\<lambda>x. fst x < bp" fl, folded V_def] by simp
      moreover have "apart (w # V')" using i(2) fl Cons apart_append [of "U @ [a]" w V'] by simp
      then have "v \<noteq> w \<Longrightarrow> stop w < fst v" using apart_after [of w V' v] v Cons by auto
      ultimately show ?thesis using stop_ge [of w] by (cases "v = w") auto
    qed (use v in simp)
    moreover have "\<not> fst v < units_on bp n" if "bp \<le> fst v"
      using meet [OF vf, of "fst v"] that pos by (auto simp: span_def units_on_def)
    moreover have "bp < units_on bp n" using b(1) by (simp add: units_on_def)
    ultimately show ?thesis by force
  qed
  have first: "U \<noteq> [] \<and> a \<in> set (tl fl) \<or> U = [] \<and> a = (base_addr h, 0)"
  proof (cases U)
    case Nil
    then show ?thesis using fl i(3) by simp
  next
    case (Cons u U')
    then show ?thesis using fl by simp
  qed
  have "stop a \<le> bp"
  proof (cases "U = []")
    case False
    have a: "a \<in> set fl" "fst a < bp" using fl lo by simp_all
    have "bp \<in> span (bp, n)" using b(1) by (simp add: span_def units_on_def)
    then have "bp \<notin> span a" using meet [OF a(1)] by blast
    then show ?thesis using a(2) by (simp add: span_def)
  next
    case True
    then show ?thesis using first base by (simp add: units_on_def)
  qed
  then show ?thesis using that [OF fl lo _ _ first V] hi by simp
qed

text \<open>What \<open>free\<close> does with a block outside the free list.\<close>

lemma u_free_ok:
  assumes inv: "heap_inv lo h fl"
    and b: "hsize h bp = n" "0 < unat n" "lo \<le> bp" "units_on bp n \<le> brk h" "span (bp, n) \<inter> free_bytes fl = {}"
  obtains h' fl' where "u_free (bp + 16) h = Some h'" "heap_inv lo h' fl'" "free_bytes fl' = free_bytes fl \<union> span (bp, n)"
    "brk h' = brk h" "base_addr h' = base_addr h" "\<forall>x. x \<noteq> bp \<longrightarrow> x \<notin> fst ` set fl \<longrightarrow> hdr h' x = hdr h x"
    "\<exists>x\<in>set (tl fl'). n \<le> snd x"
proof -
  note i = heap_invD [OF inv]
  obtain U a V where s: "fl = U @ a # V" "\<forall>x\<in>set (U @ [a]). fst x < bp" "\<forall>v\<in>set V. bp < fst v \<and> units_on bp n \<le> fst v"
    "stop a \<le> bp" "U \<noteq> [] \<and> a \<in> set (tl fl) \<or> U = [] \<and> a = (base_addr h, 0)" "set V \<subseteq> set (tl fl)"
    by (rule free_slot [OF inv b(2,3,5)])
  obtain y where y: "y \<in> set fl" "freep h = fst y" using i(4) by auto
  have find: "free_find h bp (freep h) = Some (fst a)"
    using free_find_slot [of h U a V bp y] i(1,2) s y by auto
  have ap: "apart (U @ [a])" "apart V" using i(2) s(1) apart_append [of U a V] by (simp_all add: apart_Cons)
  obtain b' V' where j: "join_up (bp, n) V = b' # V'" "apart (b' # V')" "fst b' = bp" "n \<le> snd b'"
    "free_bytes (b' # V') = span (bp, n) \<union> free_bytes V" "\<forall>x\<in>set (b' # V'). 0 < unat (snd x) \<and> lo \<le> fst x \<and> stop x \<le> brk h"
  proof (rule join_up_ok [OF ap(2), of "(bp, n)" lo "brk h"])
    show "\<forall>x\<in>set ((bp, n) # V). 0 < unat (snd x) \<and> lo \<le> fst x \<and> stop x \<le> brk h" using b i(5) s(6) by auto
    show "V \<noteq> [] \<Longrightarrow> stop (bp, n) \<le> fst (hd V)" using s(3) by simp
  qed (use i(9) in auto)
  have "stop b' \<le> brk h" using j(6) by simp
  then have sb: "stop b' < 2 ^ 36" using i(9) by linarith
  have ab: "stop a \<le> fst b'" using s(4) j(3) by simp
  obtain a' W where k: "join a (b' # V') = a' # W" "apart (U @ a' # W)" "fst a' = fst a"
    "free_bytes (U @ a' # W) = free_bytes (U @ [a]) \<union> free_bytes (b' # V')"
    "(stop a = fst b' \<and> a' = (fst a, snd a + snd b') \<and> W = V' \<and> unat (snd a') = unat (snd a) + unat (snd b') \<and> stop a' = stop b') \<or>
     (a' = a \<and> W = b' # V')"
    by (rule join_ok [OF ap(1) j(2) ab sb])
  have front: "fst (hd (U @ [a])) < bp" using s(2) by (cases U) auto
  have ju: "join_up (bp, n) (V @ U) = (b' # V') @ U"
    using j(1) front by (cases V; cases U) (auto simp: join_up_def units_on_def)
  have "ring h (a # V @ U)" using i(1) s(1) ring_rotate [of h U "a # V"] by simp
  moreover have "distinct (map fst (a # V @ U))" using apart_distinct [OF i(2)] s(1) by auto
  moreover have "bp \<notin> fst ` set (a # V @ U)" using s(2,3) by auto
  moreover have "V @ U = [] \<Longrightarrow> units_on bp n \<noteq> fst a" using front by (simp add: units_on_def)
  ultimately have "ring (free_link bp (fst a) h) (join a (join_up (bp, n) (V @ U)))"
    using b(1) by (intro free_link_ring) auto
  moreover have "join a ((b' # V') @ U) = (a' # W) @ U" using k(1) by (auto simp: join_def split: if_splits)
  ultimately have "ring (free_link bp (fst a) h) ((a' # W) @ U)" using ju by simp
  then have ring: "ring (free_link bp (fst a) h) (U @ a' # W)" by (rule ring_rotate)
  have "U = [] \<Longrightarrow> stop a \<noteq> bp" using s(5) b(3) i(7) by (auto simp: units_on_def)
  then have not_base: "U = [] \<Longrightarrow> a' = (base_addr h, 0) \<and> W = b' # V'" using k(5) s(5) j(3) by metis
  have tl: "\<forall>x\<in>set (tl (U @ a' # W)). 0 < unat (snd x) \<and> lo \<le> fst x \<and> stop x \<le> brk h"
  proof (cases U)
    case Nil
    then show ?thesis using not_base j(6) by simp
  next
    case (Cons u U')
    then have old: "\<forall>x\<in>set (U' @ a # V). 0 < unat (snd x) \<and> lo \<le> fst x \<and> stop x \<le> brk h" using i(5) s(1) by simp
    have "0 < unat (snd a') \<and> lo \<le> fst a' \<and> stop a' \<le> brk h" using k(5) old j(6) by auto
    moreover have "set W \<subseteq> set (b' # V')" using k(5) by auto
    ultimately show ?thesis using old j(6) Cons by auto
  qed
  have inv': "heap_inv lo (free_link bp (fst a) h) (U @ a' # W)"
    unfolding heap_inv_def free_link_frame(2,3,4)
  proof (intro conjI)
    show "hd (U @ a' # W) = (base_addr h, 0)" using not_base s(1) i(3) by (cases U) (auto simp: hd_append)
    show "fst a \<in> fst ` set (U @ a' # W)" using k(3) by (metis in_set_conv_decomp image_eqI)
  qed (use ring k(2) tl i(6-9) in simp_all)
  show ?thesis
  proof (rule that)
    show "u_free (bp + 16) h = Some (free_link bp (fst a) h)" using find by (simp add: u_free_def)
    show "free_bytes (U @ a' # W) = free_bytes fl \<union> span (bp, n)" using k(4) j(5) s(1) by auto
    show "\<forall>x. x \<noteq> bp \<longrightarrow> x \<notin> fst ` set fl \<longrightarrow> hdr (free_link bp (fst a) h) x = hdr h x"
      using s(1) by (auto intro: free_link_frame)
    show "\<exists>x\<in>set (tl (U @ a' # W)). n \<le> snd x"
    proof (cases "W = b' # V'")
      case True
      then have "b' \<in> set (tl (U @ a' # W))" by (cases U) auto
      then show ?thesis using j(4) by blast
    next
      case False
      then have "U \<noteq> []" "unat (snd a') = unat (snd a) + unat (snd b')" using k(5) not_base by metis+
      then have "U \<noteq> []" "n \<le> snd a'" using j(4) by (simp_all add: word_le_nat_alt)
      then have "a' \<in> set (tl (U @ a' # W))" by (cases U) auto
      then show ?thesis using \<open>n \<le> snd a'\<close> by blast
    qed
  qed (use inv' free_link_frame in simp_all)
qed

subsection \<open>Allocating\<close>

text \<open>A block \<open>y\<close> of the list behind its predecessor \<open>x\<close>.\<close>

lemma block_facts:
  assumes inv: "heap_inv lo h (U @ x # y # V)"
  shows "0 < unat (snd y)" "lo \<le> fst y" "stop y \<le> brk h" "fst x \<noteq> fst y"
    "z \<in> set (V @ U) \<Longrightarrow> fst z \<noteq> fst x" "z \<in> set (V @ U) \<Longrightarrow> fst z \<noteq> fst y"
    "hdr h (fst y) = \<lparr>h_ptr = fst (hd (V @ U @ [x])), h_size = snd y\<rparr>" "linked h ((V @ U) @ [x])"
    "hdr h (fst x) = \<lparr>h_ptr = fst y, h_size = snd x\<rparr>" "hd (U @ x # W) = (base_addr h, 0)"
    "span y \<inter> free_bytes (U @ x # V) = {}"
proof -
  note i = heap_invD [OF inv]
  have "y \<in> set (tl (U @ x # y # V))" by (cases U) simp_all
  then show "0 < unat (snd y)" "lo \<le> fst y" "stop y \<le> brk h" using i(5) [of y] by simp_all
  show "fst x \<noteq> fst y" using apart_distinct [OF i(2)] by auto
  have "fst x \<notin> fst ` set (V @ U)" "fst y \<notin> fst ` set (V @ U)" using apart_distinct [OF i(2)] by auto
  then show "z \<in> set (V @ U) \<Longrightarrow> fst z \<noteq> fst x" "z \<in> set (V @ U) \<Longrightarrow> fst z \<noteq> fst y" by (metis image_eqI)+
  have "ring h (x # y # V @ U)" using i(1) ring_rotate [of h U "x # y # V"] by simp
  then show "hdr h (fst y) = \<lparr>h_ptr = fst (hd (V @ U @ [x])), h_size = snd y\<rparr>" "linked h ((V @ U) @ [x])"
    "hdr h (fst x) = \<lparr>h_ptr = fst y, h_size = snd x\<rparr>"
    by (simp_all add: ring_def linked_Cons)
  have "hd (U @ x # y # V) = (base_addr h, 0)" using inv by (simp add: heap_inv_def)
  then show "hd (U @ x # W) = (base_addr h, 0)" by (cases U) simp_all
  show "span y \<inter> free_bytes (U @ x # V) = {}" using apart_disjoint [of "U @ [x]" y V] i(2) by simp
qed

text \<open>All of the block is needed.\<close>

lemma take_whole:
  assumes inv: "heap_inv lo h (U @ x # y # V)"
  defines "h' \<equiv> (set_ptr (fst x) (nxt h (fst y)) h)\<lparr>freep := fst x\<rparr>"
  shows "heap_inv lo h' (U @ x # V)" "hsize h' (fst y) = snd y" "brk h' = brk h" "base_addr h' = base_addr h"
    "z \<noteq> fst x \<Longrightarrow> hdr h' z = hdr h z" "free_bytes (U @ x # V) = free_bytes (U @ x # y # V) - span y"
proof -
  note i = heap_invD [OF inv] and b = block_facts [OF inv]
  have keep: "hdr h' z = hdr h z" if "z \<noteq> fst x" for z using that by (simp add: h'_def)
  then show "z \<noteq> fst x \<Longrightarrow> hdr h' z = hdr h z" .
  have "linked h' ((V @ U) @ [x])" using b(8) by (subst linked_snoc_cong [of _ h' h]) (use keep b(5) in auto)
  moreover have "hdr h' (fst x) = \<lparr>h_ptr = fst (hd (V @ U @ [x])), h_size = snd x\<rparr>" using b(7,9) by (simp add: h'_def)
  ultimately have "ring h' (x # V @ U)" by (simp add: ring_def linked_Cons [of _ x])
  then have ring: "ring h' (U @ x # V)" using ring_rotate [of h' "x # V" U] by simp
  show f: "brk h' = brk h" "base_addr h' = base_addr h" by (simp_all add: h'_def set_ptr_def)
  show "hsize h' (fst y) = snd y" using keep [of "fst y"] b(4,7) by simp
  show "free_bytes (U @ x # V) = free_bytes (U @ x # y # V) - span y" using b(11) by auto
  have ap: "apart (U @ x # V)" using apart_remove [of "U @ [x]" y V] i(2) by simp
  have "\<forall>z\<in>set (tl (U @ x # V)). 0 < unat (snd z) \<and> lo \<le> fst z \<and> stop z \<le> brk h"
    using i(5) by (cases U) simp_all
  moreover have "freep h' = fst x" by (simp add: h'_def)
  ultimately show "heap_inv lo h' (U @ x # V)" using ring ap b(10) i(6-9) by (simp add: heap_inv_def f)
qed

text \<open>The end of the block suffices.\<close>

lemma take_end:
  assumes inv: "heap_inv lo h (U @ x # y # V)" and n: "0 < unat nu" "nu < snd y"
  defines "m \<equiv> snd y - nu"
  defines "q \<equiv> units_on (fst y) m"
  defines "h' \<equiv> (set_size q nu (set_size (fst y) m h))\<lparr>freep := fst x\<rparr>"
  shows "heap_inv lo h' (U @ x # (fst y, m) # V)" "hsize h' q = nu" "brk h' = brk h" "base_addr h' = base_addr h"
    "z \<noteq> q \<Longrightarrow> z \<noteq> fst y \<Longrightarrow> hdr h' z = hdr h z" "span (q, nu) \<subseteq> span y" "lo \<le> q" "units_on q nu = stop y"
    "free_bytes (U @ x # (fst y, m) # V) = free_bytes (U @ x # y # V) - span (q, nu)"
proof -
  note i = heap_invD [OF inv] and b = block_facts [OF inv]
  have m: "unat m = unat (snd y) - unat nu" "unat nu < unat (snd y)"
    unfolding m_def using n(2) unat_sub [of nu "snd y"] by (simp_all add: word_less_nat_alt word_le_nat_alt)
  then have q: "fst y < q" "q < stop y" using n(1) by (simp_all add: q_def units_on_def)
  show qe: "units_on q nu = stop y" using m by (simp add: q_def units_on_def)
  have sp: "span y = span (fst y, m) \<union> span (q, nu)" "span (fst y, m) \<inter> span (q, nu) = {}"
    using q qe by (auto simp: span_def q_def)
  show "span (q, nu) \<subseteq> span y" using sp(1) by blast
  show "lo \<le> q" using q b(2) by simp
  have qn: "fst z \<noteq> q" if "z \<in> set (U @ x # V)" for z
    using apart_order(1,2) [of "U @ [x]" y V z] i(2) that q stop_ge [of z] by force
  have keep: "hdr h' z = hdr h z" if "z \<noteq> q" "z \<noteq> fst y" for z using that by (simp add: h'_def)
  then show "z \<noteq> q \<Longrightarrow> z \<noteq> fst y \<Longrightarrow> hdr h' z = hdr h z" .
  have "hdr h' (fst z) = hdr h (fst z)" if "z \<in> set (V @ U)" for z
    using that b(6) [of z] qn [of z] by (intro keep) auto
  then have "linked h' ((V @ U) @ [x])" using b(8) linked_snoc_cong [of "V @ U" h' h x] by simp
  moreover have "hdr h' (fst x) = hdr h (fst x)" using keep [of "fst x"] qn [of x] b(4) by simp
  moreover have "hdr h' (fst y) = \<lparr>h_ptr = fst (hd (V @ U @ [x])), h_size = m\<rparr>" using b(7) q(1) by (simp add: h'_def)
  ultimately have "ring h' (x # (fst y, m) # V @ U)" using b(9)
    by (simp add: ring_def linked_Cons [of _ x] linked_Cons [of _ "(fst y, m)"])
  then have ring: "ring h' (U @ x # (fst y, m) # V)" using ring_rotate [of h' "x # (fst y, m) # V" U] by simp
  show f: "brk h' = brk h" "base_addr h' = base_addr h" by (simp_all add: h'_def set_size_def)
  show "hsize h' q = nu" by (simp add: h'_def)
  show "free_bytes (U @ x # (fst y, m) # V) = free_bytes (U @ x # y # V) - span (q, nu)" using b(11) sp by auto
  have ap: "apart (U @ x # (fst y, m) # V)"
    using apart_shrink [of "U @ [x]" "fst y" "snd y" V m] i(2) m by simp
  have "0 < unat m \<and> lo \<le> fst y \<and> units_on (fst y) m \<le> brk h" using m b(2,3) q by (simp add: q_def)
  then have "\<forall>z\<in>set (tl (U @ x # (fst y, m) # V)). 0 < unat (snd z) \<and> lo \<le> fst z \<and> stop z \<le> brk h"
    using i(5) by (cases U) simp_all
  moreover have "freep h' = fst x" by (simp add: h'_def)
  ultimately show "heap_inv lo h' (U @ x # (fst y, m) # V)" using ring ap b(10) i(6-9) by (simp add: heap_inv_def f)
qed

text \<open>The result of an allocation: a block of \<open>nu\<close> units taken out of the bytes \<open>F\<close>.\<close>

definition allocated :: "nat \<Rightarrow> heap \<Rightarrow> uint32 \<Rightarrow> nat set \<Rightarrow> nat \<Rightarrow> heap \<Rightarrow> bool" where
  "allocated lo h nu F q h' \<longleftrightarrow> (\<exists>fl'. heap_inv lo h' fl' \<and> free_bytes fl' = F - span (q, nu)) \<and> span (q, nu) \<subseteq> F \<and>
     hsize h' q = nu \<and> lo \<le> q \<and> units_on q nu \<le> brk h' \<and> base_addr h' = base_addr h \<and>
     (\<forall>z. z \<notin> F \<longrightarrow> z \<noteq> base_addr h \<longrightarrow> hdr h' z = hdr h z)"

lemma address_free: "heap_inv lo h fl \<Longrightarrow> b \<in> set fl \<Longrightarrow> fst b = base_addr h \<or> fst b \<in> free_bytes fl"
proof -
  assume inv: "heap_inv lo h fl" and b: "b \<in> set fl"
  note i = heap_invD [OF inv]
  show ?thesis
  proof (cases "b \<in> set (tl fl)")
    case True
    then have "fst b \<in> span b" using i(5) [of b] by (simp add: span_def units_on_def)
    then show ?thesis using b by (auto simp: free_bytes_def)
  next
    case False
    then have "b = hd fl" using b by (cases fl) auto
    then show ?thesis using inv by (simp add: heap_inv_def)
  qed
qed

lemma malloc_take_ok:
  assumes inv: "heap_inv lo h (U @ x # y # V)" and n: "0 < unat nu" "nu \<le> snd y"
  obtains q h' where "malloc_take nu (fst x) (fst y) h = (q + 16, h')" "allocated lo h nu (free_bytes (U @ x # y # V)) q h'"
    "brk h' = brk h"
proof (cases "snd y = nu")
  case True
  note t = take_whole [OF inv] and b = block_facts [OF inv]
  have sy: "span (fst y, nu) = span y" using True by (simp add: span_def)
  have fr: "z \<notin> free_bytes (U @ x # y # V) \<Longrightarrow> z \<noteq> base_addr h \<Longrightarrow> z \<noteq> fst x" for z
    using address_free [OF inv, of x] by auto
  show ?thesis
  proof (rule that)
    show "malloc_take nu (fst x) (fst y) h = (fst y + 16, (set_ptr (fst x) (nxt h (fst y)) h)\<lparr>freep := fst x\<rparr>)"
      using True b(7) by (simp add: malloc_take_def)
    show "allocated lo h nu (free_bytes (U @ x # y # V)) (fst y) ((set_ptr (fst x) (nxt h (fst y)) h)\<lparr>freep := fst x\<rparr>)"
      unfolding allocated_def sy using t(1,2,3,4,6) b(2,3) True fr t(5)
      by (intro conjI exI [of _ "U @ x # V"]) auto
  qed (use t(3) in simp)
next
  case False
  then have lt: "nu < snd y" using n(2) by simp
  note t = take_end [OF inv n(1) lt] and b = block_facts [OF inv]
  let ?q = "units_on (fst y) (snd y - nu)"
  have "?q \<in> span (?q, nu)" using n(1) by (simp add: span_def units_on_def)
  then have fr: "z \<notin> free_bytes (U @ x # y # V) \<Longrightarrow> z \<noteq> base_addr h \<Longrightarrow> z \<noteq> ?q \<and> z \<noteq> fst y" for z
    using address_free [OF inv, of y] t(6) by auto
  show ?thesis
  proof (rule that)
    show "malloc_take nu (fst x) (fst y) h = (?q + 16, (set_size ?q nu (set_size (fst y) (snd y - nu) h))\<lparr>freep := fst x\<rparr>)"
      using False b(7) by (simp add: malloc_take_def Let_def)
    show "allocated lo h nu (free_bytes (U @ x # y # V)) ?q
        ((set_size ?q nu (set_size (fst y) (snd y - nu) h))\<lparr>freep := fst x\<rparr>)"
      unfolding allocated_def using t b(3) fr by (intro conjI exI [of _ "U @ x # (fst y, snd y - nu) # V"]) auto
  qed (use t(3) in simp)
qed

text \<open>The requests the kernel grants keep the memory of the process below 64 gigabytes.\<close>

definition bounded_grants :: "(nat \<Rightarrow> int \<Rightarrow> bool) \<Rightarrow> bool" where
  "bounded_grants grant \<longleftrightarrow> (\<forall>b n. grant b n \<longrightarrow> int b + n < 2 ^ 36)"

definition core_units :: "uint32 \<Rightarrow> uint32" where "core_units nu = (if nu < 4096 then 4096 else nu)"

lemma sbrk_request:
  assumes "16 * unat nu < 2 ^ 31"
  shows "sint (ucast ((ucast (core_units nu) :: uint64) * 16) :: uint32) = int (16 * unat (core_units nu))"
proof -
  have c: "16 * unat (core_units nu) < 2 ^ 31" using assms by (simp add: core_units_def)
  have "unat ((ucast (core_units nu) :: uint64) * 16) = 16 * unat (core_units nu)"
    using c by (simp add: unat_word_ariths unsigned_ucast_eq take_bit_nat_eq_self)
  then have u: "unat (ucast ((ucast (core_units nu) :: uint64) * 16) :: uint32) = 16 * unat (core_units nu)"
    using c by (simp add: unsigned_ucast_eq take_bit_nat_eq_self)
  have "w = word_of_int (int (unat w))" for w :: uint32 by simp
  then have "(ucast ((ucast (core_units nu) :: uint64) * 16) :: uint32) = word_of_int (int (16 * unat (core_units nu)))"
    using u by metis
  then have "sint (ucast ((ucast (core_units nu) :: uint64) * 16) :: uint32) = sint (word_of_int (int (16 * unat (core_units nu))) :: uint32)"
    by (simp only:)
  also have "\<dots> = int (16 * unat (core_units nu))"
  proof -
    have "N < 2 ^ 31 \<Longrightarrow> - (2 ^ 31) \<le> int N \<and> int N < 2 ^ 31" for N by simp
    then show ?thesis using c sint_word_of_int_32 by blast
  qed
  finally show ?thesis .
qed

lemma morecore_ok:
  assumes inv: "heap_inv lo h fl" and g: "bounded_grants grant" and n: "0 < unat nu" "16 * unat nu < 2 ^ 31"
  shows "morecore grant nu h = Some (0, h) \<or>
    (\<exists>h' fl'. morecore grant nu h = Some (freep h', h') \<and> heap_inv lo h' fl' \<and> freep h' \<noteq> 0 \<and>
      free_bytes fl' = free_bytes fl \<union> {brk h..<brk h'} \<and> brk h \<le> brk h' \<and> base_addr h' = base_addr h \<and>
      (\<exists>x\<in>set (tl fl'). nu \<le> snd x) \<and>
      (\<forall>z. z \<notin> free_bytes fl' \<longrightarrow> z \<noteq> base_addr h \<longrightarrow> hdr h' z = hdr h z))"
proof (cases "grant (brk h) (int (16 * unat (core_units nu)))")
  case False
  then show ?thesis using sbrk_request [OF n(2)] by (simp add: morecore_def u_sbrk_def core_units_def [symmetric] Let_def)
next
  case True
  note i = heap_invD [OF inv]
  let ?c = "core_units nu" and ?b = "brk h"
  define h0 where "h0 = set_size ?b ?c (h\<lparr>brk := units_on ?b ?c\<rparr>)"
  have "int ?b + int (16 * unat ?c) < 2 ^ 36" using g True unfolding bounded_grants_def by blast
  moreover have "int a + int b < 2 ^ 36 \<Longrightarrow> a + b < 2 ^ 36" for a b by simp
  ultimately have top: "units_on ?b ?c < 2 ^ 36" unfolding units_on_def by blast
  have c: "0 < unat ?c" "nu \<le> ?c" using n(1) by (auto simp: core_units_def word_le_nat_alt word_less_nat_alt)
  have keep: "hdr h0 z = hdr h z" if "z \<noteq> ?b" for z using that by (simp add: h0_def)
  have f0: "brk h0 = units_on ?b ?c" "base_addr h0 = base_addr h" "freep h0 = freep h" "hsize h0 ?b = ?c"
    by (simp_all add: h0_def) (simp_all add: set_size_def)
  have "linked h0 (fl @ [hd fl])"
  proof (subst linked_snoc_cong)
    show "hdr h0 (fst z) = hdr h (fst z)" if "z \<in> set fl" for z using heap_below [OF inv that] by (intro keep) simp
    show "linked h (fl @ [hd fl])" using i(1) by (simp add: ring_def)
  qed
  then have "ring h0 fl" using i(1) by (simp add: ring_def)
  moreover have "?b \<le> units_on ?b ?c" by (simp add: units_on_def)
  ultimately have inv0: "heap_inv lo h0 fl" using inv top by (fastforce simp: heap_inv_def f0)
  have dis: "span (?b, ?c) \<inter> free_bytes fl = {}" using heap_below [OF inv] by (fastforce simp: free_bytes_def span_def)
  have ub: "units_on ?b ?c \<le> brk h0" by (simp add: f0)
  obtain h' fl' where u: "u_free (?b + 16) h0 = Some h'" "heap_inv lo h' fl'" "free_bytes fl' = free_bytes fl \<union> span (?b, ?c)"
    "brk h' = brk h0" "base_addr h' = base_addr h0" "\<forall>x. x \<noteq> ?b \<longrightarrow> x \<notin> fst ` set fl \<longrightarrow> hdr h' x = hdr h0 x"
    "\<exists>x\<in>set (tl fl'). ?c \<le> snd x"
    by (rule u_free_ok [OF inv0 f0(4) c(1) i(8) ub dis])
  have sp: "span (?b, ?c) = {?b..<brk h'}" by (simp add: span_def u(4) f0)
  have "u_sbrk grant (int N) h = (Some ?b, h\<lparr>brk := ?b + N\<rparr>)" if "grant ?b (int N)" for N
    using that by (simp add: u_sbrk_def nat_int_add)
  from this [OF True] have "u_sbrk grant (int (16 * unat ?c)) h = (Some ?b, h\<lparr>brk := units_on ?b ?c\<rparr>)"
    unfolding units_on_def .
  then have m: "morecore grant nu h = Some (freep h', h')"
    unfolding morecore_def core_units_def [symmetric] Let_def sbrk_request [OF n(2)] using u(1) by (simp add: h0_def)
  have fr: "hdr h' z = hdr h z" if z: "z \<notin> free_bytes fl'" "z \<noteq> base_addr h" for z
  proof -
    have "?b \<in> span (?b, ?c)" using c(1) by (simp add: span_def units_on_def)
    then have zb: "z \<noteq> ?b" using z(1) u(3) by auto
    moreover have "z \<notin> fst ` set fl" using address_free [OF inv] z u(3) by auto
    ultimately show ?thesis using u(6) keep by simp
  qed
  have "0 < freep h'" using heap_invD(4) [OF u(2)] heap_below(3) [OF u(2)] by auto
  then show ?thesis
    using m u(2,3,5,7) sp f0 c(2) fr u(4) by (intro disjI2 exI [of _ h'] exI [of _ fl']) (auto simp: units_on_def intro: order_trans)
qed

end
