(* ===== verification/Uheap.thy ===== *)
theory Uheap
  imports Umalloc
begin

section \<open>Allocating and freeing in any order\<close>

text \<open>
  The search of \<open>malloc\<close> around the list, and the runs of a program that allocates, frees and writes to its
  blocks: its blocks never overlap, no byte is lost, and every call returns.
\<close>

subsection \<open>The search for a block\<close>

abbreviation ask_more :: "(nat \<Rightarrow> int \<Rightarrow> bool) \<Rightarrow> uint32 \<Rightarrow> heap \<Rightarrow> (nat \<times> heap) option" where
  "ask_more grant nu h \<equiv> Option.bind (morecore grant nu h) (\<lambda>(p, h).
     if p = 0 then Some (0, h) else malloc_loop grant nu p (nxt h p) h)"

definition rotation :: "'a list \<Rightarrow> 'a list \<Rightarrow> bool" where
  "rotation xs ys \<longleftrightarrow> (\<exists>A B. xs = A @ B \<and> ys = B @ A)"

lemma rotation_step: "rotation xs (r # Q) \<Longrightarrow> rotation xs (Q @ [r])"
proof -
  assume "rotation xs (r # Q)"
  then obtain A B where AB: "xs = A @ B" "r # Q = B @ A" by (auto simp: rotation_def)
  show ?thesis
  proof (cases B)
    case Nil
    then show ?thesis using AB by (auto simp: rotation_def intro: exI [of _ "[r]"])
  next
    case (Cons b B')
    then show ?thesis using AB unfolding rotation_def by (intro exI [of _ "A @ [r]"] exI [of _ B']) simp
  qed
qed

lemma rotation_ring: "ring h fl \<Longrightarrow> rotation fl L \<Longrightarrow> ring h L"
  using ring_rotate by (auto simp: rotation_def)

lemma rotation_distinct: "distinct (map f fl) \<Longrightarrow> rotation fl L \<Longrightarrow> distinct (map f L)"
  by (clarsimp simp: rotation_def Int_commute)

lemma rotation_set: "rotation fl L \<Longrightarrow> set L = set fl"
  by (auto simp: rotation_def)

lemma big_block:
  assumes inv: "heap_inv lo h fl" and nu: "0 < unat nu" "nu \<le> snd r" and r: "rotation fl (r # Q)"
  obtains U V where "fl = U @ last (r # Q) # r # V"
proof -
  obtain A B where AB: "fl = A @ B" "r # Q = B @ A" using r by (auto simp: rotation_def)
  have "r \<noteq> hd fl" using inv nu by (auto simp: heap_inv_def word_le_nat_alt)
  then obtain B' where B: "B = r # B'" using AB by (cases B) auto
  then have "A \<noteq> []" using AB \<open>r \<noteq> hd fl\<close> by auto
  then have "A = butlast A @ [last (r # Q)]" using AB(2) by (metis append_butlast_last_id last_appendR)
  then show ?thesis using that [of "butlast A" B'] AB B by (metis append_Cons append_Nil append_assoc)
qed

text \<open>
  The search stands at \<open>r\<close>; \<open>r # R\<close> are the blocks still to be looked at, the last of them \<open>freep\<close>, and \<open>S\<close>
  those it has passed.
\<close>

lemma malloc_scan:
  assumes inv: "heap_inv lo h fl" and nu: "0 < unat nu"
  shows "rotation fl (r # R @ S) \<Longrightarrow> fst (last (r # R)) = freep h \<Longrightarrow>
    (\<exists>U x y V. fl = U @ x # y # V \<and> nu \<le> snd y \<and>
       malloc_loop grant nu (fst (last (r # R @ S))) (fst r) h = Some (malloc_take nu (fst x) (fst y) h)) \<or>
    (\<forall>y\<in>set (r # R). \<not> nu \<le> snd y) \<and> malloc_loop grant nu (fst (last (r # R @ S))) (fst r) h = ask_more grant nu h"
proof (induction R arbitrary: r S)
  case Nil
  have hr: "hsize h (fst r) = snd r"
    using ring_hdr [OF rotation_ring [OF heap_invD(1) [OF inv] Nil.prems(1), simplified]] by simp
  show ?case
  proof (cases "nu \<le> snd r")
    case True
    then obtain U V where "fl = U @ last (r # [] @ S) # r # V" using big_block [OF inv nu _ Nil.prems(1)] by blast
    moreover have "malloc_loop grant nu (fst (last (r # [] @ S))) (fst r) h
        = Some (malloc_take nu (fst (last (r # [] @ S))) (fst r) h)"
      using True hr by (subst malloc_loop.simps) simp
    ultimately show ?thesis using True by blast
  next
    case False
    then show ?thesis using hr Nil.prems(2) by (subst malloc_loop.simps) simp
  qed
next
  case (Cons r2 R)
  have ring: "ring h (r # r2 # R @ S)" using rotation_ring [OF heap_invD(1) [OF inv] Cons.prems(1)] by simp
  then have hr: "hdr h (fst r) = \<lparr>h_ptr = fst r2, h_size = snd r\<rparr>" using ring_hdr [OF ring] by simp
  show ?case
  proof (cases "nu \<le> snd r")
    case True
    then obtain U V where "fl = U @ last (r # (r2 # R) @ S) # r # V" using big_block [OF inv nu _ Cons.prems(1)] by blast
    moreover have "malloc_loop grant nu (fst (last (r # (r2 # R) @ S))) (fst r) h
        = Some (malloc_take nu (fst (last (r # (r2 # R) @ S))) (fst r) h)"
      using True hr by (subst malloc_loop.simps) simp
    ultimately show ?thesis using True by blast
  next
    case False
    have "distinct (map fst (r # r2 # R @ S))"
      using rotation_distinct [OF apart_distinct [OF heap_invD(2) [OF inv]] Cons.prems(1)] by simp
    then have "fst r \<noteq> freep h" using Cons.prems(2) by (cases R rule: rev_cases) auto
    then have step: "malloc_loop grant nu (fst (last (r # (r2 # R) @ S))) (fst r) h = malloc_loop grant nu (fst r) (fst r2) h"
      using hr False by (subst malloc_loop.simps) simp
    have "rotation fl (r2 # R @ S @ [r])" using rotation_step [of fl r "r2 # R @ S"] Cons.prems(1) by simp
    then show ?thesis using Cons.IH [of r2 "S @ [r]"] Cons.prems(2) False step by simp
  qed
qed

text \<open>From \<open>freep\<close> on, the search looks at every block.\<close>

lemma malloc_search:
  assumes inv: "heap_inv lo h fl" and nu: "0 < unat nu"
  shows "(\<exists>U x y V. fl = U @ x # y # V \<and> nu \<le> snd y \<and>
       malloc_loop grant nu (freep h) (nxt h (freep h)) h = Some (malloc_take nu (fst x) (fst y) h)) \<or>
    (\<forall>y\<in>set fl. \<not> nu \<le> snd y) \<and> malloc_loop grant nu (freep h) (nxt h (freep h)) h = ask_more grant nu h"
proof -
  obtain f where f: "f \<in> set fl" "fst f = freep h" using heap_invD(4) [OF inv] by auto
  obtain A B where AB: "fl = A @ f # B" using f(1) by (meson split_list)
  obtain r R where L: "B @ A @ [f] = r # R" by (cases "B @ A @ [f]") auto
  have rot: "rotation fl (r # R @ [])"
    unfolding rotation_def using AB L by (intro exI [of _ "A @ [f]"] exI [of _ B]) simp
  have last: "last (r # R) = f" unfolding L [symmetric] by simp
  have "ring h (f # B @ A)" using heap_invD(1) [OF inv] AB ring_rotate [of h A "f # B"] by simp
  then have "nxt h (freep h) = fst (hd (B @ A @ [f]))" using ring_hdr [of h f "B @ A"] f(2) by simp
  then have "nxt h (freep h) = fst r" using L by simp
  moreover have "set fl = set (r # R)" using rotation_set [OF rot] by simp
  ultimately show ?thesis using malloc_scan [OF inv nu rot, of grant] last f(2) unfolding append_Nil2 by simp
qed

lemma malloc_found:
  assumes inv: "heap_inv lo h fl" and nu: "0 < unat nu" and big: "y \<in> set fl" "nu \<le> snd y"
  obtains q h' where "malloc_loop grant nu (freep h) (nxt h (freep h)) h = Some (q + 16, h')"
    "allocated lo h nu (free_bytes fl) q h'" "brk h' = brk h"
proof -
  obtain U x z V where s: "fl = U @ x # z # V" "nu \<le> snd z"
    "malloc_loop grant nu (freep h) (nxt h (freep h)) h = Some (malloc_take nu (fst x) (fst z) h)"
    using malloc_search [OF inv nu, of grant] big by blast
  show ?thesis using malloc_take_ok [OF inv [unfolded s(1)] nu s(2)] s that by metis
qed

lemma malloc_loop_ok:
  assumes inv: "heap_inv lo h fl" and g: "bounded_grants grant" and nu: "0 < unat nu" "16 * unat nu < 2 ^ 31"
  shows "malloc_loop grant nu (freep h) (nxt h (freep h)) h = Some (0, h) \<or>
    (\<exists>q h'. malloc_loop grant nu (freep h) (nxt h (freep h)) h = Some (q + 16, h') \<and>
       allocated lo h nu (free_bytes fl \<union> {brk h..<brk h'}) q h' \<and> brk h \<le> brk h')"
proof (cases "\<exists>y\<in>set fl. nu \<le> snd y")
  case True
  then obtain q h' where "malloc_loop grant nu (freep h) (nxt h (freep h)) h = Some (q + 16, h')"
    "allocated lo h nu (free_bytes fl) q h'" "brk h' = brk h"
    using malloc_found [OF inv nu(1)] by metis
  then show ?thesis by auto
next
  case False
  then have ask: "malloc_loop grant nu (freep h) (nxt h (freep h)) h = ask_more grant nu h"
    using malloc_search [OF inv nu(1), of grant] by auto
  consider "morecore grant nu h = Some (0, h)"
    | h1 fl1 where "morecore grant nu h = Some (freep h1, h1)" "heap_inv lo h1 fl1" "freep h1 \<noteq> 0"
      "free_bytes fl1 = free_bytes fl \<union> {brk h..<brk h1}" "brk h \<le> brk h1" "base_addr h1 = base_addr h"
      "\<exists>x\<in>set (tl fl1). nu \<le> snd x" "\<forall>z. z \<notin> free_bytes fl1 \<longrightarrow> z \<noteq> base_addr h \<longrightarrow> hdr h1 z = hdr h z"
    using morecore_ok [OF inv g nu] by blast
  then show ?thesis
  proof cases
    case 1
    then show ?thesis using ask by simp
  next
    case (2 h1 fl1)
    obtain x where x: "x \<in> set fl1" "nu \<le> snd x" using 2(7) by (cases fl1) auto
    obtain q h' where m: "malloc_loop grant nu (freep h1) (nxt h1 (freep h1)) h1 = Some (q + 16, h')"
      "allocated lo h1 nu (free_bytes fl1) q h'" "brk h' = brk h1"
      using malloc_found [OF 2(2) nu(1) x] by metis
    have "ask_more grant nu h = Some (q + 16, h')" using 2(1,3) m(1) by simp
    moreover have "allocated lo h nu (free_bytes fl \<union> {brk h..<brk h'}) q h'"
      using m(2) 2(4,6,8) m(3) by (simp add: allocated_def)
    ultimately show ?thesis using ask 2(5) m(3) by auto
  qed
qed

subsection \<open>Before the first allocation\<close>

text \<open>The allocator in use, or not yet set up.\<close>

definition heap_ok :: "nat \<Rightarrow> heap \<Rightarrow> block list \<Rightarrow> bool" where
  "heap_ok lo h fl \<longleftrightarrow> heap_inv lo h fl \<or>
     freep h = 0 \<and> fl = [(base_addr h, 0)] \<and> 0 < base_addr h \<and> base_addr h + 16 \<le> lo \<and> lo \<le> brk h \<and> brk h < 2 ^ 36"

lemma malloc_init_ok:
  assumes "heap_ok lo h fl"
  shows "heap_inv lo (malloc_init h) fl" "brk (malloc_init h) = brk h" "base_addr (malloc_init h) = base_addr h"
    "z \<noteq> base_addr h \<Longrightarrow> hdr (malloc_init h) z = hdr h z"
proof -
  have "freep h \<noteq> 0" if "heap_inv lo h fl" using heap_invD(4) [OF that] heap_below(3) [OF that] by auto
  then show "heap_inv lo (malloc_init h) fl"
    using assms by (auto simp: heap_ok_def malloc_init_def)
      (auto simp: heap_inv_def ring_def set_size_def set_ptr_def units_on_def)
  show "brk (malloc_init h) = brk h" "base_addr (malloc_init h) = base_addr h"
    by (simp_all add: malloc_init_def set_size_def set_ptr_def)
  show "z \<noteq> base_addr h \<Longrightarrow> hdr (malloc_init h) z = hdr h z" by (simp add: malloc_init_def)
qed

lemma unat_malloc_units: "unat nb < 2 ^ 30 \<Longrightarrow> unat (malloc_units nb) = (unat nb + 15) div 16 + 1"
proof -
  assume nb: "unat nb < 2 ^ 30"
  have u: "unat (ucast nb :: uint64) = unat nb" using nb by (simp add: unsigned_ucast_eq take_bit_nat_eq_self)
  have "(ucast nb :: uint64) + 16 - 1 = 15 + ucast nb" by simp
  moreover have "unat (15 + (ucast nb :: uint64)) = unat nb + 15" using nb u by (simp add: unat_add_64)
  ultimately have "unat (((ucast nb :: uint64) + 16 - 1) div 16) = (unat nb + 15) div 16" by (simp add: unat_div_distrib)
  moreover have "(unat nb + 15) div 16 < 2 ^ 27" using nb by simp
  ultimately have "unat (((ucast nb :: uint64) + 16 - 1) div 16 + 1) = (unat nb + 15) div 16 + 1" by (simp add: unat_add_64)
  then show ?thesis using \<open>(unat nb + 15) div 16 < 2 ^ 27\<close>
    by (simp add: malloc_units_def unsigned_ucast_eq take_bit_nat_eq_self)
qed

lemma u_malloc_ok:
  assumes ok: "heap_ok lo h fl" and g: "bounded_grants grant" and nb: "unat nb < 2 ^ 30"
  obtains h' where "u_malloc grant nb h = Some (0, h')" "heap_inv lo h' fl" "brk h' = brk h" "base_addr h' = base_addr h"
      "\<forall>z. z \<noteq> base_addr h \<longrightarrow> hdr h' z = hdr h z"
  | q h' where "u_malloc grant nb h = Some (q + 16, h')"
      "allocated lo h (malloc_units nb) (free_bytes fl \<union> {brk h..<brk h'}) q h'" "brk h \<le> brk h'"
proof -
  let ?n = "malloc_units nb" and ?h = "malloc_init h"
  note i = malloc_init_ok [OF ok]
  have n: "0 < unat ?n" "16 * unat ?n < 2 ^ 31" using unat_malloc_units [OF nb] nb by simp_all
  have m: "u_malloc grant nb h = malloc_loop grant ?n (freep ?h) (nxt ?h (freep ?h)) ?h"
    by (simp add: u_malloc_def Let_def)
  from malloc_loop_ok [OF i(1) g n] show ?thesis
  proof (elim disjE exE conjE)
    assume "malloc_loop grant ?n (freep ?h) (nxt ?h (freep ?h)) ?h = Some (0, ?h)"
    then show ?thesis using m i that(1) [of ?h] by simp
  next
    fix q h' assume "malloc_loop grant ?n (freep ?h) (nxt ?h (freep ?h)) ?h = Some (q + 16, h')"
      and a: "allocated lo ?h ?n (free_bytes fl \<union> {brk ?h..<brk h'}) q h'" "brk ?h \<le> brk h'"
    moreover have "allocated lo h ?n (free_bytes fl \<union> {brk h..<brk h'}) q h'"
      using a(1) i(2-4) by (simp add: allocated_def)
    ultimately show ?thesis using m i(2) that(2) [of q h'] by simp
  qed
qed

subsection \<open>Runs of a program\<close>

text \<open>
  A program that uses the allocator: it allocates, gives back blocks it holds, and writes what it likes
  into them, which may change whatever of the headers lies inside the block behind its own header.
\<close>

definition payload :: "block \<Rightarrow> nat set" where "payload b = {fst b + 16..<stop b}"

inductive heap_run :: "(nat \<Rightarrow> int \<Rightarrow> bool) \<Rightarrow> nat \<Rightarrow> heap \<Rightarrow> block set \<Rightarrow> bool" for grant lo where
  start: "freep h = 0 \<Longrightarrow> 0 < base_addr h \<Longrightarrow> base_addr h + 16 \<le> lo \<Longrightarrow> brk h = lo \<Longrightarrow> lo < 2 ^ 36 \<Longrightarrow> heap_run grant lo h {}"
| alloc: "heap_run grant lo h L \<Longrightarrow> unat nb < 2 ^ 30 \<Longrightarrow> u_malloc grant nb h = Some (p, h') \<Longrightarrow>
    heap_run grant lo h' (if p = 0 then L else insert (p - 16, malloc_units nb) L)"
| release: "heap_run grant lo h L \<Longrightarrow> b \<in> L \<Longrightarrow> u_free (fst b + 16) h = Some h' \<Longrightarrow> heap_run grant lo h' (L - {b})"
| store: "heap_run grant lo h L \<Longrightarrow> b \<in> L \<Longrightarrow> (\<And>z. {z..<z + 16} \<inter> payload b = {} \<Longrightarrow> H z = hdr h z) \<Longrightarrow>
    heap_run grant lo (h\<lparr>hdr := H\<rparr>) L"

definition run_inv :: "nat \<Rightarrow> heap \<Rightarrow> block set \<Rightarrow> block list \<Rightarrow> bool" where
  "run_inv lo h L fl \<longleftrightarrow> heap_ok lo h fl \<and> (L \<noteq> {} \<longrightarrow> heap_inv lo h fl) \<and>
     (\<forall>b\<in>L. 0 < unat (snd b) \<and> hsize h (fst b) = snd b \<and> span b \<inter> free_bytes fl = {}) \<and>
     (\<forall>b\<in>L. \<forall>c\<in>L. b \<noteq> c \<longrightarrow> span b \<inter> span c = {}) \<and> free_bytes fl \<union> \<Union> (span ` L) = {lo..<brk h}"

lemma run_invD:
  assumes "run_inv lo h L fl"
  shows "heap_ok lo h fl" "b \<in> L \<Longrightarrow> heap_inv lo h fl" "b \<in> L \<Longrightarrow> 0 < unat (snd b)" "b \<in> L \<Longrightarrow> hsize h (fst b) = snd b"
    "b \<in> L \<Longrightarrow> span b \<inter> free_bytes fl = {}" "b \<in> L \<Longrightarrow> c \<in> L \<Longrightarrow> b \<noteq> c \<Longrightarrow> span b \<inter> span c = {}"
    "free_bytes fl \<union> \<Union> (span ` L) = {lo..<brk h}"
  using assms unfolding run_inv_def by blast+

lemma run_inv_block:
  assumes "run_inv lo h L fl" "b \<in> L"
  shows "fst b \<in> span b" "{fst b..<fst b + 16} \<subseteq> span b" "span b \<subseteq> {lo..<brk h}" "lo \<le> fst b" "stop b \<le> brk h"
    "fst b \<noteq> base_addr h" "base_addr h + 16 \<le> lo"
proof -
  have pos: "0 < unat (snd b)" using run_invD(3) [OF assms] .
  then show s: "fst b \<in> span b" "{fst b..<fst b + 16} \<subseteq> span b" by (auto simp: span_def units_on_def)
  show sub: "span b \<subseteq> {lo..<brk h}" using run_invD(7) [OF assms(1)] assms(2) by blast
  then show lo: "lo \<le> fst b" using s by auto
  have "stop b - 1 \<in> span b" using pos by (simp add: span_def units_on_def)
  then have "stop b - 1 < brk h" using sub by auto
  then show "stop b \<le> brk h" by simp
  show base: "base_addr h + 16 \<le> lo" using heap_invD(7) [OF run_invD(2) [OF assms]] .
  show "fst b \<noteq> base_addr h" using lo base by simp
qed

lemma run_inv_alloc:
  assumes run: "run_inv lo h L fl" and a: "allocated lo h n (free_bytes fl \<union> {brk h..<brk h'}) q h'"
    and le: "brk h \<le> brk h'" and n: "0 < unat n" and lo: "lo \<le> brk h"
  shows "\<exists>fl'. run_inv lo h' (insert (q, n) L) fl'"
proof -
  let ?F = "free_bytes fl \<union> {brk h..<brk h'}"
  obtain fl' where fl': "heap_inv lo h' fl'" "free_bytes fl' = ?F - span (q, n)" and sub: "span (q, n) \<subseteq> ?F"
    and hq: "hsize h' q = n" and fr: "\<forall>z. z \<notin> ?F \<longrightarrow> z \<noteq> base_addr h \<longrightarrow> hdr h' z = hdr h z"
    using a by (auto simp: allocated_def)
  have out: "span b \<inter> ?F = {}" if b: "b \<in> L" for b
    using run_invD(5) [OF run b] run_inv_block(3) [OF run b] by auto
  have same: "hsize h' (fst b) = snd b" if b: "b \<in> L" for b
  proof -
    have "fst b \<notin> ?F" using out [OF b] run_inv_block(1) [OF run b] by blast
    then show ?thesis using fr run_inv_block(6) [OF run b] run_invD(4) [OF run b] by simp
  qed
  have "free_bytes fl' \<union> \<Union> (span ` insert (q, n) L) = ?F \<union> \<Union> (span ` L)" using fl'(2) sub by auto
  also have "\<dots> = {lo..<brk h} \<union> {brk h..<brk h'}" using run_invD(7) [OF run] by auto
  also have "\<dots> = {lo..<brk h'}" using le lo by auto
  finally have all: "free_bytes fl' \<union> \<Union> (span ` insert (q, n) L) = {lo..<brk h'}" .
  have "run_inv lo h' (insert (q, n) L) fl'"
    unfolding run_inv_def
  proof (intro conjI ballI impI)
    show "span b \<inter> free_bytes fl' = {}" if "b \<in> insert (q, n) L" for b using that out [of b] fl'(2) by auto
    show "span b \<inter> span c = {}" if "b \<in> insert (q, n) L" "c \<in> insert (q, n) L" "b \<noteq> c" for b c
      using that out [of b] out [of c] sub run_invD(6) [OF run, of b c] by auto
  qed (use fl' same hq n run_invD(3) [OF run] all in \<open>auto simp: heap_ok_def\<close>)
  then show ?thesis ..
qed

lemma run_inv_release:
  assumes run: "run_inv lo h L fl" and b: "b \<in> L"
  obtains h' fl' where "u_free (fst b + 16) h = Some h'" "run_inv lo h' (L - {b}) fl'"
proof -
  have eta: "(fst b, snd b) = b" by simp
  obtain h' fl' where u: "u_free (fst b + 16) h = Some h'" "heap_inv lo h' fl'" "free_bytes fl' = free_bytes fl \<union> span b"
    "brk h' = brk h" "\<forall>x. x \<noteq> fst b \<longrightarrow> x \<notin> fst ` set fl \<longrightarrow> hdr h' x = hdr h x"
    using u_free_ok [OF run_invD(2) [OF run b] run_invD(4) [OF run b] run_invD(3) [OF run b] run_inv_block(4,5) [OF run b],
        unfolded eta, OF run_invD(5) [OF run b]] by metis
  have same: "hsize h' (fst c) = snd c" if c: "c \<in> L" "c \<noteq> b" for c
  proof -
    have "fst c \<noteq> fst b"
      using run_invD(6) [OF run c(1) b c(2)] run_inv_block(1) [OF run c(1)] run_inv_block(1) [OF run b] by auto
    moreover have "fst c \<notin> fst ` set fl"
    proof
      assume "fst c \<in> fst ` set fl"
      then obtain x where "x \<in> set fl" "fst x = fst c" by auto
      then show False
        using address_free [OF run_invD(2) [OF run b], of x] run_invD(5) [OF run c(1)] run_inv_block(1,6) [OF run c(1)] by auto
    qed
    ultimately show ?thesis using u(5) run_invD(4) [OF run c(1)] by simp
  qed
  have "run_inv lo h' (L - {b}) fl'"
    unfolding run_inv_def
  proof (intro conjI ballI impI)
    show "free_bytes fl' \<union> \<Union> (span ` (L - {b})) = {lo..<brk h'}" using run_invD(7) [OF run] u(3,4) b by auto
    show "span c \<inter> free_bytes fl' = {}" if "c \<in> L - {b}" for c
      using that run_invD(5) [OF run, of c] run_invD(6) [OF run, of c b] b u(3) by auto
  qed (use u same run_invD(3,6) [OF run] in \<open>auto simp: heap_ok_def\<close>)
  then show ?thesis using u(1) that by blast
qed

lemma run_inv_store:
  assumes run: "run_inv lo h L fl" and b: "b \<in> L" and H: "\<And>z. {z..<z + 16} \<inter> payload b = {} \<Longrightarrow> H z = hdr h z"
  shows "run_inv lo (h\<lparr>hdr := H\<rparr>) L fl"
proof -
  note inv = run_invD(2) [OF run b]
  have p: "payload b \<subseteq> span b" by (auto simp: payload_def span_def)
  have keep: "H (fst x) = hdr h (fst x)" if x: "x \<in> set fl" for x
  proof (rule H, cases "x \<in> set (tl fl)")
    case True
    then have "{fst x..<fst x + 16} \<subseteq> span x" using heap_invD(5) [OF inv, of x] by (auto simp: span_def units_on_def)
    then show "{fst x..<fst x + 16} \<inter> payload b = {}" using p run_invD(5) [OF run b] x by (auto simp: free_bytes_def)
  next
    case False
    then have "fst x = base_addr h" using x inv by (cases fl) (auto simp: heap_inv_def)
    then show "{fst x..<fst x + 16} \<inter> payload b = {}" using run_inv_block(4,7) [OF run b] by (auto simp: payload_def)
  qed
  have own: "H (fst c) = hdr h (fst c)" if c: "c \<in> L" for c
  proof (rule H, cases "c = b")
    case False
    then show "{fst c..<fst c + 16} \<inter> payload b = {}" using p run_inv_block(2) [OF run c] run_invD(6) [OF run c b] by auto
  qed (auto simp: payload_def)
  have "linked (h\<lparr>hdr := H\<rparr>) (fl @ [hd fl])"
    using linked_snoc_cong [of fl "h\<lparr>hdr := H\<rparr>" h "hd fl"] keep heap_invD(1) [OF inv] by (simp add: ring_def)
  then have inv': "heap_inv lo (h\<lparr>hdr := H\<rparr>) fl" using inv by (simp add: heap_inv_def ring_def)
  show ?thesis using run inv' own by (auto simp: run_inv_def heap_ok_def)
qed

lemma heap_run_inv:
  assumes "heap_run grant lo h L" "bounded_grants grant"
  shows "\<exists>fl. run_inv lo h L fl"
  using assms(1)
proof (induction rule: heap_run.induct)
  case (start h)
  then have "run_inv lo h {} [(base_addr h, 0)]" by (simp add: run_inv_def heap_ok_def span_def units_on_def)
  then show ?case ..
next
  case (alloc h L nb p h')
  then obtain fl where run: "run_inv lo h L fl" by blast
  show ?case
  proof (rule u_malloc_ok [OF run_invD(1) [OF run] assms(2) alloc.hyps(2)])
    fix h1 assume m: "u_malloc grant nb h = Some (0, h1)" "heap_inv lo h1 fl" "brk h1 = brk h"
      "\<forall>z. z \<noteq> base_addr h \<longrightarrow> hdr h1 z = hdr h z"
    have "hsize h1 (fst b) = snd b" if "b \<in> L" for b
      using m(4) run_invD(4) [OF run that] run_inv_block(6) [OF run that] by simp
    then have "run_inv lo h1 L fl" using run m(2,3) by (auto simp: run_inv_def heap_ok_def)
    then show ?case using m(1) alloc.hyps(3) by auto
  next
    fix q h1 assume m: "u_malloc grant nb h = Some (q + 16, h1)"
      "allocated lo h (malloc_units nb) (free_bytes fl \<union> {brk h..<brk h1}) q h1" "brk h \<le> brk h1"
    have "lo \<le> brk h" using run_invD(1) [OF run] heap_invD(8) by (auto simp: heap_ok_def)
    then show ?case
      using run_inv_alloc [OF run m(2,3)] unat_malloc_units [OF alloc.hyps(2)] m(1) alloc.hyps(3) by auto
  qed
next
  case (release h L b h')
  then obtain fl where run: "run_inv lo h L fl" by blast
  show ?case using run_inv_release [OF run release.hyps(2)] release.hyps(3) by (metis option.inject)
next
  case (store h L b H)
  then show ?case using run_inv_store by blast
qed

text \<open>
  C35. The user-level allocator is correct on every run of a program that allocates blocks, frees blocks it
  holds and writes into them: the blocks it holds lie in the memory obtained from the kernel and never
  overlap; they and the free blocks together are exactly that memory, so no byte is lost; every \<open>malloc\<close> of
  less than a gigabyte returns, with 0 or with a block of the requested size apart from all the others;
  and every \<open>free\<close> of a block the program holds returns.
\<close>

theorem umalloc_runs:
  assumes "heap_run grant lo h L" "bounded_grants grant"
  shows "(\<forall>b\<in>L. hsize h (fst b) = snd b \<and> lo \<le> fst b \<and> stop b \<le> brk h) \<and>
    (\<forall>b\<in>L. \<forall>c\<in>L. b \<noteq> c \<longrightarrow> span b \<inter> span c = {}) \<and>
    (\<exists>fl. heap_ok lo h fl \<and> free_bytes fl \<inter> \<Union> (span ` L) = {} \<and> free_bytes fl \<union> \<Union> (span ` L) = {lo..<brk h}) \<and>
    (\<forall>nb. unat nb < 2 ^ 30 \<longrightarrow> (\<exists>p h'. u_malloc grant nb h = Some (p, h') \<and>
       (p = 0 \<or> lo + 16 \<le> p \<and> p + unat nb \<le> brk h' \<and> {p - 16..<p + unat nb} \<inter> \<Union> (span ` L) = {}))) \<and>
    (\<forall>b\<in>L. \<exists>h'. u_free (fst b + 16) h = Some h')"
proof -
  obtain fl where run: "run_inv lo h L fl" using heap_run_inv [OF assms] by blast
  have malloc: "\<exists>p h'. u_malloc grant nb h = Some (p, h') \<and>
      (p = 0 \<or> lo + 16 \<le> p \<and> p + unat nb \<le> brk h' \<and> {p - 16..<p + unat nb} \<inter> \<Union> (span ` L) = {})"
    if nb: "unat nb < 2 ^ 30" for nb
  proof (rule u_malloc_ok [OF run_invD(1) [OF run] assms(2) nb])
    fix q h' assume m: "u_malloc grant nb h = Some (q + 16, h')"
      "allocated lo h (malloc_units nb) (free_bytes fl \<union> {brk h..<brk h'}) q h'"
    have u: "q + 16 + unat nb \<le> units_on q (malloc_units nb)" by (simp add: units_on_def unat_malloc_units [OF nb])
    then have "{q..<q + 16 + unat nb} \<subseteq> span (q, malloc_units nb)" by (auto simp: span_def)
    then have "{q..<q + 16 + unat nb} \<subseteq> free_bytes fl \<union> {brk h..<brk h'}" using m(2) unfolding allocated_def by blast
    moreover have "span b \<inter> (free_bytes fl \<union> {brk h..<brk h'}) = {}" if "b \<in> L" for b
      using run_invD(5) [OF run that] run_inv_block(3) [OF run that] by auto
    ultimately have "{q..<q + 16 + unat nb} \<inter> \<Union> (span ` L) = {}" by blast
    then show ?thesis using m u by (auto simp: allocated_def)
  qed blast
  have dis: "free_bytes fl \<inter> \<Union> (span ` L) = {}" using run_invD(5) [OF run] by blast
  show ?thesis
  proof (intro conjI ballI allI impI exI [of _ fl])
    show "\<exists>h'. u_free (fst b + 16) h = Some h'" if "b \<in> L" for b using run_inv_release [OF run that] by blast
  qed (use run_inv_block(4,5) [OF run] run_invD(1,4,6,7) [OF run] malloc dis in simp_all)
qed

definition sample_heap :: heap where
  "sample_heap = \<lparr>hdr = (\<lambda>_. \<lparr>h_ptr = 0, h_size = 0\<rparr>), freep = 0, base_addr = 0x2000, brk = 0x4000\<rparr>"

theorem umalloc_runs_witness:
  "heap_run (\<lambda>b n. int b + n < 0x8000000) 0x4000 sample_heap {} \<and> bounded_grants (\<lambda>b n. int b + n < 0x8000000) \<and>
   (\<exists>p h'. u_malloc (\<lambda>b n. int b + n < 0x8000000) 100 sample_heap = Some (p, h') \<and> (p = 0 \<or> 0x4010 \<le> p \<and> p + 100 \<le> brk h'))"
proof -
  have run: "heap_run (\<lambda>b n. int b + n < 0x8000000) 0x4000 sample_heap {}"
    by (rule heap_run.start) (simp_all add: sample_heap_def)
  have g: "bounded_grants (\<lambda>b n. int b + n < 0x8000000)" by (simp add: bounded_grants_def)
  have "unat (100 :: uint32) = 100" by simp
  then have "\<exists>p h'. u_malloc (\<lambda>b n. int b + n < 0x8000000) 100 sample_heap = Some (p, h') \<and>
      (p = 0 \<or> 0x4000 + 16 \<le> p \<and> p + 100 \<le> brk h' \<and> {p - 16..<p + 100} \<inter> \<Union> (span ` {}) = {})"
    using umalloc_runs [OF run g, THEN conjunct2, THEN conjunct2, THEN conjunct2, THEN conjunct1, rule_format, of 100] by simp
  then show ?thesis using run g by auto
qed

end
