(* ===== verification/Lifecycle.thy ===== *)
theory Lifecycle
  imports Proclife Pipes
begin

section \<open>A parent waits and its child exits\<close>

text \<open>
  The two sides of the meeting of a parent in \<open>kwait\<close> and a child in \<open>kexit\<close>: a parent none of whose
  children has exited goes to sleep, and a child that exits leaves a zombie behind and wakes it.
\<close>

lemma kwait_scan_no_zombie:
  "ready s \<Longrightarrow> (\<And>i. i \<in> set pps \<Longrightarrow> p_parent (procs s i) = Some p \<Longrightarrow> p_state (procs s i) \<noteq> ZOMBIE \<and> free_lock (L_proc i) s) \<Longrightarrow>
   kwait_scan pps havekids p addr s = Ok (None, havekids \<or> (\<exists>i\<in>set pps. p_parent (procs s i) = Some p)) s"
proof (induction pps arbitrary: havekids)
  case (Cons i pps)
  then show ?case by (auto simp: lock_simps)
qed simp

text \<open>
  C37. A process that waits while none of its children has exited: if it has no children, or has been
  killed, \<open>kwait\<close> returns -1 and leaves the state as it was; otherwise the process sleeps on its own
  channel, with \<open>wait_lock\<close> and all process locks but its own free, and no other process is changed.
\<close>

theorem kwait_blocks:
  assumes run: "running p s" "noff s = 0"
    and alive: "\<forall>i < NPROC. p_parent (procs s i) = Some p \<longrightarrow> p_state (procs s i) \<noteq> ZOMBIE"
  shows "if (\<exists>i < NPROC. p_parent (procs s i) = Some p) \<and> p_killed (procs s p) = 0
    then \<exists>t. kwait addr s = Switch t \<and>
      procs t = (procs s)(p := (procs s p)\<lparr>p_chan := Some (Ch_proc p), p_state := SLEEPING\<rparr>) \<and>
      lk_free L_wait (spin t) \<and> (\<forall>i. i \<noteq> p \<longrightarrow> lk_free (L_proc i) (spin t)) \<and> holding (L_proc p) t \<and> noff t = 1
    else kwait addr s = Ok (- 1) s"
proof -
  note r = runningD [OF run(1)]
  let ?s = "s\<lparr>regs := acq_regs (cur s) (regs s), cpus := acq_cpus (cur s) (regs s) (cpus s),
     spin := acq_spin L_wait (cur s) (regs s) (spin s)\<rparr>"
  have w: "kwait addr s = kwait_round p addr ?s" using r by (simp add: kwait_def myproc_eq lock_simps)
  have sc: "kwait_scan [0..<NPROC] False p addr ?s = Ok (None, \<exists>i < NPROC. p_parent (procs s i) = Some p) ?s"
    using kwait_scan_no_zombie [of ?s "[0..<NPROC]" p False addr] alive r by (auto simp: Bex_def)
  have k: "killed p ?s = Ok (p_killed (procs s p)) ?s" using r killed_eq [of ?s p] by simp
  have rel: "release L_wait ?s = Ok () s" using r by (simp add: lock_simps)
  show ?thesis
  proof (cases "(\<exists>i < NPROC. p_parent (procs s i) = Some p) \<and> p_killed (procs s p) = 0")
    case True
    have n1: "noff ?s = 1" using run(2) by (simp add: mycpu_me acq_cpus_def)
    have "sleep (Some (Ch_proc p)) L_wait ?s =
        Switch (?s\<lparr>spin := rel_spin L_wait (acq_spin (L_proc p) (cur ?s) (regs ?s) (spin ?s)),
          procs := (procs ?s)(p := (procs ?s p)\<lparr>p_chan := Some (Ch_proc p), p_state := SLEEPING\<rparr>)\<rparr>)"
      using r n1 by (intro sleep_eq) simp_all
    then have "kwait addr s = Switch (?s\<lparr>spin := rel_spin L_wait (acq_spin (L_proc p) (cur ?s) (regs ?s) (spin ?s)),
          procs := (procs ?s)(p := (procs ?s p)\<lparr>p_chan := Some (Ch_proc p), p_state := SLEEPING\<rparr>)\<rparr>)"
      using w sc k True by (simp add: kwait_round_def)
    then show ?thesis using True r n1 by (auto simp: holding_iff mycpu_me)
  next
    case False
    then have "kwait addr s = Ok (- 1) s" using w sc k rel by (auto simp: kwait_round_def)
    then show ?thesis using False by simp
  qed
qed

text \<open>
  C36. A process that exits becomes a zombie with its exit status and gives up the processor holding only
  its own lock; its children belong to \<open>init\<close>; its parent, if it sleeps in \<open>kwait\<close>, is runnable; and a
  process that was not asleep keeps its state.
\<close>

theorem kexit_wakes_parent:
  assumes run: "running p s" "noff s = 0" "p < NPROC" and parent: "p_parent (procs s p) = Some q" "q \<noteq> p" "q < NPROC"
    and init: "initproc s = Some i" "i \<noteq> p"
  shows "\<exists>t. kexit_zombie p status s = Switch t \<and> p_state (procs t p) = ZOMBIE \<and> p_xstate (procs t p) = status \<and>
    p_parent (procs t p) = Some q \<and> p_pid (procs t p) = p_pid (procs s p) \<and>
    (\<forall>j < NPROC. p_parent (procs t j) = (if p_parent (procs s j) = Some p then Some i else p_parent (procs s j))) \<and>
    (p_state (procs s q) = SLEEPING \<and> p_chan (procs s q) = Some (Ch_proc q) \<longrightarrow> p_state (procs t q) = RUNNABLE) \<and>
    (\<forall>j. j \<noteq> p \<and> p_state (procs s j) \<noteq> SLEEPING \<longrightarrow> p_state (procs t j) = p_state (procs s j)) \<and>
    lk_free L_wait (spin t) \<and> (\<forall>j. j \<noteq> p \<longrightarrow> lk_free (L_proc j) (spin t)) \<and> holding (L_proc p) t \<and> noff t = 1"
proof -
  note r = runningD [OF run(1)]
  define s1 where "s1 = s\<lparr>regs := acq_regs (cur s) (regs s), cpus := acq_cpus (cur s) (regs s) (cpus s),
     spin := acq_spin L_wait (cur s) (regs s) (spin s)\<rparr>"
  have acq: "acquire L_wait s = Ok () s1" using r(3) by (simp add: lock_simps s1_def)
  have n1: "noff s1 = 1" using run(2) by (simp add: s1_def mycpu_me acq_cpus_def)
  have f: "ready s1" "curproc s1 = Some p" "proc_locks_free (Some p) (spin s1)" "initproc s1 = Some i" "procs s1 = procs s"
    "noff s1 = 1" "lk_held L_wait (cur s1) (regs s1) (spin s1)" "free_lock (L_proc j) s1" for j
    using r(1,2,3,5) init(1) n1 by (simp_all add: s1_def)
  define P where "P = (if \<exists>j < NPROC. p_parent (procs s j) = Some p
     then wake (Some (Ch_proc i)) (Some p) (adopt (Some i) p NPROC (procs s)) else adopt (Some i) p NPROC (procs s))"
  define Q where "Q = wake (Some (Ch_proc q)) (Some p) P"
  have rp: "reparent p s1 = Ok () (s1\<lparr>procs := P\<rparr>)"
    using reparent_eq [of s1 p] f(1-5) by (simp add: P_def cong: if_cong)
  have wk: "wakeup (Some (Ch_proc q)) (s1\<lparr>procs := P\<rparr>) = Ok () (s1\<lparr>procs := Q\<rparr>)"
    using wakeup_eq [of "s1\<lparr>procs := P\<rparr>" "Some (Ch_proc q)"] f(1-3) by (simp add: Q_def)
  have pp: "p_parent (P p) = Some q" using parent by (simp add: P_def wake_def adopt_def)
  define t where "t = s1\<lparr>procs := Q(p := (Q p)\<lparr>p_xstate := status, p_state := ZOMBIE\<rparr>),
     spin := rel_spin L_wait (acq_spin (L_proc p) (cur s1) (regs s1) (spin s1))\<rparr>"
  have "kexit_zombie p status s = andthen (sched t) (\<lambda>_ s. Panic ''zombie exit'')"
    using f(1,7,8) rp pp wk by (simp add: kexit_zombie_def acq lock_simps t_def)
  moreover have "sched t = Switch t" by (rule sched_eq [of t p]) (use f in \<open>simp_all add: t_def mycpu_me\<close>)
  ultimately have k: "kexit_zombie p status s = Switch t" by simp
  have Pj: "p_parent (P j) = (if j < NPROC \<and> p_parent (procs s j) = Some p then Some i else p_parent (procs s j))"
    "p_pid (P j) = p_pid (procs s j)" "p_chan (P j) = p_chan (procs s j)"
    "p_state (procs s j) \<noteq> SLEEPING \<Longrightarrow> p_state (P j) = p_state (procs s j)"
    "p_state (procs s j) = SLEEPING \<Longrightarrow> p_state (P j) \<in> {SLEEPING, RUNNABLE}" for j
    by (auto simp: P_def wake_def adopt_def)
  have Qj: "p_parent (Q j) = p_parent (P j)" "p_pid (Q j) = p_pid (P j)"
    "p_state (P j) \<noteq> SLEEPING \<Longrightarrow> p_state (Q j) = p_state (P j)" for j
    by (auto simp: Q_def wake_def)
  have wq: "p_state (Q q) = RUNNABLE" if "p_state (procs s q) = SLEEPING" "p_chan (procs s q) = Some (Ch_proc q)"
    using Pj(3,5) [of q] that parent by (auto simp: Q_def wake_def)
  have "lk_free L_wait (spin t)" "j \<noteq> p \<Longrightarrow> lk_free (L_proc j) (spin t)" "holding (L_proc p) t" "noff t = 1" for j
    using f(6,8) by (simp_all add: t_def holding_iff mycpu_me)
  then show ?thesis
    using k Pj Qj wq parent run(3) by (intro exI [of _ t]) (simp add: t_def)
qed

text \<open>Process 0 is the child, process 1 its parent, which is also \<open>init\<close> and waits.\<close>

definition sample_family :: "unit file_state_scheme" where
  "sample_family = (sample_files ())\<lparr>initproc := Some 1, procs := (procs (sample_files ()))
     (0 := (procs (sample_files ()) 0)\<lparr>p_parent := Some 1\<rparr>,
      1 := (procs (sample_files ()) 0)\<lparr>p_parent := None, p_state := SLEEPING, p_chan := Some (Ch_proc 1)\<rparr>)\<rparr>"

lemmas sample_defs = sample_files_def sample_cons_def sample_boot_def sample_sleeping_def sample_user_def
  sample_procs_def sample_phys_def

lemma sample_files_procs:
  "noff (sample_files z) = 0"
  "p_parent (procs (sample_files z) i) = (if i = 1 then Some 0 else None)" "p_state (procs (sample_files z) i) \<noteq> SLEEPING"
  "p_state (procs (sample_files z) i) \<noteq> ZOMBIE"
  by (simp_all add: sample_defs blank_proc_def mycpu_def cpuid_def)

lemma sample_family_facts:
  "running 0 sample_family" "noff sample_family = 0" "initproc sample_family = Some 1"
  "p_parent (procs sample_family 0) = Some 1" "p_state (procs sample_family 1) = SLEEPING"
  "p_chan (procs sample_family 1) = Some (Ch_proc 1)"
proof -
  have "quiet (procs sample_family)" by (auto simp: quiet_def sample_family_def sample_files_procs)
  then show "running 0 sample_family" using sample_files_facts(1) [of "()"] by (simp add: running_def sample_family_def)
qed (use sample_files_procs(1) [of "()"] in \<open>simp_all add: sample_family_def mycpu_me\<close>)

theorem kexit_wakes_parent_witness:
  "\<exists>t. kexit_zombie 0 7 sample_family = Switch t \<and> p_state (procs t 0) = ZOMBIE \<and> p_xstate (procs t 0) = 7 \<and>
     p_state (procs t 1) = RUNNABLE"
  using kexit_wakes_parent [OF sample_family_facts(1,2), of 1 1 7] sample_family_facts by (auto simp: NPROC_def)

theorem kwait_blocks_witness:
  "\<exists>t. kwait 0 (sample_files ()) = Switch t \<and> p_state (procs t 0) = SLEEPING"
proof -
  have "\<exists>i < NPROC. p_parent (procs (sample_files ()) i) = Some 0"
    by (rule exI [of _ 1]) (simp add: sample_files_procs NPROC_def)
  then show ?thesis
    using kwait_blocks [OF sample_files_facts(1) [of "()"] sample_files_procs(1), of 0] sample_files_facts(2) [of "()"]
    by (auto simp: sample_files_procs)
qed

end
