(* ===== verification/Usertools.thy ===== *)
theory Usertools
  imports Ulib Exec File
begin

section \<open>The small user programs (cat, wc, echo, kill, ln, mkdir, rm, ls, init, and the generator of grind)\<close>

text \<open>
  A user program is the tree of the system calls it makes: each call is followed by a program for every
  result, which is the value returned and the bytes the kernel stored in the buffer of the caller.  A loop
  that the program may repeat without bound takes the number of rounds it is followed for; \<open>UCut\<close> is the
  program where that number is used up.  The strings of \<open>argv\<close> are the byte lists up to their NUL.

  The properties run these trees against a simple file system, whose files are read in pieces of any
  length, as \<open>read\<close> allows: \<open>cat\<close> concatenates its files and \<open>wc\<close> counts their lines, words and bytes
  however the pieces are cut, and \<open>init\<close> never exits as long as \<open>fork\<close> and \<open>wait\<close> succeed.
\<close>

datatype ucall =
    U_read int nat
  | U_write int "byte list"
  | U_open "byte list" int
  | U_close int
  | U_fstat int
  | U_kill int
  | U_link "byte list" "byte list"
  | U_mkdir "byte list"
  | U_unlink "byte list"
  | U_mknod "byte list" nat nat
  | U_dup int
  | U_fork
  | U_exec "byte list" "byte list list"
  | U_wait

datatype uprog = UExit int | UCall ucall "int \<Rightarrow> byte list \<Rightarrow> uprog" | UCut

abbreviation str :: "string \<Rightarrow> byte list" where
  "str \<equiv> map of_char"

text \<open>The \<open>putc\<close> of the library writes one byte per call and ignores the result.\<close>

definition u_putc :: "int \<Rightarrow> byte \<Rightarrow> uprog \<Rightarrow> uprog" where
  "u_putc fd c k = UCall (U_write fd [c]) (\<lambda>_ _. k)"

definition u_fprintf :: "int \<Rightarrow> string \<Rightarrow> varg list \<Rightarrow> uprog \<Rightarrow> uprog" where
  "u_fprintf fd fmt ap k = foldr (u_putc fd) (u_vprintf fmt ap) k"

subsection \<open>cat\<close>

primrec cat :: "nat \<Rightarrow> int \<Rightarrow> uprog \<Rightarrow> uprog" where
  "cat 0 fd k = UCut"
| "cat (Suc f) fd k =
     UCall (U_read fd 512) (\<lambda>n buf.
     if n > 0 then
       UCall (U_write 1 (take (nat n) buf)) (\<lambda>m _.
       if m \<noteq> n then u_fprintf 2 (''cat: write error'' @ [CHR 0x0A]) [] (UExit 1) else cat f fd k)
     else if n < 0 then u_fprintf 2 (''cat: read error'' @ [CHR 0x0A]) [] (UExit 1)
     else k)"

primrec cat_files :: "nat \<Rightarrow> byte list list \<Rightarrow> uprog" where
  "cat_files f [] = UExit 0"
| "cat_files f (a # as) =
     UCall (U_open a (omode_bits O_RDONLY)) (\<lambda>fd _.
     if fd < 0 then u_fprintf 2 (''cat: cannot open %s'' @ [CHR 0x0A]) [ArgStr (Some a)] (UExit 1)
     else cat f fd (UCall (U_close fd) (\<lambda>_ _. cat_files f as)))"

definition cat_main :: "nat \<Rightarrow> byte list list \<Rightarrow> uprog" where
  "cat_main f argv = (if length argv \<le> 1 then cat f 0 (UExit 0) else cat_files f (tl argv))"

subsection \<open>wc\<close>

text \<open>The counters \<open>l\<close>, \<open>w\<close> and \<open>c\<close> are 32-bit integers, and \<open>inword\<close> is a flag.\<close>

record wc_state =
  wc_l :: uint32
  wc_w :: uint32
  wc_c :: uint32
  wc_inword :: bool

definition wc_char :: "byte \<Rightarrow> wc_state \<Rightarrow> wc_state" where
  "wc_char b s =
     (let s = s\<lparr>wc_c := wc_c s + 1\<rparr>;
          s = (if b = 10 then s\<lparr>wc_l := wc_l s + 1\<rparr> else s)
      in if u_strchr [32, 13, 9, 10, 11] b \<noteq> None then s\<lparr>wc_inword := False\<rparr>
         else if \<not> wc_inword s then s\<lparr>wc_w := wc_w s + 1, wc_inword := True\<rparr>
         else s)"

primrec wc_loop :: "nat \<Rightarrow> int \<Rightarrow> byte list \<Rightarrow> wc_state \<Rightarrow> uprog \<Rightarrow> uprog" where
  "wc_loop 0 fd name s k = UCut"
| "wc_loop (Suc f) fd name s k =
     UCall (U_read fd 512) (\<lambda>n buf.
     if n > 0 then wc_loop f fd name (fold wc_char (take (nat n) buf) s) k
     else if n < 0 then u_fprintf 1 (''wc: read error'' @ [CHR 0x0A]) [] (UExit 1)
     else u_fprintf 1 (''%d %d %d %s'' @ [CHR 0x0A])
       [Arg (scast (wc_l s)), Arg (scast (wc_w s)), Arg (scast (wc_c s)), ArgStr (Some name)] k)"

definition wc :: "nat \<Rightarrow> int \<Rightarrow> byte list \<Rightarrow> uprog \<Rightarrow> uprog" where
  "wc f fd name k = wc_loop f fd name \<lparr>wc_l = 0, wc_w = 0, wc_c = 0, wc_inword = False\<rparr> k"

primrec wc_files :: "nat \<Rightarrow> byte list list \<Rightarrow> uprog" where
  "wc_files f [] = UExit 0"
| "wc_files f (a # as) =
     UCall (U_open a (omode_bits O_RDONLY)) (\<lambda>fd _.
     if fd < 0 then u_fprintf 1 (''wc: cannot open %s'' @ [CHR 0x0A]) [ArgStr (Some a)] (UExit 1)
     else wc f fd a (UCall (U_close fd) (\<lambda>_ _. wc_files f as)))"

definition wc_main :: "nat \<Rightarrow> byte list list \<Rightarrow> uprog" where
  "wc_main f argv = (if length argv \<le> 1 then wc f 0 [] (UExit 0) else wc_files f (tl argv))"

subsection \<open>echo, kill, ln, mkdir, rm\<close>

primrec echo_args :: "byte list list \<Rightarrow> uprog" where
  "echo_args [] = UExit 0"
| "echo_args (a # as) =
     UCall (U_write 1 (take (u_strlen a) a)) (\<lambda>_ _.
     UCall (U_write 1 (if as \<noteq> [] then [32] else [10])) (\<lambda>_ _. echo_args as))"

definition echo_main :: "byte list list \<Rightarrow> uprog" where
  "echo_main argv = echo_args (tl argv)"

definition kill_main :: "byte list list \<Rightarrow> uprog" where
  "kill_main argv =
     (if length argv < 2 then u_fprintf 2 (''usage: kill pid...'' @ [CHR 0x0A]) [] (UExit 1)
      else foldr (\<lambda>a k. UCall (U_kill (u_atoi a)) (\<lambda>_ _. k)) (tl argv) (UExit 0))"

definition ln_main :: "byte list list \<Rightarrow> uprog" where
  "ln_main argv =
     (if length argv \<noteq> 3 then u_fprintf 2 (''Usage: ln old new'' @ [CHR 0x0A]) [] (UExit 1)
      else UCall (U_link (argv ! 1) (argv ! 2)) (\<lambda>r _.
        if r < 0 then u_fprintf 2 (''link %s %s: failed'' @ [CHR 0x0A])
          [ArgStr (Some (argv ! 1)), ArgStr (Some (argv ! 2))] (UExit 0)
        else UExit 0))"

definition mkdir_main :: "byte list list \<Rightarrow> uprog" where
  "mkdir_main argv =
     (if length argv < 2 then u_fprintf 2 (''Usage: mkdir files...'' @ [CHR 0x0A]) [] (UExit 1)
      else foldr (\<lambda>a k. UCall (U_mkdir a) (\<lambda>r _.
          if r < 0 then u_fprintf 2 (''mkdir: %s failed to create'' @ [CHR 0x0A]) [ArgStr (Some a)] (UExit 0) else k))
        (tl argv) (UExit 0))"

definition rm_main :: "byte list list \<Rightarrow> uprog" where
  "rm_main argv =
     (if length argv < 2 then u_fprintf 2 (''Usage: rm files...'' @ [CHR 0x0A]) [] (UExit 1)
      else foldr (\<lambda>a k. UCall (U_unlink a) (\<lambda>r _.
          if r < 0 then u_fprintf 2 (''rm: %s failed to delete'' @ [CHR 0x0A]) [ArgStr (Some a)] (UExit 0) else k))
        (tl argv) (UExit 0))"

subsection \<open>ls\<close>

text \<open>
  The structure \<open>stat\<close> read back from its bytes, and the library's \<open>stat\<close> on a path.  When the file cannot be
  opened the structure of the caller keeps what it held, which no caller reads.
\<close>

definition bytes_stat :: "byte list \<Rightarrow> stat" where
  "bytes_stat bs = \<lparr>st_dev = get32 bs 0, st_ino = get32 bs 4, st_type = word16 (drop 8 bs), st_nlink = word16 (drop 10 bs),
     st_size = get64 bs 16\<rparr>"

definition u_stat :: "byte list \<Rightarrow> (int \<Rightarrow> stat \<Rightarrow> uprog) \<Rightarrow> uprog" where
  "u_stat path k =
     UCall (U_open path (omode_bits O_RDONLY)) (\<lambda>fd _.
     if fd < 0 then k (- 1) (bytes_stat [])
     else UCall (U_fstat fd) (\<lambda>r bs. UCall (U_close fd) (\<lambda>_ _. k r (bytes_stat bs))))"

text \<open>The index after the last slash before \<open>i\<close>: the loop of \<open>fmtname\<close>, which runs from the NUL downwards.\<close>

primrec after_slash :: "byte list \<Rightarrow> nat \<Rightarrow> nat" where
  "after_slash path 0 = 0"
| "after_slash path (Suc i) = (if path ! i = 47 then Suc i else after_slash path i)"

definition fmtname :: "byte list \<Rightarrow> byte list" where
  "fmtname path =
     (let p = drop (after_slash path (u_strlen path)) path
      in if u_strlen p \<ge> DIRSIZ then take (u_strlen p) p
         else take (u_strlen p) p @ replicate (DIRSIZ - u_strlen p) 32)"

definition ls_line :: "byte list \<Rightarrow> stat \<Rightarrow> uprog \<Rightarrow> uprog" where
  "ls_line path st k =
     u_fprintf 1 (''%s %d %d %d'' @ [CHR 0x0A])
       [ArgStr (Some (fmtname path)), Arg (scast (st_type st)), Arg (ucast (st_ino st)), Arg (st_size st)] k"

primrec ls_dir :: "nat \<Rightarrow> int \<Rightarrow> byte list \<Rightarrow> uprog \<Rightarrow> uprog" where
  "ls_dir 0 fd path k = UCut"
| "ls_dir (Suc f) fd path k =
     UCall (U_read fd 16) (\<lambda>n bs.
     if n \<noteq> 16 then k
     else if de_inum (bytes_dirent bs) = 0 then ls_dir f fd path k
     else let buf = take (u_strlen path) path @ [47] @ cstr (de_name (bytes_dirent bs)) in
       u_stat buf (\<lambda>r st.
       if r < 0 then u_fprintf 1 (''ls: cannot stat %s'' @ [CHR 0x0A]) [ArgStr (Some buf)] (ls_dir f fd path k)
       else ls_line buf st (ls_dir f fd path k)))"

definition ls :: "nat \<Rightarrow> byte list \<Rightarrow> uprog \<Rightarrow> uprog" where
  "ls f path k =
     UCall (U_open path (omode_bits O_RDONLY)) (\<lambda>fd _.
     if fd < 0 then u_fprintf 2 (''ls: cannot open %s'' @ [CHR 0x0A]) [ArgStr (Some path)] k
     else UCall (U_fstat fd) (\<lambda>r bs.
       let done1 = UCall (U_close fd) (\<lambda>_ _. k); st = bytes_stat bs in
       if r < 0 then u_fprintf 2 (''ls: cannot stat %s'' @ [CHR 0x0A]) [ArgStr (Some path)] done1
       else if st_type st = T_DEVICE \<or> st_type st = T_FILE then ls_line path st done1
       else if st_type st = T_DIR then
         (if u_strlen path + 1 + DIRSIZ + 1 > 512 then u_fprintf 1 (''ls: path too long'' @ [CHR 0x0A]) [] done1
          else ls_dir f fd path done1)
       else done1))"

definition ls_main :: "nat \<Rightarrow> byte list list \<Rightarrow> uprog" where
  "ls_main f argv = (if length argv < 2 then ls f [46] (UExit 0) else foldr (ls f) (tl argv) (UExit 0))"

subsection \<open>init\<close>

primrec init_wait :: "nat \<Rightarrow> int \<Rightarrow> uprog \<Rightarrow> uprog" where
  "init_wait 0 pid k = UCut"
| "init_wait (Suc f) pid k =
     UCall U_wait (\<lambda>wpid _.
     if wpid = pid then k
     else if wpid < 0 then u_fprintf 1 (''init: wait returned an error'' @ [CHR 0x0A]) [] (UExit 1)
     else init_wait f pid k)"

primrec init_loop :: "nat \<Rightarrow> nat \<Rightarrow> uprog" where
  "init_loop 0 f = UCut"
| "init_loop (Suc g) f =
     u_fprintf 1 (''init: starting sh'' @ [CHR 0x0A]) []
     (UCall U_fork (\<lambda>pid _.
      if pid < 0 then u_fprintf 1 (''init: fork failed'' @ [CHR 0x0A]) [] (UExit 1)
      else if pid = 0 then
        UCall (U_exec (str ''sh'') [str ''sh'']) (\<lambda>_ _.
        u_fprintf 1 (''init: exec sh failed'' @ [CHR 0x0A]) [] (UExit 1))
      else init_wait f pid (init_loop g f)))"

definition init_main :: "nat \<Rightarrow> nat \<Rightarrow> uprog" where
  "init_main g f =
     (let rest = UCall (U_dup 0) (\<lambda>_ _. UCall (U_dup 0) (\<lambda>_ _. init_loop g f)) in
      UCall (U_open (str ''console'') (omode_bits O_RDWR)) (\<lambda>fd _.
      if fd < 0 then
        UCall (U_mknod (str ''console'') CONSOLE 0) (\<lambda>_ _.
        UCall (U_open (str ''console'') (omode_bits O_RDWR)) (\<lambda>_ _. rest))
      else rest))"

subsection \<open>The random numbers of grind\<close>

text \<open>The variables of type \<open>long\<close> are integers: they stay below \<open>2^31\<close> (lemma \<open>do_rand_range\<close>).\<close>

definition do_rand :: "uint64 \<Rightarrow> int \<times> uint64" where
  "do_rand ctx =
     (let x = uint ctx mod 0x7ffffffe + 1;
          hi = x div 127773;
          lo = x mod 127773;
          x = 16807 * lo - 2836 * hi;
          x = (if x < 0 then x + 0x7fffffff else x);
          x = x - 1
      in (x, word_of_int x))"

definition rand :: "uint64 \<Rightarrow> int \<times> uint64" where
  "rand rand_next = do_rand rand_next"

subsection \<open>Running a program\<close>

text \<open>\<open>run h p e\<close> runs \<open>p\<close> in a system that answers its calls by \<open>h\<close>: the status it exits with, and the system then.\<close>

primrec run :: "('e \<Rightarrow> ucall \<Rightarrow> (int \<times> byte list) \<times> 'e) \<Rightarrow> uprog \<Rightarrow> 'e \<Rightarrow> int option \<times> 'e" where
  "run h (UExit n) e = (Some n, e)"
| "run h UCut e = (None, e)"
| "run h (UCall c k) e = (case h e c of ((r, bs), e') \<Rightarrow> run h (k r bs) e')"

text \<open>
  A system with named files.  A file is the list of the pieces in which it can be read: one call returns one
  piece, or its first \<open>n\<close> bytes when it is longer than the buffer.
\<close>

record ufs =
  e_names :: "byte list \<Rightarrow> byte list list option"
  e_fds :: "int \<Rightarrow> byte list list"
  e_out :: "byte list"

fun feed :: "nat \<Rightarrow> byte list list \<Rightarrow> byte list \<times> byte list list" where
  "feed n [] = ([], [])"
| "feed n (b # bs) = (if length b \<le> n then (b, bs) else (take n b, drop n b # bs))"

definition ufs_call :: "ufs \<Rightarrow> ucall \<Rightarrow> (int \<times> byte list) \<times> ufs" where
  "ufs_call e c =
     (case c of
        U_read fd n \<Rightarrow> (case feed n (e_fds e fd) of (b, bs) \<Rightarrow> ((int (length b), b), e\<lparr>e_fds := (e_fds e)(fd := bs)\<rparr>))
      | U_write fd b \<Rightarrow> ((int (length b), []), e\<lparr>e_out := e_out e @ (if fd = 1 then b else [])\<rparr>)
      | U_open a m \<Rightarrow>
          (case e_names e a of None \<Rightarrow> ((- 1, []), e) | Some cs \<Rightarrow> ((3, []), e\<lparr>e_fds := (e_fds e)(3 := cs)\<rparr>))
      | U_close fd \<Rightarrow> ((0, []), e\<lparr>e_fds := (e_fds e)(fd := [])\<rparr>)
      | _ \<Rightarrow> ((- 1, []), e))"

definition contents :: "ufs \<Rightarrow> byte list \<Rightarrow> byte list" where
  "contents e a = (case e_names e a of Some cs \<Rightarrow> concat cs | None \<Rightarrow> [])"

text \<open>All the files of a list exist, their pieces are not empty, and \<open>f\<close> rounds are enough for each.\<close>

definition readable :: "ufs \<Rightarrow> nat \<Rightarrow> byte list list \<Rightarrow> bool" where
  "readable e f as \<longleftrightarrow>
     list_all (\<lambda>a. case e_names e a of Some cs \<Rightarrow> [] \<notin> set cs \<and> length (concat cs) < f | None \<Rightarrow> False) as"

lemma ufs_call_simps [simp]:
  "ufs_call e (U_read fd n) = (case feed n (e_fds e fd) of (b, bs) \<Rightarrow> ((int (length b), b), e\<lparr>e_fds := (e_fds e)(fd := bs)\<rparr>))"
  "ufs_call e (U_write fd b) = ((int (length b), []), e\<lparr>e_out := e_out e @ (if fd = 1 then b else [])\<rparr>)"
  "ufs_call e (U_close fd) = ((0, []), e\<lparr>e_fds := (e_fds e)(fd := [])\<rparr>)"
  "e_names e a = Some cs \<Longrightarrow> ufs_call e (U_open a m) = ((3, []), e\<lparr>e_fds := (e_fds e)(3 := cs)\<rparr>)"
  by (simp_all add: ufs_call_def)

lemma contents_simps [simp]:
  "contents (e\<lparr>e_out := x\<rparr>) = contents e" "contents (e\<lparr>e_fds := y\<rparr>) = contents e"
  "readable (e\<lparr>e_out := x\<rparr>) = readable e" "readable (e\<lparr>e_fds := y\<rparr>) = readable e"
  by (simp_all add: contents_def readable_def fun_eq_iff)

lemma feed_piece:
  assumes "[] \<notin> set cs" "0 < n" "feed n cs = (d, ds)"
  shows "d @ concat ds = concat cs" "[] \<notin> set ds" "d = [] \<longleftrightarrow> cs = []"
  using assms by (cases cs; auto split: if_splits)+

lemma run_puts:
  "run ufs_call (foldr (u_putc fd) bs k) e = run ufs_call k (e\<lparr>e_out := e_out e @ (if fd = 1 then bs else [])\<rparr>)"
  by (induction bs arbitrary: e) (simp_all add: u_putc_def)

lemma run_fprintf:
  "run ufs_call (u_fprintf fd fmt ap k) e =
     run ufs_call k (e\<lparr>e_out := e_out e @ (if fd = 1 then u_vprintf fmt ap else [])\<rparr>)"
  by (simp add: u_fprintf_def run_puts)

lemma feed_rest:
  assumes "feed n cs = (d, ds)" "[] \<notin> set cs" "0 < n" "d \<noteq> []" "length (concat cs) < Suc f"
  shows "length (concat ds) < f"
proof -
  have "length d + length (concat ds) = length (concat cs)"
    using feed_piece(1) [OF assms(2,3,1)] by (metis length_append)
  then show ?thesis using assms(4,5) by (cases d) auto
qed

lemma run_cat:
  assumes "[] \<notin> set (e_fds e fd)" "length (concat (e_fds e fd)) < f"
  shows "run ufs_call (cat f fd k) e =
    run ufs_call k (e\<lparr>e_fds := (e_fds e)(fd := []), e_out := e_out e @ concat (e_fds e fd)\<rparr>)"
  using assms
proof (induction f arbitrary: e)
  case (Suc f)
  obtain d ds where f: "feed 512 (e_fds e fd) = (d, ds)" by force
  note p = feed_piece [OF Suc.prems(1) _ f]
  show ?case
  proof (cases "d = []")
    case True
    with p have "e_fds e fd = []" by simp
    with True f show ?thesis by (cases e) (auto simp: fun_upd_idem)
  next
    case False
    let ?e = "e\<lparr>e_fds := (e_fds e)(fd := ds), e_out := e_out e @ d\<rparr>"
    have "run ufs_call (cat (Suc f) fd k) e = run ufs_call (cat f fd k) ?e"
      using f False by simp
    also have "\<dots> = run ufs_call k (?e\<lparr>e_fds := (e_fds ?e)(fd := []), e_out := e_out ?e @ concat (e_fds ?e fd)\<rparr>)"
      using feed_rest [OF f Suc.prems(1) _ False Suc.prems(2)] p(2) by (intro Suc.IH) simp_all
    also have "?e\<lparr>e_fds := (e_fds ?e)(fd := []), e_out := e_out ?e @ concat (e_fds ?e fd)\<rparr> =
        e\<lparr>e_fds := (e_fds e)(fd := []), e_out := e_out e @ concat (e_fds e fd)\<rparr>"
      by (simp flip: p(1))
    finally show ?thesis .
  qed
qed simp

text \<open>
  What \<open>cat\<close> and \<open>wc\<close> have in common: each goes through the files it is given, and a part \<open>body\<close> reads one of them to
  its end and adds a report on its contents to the output.
\<close>

locale file_tool =
  fixes body :: "nat \<Rightarrow> int \<Rightarrow> byte list \<Rightarrow> uprog \<Rightarrow> uprog"
    and report :: "byte list \<Rightarrow> byte list \<Rightarrow> byte list"
    and files :: "nat \<Rightarrow> byte list list \<Rightarrow> uprog"
  assumes body: "[] \<notin> set (e_fds e fd) \<Longrightarrow> length (concat (e_fds e fd)) < f \<Longrightarrow>
      run ufs_call (body f fd name k) e =
        run ufs_call k (e\<lparr>e_fds := (e_fds e)(fd := []), e_out := e_out e @ report (concat (e_fds e fd)) name\<rparr>)"
    and no_files: "files f [] = UExit 0"
    and next_file: "\<exists>err. files f (a # as) = UCall (U_open a (omode_bits O_RDONLY)) (\<lambda>fd _.
      if fd < 0 then err else body f fd a (UCall (U_close fd) (\<lambda>_ _. files f as)))"
begin

lemma run_files:
  assumes "readable e f as"
  shows "\<exists>e'. run ufs_call (files f as) e = (Some 0, e') \<and> e_out e' = e_out e @ concat (map (\<lambda>a. report (contents e a) a) as)"
  using assms
proof (induction as arbitrary: e)
  case Nil
  then show ?case by (simp add: no_files)
next
  case (Cons a as)
  then obtain cs where cs: "e_names e a = Some cs" "[] \<notin> set cs" "length (concat cs) < f"
    by (auto simp: readable_def split: option.splits)
  obtain err where n: "files f (a # as) = UCall (U_open a (omode_bits O_RDONLY)) (\<lambda>fd _.
      if fd < 0 then err else body f fd a (UCall (U_close fd) (\<lambda>_ _. files f as)))" using next_file by blast
  let ?e = "e\<lparr>e_out := e_out e @ report (concat cs) a, e_fds := (e_fds e)(3 := [])\<rparr>"
  have "run ufs_call (files f (a # as)) e = run ufs_call (files f as) ?e"
    using cs body [of "e\<lparr>e_fds := (e_fds e)(3 := cs)\<rparr>" 3 f] by (simp add: n)
  moreover have "readable ?e f as" using Cons.prems by (simp add: readable_def)
  moreover have "contents e a = concat cs" using cs by (simp add: contents_def)
  ultimately show ?case using Cons.IH [of ?e] by auto
qed

end

interpretation catt: file_tool "\<lambda>f fd name k. cat f fd k" "\<lambda>bs name. bs" cat_files
  by unfold_locales (simp_all add: run_cat exI)

text \<open>
  C39. The program \<open>cat\<close>: given the names of existing files it exits with status 0 and has written their contents to
  its standard output, one after the other, into however many pieces the reads cut them; a number of rounds
  above the length of each file is enough.
\<close>

theorem cat_concatenates:
  assumes "readable e f as" "as \<noteq> []"
  shows "\<exists>e'. run ufs_call (cat_main f (name # as)) e = (Some 0, e') \<and>
    e_out e' = e_out e @ concat (map (contents e) as)"
  using catt.run_files [OF assms(1)] assms(2) by (simp add: cat_main_def)

text \<open>Two files for the witnesses, one of them longer than the buffer of \<open>cat\<close>.\<close>

definition sample_ufs :: ufs where
  "sample_ufs =
     \<lparr>e_names = [[97] \<mapsto> [[104, 105, 32], [116, 104], [101, 114, 101, 10]], [98] \<mapsto> [replicate 600 120 @ [10]]],
      e_fds = (\<lambda>_. []), e_out = []\<rparr>"

lemma sample_ufs_readable: "readable sample_ufs 700 [[97], [98]]"
  by (simp add: readable_def sample_ufs_def)

theorem cat_concatenates_witness:
  "\<exists>e'. run ufs_call (cat_main 700 [str ''cat'', [97], [98]]) sample_ufs = (Some 0, e') \<and>
     e_out e' = str ''hi there'' @ [10] @ replicate 600 120 @ [10]"
  using cat_concatenates [OF sample_ufs_readable, of "str ''cat''"] by (simp add: contents_def sample_ufs_def)

subsection \<open>What wc counts\<close>

definition blank :: "byte \<Rightarrow> bool" where
  "blank b \<longleftrightarrow> b \<in> {32, 13, 9, 10, 11}"

text \<open>A word starts at each byte that is not blank and comes first or after a blank one.\<close>

definition word_starts :: "byte list \<Rightarrow> nat set" where
  "word_starts bs = {i. i < length bs \<and> \<not> blank (bs ! i) \<and> (i = 0 \<or> blank (bs ! (i - 1)))}"

definition wc_report :: "byte list \<Rightarrow> byte list \<Rightarrow> byte list" where
  "wc_report bs name =
     u_vprintf (''%d %d %d %s'' @ [CHR 0x0A])
       [Arg (scast (of_nat (count_list bs 10) :: uint32)), Arg (scast (of_nat (card (word_starts bs)) :: uint32)),
        Arg (scast (of_nat (length bs) :: uint32)), ArgStr (Some name)]"

lemma wc_char_blank:
  "wc_char b s =
     s\<lparr>wc_l := wc_l s + (if b = 10 then 1 else 0), wc_w := wc_w s + (if blank b \<or> wc_inword s then 0 else 1),
       wc_c := wc_c s + 1, wc_inword := \<not> blank b\<rparr>"
  by (cases s) (auto simp: wc_char_def blank_def)

lemma word_starts_snoc:
  "word_starts (bs @ [b]) =
     (if \<not> blank b \<and> (bs = [] \<or> blank (last bs)) then insert (length bs) (word_starts bs) else word_starts bs)"
proof -
  have "i \<in> word_starts (bs @ [b]) \<longleftrightarrow>
      i \<in> word_starts bs \<or> i = length bs \<and> \<not> blank b \<and> (bs = [] \<or> blank (last bs))" for i
    by (cases "bs = []") (auto simp: word_starts_def nth_append last_conv_nth less_Suc_eq)
  then show ?thesis by auto
qed

lemma finite_word_starts: "finite (word_starts bs)"
  by (simp add: word_starts_def)

lemma wc_fold:
  "fold wc_char bs \<lparr>wc_l = 0, wc_w = 0, wc_c = 0, wc_inword = False\<rparr> =
     \<lparr>wc_l = of_nat (count_list bs 10), wc_w = of_nat (card (word_starts bs)), wc_c = of_nat (length bs),
      wc_inword = (bs \<noteq> [] \<and> \<not> blank (last bs))\<rparr>"
proof (induction bs rule: rev_induct)
  case Nil
  then show ?case by (simp add: word_starts_def)
next
  case (snoc b bs)
  have "length bs \<notin> word_starts bs" by (simp add: word_starts_def)
  moreover have "count_list (bs @ [b]) 10 = count_list bs 10 + (if b = 10 then 1 else 0)" by simp
  moreover have "blank 10" by (simp add: blank_def)
  ultimately show ?case
    using snoc finite_word_starts [of bs] by (auto simp: wc_char_blank word_starts_snoc)
qed

lemma run_wc_loop:
  assumes "[] \<notin> set (e_fds e fd)" "length (concat (e_fds e fd)) < f"
    "s = fold wc_char bs \<lparr>wc_l = 0, wc_w = 0, wc_c = 0, wc_inword = False\<rparr>"
  shows "run ufs_call (wc_loop f fd name s k) e =
    run ufs_call k (e\<lparr>e_fds := (e_fds e)(fd := []), e_out := e_out e @ wc_report (bs @ concat (e_fds e fd)) name\<rparr>)"
  using assms
proof (induction f arbitrary: e s bs)
  case (Suc f)
  obtain d ds where f: "feed 512 (e_fds e fd) = (d, ds)" by force
  note p = feed_piece [OF Suc.prems(1) _ f]
  show ?case
  proof (cases "d = []")
    case True
    with p have "e_fds e fd = []" by simp
    with True f show ?thesis by (auto simp: run_fprintf wc_report_def Suc.prems(3) wc_fold fun_upd_idem)
  next
    case False
    let ?e = "e\<lparr>e_fds := (e_fds e)(fd := ds)\<rparr>"
    have "run ufs_call (wc_loop (Suc f) fd name s k) e = run ufs_call (wc_loop f fd name (fold wc_char d s) k) ?e"
      using f False by simp
    also have "\<dots> = run ufs_call k
        (?e\<lparr>e_fds := (e_fds ?e)(fd := []), e_out := e_out ?e @ wc_report ((bs @ d) @ concat (e_fds ?e fd)) name\<rparr>)"
      using feed_rest [OF f Suc.prems(1) _ False Suc.prems(2)] p(2) Suc.prems(3) by (intro Suc.IH) simp_all
    also have "?e\<lparr>e_fds := (e_fds ?e)(fd := []), e_out := e_out ?e @ wc_report ((bs @ d) @ concat (e_fds ?e fd)) name\<rparr> =
        e\<lparr>e_fds := (e_fds e)(fd := []), e_out := e_out e @ wc_report (bs @ concat (e_fds e fd)) name\<rparr>"
      by (simp flip: p(1))
    finally show ?thesis .
  qed
qed simp

interpretation wct: file_tool wc wc_report wc_files
proof unfold_locales
  fix e :: ufs and fd f name k assume "[] \<notin> set (e_fds e fd)" "length (concat (e_fds e fd)) < f"
  then show "run ufs_call (wc f fd name k) e =
      run ufs_call k (e\<lparr>e_fds := (e_fds e)(fd := []), e_out := e_out e @ wc_report (concat (e_fds e fd)) name\<rparr>)"
    using run_wc_loop [of e fd f _ "[]"] by (simp add: wc_def)
qed (simp_all add: exI)

text \<open>
  C38. The program \<open>wc\<close>: given the names of existing files it exits with status 0 and reports for each of them the
  number of its newlines, of the positions where a word starts and of its bytes, as 32-bit counters, into
  however many pieces the reads cut the file: a word that is cut in two counts once.
\<close>

theorem wc_counts:
  assumes "readable e f as" "as \<noteq> []"
  shows "\<exists>e'. run ufs_call (wc_main f (name # as)) e = (Some 0, e') \<and>
    e_out e' = e_out e @ concat (map (\<lambda>a. wc_report (contents e a) a) as)"
  using wct.run_files [OF assms(1)] assms(2) by (simp add: wc_main_def)

theorem wc_counts_witness:
  "\<exists>e'. run ufs_call (wc_main 700 [str ''wc'', [97], [98]]) sample_ufs = (Some 0, e') \<and>
     e_out e' = wc_report (str ''hi there'' @ [10]) [97] @ wc_report (replicate 600 120 @ [10]) [98]"
  using wc_counts [OF sample_ufs_readable, of "str ''wc''"] by (simp add: contents_def sample_ufs_def)

subsection \<open>echo, init and ls\<close>

text \<open>\<open>echo\<close> prints its arguments separated by blanks and ended by a newline, and nothing without arguments.\<close>

lemma take_strlen: "take (u_strlen a) a = cstr a"
  by (induction a) (auto simp: cstr_def)

lemma echo_prints:
  "\<exists>e'. run ufs_call (echo_main (name # as)) e = (Some 0, e') \<and>
     e_out e' = e_out e @ (if as = [] then [] else cstr (hd as) @ concat (map (\<lambda>a. 32 # cstr a) (tl as)) @ [10])"
proof -
  have "\<exists>e'. run ufs_call (echo_args as) e = (Some 0, e') \<and>
      e_out e' = e_out e @ (if as = [] then [] else cstr (hd as) @ concat (map (\<lambda>a. 32 # cstr a) (tl as)) @ [10])" for e
  proof (induction as arbitrary: e)
    case (Cons a as)
    let ?e = "e\<lparr>e_out := e_out e @ cstr a @ (if as \<noteq> [] then [32] else [10])\<rparr>"
    have "run ufs_call (echo_args (a # as)) e = run ufs_call (echo_args as) ?e" by (simp add: take_strlen)
    moreover obtain e' where "run ufs_call (echo_args as) ?e = (Some 0, e')"
      "e_out e' = e_out ?e @ (if as = [] then [] else cstr (hd as) @ concat (map (\<lambda>a. 32 # cstr a) (tl as)) @ [10])"
      using Cons.IH by blast
    ultimately show ?case by (cases as) (auto simp: take_strlen)
  qed simp
  then show ?thesis by (simp add: echo_main_def)
qed

text \<open>
  While \<open>fork\<close> succeeds and \<open>wait\<close> returns processes, the first process is in one of its loops after any number
  of rounds: it has not exited.
\<close>

lemma run_fprintf_None:
  assumes "\<And>e. fst (run h k e) = None"
  shows "fst (run h (u_fprintf fd fmt ap k) e) = None"
proof -
  have "fst (run h (foldr (u_putc fd) bs k) e) = None" for bs
    using assms by (induction bs arbitrary: e) (simp_all add: u_putc_def split: prod.splits)
  then show ?thesis by (simp add: u_fprintf_def)
qed

lemma init_never_exits:
  assumes "\<And>e. 0 < fst (fst (h e U_fork))" "\<And>e. 0 \<le> fst (fst (h e U_wait))"
  shows "fst (run h (init_main g f) e) = None"
proof -
  have w: "fst (run h (init_wait f pid k) e) = None" if "\<And>e. fst (run h k e) = None" for f pid k e
  proof (induction f arbitrary: e)
    case (Suc f)
    then show ?case using assms(2) [of e] that by (auto split: prod.splits)
  qed simp
  have "fst (run h (init_loop g f) e) = None" for g e
  proof (induction g arbitrary: e)
    case (Suc g)
    have "fst (run h (UCall U_fork (\<lambda>pid _.
        if pid < 0 then u_fprintf 1 (''init: fork failed'' @ [CHR 0x0A]) [] (UExit 1)
        else if pid = 0 then UCall (U_exec (str ''sh'') [str ''sh'']) (\<lambda>_ _.
          u_fprintf 1 (''init: exec sh failed'' @ [CHR 0x0A]) [] (UExit 1))
        else init_wait f pid (init_loop g f))) e) = None" for e
      using assms(1) [of e] w [OF Suc.IH] by (auto split: prod.splits)
    then show ?case by (simp add: run_fprintf_None)
  qed simp
  then show ?thesis by (auto simp: init_main_def Let_def split: prod.splits)
qed

lemma bytes_halves:
  "map (\<lambda>i. byte_of i x) [0..<8] = bytes32 (ucast x) @ bytes32 (ucast (drop_bit 32 x))"
proof -
  have "[0..<8] = [0, 1, 2, 3, 4, 5, 6, 7 :: nat]" by (simp add: upt_rec)
  then show ?thesis
    by (simp add: bytes32_def byte_of_def) (auto intro!: bit_word_eqI simp: bit_simps)
qed

lemma join_halves: "ucast (ucast x :: uint32) OR push_bit 32 (ucast (ucast (drop_bit 32 x) :: uint32)) = (x :: uint64)"
  by (rule bit_word_eqI) (auto simp: bit_simps)

lemma stat_roundtrip:
  assumes "length pad = 4"
  shows "bytes_stat (stat_bytes pad st) = st"
proof -
  have l: "length (bytes32 x) = 4" "length (bytes16 y) = 2" for x y by (simp_all add: bytes32_def bytes16_def)
  show ?thesis
    using assms by (cases st) (simp add: bytes_stat_def stat_bytes_def get64_def get32_def bytes_halves l join_halves)
qed

subsection \<open>The generator of grind\<close>

lemma do_rand_range:
  fixes x :: int
  assumes "0 < x" "x < 2 ^ 31 - 1"
  shows "0 \<le> 16807 * (x mod 127773)" "16807 * (x mod 127773) < 2 ^ 31 - 1"
    "0 \<le> 2836 * (x div 127773)" "2836 * (x div 127773) < 2 ^ 31 - 1"
  using assms by auto

text \<open>
  C40. The generator of grind computes the step \<open>x := 16807 x mod (2^31 - 1)\<close> by Schrage's method: on the state moved
  into the range from 1 to \<open>2^31 - 2\<close> its result is the product modulo the prime, moved back by one, and it
  lies between 0 and \<open>2^31 - 3\<close>, so that the new state holds it exactly.
\<close>

theorem do_rand_correct:
  "let (r, ctx') = do_rand ctx in
     r = 16807 * (uint ctx mod (2 ^ 31 - 2) + 1) mod (2 ^ 31 - 1) - 1 \<and> 0 \<le> r \<and> r \<le> 2 ^ 31 - 3 \<and> uint ctx' = r"
proof -
  define x :: int where "x = uint ctx mod (2 ^ 31 - 2) + 1"
  define y where "y = 16807 * (x mod 127773) - 2836 * (x div 127773)"
  have x: "0 < x" "x < 2 ^ 31 - 1" by (simp_all add: x_def)
  have "16807 * (127773 * q + r) = 16807 * r - 2836 * q + (2 ^ 31 - 1) * q" for q r :: int by simp
  from this [of "x div 127773" "x mod 127773"]
  have "16807 * x = y + (2 ^ 31 - 1) * (x div 127773)" by (simp only: mult_div_mod_eq y_def)
  then have m: "16807 * x mod (2 ^ 31 - 1) = y mod (2 ^ 31 - 1)" by simp
  have y: "- (2 ^ 31 - 1) < y" "y < 2 ^ 31 - 1" using do_rand_range [OF x] by (simp_all only: y_def)
  have nz: "16807 * x mod (2 ^ 31 - 1) \<noteq> 0"
  proof
    assume "16807 * x mod (2 ^ 31 - 1) = 0"
    then have "(2 ^ 31 - 1 :: int) dvd 16807 * x" by (rule mod_0_imp_dvd)
    moreover have "coprime (2 ^ 31 - 1) (16807 :: int)" by (simp add: coprime_iff_gcd_eq_1 gcd_non_0_int)
    ultimately have "(2 ^ 31 - 1) dvd x" by (simp only: coprime_dvd_mult_right_iff)
    then show False using x zdvd_imp_le by fastforce
  qed
  have r: "y mod (2 ^ 31 - 1) = (if y < 0 then y + 0x7fffffff else y)"
    using y mod_pos_pos_trivial [of "y + (2 ^ 31 - 1)" "2 ^ 31 - 1"] by (simp add: mod_pos_pos_trivial)
  define z where "z = (if y < 0 then y + 0x7fffffff else y)"
  have z: "0 < z" "z < 2 ^ 31 - 1" using y nz unfolding m r z_def by (auto split: if_splits)
  have "do_rand ctx = (z - 1, word_of_int (z - 1))"
    unfolding do_rand_def Let_def z_def y_def x_def by simp
  moreover have "uint (word_of_int (z - 1) :: uint64) = z - 1" 
    using z by (simp only: uint_word_of_int) (simp add: mod_pos_pos_trivial)
  ultimately show ?thesis using z m r by (simp add: z_def x_def)
qed

end
