(* ===== verification/Mkfs.thy ===== *)
theory Mkfs
  imports Fsdefs
begin

section \<open>The builder of the file system image (mkfs/mkfs.c)\<close>

text \<open>
  The program that writes the disk image the kernel boots from.  The image file is the list of its blocks; opening,
  seeking and writing it succeed, while a read behind its end, a failed \<open>assert\<close> and a file that cannot be opened
  end the program, with the outcome \<open>Panic\<close>.  The functions \<open>xshort\<close> and \<open>xint\<close>, which convert a field to
  little-endian order before it is stored, are part of the layout of the structures in bytes (theory \<open>Fsdefs\<close>).
  The counters are natural numbers: a block is read before it is used, so that no run goes on with a block number
  outside the image.  What the host returns for the reads of a file, in order, is the parameter \<open>reads\<close>.
\<close>

record mkfs_state =
  img :: "byte list list"
  freeinode :: nat
  freeblock :: nat

definition NINODES :: nat where "NINODES = 200"

abbreviation nlog :: nat where
  "nlog \<equiv> LOGBLOCKS + 1"

abbreviation ninodeblocks :: nat where
  "ninodeblocks \<equiv> NINODES div IPB + 1"

definition nmeta :: nat where
  "nmeta = 2 + nlog + ninodeblocks + (FSSIZE div BPB + 1)"

definition mkfs_sb :: superblock where
  "mkfs_sb = \<lparr>sb_magic = FSMAGIC, sb_size = of_nat FSSIZE, sb_nblocks = of_nat (FSSIZE - nmeta), sb_ninodes = of_nat NINODES,
     sb_nlog = of_nat nlog, sb_logstart = 2, sb_inodestart = of_nat (2 + nlog),
     sb_bmapstart = of_nat (2 + nlog + ninodeblocks)\<rparr>"

subsection \<open>Sectors and inodes\<close>

definition wsect :: "nat \<Rightarrow> byte list \<Rightarrow> mkfs_state \<Rightarrow> mkfs_state" where
  "wsect sec buf s =
     s\<lparr>img := (if sec < length (img s) then (img s)[sec := buf]
        else img s @ replicate (sec - length (img s)) (replicate BSIZE 0) @ [buf])\<rparr>"

definition rsect :: "nat \<Rightarrow> mkfs_state \<Rightarrow> (byte list, mkfs_state) outcome" where
  "rsect sec s = (if sec < length (img s) then Ok (img s ! sec) s else Panic ''read'')"

definition winode :: "nat \<Rightarrow> dinode \<Rightarrow> mkfs_state \<Rightarrow> (unit, mkfs_state) outcome" where
  "winode inum ip s =
     (let bn = unat (IBLOCK (of_nat inum) mkfs_sb) in
      andthen (rsect bn s) (\<lambda>buf s. Ok () (wsect bn (put_dinode buf (inum mod IPB) ip) s)))"

definition rinode :: "nat \<Rightarrow> mkfs_state \<Rightarrow> (dinode, mkfs_state) outcome" where
  "rinode inum s =
     andthen (rsect (unat (IBLOCK (of_nat inum) mkfs_sb)) s) (\<lambda>buf s. Ok (get_dinode buf (inum mod IPB)) s)"

definition mk_ialloc :: "uint16 \<Rightarrow> mkfs_state \<Rightarrow> (nat, mkfs_state) outcome" where
  "mk_ialloc type s =
     (let inum = freeinode s; s = s\<lparr>freeinode := freeinode s + 1\<rparr> in
      andthen (winode inum \<lparr>di_type = type, di_major = 0, di_minor = 0, di_nlink = 1, di_size = 0,
        di_addrs = replicate (NDIRECT + 1) 0\<rparr> s) (\<lambda>_ s. Ok inum s))"

text \<open>The bitmap has one bit for each of the first \<open>used\<close> blocks.\<close>

definition mk_balloc :: "nat \<Rightarrow> mkfs_state \<Rightarrow> (unit, mkfs_state) outcome" where
  "mk_balloc used s =
     (if \<not> used < BPB then Panic ''assert used < BPB''
      else let buf = fold (\<lambda>i b. b[i div 8 := b ! (i div 8) OR push_bit (i mod 8) 1]) [0..<used] (replicate BSIZE 0)
        in Ok () (wsect (unat (sb_bmapstart mkfs_sb)) buf s))"

subsection \<open>Appending to a file\<close>

text \<open>
  The block of the file that holds block number \<open>fbn\<close>, allocated if there is none: in the inode, or in its indirect
  block.
\<close>

definition indirect_entry :: "dinode \<Rightarrow> nat \<Rightarrow> mkfs_state \<Rightarrow> (dinode \<times> nat, mkfs_state) outcome" where
  "indirect_entry din fbn s =
     (let ib = unat (di_addrs din ! NDIRECT) in
      andthen (rsect ib s) (\<lambda>indirect s.
      if get32 indirect (4 * (fbn - NDIRECT)) = 0 then
        let indirect = put32 indirect (4 * (fbn - NDIRECT)) (of_nat (freeblock s))
        in Ok (din, unat (get32 indirect (4 * (fbn - NDIRECT)))) (wsect ib indirect (s\<lparr>freeblock := freeblock s + 1\<rparr>))
      else Ok (din, unat (get32 indirect (4 * (fbn - NDIRECT)))) s))"

definition data_block :: "dinode \<Rightarrow> nat \<Rightarrow> mkfs_state \<Rightarrow> (dinode \<times> nat, mkfs_state) outcome" where
  "data_block din fbn s =
     (if fbn < NDIRECT then
        if di_addrs din ! fbn = 0 then
          Ok (din\<lparr>di_addrs := (di_addrs din)[fbn := of_nat (freeblock s)]\<rparr>, unat (of_nat (freeblock s) :: uint32))
            (s\<lparr>freeblock := freeblock s + 1\<rparr>)
        else Ok (din, unat (di_addrs din ! fbn)) s
      else if di_addrs din ! NDIRECT = 0 then
        indirect_entry (din\<lparr>di_addrs := (di_addrs din)[NDIRECT := of_nat (freeblock s)]\<rparr>) fbn (s\<lparr>freeblock := freeblock s + 1\<rparr>)
      else indirect_entry din fbn s)"

text \<open>One round of the loop, which stores the bytes \<open>p\<close> at offset \<open>off\<close>; they end in the same block.\<close>

definition iappend_round :: "dinode \<Rightarrow> nat \<Rightarrow> byte list \<Rightarrow> mkfs_state \<Rightarrow> (dinode, mkfs_state) outcome" where
  "iappend_round din off p s =
     (let fbn = off div BSIZE in
      if \<not> fbn < MAXFILE then Panic ''assert fbn < MAXFILE''
      else andthen (data_block din fbn s) (\<lambda>(din, x) s.
        andthen (rsect x s) (\<lambda>buf s. Ok din (wsect x (put_at buf (off - fbn * BSIZE) p) s))))"

function iappend_loop :: "dinode \<Rightarrow> nat \<Rightarrow> byte list \<Rightarrow> mkfs_state \<Rightarrow> (dinode \<times> nat, mkfs_state) outcome" where
  "iappend_loop din off p s =
     (if p = [] then Ok (din, off) s
      else let n1 = min (length p) ((off div BSIZE + 1) * BSIZE - off) in
        case iappend_round din off (take n1 p) s of
          Ok din s \<Rightarrow> iappend_loop din (off + n1) (drop n1 p) s
        | Panic m \<Rightarrow> Panic m | Switch s \<Rightarrow> Switch s | Spin s \<Rightarrow> Spin s)"
  by pat_completeness auto
termination
proof (relation "measure (\<lambda>(din, off, p, s). length p)", goal_cases)
  case (2 din off p s n1 din' s')
  have "off < (off div BSIZE + 1) * BSIZE" by (simp add: BSIZE_def)
  then show ?case using 2 by (cases p) auto
qed simp

declare iappend_loop.simps [simp del]

definition iappend :: "nat \<Rightarrow> byte list \<Rightarrow> mkfs_state \<Rightarrow> (unit, mkfs_state) outcome" where
  "iappend inum p s =
     andthen (rinode inum s) (\<lambda>din s.
     andthen (iappend_loop din (unat (di_size din)) p s) (\<lambda>(din, off) s.
     winode inum (din\<lparr>di_size := of_nat off\<rparr>) s))"

subsection \<open>The program\<close>

definition mk_dirent :: "nat \<Rightarrow> byte list \<Rightarrow> byte list" where
  "mk_dirent inum name = dirent_bytes \<lparr>de_inum = of_nat inum, de_name = strncpy DIRSIZ (replicate DIRSIZ 0) name\<rparr>"

text \<open>The name of the file in the image, without \<open>user/\<close> and a leading underscore, and the name it is checked as.\<close>

definition stored_name :: "byte list \<Rightarrow> byte list \<times> byte list" where
  "stored_name a =
     (let shortname = (if strncmp a (map of_char ''user/'') 5 = 0 then drop 5 a else a)
      in (shortname, if hd0 shortname = 95 then tl shortname else shortname))"

definition add_file ::
  "(byte list \<Rightarrow> byte list list option) \<Rightarrow> nat \<Rightarrow> byte list \<Rightarrow> mkfs_state \<Rightarrow> (unit, mkfs_state) outcome" where
  "add_file reads rootino a s =
     (let (shortname, name) = stored_name a in
      if 47 \<in> set (cstr shortname) then Panic ''assert index''
      else case reads a of
        None \<Rightarrow> Panic ''open''
      | Some bs \<Rightarrow>
          if \<not> length (cstr name) \<le> DIRSIZ then Panic ''assert strlen''
          else andthen (mk_ialloc T_FILE s) (\<lambda>inum s.
            andthen (iappend rootino (mk_dirent inum name) s) (\<lambda>_ s. for_each (iappend inum) bs s)))"

definition mkfs_main :: "(byte list \<Rightarrow> byte list list option) \<Rightarrow> byte list list \<Rightarrow> (unit, mkfs_state) outcome" where
  "mkfs_main reads argv =
     (if length argv < 2 then Panic ''Usage: mkfs fs.img files...''
      else
        let s = \<lparr>img = [], freeinode = 1, freeblock = nmeta\<rparr>;
            s = fold (\<lambda>i. wsect i (replicate BSIZE 0)) [0..<FSSIZE] s;
            s = wsect 1 (put_at (replicate BSIZE 0) 0 (superblock_bytes mkfs_sb)) s
        in andthen (mk_ialloc T_DIR s) (\<lambda>rootino s.
           if of_nat rootino \<noteq> ROOTINO then Panic ''assert rootino''
           else andthen (iappend rootino (mk_dirent rootino (map of_char ''.'')) s) (\<lambda>_ s.
             andthen (iappend rootino (mk_dirent rootino (map of_char ''..'')) s) (\<lambda>_ s.
             andthen (for_each (add_file reads rootino) (drop 2 argv) s) (\<lambda>_ s.
             andthen (rinode rootino s) (\<lambda>din s.
             let off = (unat (di_size din) div BSIZE + 1) * BSIZE in
             andthen (winode rootino (din\<lparr>di_size := of_nat off\<rparr>) s) (\<lambda>_ s.
             mk_balloc (freeblock s) s)))))))"

end
