(* ===== verification/Mkimage.thy ===== *)
theory Mkimage
  imports Mkfs
begin

section \<open>The image mkfs writes\<close>

text \<open>
  The blocks of the image and how the inodes share them.  \<open>amap B di k\<close> is the number of the block that slot \<open>k\<close> of an
  inode refers to, 0 for none: the slots below \<open>MAXFILE\<close> are the blocks of the file, and the slot \<open>MAXFILE\<close> is its indirect
  block.  In a good layout no two slots refer to the same block, all of them lie between the metadata and the first
  free block, and the blocks from there on are zero.
\<close>

lemmas mkfs_consts = NINODES_def nmeta_def FSSIZE_def LOGBLOCKS_def MAXOPBLOCKS_def fs_sizes fs_consts

definition amap :: "byte list list \<Rightarrow> dinode \<Rightarrow> nat \<Rightarrow> nat" where
  "amap B di k =
     (if k < NDIRECT then unat (di_addrs di ! k)
      else if k = MAXFILE then unat (di_addrs di ! NDIRECT)
      else if di_addrs di ! NDIRECT = 0 then 0
      else unat (get32 (B ! unat (di_addrs di ! NDIRECT)) (4 * (k - NDIRECT))))"

definition layout :: "byte list list \<Rightarrow> nat \<Rightarrow> (nat \<Rightarrow> dinode) \<Rightarrow> (nat \<Rightarrow> nat set) \<Rightarrow> bool" where
  "layout B fb D U \<longleftrightarrow>
     length B = FSSIZE \<and> (\<forall>b < FSSIZE. length (B ! b) = BSIZE) \<and> nmeta \<le> fb \<and> fb \<le> FSSIZE \<and>
     (\<forall>b. fb \<le> b \<and> b < FSSIZE \<longrightarrow> B ! b = replicate BSIZE 0) \<and>
     (\<forall>j. dinode_wf (D j) \<and> U j \<subseteq> {..MAXFILE}) \<and>
     (\<forall>j k. k \<le> MAXFILE \<longrightarrow> (amap B (D j) k \<noteq> 0 \<longleftrightarrow> k \<in> U j)) \<and>
     (\<forall>j k. k \<in> U j \<longrightarrow> nmeta \<le> amap B (D j) k \<and> amap B (D j) k < fb) \<and>
     (\<forall>j k j' k'. k \<in> U j \<and> k' \<in> U j' \<and> amap B (D j) k = amap B (D j') k' \<longrightarrow> j = j' \<and> k = k')"

lemma layoutD:
  assumes "layout B fb D U"
  shows "length B = FSSIZE" "\<forall>b < FSSIZE. length (B ! b) = BSIZE" "nmeta \<le> fb" "fb \<le> FSSIZE"
    "\<forall>b. fb \<le> b \<and> b < FSSIZE \<longrightarrow> B ! b = replicate BSIZE 0"
    "\<forall>j. dinode_wf (D j) \<and> U j \<subseteq> {..MAXFILE}"
    "\<forall>j k. k \<le> MAXFILE \<longrightarrow> (amap B (D j) k \<noteq> 0 \<longleftrightarrow> k \<in> U j)"
    "\<forall>j k. k \<in> U j \<longrightarrow> nmeta \<le> amap B (D j) k \<and> amap B (D j) k < fb"
    "\<forall>j k j' k'. k \<in> U j \<and> k' \<in> U j' \<and> amap B (D j) k = amap B (D j') k' \<longrightarrow> j = j' \<and> k = k'"
  using assms unfolding layout_def by - (elim conjE, assumption)+

lemma layout_block:
  assumes "layout B fb D U" "k \<in> U j"
  shows "amap B (D j) k < fb" "amap B (D j) k < FSSIZE" "amap B (D j) k < length B" "nmeta \<le> amap B (D j) k"
    "length (B ! amap B (D j) k) = BSIZE" "k \<le> MAXFILE"
proof -
  note l = layoutD [OF assms(1)]
  show a: "amap B (D j) k < fb" "nmeta \<le> amap B (D j) k" "k \<le> MAXFILE" using l(6,8) assms(2) by blast+
  show "amap B (D j) k < FSSIZE" "amap B (D j) k < length B" using a(1) l(1,4) by simp_all
  then show "length (B ! amap B (D j) k) = BSIZE" using l(2) by simp
qed

lemma layout_inj:
  "layout B fb D U \<Longrightarrow> k \<in> U j \<Longrightarrow> k' \<in> U j' \<Longrightarrow> amap B (D j) k = amap B (D j') k' \<longleftrightarrow> j = j' \<and> k = k'"
  using layoutD(9) by blast

lemma layout_slot: "layout B fb D U \<Longrightarrow> k \<le> MAXFILE \<Longrightarrow> amap B (D j) k \<noteq> 0 \<longleftrightarrow> k \<in> U j"
  using layoutD(7) by blast

text \<open>One slot more refers to the first free block.\<close>

lemma layout_add:
  assumes l: "layout B fb D U" and fb: "fb < FSSIZE" and k: "k0 \<le> MAXFILE" "k0 \<notin> U i"
    and m: "\<And>j k. k \<le> MAXFILE \<Longrightarrow> amap B' (D' j) k = (if j = i \<and> k = k0 then fb else amap B (D j) k)"
    and b: "length B' = FSSIZE" "\<And>b. b < FSSIZE \<Longrightarrow> length (B' ! b) = BSIZE" "\<And>b. fb < b \<Longrightarrow> b < FSSIZE \<Longrightarrow> B' ! b = B ! b"
    and w: "\<And>j. dinode_wf (D' j)"
  shows "layout B' (fb + 1) D' (U(i := insert k0 (U i)))"
proof -
  have fb0: "fb \<noteq> 0" "nmeta \<le> fb" using layoutD(3) [OF l] by (auto simp: nmeta_def)
  have z: "\<forall>b. fb + 1 \<le> b \<and> b < FSSIZE \<longrightarrow> B' ! b = replicate BSIZE 0" using layoutD(5) [OF l] b(3) by simp
  have s: "amap B' (D' j) k \<noteq> 0 \<longleftrightarrow> k \<in> (U(i := insert k0 (U i))) j" if "k \<le> MAXFILE" for j k
    using m [OF that] layout_slot [OF l that] fb0 by auto
  have r: "nmeta \<le> amap B' (D' j) k \<and> amap B' (D' j) k < fb + 1" if "k \<in> (U(i := insert k0 (U i))) j" for j k
  proof (cases "j = i \<and> k = k0")
    case False
    then have "k \<in> U j" using that by (auto split: if_splits)
    then show ?thesis using layout_block [OF l, of k j] m [of k j] False by auto
  qed (use m k fb0 in auto)
  have q: "j = j' \<and> k = k'"
    if "k \<in> (U(i := insert k0 (U i))) j" "k' \<in> (U(i := insert k0 (U i))) j'" "amap B' (D' j) k = amap B' (D' j') k'" for j k j' k'
  proof -
    have c: "(j = i \<and> k = k0) \<or> k \<in> U j" "(j' = i \<and> k' = k0) \<or> k' \<in> U j'" using that(1,2) by (auto split: if_splits)
    have lt: "k \<in> U j \<Longrightarrow> amap B (D j) k < fb \<and> k \<le> MAXFILE" for j k using layout_block [OF l] by auto
    have le: "k \<le> MAXFILE" "k' \<le> MAXFILE" using c lt k(1) by auto
    have e: "(if j = i \<and> k = k0 then fb else amap B (D j) k) = (if j' = i \<and> k' = k0 then fb else amap B (D j') k')"
      using that(3) by (simp only: m [OF le(1)] m [OF le(2)])
    consider "j = i \<and> k = k0" "j' = i \<and> k' = k0" | "j = i \<and> k = k0" "\<not> (j' = i \<and> k' = k0)"
      | "\<not> (j = i \<and> k = k0)" "j' = i \<and> k' = k0" | "\<not> (j = i \<and> k = k0)" "\<not> (j' = i \<and> k' = k0)" by blast
    then show ?thesis
    proof cases
      case 2
      have "fb = amap B (D j') k'" using e unfolding if_P [OF 2(1)] if_not_P [OF 2(2)] .
      moreover have "k' \<in> U j'" using c(2) 2(2) by blast
      ultimately show ?thesis using lt [of k' j'] by simp
    next
      case 3
      have "amap B (D j) k = fb" using e unfolding if_P [OF 3(2)] if_not_P [OF 3(1)] .
      moreover have "k \<in> U j" using c(1) 3(1) by blast
      ultimately show ?thesis using lt [of k j] by simp
    next
      case 4
      have "amap B (D j) k = amap B (D j') k'" using e unfolding if_not_P [OF 4(1)] if_not_P [OF 4(2)] .
      then show ?thesis using c 4 layout_inj [OF l, of k j k' j'] by blast
    qed simp
  qed
  have u: "(U(i := insert k0 (U i))) j \<subseteq> {..MAXFILE}" for j using layoutD(6) [OF l] k(1) by auto
  show ?thesis
    unfolding layout_def
  proof (intro conjI)
    show "\<forall>j k j' k'. k \<in> (U(i := insert k0 (U i))) j \<and> k' \<in> (U(i := insert k0 (U i))) j' \<and>
        amap B' (D' j) k = amap B' (D' j') k' \<longrightarrow> j = j' \<and> k = k'" using q by blast
    show "\<forall>j k. k \<in> (U(i := insert k0 (U i))) j \<longrightarrow> nmeta \<le> amap B' (D' j) k \<and> amap B' (D' j) k < fb + 1" using r by blast
    show "\<forall>j k. k \<le> MAXFILE \<longrightarrow> (amap B' (D' j) k \<noteq> 0) = (k \<in> (U(i := insert k0 (U i))) j)" using s by blast
    show "\<forall>j. dinode_wf (D' j) \<and> (U(i := insert k0 (U i))) j \<subseteq> {..MAXFILE}" using u w by blast
    show "\<forall>b. fb + 1 \<le> b \<and> b < FSSIZE \<longrightarrow> B' ! b = replicate BSIZE 0" by (rule z)
  qed (use b(1,2) fb fb0 in simp_all)
qed

lemma mkfs_values: "MAXFILE = 268" "NDIRECT = 12" "BSIZE = 1024" "FSSIZE = 2000" "nmeta = 47" "IPB = 16" "NINODES = 200"
  by (simp_all add: mkfs_consts)

lemma unat_block: "fb < FSSIZE \<Longrightarrow> unat (of_nat fb :: uint32) = fb"
  by (simp add: mkfs_values unat_of_nat)

lemma of_nat_block: "fb < FSSIZE \<Longrightarrow> (of_nat fb :: uint32) = 0 \<longleftrightarrow> fb = 0"
  by (simp only: unat_eq_zero [symmetric] unat_block)

lemma get32_zeros: "off + 4 \<le> n \<Longrightarrow> get32 (replicate n 0) off = 0"
  by (simp add: get32_def word32_def)

text \<open>The three ways a slot is filled: in the inode, with a new indirect block, and in the indirect block.\<close>

lemma amap_direct:
  assumes "dinode_wf di" "k < NDIRECT" "fb < FSSIZE"
  shows "amap B (di\<lparr>di_addrs := (di_addrs di)[k := of_nat fb]\<rparr>) q = (if q = k then fb else amap B di q)"
  using assms by (auto simp: amap_def dinode_wf_def unat_block)

lemma amap_indirect:
  assumes "dinode_wf di" "di_addrs di ! NDIRECT = 0" "fb < FSSIZE" "fb \<noteq> 0" "B ! fb = replicate BSIZE 0" "q \<le> MAXFILE"
  shows "amap B (di\<lparr>di_addrs := (di_addrs di)[NDIRECT := of_nat fb]\<rparr>) q = (if q = MAXFILE then fb else amap B di q)"
  using assms by (auto simp: amap_def dinode_wf_def unat_block of_nat_block mkfs_values get32_zeros)

lemma indirect_block:
  assumes "layout B fb D U"
  shows "di_addrs (D j) ! NDIRECT = 0 \<longleftrightarrow> MAXFILE \<notin> U j" "amap B (D j) MAXFILE = unat (di_addrs (D j) ! NDIRECT)"
proof -
  show a: "amap B (D j) MAXFILE = unat (di_addrs (D j) ! NDIRECT)" by (simp add: amap_def mkfs_values)
  show "di_addrs (D j) ! NDIRECT = 0 \<longleftrightarrow> MAXFILE \<notin> U j"
    using layout_slot [OF assms, of MAXFILE j] by (auto simp: a unat_eq_zero)
qed

text \<open>A write to a block outside the indirect blocks leaves all the slots as they are.\<close>

lemma amap_update:
  assumes "layout B fb D U" "\<And>j. MAXFILE \<in> U j \<Longrightarrow> amap B (D j) MAXFILE \<noteq> b"
  shows "amap (B[b := d]) (D j) q = amap B (D j) q"
proof (cases "MAXFILE \<in> U j")
  case True
  then show ?thesis using assms(2) [OF True] indirect_block(2) [OF assms(1)] by (simp add: amap_def)
next
  case False
  then show ?thesis using indirect_block(1) [OF assms(1)] by (simp add: amap_def)
qed

lemma amap_entry:
  fixes D i B
  defines "ib \<equiv> amap B (D i) MAXFILE"
  assumes l: "layout B fb D U" and k: "MAXFILE \<in> U i" "NDIRECT \<le> k" "k < MAXFILE" and fb: "fb < FSSIZE" and q: "q \<le> MAXFILE"
  shows "amap (B[ib := put32 (B ! ib) (4 * (k - NDIRECT)) (of_nat fb)]) (D j) q =
    (if j = i \<and> q = k then fb else amap B (D j) q)"
proof (cases "j = i")
  case False
  let ?B = "B[ib := put32 (B ! ib) (4 * (k - NDIRECT)) (of_nat fb)]"
  have "amap ?B (D j) q = amap B (D j) q"
  proof (cases "MAXFILE \<in> U j")
    case True
    then have "amap B (D j) MAXFILE \<noteq> ib" using layout_inj [OF l True k(1)] False by (simp add: ib_def)
    then show ?thesis using indirect_block(2) [OF l] by (simp add: amap_def)
  next
    case False
    then show ?thesis using indirect_block(1) [OF l] by (simp add: amap_def)
  qed
  then show ?thesis using False by simp
next
  case True
  note b = layout_block [OF l k(1), folded ib_def]
  have n: "di_addrs (D i) ! NDIRECT \<noteq> 0" "unat (di_addrs (D i) ! NDIRECT) = ib"
    using indirect_block [OF l] k(1) by (simp_all add: ib_def)
  have "NDIRECT \<le> q \<Longrightarrow> q < MAXFILE \<Longrightarrow> q \<noteq> k \<Longrightarrow>
      get32 (put32 (B ! ib) (4 * (k - NDIRECT)) (of_nat fb)) (4 * (q - NDIRECT)) = get32 (B ! ib) (4 * (q - NDIRECT))"
    using k b(5) by (intro get32_put32_other) (auto simp: mkfs_values)
  moreover have "get32 (put32 (B ! ib) (4 * (k - NDIRECT)) (of_nat fb)) (4 * (k - NDIRECT)) = of_nat fb"
    using k b(5) by (intro get32_put32_same) (simp add: mkfs_values)
  ultimately show ?thesis using True k q n b(3) fb by (auto simp: amap_def unat_block)
qed

text \<open>\<open>kept\<close>: the slots in use refer to the same blocks as before, and the data blocks and the metadata are unchanged.\<close>

definition kept ::
  "byte list list \<Rightarrow> (nat \<Rightarrow> dinode) \<Rightarrow> (nat \<Rightarrow> nat set) \<Rightarrow> byte list list \<Rightarrow> (nat \<Rightarrow> dinode) \<Rightarrow> bool" where
  "kept B D U B' D' \<longleftrightarrow>
     (\<forall>j k. k \<in> U j \<longrightarrow> amap B' (D' j) k = amap B (D j) k) \<and>
     (\<forall>j k. k \<in> U j \<and> k < MAXFILE \<longrightarrow> B' ! amap B (D j) k = B ! amap B (D j) k) \<and> (\<forall>b < nmeta. B' ! b = B ! b)"

lemma kept_refl: "kept B D U B D"
  by (simp add: kept_def)

lemma kept_trans:
  assumes "kept B D U B' D'" "kept B' D' U' B'' D''" "\<And>j. U j \<subseteq> U' j"
  shows "kept B D U B'' D''"
  unfolding kept_def
proof (intro conjI allI impI)
  fix j k assume "k \<in> U j"
  then show "amap B'' (D'' j) k = amap B (D j) k" using assms unfolding kept_def by (metis subsetD)
next
  fix j k assume "k \<in> U j \<and> k < MAXFILE"
  then show "B'' ! amap B (D j) k = B ! amap B (D j) k" using assms unfolding kept_def by (metis subsetD)
next
  fix b assume "b < nmeta"
  then show "B'' ! b = B ! b" using assms unfolding kept_def by metis
qed

lemma add_direct:
  fixes D i fb k
  defines "D' \<equiv> D(i := (D i)\<lparr>di_addrs := (di_addrs (D i))[k := of_nat fb]\<rparr>)"
  assumes l: "layout B fb D U" and fb: "fb < FSSIZE" and k: "k < NDIRECT" "k \<notin> U i"
  shows "layout B (fb + 1) D' (U(i := insert k (U i)))" "kept B D U B D'" "amap B (D' i) k = fb"
proof -
  have w: "dinode_wf (D j)" for j using layoutD(6) [OF l] by blast
  have m: "amap B (D' j) q = (if j = i \<and> q = k then fb else amap B (D j) q)" for j q
    using amap_direct [OF w k(1) fb] by (simp add: D'_def)
  show "layout B (fb + 1) D' (U(i := insert k (U i)))"
    using layoutD(1,2) [OF l] k m w
    by (intro layout_add [OF l fb]) (simp_all add: mkfs_values D'_def dinode_wf_def)
  show "kept B D U B D'" using m k by (auto simp: kept_def)
  show "amap B (D' i) k = fb" by (simp add: m)
qed

lemma add_indirect:
  fixes D i fb
  defines "D' \<equiv> D(i := (D i)\<lparr>di_addrs := (di_addrs (D i))[NDIRECT := of_nat fb]\<rparr>)"
  assumes l: "layout B fb D U" and fb: "fb < FSSIZE" and k: "MAXFILE \<notin> U i"
  shows "layout B (fb + 1) D' (U(i := insert MAXFILE (U i)))" "kept B D U B D'"
proof -
  have w: "dinode_wf (D j)" for j using layoutD(6) [OF l] by blast
  have z: "B ! fb = replicate BSIZE 0" "fb \<noteq> 0" using layoutD(3,5) [OF l] fb by (auto simp: mkfs_values)
  have a: "di_addrs (D i) ! NDIRECT = 0" using indirect_block(1) [OF l, of i] k by simp
  have m: "amap B (D' j) q = (if j = i \<and> q = MAXFILE then fb else amap B (D j) q)" if "q \<le> MAXFILE" for j q
    using amap_indirect [OF w a fb z(2,1) that] by (auto simp: D'_def)
  show "layout B (fb + 1) D' (U(i := insert MAXFILE (U i)))"
    using layoutD(1,2) [OF l] k m w
    by (intro layout_add [OF l fb]) (simp_all add: D'_def dinode_wf_def)
  show "kept B D U B D'" unfolding kept_def
  proof (intro conjI allI impI)
    fix j q assume q: "q \<in> U j"
    then have "\<not> (j = i \<and> q = MAXFILE)" using k by blast
    then show "amap B (D' j) q = amap B (D j) q" unfolding m [OF layout_block(6) [OF l q]] by (rule if_not_P)
  qed simp_all
qed

lemma add_entry:
  fixes D i fb k B
  defines "ib \<equiv> amap B (D i) MAXFILE"
  defines "B' \<equiv> B[ib := put32 (B ! ib) (4 * (k - NDIRECT)) (of_nat fb)]"
  assumes l: "layout B fb D U" and fb: "fb < FSSIZE" and i: "MAXFILE \<in> U i" and k: "NDIRECT \<le> k" "k < MAXFILE" "k \<notin> U i"
  shows "layout B' (fb + 1) D (U(i := insert k (U i)))" "kept B D U B' D" "amap B' (D i) k = fb"
proof -
  note b = layout_block [OF l i, folded ib_def] and d = layoutD [OF l]
  have m: "amap B' (D j) q = (if j = i \<and> q = k then fb else amap B (D j) q)" if "q \<le> MAXFILE" for j q
    unfolding B'_def ib_def by (rule amap_entry [OF l i k(1,2) fb that])
  show "layout B' (fb + 1) D (U(i := insert k (U i)))"
  proof (rule layout_add [OF l fb _ k(3) m])
    fix c assume "c < FSSIZE"
    then show "length (B' ! c) = BSIZE" using d(1,2) b k by (simp add: B'_def nth_list_update mkfs_values)
  next
    fix c assume "fb < c"
    then show "B' ! c = B ! c" using b(1) by (simp add: B'_def)
  qed (use d(1,6) k in \<open>simp_all add: B'_def\<close>)
  show "kept B D U B' D" unfolding kept_def
  proof (intro conjI allI impI)
    fix j q assume q: "q \<in> U j"
    then have "\<not> (j = i \<and> q = k)" using k by blast
    then show "amap B' (D j) q = amap B (D j) q" unfolding m [OF layout_block(6) [OF l q]] by (rule if_not_P)
  next
    fix j q assume q: "q \<in> U j \<and> q < MAXFILE"
    then have "amap B (D j) q \<noteq> ib" using layout_inj [OF l _ i, of q j] by (auto simp: ib_def)
    then show "B' ! amap B (D j) q = B ! amap B (D j) q" by (simp add: B'_def)
  next
    fix c assume "c < nmeta"
    then show "B' ! c = B ! c" using b(4) by (simp add: B'_def)
  qed
  show "amap B' (D i) k = fb" using m [of k i] k by simp
qed

text \<open>The slots a file of \<open>n\<close> bytes uses, and what \<open>data_block\<close> does: it fills the slots that are missing.\<close>

definition slots :: "nat \<Rightarrow> nat set" where
  "slots n = {k. k < MAXFILE \<and> k * BSIZE < n} \<union> (if NDIRECT * BSIZE < n then {MAXFILE} else {})"

definition slots_of :: "nat \<Rightarrow> nat set" where
  "slots_of k = insert k (if k < NDIRECT then {} else {MAXFILE})"

lemma entry_ok:
  assumes l: "layout (img s) (freeblock s) D U" and m: "MAXFILE \<in> U i" and k: "NDIRECT \<le> k" "k < MAXFILE"
    and room: "freeblock s + (if k \<in> U i then 0 else 1) \<le> FSSIZE"
  shows "\<exists>s'. indirect_entry (D i) k s = Ok (D i, amap (img s') (D i) k) s' \<and>
    freeinode s' = freeinode s \<and> freeblock s' = freeblock s + (if k \<in> U i then 0 else 1) \<and>
    layout (img s') (freeblock s') D (U(i := insert k (U i))) \<and> kept (img s) D U (img s') D"
proof -
  note ib = indirect_block [OF l, of i] and b = layout_block [OF l m]
  let ?ib = "unat (di_addrs (D i) ! NDIRECT)"
  have a: "amap (img s) (D i) k = unat (get32 (img s ! ?ib) (4 * (k - NDIRECT)))"
    using k ib(1) m by (simp add: amap_def)
  have slot: "get32 (img s ! ?ib) (4 * (k - NDIRECT)) = 0 \<longleftrightarrow> k \<notin> U i"
    using layout_slot [OF l, of k i] k by (auto simp: a unat_eq_zero)
  have r: "rsect ?ib s = Ok (img s ! ?ib) s" using b(3) ib(2) by (simp add: rsect_def)
  show ?thesis
  proof (cases "k \<in> U i")
    case True
    then have "U(i := insert k (U i)) = U" by (simp add: insert_absorb)
    then show ?thesis using True slot l a r kept_refl by (intro exI [of _ s]) (simp add: indirect_entry_def)
  next
    case False
    then have fb: "freeblock s < FSSIZE" using room by simp
    let ?d = "put32 (img s ! ?ib) (4 * (k - NDIRECT)) (of_nat (freeblock s))"
    note e = add_entry [OF l fb m k False, unfolded ib(2)]
    have g: "get32 ?d (4 * (k - NDIRECT)) = of_nat (freeblock s)"
      using k b(5) ib(2) by (intro get32_put32_same) (simp add: mkfs_values)
    have len: "?ib < length (img s)" using b(3) ib(2) by simp
    show ?thesis
      using False slot r e by (intro exI [of _ "wsect ?ib ?d (s\<lparr>freeblock := freeblock s + 1\<rparr>)"])
        (simp add: indirect_entry_def Let_def g wsect_def len unat_block [OF fb])
  qed
qed

lemma data_block_direct:
  assumes l: "layout (img s) (freeblock s) D U" and k: "k < NDIRECT" and room: "freeblock s + card (slots_of k - U i) \<le> FSSIZE"
  shows "\<exists>a x s'. data_block (D i) k s = Ok ((D i)\<lparr>di_addrs := a\<rparr>, x) s' \<and> freeinode s' = freeinode s \<and>
    freeblock s' = freeblock s + card (slots_of k - U i) \<and>
    layout (img s') (freeblock s') (D(i := (D i)\<lparr>di_addrs := a\<rparr>)) (U(i := U i \<union> slots_of k)) \<and>
    kept (img s) D U (img s') (D(i := (D i)\<lparr>di_addrs := a\<rparr>)) \<and> x = amap (img s') ((D i)\<lparr>di_addrs := a\<rparr>) k"
proof -
  have slot: "amap (img s) (D i) k \<noteq> 0 \<longleftrightarrow> k \<in> U i" using layout_slot [OF l, of k i] k by (simp add: mkfs_values)
  have a: "amap (img s) (D i) k = unat (di_addrs (D i) ! k)" using k by (simp add: amap_def)
  show ?thesis
  proof (cases "k \<in> U i")
    case True
    then have "U(i := U i \<union> slots_of k) = U" "card (slots_of k - U i) = 0" using k by (simp_all add: slots_of_def insert_absorb)
    moreover have "data_block (D i) k s = Ok (D i, unat (di_addrs (D i) ! k)) s"
      using slot k True a by (simp add: data_block_def unat_eq_zero)
    ultimately show ?thesis using l a kept_refl by (intro exI [of _ "di_addrs (D i)"] exI [of _ "unat (di_addrs (D i) ! k)"] exI [of _ s]) simp
  next
    case False
    then have u: "U i \<union> slots_of k = insert k (U i)" "card (slots_of k - U i) = 1" using k by (auto simp: slots_of_def insert_Diff_if)
    have fb: "freeblock s < FSSIZE" using room u(2) by simp
    note r = add_direct [OF l fb k False]
    have "data_block (D i) k s = Ok ((D i)\<lparr>di_addrs := (di_addrs (D i))[k := of_nat (freeblock s)]\<rparr>, freeblock s)
        (s\<lparr>freeblock := freeblock s + 1\<rparr>)"
      using slot False k a unat_block [OF fb] by (simp add: data_block_def unat_eq_zero)
    then show ?thesis using r u 
      by (intro exI [of _ "(di_addrs (D i))[k := of_nat (freeblock s)]"] exI [of _ "freeblock s"]
        exI [of _ "s\<lparr>freeblock := freeblock s + 1\<rparr>"]) simp
  qed
qed

lemma data_block_indirect:
  assumes l: "layout (img s) (freeblock s) D U" and k: "NDIRECT \<le> k" "k < MAXFILE"
    and room: "freeblock s + card (slots_of k - U i) \<le> FSSIZE"
  shows "\<exists>a x s'. data_block (D i) k s = Ok ((D i)\<lparr>di_addrs := a\<rparr>, x) s' \<and> freeinode s' = freeinode s \<and>
    freeblock s' = freeblock s + card (slots_of k - U i) \<and>
    layout (img s') (freeblock s') (D(i := (D i)\<lparr>di_addrs := a\<rparr>)) (U(i := U i \<union> slots_of k)) \<and>
    kept (img s) D U (img s') (D(i := (D i)\<lparr>di_addrs := a\<rparr>)) \<and> x = amap (img s') ((D i)\<lparr>di_addrs := a\<rparr>) k"
proof (cases "MAXFILE \<in> U i")
  case True
  have u: "U i \<union> slots_of k = insert k (U i)" "card (slots_of k - U i) = (if k \<in> U i then 0 else 1)"
    using True k by (auto simp: slots_of_def insert_Diff_if)
  have "di_addrs (D i) ! NDIRECT \<noteq> 0" using indirect_block(1) [OF l, of i] True by simp
  then show ?thesis
    using entry_ok [OF l True k room [unfolded u(2)]] k u by (intro exI [of _ "di_addrs (D i)"]) (auto simp: data_block_def)
next
  case False
  let ?a = "(di_addrs (D i))[NDIRECT := of_nat (freeblock s)]"
  let ?D = "D(i := (D i)\<lparr>di_addrs := ?a\<rparr>)" and ?s = "s\<lparr>freeblock := freeblock s + 1\<rparr>" and ?U = "U(i := insert MAXFILE (U i))"
  have z: "di_addrs (D i) ! NDIRECT = 0" using indirect_block(1) [OF l, of i] False by simp
  have u: "U i \<union> slots_of k = insert k (?U i)" "card (slots_of k - U i) = 1 + (if k \<in> ?U i then 0 else 1)"
    using False k by (auto simp: slots_of_def insert_Diff_if)
  have fb: "freeblock s < FSSIZE" using room u(2) by simp
  note d = add_indirect [OF l fb False]
  have p: "layout (img ?s) (freeblock ?s) ?D ?U" "MAXFILE \<in> ?U i" "freeblock ?s + (if k \<in> ?U i then 0 else 1) \<le> FSSIZE"
    using d(1) room u(2) by simp_all
  have eq: "data_block (D i) k s = indirect_entry (?D i) k ?s" using z k by (simp add: data_block_def)
  obtain s' where e: "indirect_entry (?D i) k ?s = Ok (?D i, amap (img s') (?D i) k) s'" "freeinode s' = freeinode ?s"
      "freeblock s' = freeblock ?s + (if k \<in> ?U i then 0 else 1)"
      "layout (img s') (freeblock s') ?D (?U(i := insert k (?U i)))" "kept (img ?s) ?D ?U (img s') ?D"
    using entry_ok [OF p(1,2) k p(3)] by (elim exE conjE) (rule that)
  have "kept (img s) D U (img s') ?D"
  proof (rule kept_trans [OF d(2)])
    show "kept (img s) ?D ?U (img s') ?D" using e(5) by simp
  qed auto
  then show ?thesis using e u eq by (intro exI [of _ ?a] exI [of _ "amap (img s') (?D i) k"] exI [of _ s']) simp
qed

lemmas data_block_ok = data_block_direct data_block_indirect

lemma slots_step:
  assumes "off < z" "z \<le> (off div BSIZE + 1) * BSIZE" "off div BSIZE < MAXFILE"
  shows "slots z = slots off \<union> slots_of (off div BSIZE)"
proof -
  define q where "q = off div 1024"
  have q: "q * 1024 \<le> off" "off < q * 1024 + 1024" by (simp_all add: q_def)
  have z: "off < z" "z \<le> q * 1024 + 1024" "q < 268" using assms by (simp_all add: q_def mkfs_values)
  have "k * 1024 < z \<longleftrightarrow> k * 1024 < off \<or> k = q" for k
    using q z by (cases "k < q"; cases "k = q") auto
  moreover have "12 * 1024 < z \<longleftrightarrow> 12 * 1024 < off \<or> \<not> q < 12" using q z by (cases "q < 12") auto
  moreover have "off div BSIZE = q" by (simp add: q_def mkfs_values)
  ultimately show ?thesis using z(3) by (auto simp: slots_def slots_of_def mkfs_values)
qed

lemma slots_mono: "m \<le> n \<Longrightarrow> slots m \<subseteq> slots n"
  by (auto simp: slots_def)

lemma finite_slots: "finite (slots n)"
  by (simp add: slots_def)

definition byte_at :: "byte list list \<Rightarrow> dinode \<Rightarrow> nat \<Rightarrow> byte" where
  "byte_at B di n = B ! amap B di (n div BSIZE) ! (n mod BSIZE)"

lemma layout_write:
  assumes l: "layout B fb D U" and k: "k \<in> U i" "k < MAXFILE" and d: "length d = BSIZE"
  shows "layout (B[amap B (D i) k := d]) fb D U" "amap (B[amap B (D i) k := d]) (D j) q = amap B (D j) q"
proof -
  note b = layout_block [OF l k(1)] and p = layoutD [OF l]
  have m: "amap (B[amap B (D i) k := d]) (D j) q = amap B (D j) q" for j q
    using layout_inj [OF l _ k(1), of MAXFILE] k(2) by (intro amap_update [OF l]) auto
  then show "amap (B[amap B (D i) k := d]) (D j) q = amap B (D j) q" .
  show "layout (B[amap B (D i) k := d]) fb D U"
    unfolding layout_def m
  proof (intro conjI)
    show "\<forall>c < FSSIZE. length (B[amap B (D i) k := d] ! c) = BSIZE" using p(2) d b(3) by (simp add: nth_list_update)
    show "length (B[amap B (D i) k := d]) = FSSIZE" using p(1) by simp
    show "\<forall>c. fb \<le> c \<and> c < FSSIZE \<longrightarrow> B[amap B (D i) k := d] ! c = replicate BSIZE 0" using p(5) b(1) by auto
  qed (rule p(3,4,6-9))+
qed

lemma nth_put_at:
  assumes "n + length p \<le> length d" "q < length d"
  shows "put_at d n p ! q = (if n \<le> q \<and> q < n + length p then p ! (q - n) else d ! q)"
  using assms by (auto simp: put_at_def nth_append)

text \<open>\<open>appended\<close>: the bytes \<open>p\<close> are at offset \<open>off\<close> of file \<open>i\<close>, and everything before them and in the other files is unchanged.\<close>

definition appended ::
  "nat \<Rightarrow> nat \<Rightarrow> byte list \<Rightarrow> mkfs_state \<Rightarrow> (nat \<Rightarrow> dinode) \<Rightarrow> (nat \<Rightarrow> nat set) \<Rightarrow> mkfs_state \<Rightarrow> (nat \<Rightarrow> dinode) \<Rightarrow> bool" where
  "appended i off p s D U s' D' \<longleftrightarrow>
     freeinode s' = freeinode s \<and> freeblock s' = freeblock s + card (slots (off + length p) - slots off) \<and>
     layout (img s') (freeblock s') D' (U(i := slots (off + length p))) \<and> (\<forall>b < nmeta. img s' ! b = img s ! b) \<and>
     (\<forall>j n. n div BSIZE \<in> U j \<and> n div BSIZE < MAXFILE \<and> (j \<noteq> i \<or> n < off) \<longrightarrow>
       byte_at (img s') (D' j) n = byte_at (img s) (D j) n) \<and>
     (\<forall>q < length p. byte_at (img s') (D' i) (off + q) = p ! q)"

lemma appendedD:
  assumes "appended i off p s D U s' D'"
  shows "freeinode s' = freeinode s" "freeblock s' = freeblock s + card (slots (off + length p) - slots off)"
    "layout (img s') (freeblock s') D' (U(i := slots (off + length p)))" "b < nmeta \<Longrightarrow> img s' ! b = img s ! b"
    "n div BSIZE \<in> U j \<Longrightarrow> n div BSIZE < MAXFILE \<Longrightarrow> j \<noteq> i \<or> n < off \<Longrightarrow>
      byte_at (img s') (D' j) n = byte_at (img s) (D j) n"
    "q < length p \<Longrightarrow> byte_at (img s') (D' i) (off + q) = p ! q"
  using assms unfolding appended_def by blast+

lemma write_bytes_at:
  fixes D i k B n p
  defines "B' \<equiv> B[amap B (D i) k := put_at (B ! amap B (D i) k) n p]"
  assumes l: "layout B fb D U" and k: "k \<in> U i" "k < MAXFILE" and n: "n + length p \<le> BSIZE"
  shows "m div BSIZE \<in> U j \<Longrightarrow> m div BSIZE < MAXFILE \<Longrightarrow>
    byte_at B' (D j) m =
      (if j = i \<and> m div BSIZE = k \<and> n \<le> m mod BSIZE \<and> m mod BSIZE < n + length p then p ! (m mod BSIZE - n)
       else byte_at B (D j) m)"
proof -
  assume m: "m div BSIZE \<in> U j" "m div BSIZE < MAXFILE"
  note b = layout_block [OF l k(1)]
  have a: "amap B' (D j) (m div BSIZE) = amap B (D j) (m div BSIZE)"
    using layout_write(2) [OF l k] n b(5) by (simp add: B'_def)
  have e: "amap B (D j) (m div BSIZE) = amap B (D i) k \<longleftrightarrow> j = i \<and> m div BSIZE = k" using layout_inj [OF l m(1) k(1)] .
  have mm: "m mod BSIZE < length (B ! amap B (D i) k)" using b(5) by (simp add: mkfs_values)
  show ?thesis
  proof (cases "j = i \<and> m div BSIZE = k")
    case True
    then have "byte_at B' (D j) m = put_at (B ! amap B (D i) k) n p ! (m mod BSIZE)"
      using a b(3) by (simp add: byte_at_def B'_def)
    then show ?thesis using True nth_put_at [of n p "B ! amap B (D i) k" "m mod BSIZE"] mm n b(5) by (simp add: byte_at_def)
  next
    case False
    then show ?thesis using a e by (auto simp: byte_at_def B'_def)
  qed
qed

lemma in_block:
  assumes "off mod BSIZE + q < BSIZE"
  shows "(off + q) div BSIZE = off div BSIZE" "(off + q) mod BSIZE = off mod BSIZE + q"
proof -
  have e: "off + q = (off mod BSIZE + q) + off div BSIZE * BSIZE" by simp
  show "(off + q) div BSIZE = off div BSIZE" unfolding e using assms by (subst div_mult_self1) auto
  show "(off + q) mod BSIZE = off mod BSIZE + q" unfolding e using assms by (subst mod_mult_self1) auto
qed

lemma iappend_round_ok:
  assumes l: "layout (img s) (freeblock s) D U" and u: "U i = slots off" and off: "off div BSIZE < MAXFILE"
    and p: "p \<noteq> []" "off mod BSIZE + length p \<le> BSIZE"
    and room: "freeblock s + card (slots (off + length p) - slots off) \<le> FSSIZE"
  shows "\<exists>a s'. iappend_round (D i) off p s = Ok ((D i)\<lparr>di_addrs := a\<rparr>) s' \<and>
    appended i off p s D U s' (D(i := (D i)\<lparr>di_addrs := a\<rparr>))"
proof -
  let ?k = "off div BSIZE" and ?z = "off + length p" and ?n = "off mod BSIZE"
  have "?z \<le> ?k * BSIZE + BSIZE" using add_left_mono [OF p(2), of "?k * BSIZE"] by (simp only: add.assoc [symmetric] div_mult_mod_eq)
  then have z: "off < ?z" "?z \<le> (?k + 1) * BSIZE" using p(1) by simp_all
  have sl: "slots ?z = slots off \<union> slots_of ?k" by (rule slots_step [OF z off])
  have cd: "slots ?z - slots off = slots_of ?k - U i" using sl u by blast
  obtain a x s1 where r: "data_block (D i) ?k s = Ok ((D i)\<lparr>di_addrs := a\<rparr>, x) s1" "freeinode s1 = freeinode s"
      "freeblock s1 = freeblock s + card (slots_of ?k - U i)"
      "layout (img s1) (freeblock s1) (D(i := (D i)\<lparr>di_addrs := a\<rparr>)) (U(i := U i \<union> slots_of ?k))"
      "kept (img s) D U (img s1) (D(i := (D i)\<lparr>di_addrs := a\<rparr>))" "x = amap (img s1) ((D i)\<lparr>di_addrs := a\<rparr>) ?k"
    using data_block_direct [OF l, of ?k i] data_block_indirect [OF l _ off, of i] room unfolding cd
    by (cases "?k < NDIRECT") (fastforce simp: not_less)+
  define D' where "D' = D(i := (D i)\<lparr>di_addrs := a\<rparr>)"
  define U' where "U' = U(i := slots ?z)"
  have U': "U(i := U i \<union> slots_of ?k) = U'" using sl u by (simp add: U'_def)
  have l1: "layout (img s1) (freeblock s1) D' U'" using r(4) by (simp only: U' D'_def)
  have k: "?k \<in> U' i" using sl by (simp add: U'_def slots_of_def)
  have x: "x = amap (img s1) (D' i) ?k" using r(6) by (simp add: D'_def)
  note b = layout_block [OF l1 k, folded x]
  let ?B = "(img s1)[x := put_at (img s1 ! x) ?n p]"
  have run: "iappend_round (D i) off p s = Ok ((D i)\<lparr>di_addrs := a\<rparr>) (s1\<lparr>img := ?B\<rparr>)"
    using off r(1) b(3) by (simp add: iappend_round_def rsect_def wsect_def minus_div_mult_eq_mod)
  have w: "layout ?B (freeblock s1) D' U'" using layout_write(1) [OF l1 k off, of "put_at (img s1 ! x) ?n p"] b(5) p(2) by (simp add: x)
  note by1 = write_bytes_at [OF l1 k off p(2), folded x]
  have "appended i off p s D U (s1\<lparr>img := ?B\<rparr>) D'"
    unfolding appended_def
  proof (intro conjI allI impI)
    fix j n assume n: "n div BSIZE \<in> U j \<and> n div BSIZE < MAXFILE \<and> (j \<noteq> i \<or> n < off)"
    have "n div BSIZE \<in> U' j" using n sl u by (auto simp: U'_def)
    moreover have "\<not> (j = i \<and> n div BSIZE = ?k \<and> ?n \<le> n mod BSIZE)"
      using n by (metis add_le_cancel_left mult_div_mod_eq not_less)
    ultimately have "byte_at ?B (D' j) n = byte_at (img s1) (D' j) n" using by1 [of n j] n by auto
    also have "\<dots> = byte_at (img s) (D j) n" using r(5) n unfolding kept_def D'_def [symmetric] by (simp add: byte_at_def)
    finally show "byte_at (img (s1\<lparr>img := ?B\<rparr>)) (D' j) n = byte_at (img s) (D j) n" by simp
  next
    fix q assume q: "q < length p"
    have d: "(off + q) div BSIZE = ?k" "(off + q) mod BSIZE = ?n + q"
      using p(2) q in_block [of off q] by simp_all
    show "byte_at (img (s1\<lparr>img := ?B\<rparr>)) (D' i) (off + q) = p ! q"
      using by1 [of "off + q" i] k off q by (simp add: d)
  qed (use r w b p(2) cd in \<open>simp_all add: U'_def kept_def\<close>)
  then show ?thesis using run by (auto simp: D'_def)
qed

end
