(* ===== verification/Mkfiles.thy ===== *)
theory Mkfiles
  imports Mkimage
begin

section \<open>The files in the image\<close>

text \<open>
  From one round of the loop of \<open>iappend\<close> to the whole of \<open>mkfs\<close>: appending extends one file and leaves the others as
  they are, and the image that the program writes holds the superblock the kernel expects, the contents of every
  file in its own inode and a root directory with an entry for each of them.
\<close>

lemma card_slots_diff:
  assumes "a \<le> b" "b \<le> c"
  shows "card (slots c - slots a) = card (slots b - slots a) + card (slots c - slots b)"
proof -
  have m: "slots a \<subseteq> slots b" "slots b \<subseteq> slots c" using assms slots_mono by auto
  then have "slots c - slots a = (slots b - slots a) \<union> (slots c - slots b)" by blast
  moreover have "(slots b - slots a) \<inter> (slots c - slots b) = {}" by blast
  ultimately show ?thesis using finite_slots by (simp add: card_Un_disjoint)
qed

lemma slot_in: "n < m \<Longrightarrow> n div BSIZE < MAXFILE \<Longrightarrow> n div BSIZE \<in> slots m"
  using le_less_trans [OF div_times_less_eq_dividend [of n BSIZE]] by (simp add: slots_def)

lemma file_block: "n < m \<Longrightarrow> m \<le> MAXFILE * BSIZE \<Longrightarrow> n div BSIZE < MAXFILE"
  by (simp add: mkfs_values)

subsection \<open>Appending\<close>

lemma appended_nil:
  assumes "layout (img s) (freeblock s) D U" "U i = slots off"
  shows "appended i off [] s D U s D"
  using assms by (simp add: appended_def fun_upd_idem)

lemma appended_trans:
  assumes a: "appended i off p s D U s1 D1" and b: "appended i (off + length p) q s1 D1 (U(i := slots (off + length p))) s2 D2"
    and u: "U i = slots off" and off: "off + length p \<le> MAXFILE * BSIZE"
  shows "appended i off (p @ q) s D U s2 D2"
  unfolding appended_def
proof (intro conjI allI impI)
  show "freeinode s2 = freeinode s" using appendedD(1) [OF a] appendedD(1) [OF b] by simp
  show "freeblock s2 = freeblock s + card (slots (off + length (p @ q)) - slots off)"
    using appendedD(2) [OF a] appendedD(2) [OF b] card_slots_diff [of off "off + length p" "off + length p + length q"]
    by (simp add: add.assoc)
  show "layout (img s2) (freeblock s2) D2 (U(i := slots (off + length (p @ q))))"
    using appendedD(3) [OF b] by (simp add: add.assoc)
  fix c assume "c < nmeta"
  then show "img s2 ! c = img s ! c" using appendedD(4) [OF a] appendedD(4) [OF b] by simp
next
  fix j n assume n: "n div BSIZE \<in> U j \<and> n div BSIZE < MAXFILE \<and> (j \<noteq> i \<or> n < off)"
  have "n div BSIZE \<in> (U(i := slots (off + length p))) j" using n slot_in [of n "off + length p"] by auto
  then show "byte_at (img s2) (D2 j) n = byte_at (img s) (D j) n"
    using appendedD(5) [OF a, of n j] appendedD(5) [OF b, of n j] n by auto
next
  fix k assume k: "k < length (p @ q)"
  show "byte_at (img s2) (D2 i) (off + k) = (p @ q) ! k"
  proof (cases "k < length p")
    case True
    then have "(off + k) div BSIZE < MAXFILE" using off by (intro file_block) auto
    then show ?thesis using True appendedD(6) [OF a True] appendedD(5) [OF b, of "off + k" i] slot_in [of "off + k" "off + length p"]
      by (simp add: nth_append)
  next
    case False
    then show ?thesis using k appendedD(6) [OF b, of "k - length p"] by (simp add: nth_append)
  qed
qed

lemma iappend_loop_ok:
  assumes "layout (img s) (freeblock s) D U" "U i = slots off" "off + length p \<le> MAXFILE * BSIZE"
    "freeblock s + card (slots (off + length p) - slots off) \<le> FSSIZE"
  shows "\<exists>a s'. iappend_loop (D i) off p s = Ok ((D i)\<lparr>di_addrs := a\<rparr>, off + length p) s' \<and>
    appended i off p s D U s' (D(i := (D i)\<lparr>di_addrs := a\<rparr>))"
  using assms
proof (induction p arbitrary: off s D U rule: length_induct)
  case (1 p)
  note l = "1.prems"
  show ?case
  proof (cases "p = []")
    case True
    have "appended i off p s D U s D" using appended_nil [OF l(1,2)] True by simp
    then show ?thesis using True by (intro exI [of _ "di_addrs (D i)"] exI [of _ s]) (simp add: iappend_loop.simps [of _ _ "[]"])
  next
    case False
    define n1 where "n1 = min (length p) ((off div BSIZE + 1) * BSIZE - off)"
    let ?p = "take n1 p" and ?q = "drop n1 p"
    have e: "(off div BSIZE + 1) * BSIZE - off = BSIZE - off mod BSIZE"
      using minus_div_mult_eq_mod [of off BSIZE] div_times_less_eq_dividend [of off BSIZE] unfolding add_mult_distrib by linarith
    have n1: "0 < n1" "off mod BSIZE + n1 \<le> BSIZE" "n1 \<le> length p"
      using False unfolding n1_def e by (auto simp: mkfs_values)
    have ob: "off div BSIZE < MAXFILE" using file_block [OF _ l(3), of off] False by simp
    have lp: "length ?p = n1" "?p \<noteq> []" "length ?q = length p - n1" "length ?q < length p" "?p @ ?q = p" using n1 by auto
    have room: "freeblock s + card (slots (off + n1) - slots off) + card (slots (off + length p) - slots (off + n1)) \<le> FSSIZE"
      using card_slots_diff [of off "off + n1" "off + length p"] n1 l(4) by simp
    obtain a s1 where r: "iappend_round (D i) off ?p s = Ok ((D i)\<lparr>di_addrs := a\<rparr>) s1"
        "appended i off ?p s D U s1 (D(i := (D i)\<lparr>di_addrs := a\<rparr>))"
      using iappend_round_ok [OF l(1,2) ob lp(2), unfolded lp(1), OF n1(2) add_leD1 [OF room]] by blast
    define D1 where "D1 = D(i := (D i)\<lparr>di_addrs := a\<rparr>)"
    let ?U = "U(i := slots (off + n1))"
    note r2 = r(2) [folded D1_def]
    obtain b s2 where t: "iappend_loop (D1 i) (off + n1) ?q s1 = Ok ((D1 i)\<lparr>di_addrs := b\<rparr>, off + n1 + length ?q) s2"
        "appended i (off + n1) ?q s1 D1 ?U s2 (D1(i := (D1 i)\<lparr>di_addrs := b\<rparr>))"
    proof -
      have "layout (img s1) (freeblock s1) D1 ?U" "?U i = slots (off + n1)" "off + n1 + length ?q \<le> MAXFILE * BSIZE"
        "freeblock s1 + card (slots (off + n1 + length ?q) - slots (off + n1)) \<le> FSSIZE"
        using appendedD(2,3) [OF r2] lp n1 l(3) room by simp_all
      then show thesis using "1.IH" [rule_format, OF lp(4), of s1 D1 ?U "off + n1"] that by blast
    qed
    have D2: "D1(i := (D1 i)\<lparr>di_addrs := b\<rparr>) = D(i := (D i)\<lparr>di_addrs := b\<rparr>)" by (simp add: D1_def)
    have "iappend_loop (D i) off p s = (case iappend_round (D i) off ?p s of
        Ok din s \<Rightarrow> iappend_loop din (off + n1) ?q s | Panic m \<Rightarrow> Panic m | Switch s \<Rightarrow> Switch s | Spin s \<Rightarrow> Spin s)"
      by (subst iappend_loop.simps) (simp only: False if_False Let_def n1_def)
    then have "iappend_loop (D i) off p s = Ok ((D i)\<lparr>di_addrs := b\<rparr>, off + length p) s2"
      using t(1) r(1) lp(3) n1(3) by (simp add: D1_def)
    moreover have "appended i off p s D U s2 (D(i := (D i)\<lparr>di_addrs := b\<rparr>))"
    proof -
      have t2: "appended i (off + length ?p) ?q s1 D1 (U(i := slots (off + length ?p))) s2 (D(i := (D i)\<lparr>di_addrs := b\<rparr>))"
        using t(2) by (simp only: lp(1) D2)
      have ol: "off + length ?p \<le> MAXFILE * BSIZE" using l(3) n1(3) unfolding lp(1) by linarith
      show ?thesis using appended_trans [OF r2 t2 l(2) ol] unfolding lp(5) .
    qed
    ultimately show ?thesis by blast
  qed
qed

subsection \<open>Inodes\<close>

definition inode_at :: "byte list list \<Rightarrow> nat \<Rightarrow> dinode" where
  "inode_at B j = get_dinode (B ! unat (IBLOCK (of_nat j) mkfs_sb)) (j mod IPB)"

definition file_bytes :: "byte list list \<Rightarrow> dinode \<Rightarrow> byte list" where
  "file_bytes B di = map (byte_at B di) [0..<unat (di_size di)]"

abbreviation size_of :: "dinode \<Rightarrow> nat" where
  "size_of di \<equiv> unat (di_size di)"

text \<open>The image of a state: every inode is stored in its slot and uses the blocks its size calls for.\<close>

definition fs_image :: "mkfs_state \<Rightarrow> (nat \<Rightarrow> dinode) \<Rightarrow> bool" where
  "fs_image s D \<longleftrightarrow>
     layout (img s) (freeblock s) D (\<lambda>j. slots (size_of (D j))) \<and> (\<forall>j < NINODES. inode_at (img s) j = D j) \<and>
     (\<forall>j. size_of (D j) \<le> MAXFILE * BSIZE) \<and> (\<forall>j \<ge> freeinode s. size_of (D j) = 0)"

lemma fs_imageD:
  assumes "fs_image s D"
  shows "layout (img s) (freeblock s) D (\<lambda>j. slots (size_of (D j)))" "j < NINODES \<Longrightarrow> inode_at (img s) j = D j"
    "size_of (D j) \<le> MAXFILE * BSIZE" "freeinode s \<le> j \<Longrightarrow> size_of (D j) = 0"
  using assms unfolding fs_image_def by blast+

lemma IBLOCK_value:
  assumes "j < NINODES"
  shows "unat (IBLOCK (of_nat j) mkfs_sb) = 33 + j div IPB"
proof -
  have "j < 200" using assms by (simp add: mkfs_values)
  then have "unat (of_nat j div 16 + 33 :: uint32) = j div 16 + 33"
    by (simp add: unat_word_ariths unat_div unat_of_nat)
  then show ?thesis by (simp add: IBLOCK_def mkfs_sb_def mkfs_consts)
qed

lemma inode_block: "j < NINODES \<Longrightarrow> 33 \<le> 33 + j div IPB" "j < NINODES \<Longrightarrow> 33 + j div IPB < nmeta" "j mod IPB < IPB"
  by (simp_all add: mkfs_values)

lemma inode_at_eq: "j < NINODES \<Longrightarrow> inode_at B j = get_dinode (B ! (33 + j div IPB)) (j mod IPB)"
  by (simp add: inode_at_def IBLOCK_value)

lemma rinode_ok:
  assumes "fs_image s D" "j < NINODES"
  shows "rinode j s = Ok (D j) s"
proof -
  have "33 + j div IPB < length (img s)" using layoutD(1) [OF fs_imageD(1) [OF assms(1)]] assms(2) by (simp add: mkfs_values)
  then show ?thesis using fs_imageD(2) [OF assms] by (simp add: rinode_def rsect_def IBLOCK_value [OF assms(2)] inode_at_eq [OF assms(2)] assms(2))
qed

text \<open>The layout depends on the slots only, and not on the contents of the metadata.\<close>

lemma layout_cong:
  assumes "layout B fb D U" "\<And>j k. k \<le> MAXFILE \<Longrightarrow> amap B' (D' j) k = amap B (D j) k" "\<And>j. dinode_wf (D' j)"
    "length B' = FSSIZE" "\<And>b. b < FSSIZE \<Longrightarrow> length (B' ! b) = BSIZE" "\<And>b. nmeta \<le> b \<Longrightarrow> b < FSSIZE \<Longrightarrow> B' ! b = B ! b"
  shows "layout B' fb D' U"
proof -
  note d = layoutD [OF assms(1)]
  have le: "k \<le> MAXFILE" if "k \<in> U j" for k j using that d(6) by blast
  show ?thesis
    unfolding layout_def
  proof (intro conjI)
    show "\<forall>b. fb \<le> b \<and> b < FSSIZE \<longrightarrow> B' ! b = replicate BSIZE 0" using d(3,5) assms(6) by simp
    show "\<forall>j k. k \<le> MAXFILE \<longrightarrow> (amap B' (D' j) k \<noteq> 0) = (k \<in> U j)" using d(7) assms(2) by simp
    show "\<forall>j k. k \<in> U j \<longrightarrow> nmeta \<le> amap B' (D' j) k \<and> amap B' (D' j) k < fb" using d(8) assms(2) le by simp
    show "\<forall>j k j' k'. k \<in> U j \<and> k' \<in> U j' \<and> amap B' (D' j) k = amap B' (D' j') k' \<longrightarrow> j = j' \<and> k = k'"
      using d(9) assms(2) le by metis
  qed (use d(3,4,6) assms(3-5) in auto)
qed

text \<open>Storing an inode.\<close>

definition put_inode :: "byte list list \<Rightarrow> nat \<Rightarrow> dinode \<Rightarrow> byte list list" where
  "put_inode B i di = B[33 + i div IPB := put_dinode (B ! (33 + i div IPB)) (i mod IPB) di]"

lemma winode_eq:
  assumes "length (img s) = FSSIZE" "i < NINODES"
  shows "winode i di s = Ok () (s\<lparr>img := put_inode (img s) i di\<rparr>)"
proof -
  have "33 + i div IPB < length (img s)" using assms by (simp add: mkfs_values)
  then show ?thesis by (simp add: winode_def Let_def IBLOCK_value [OF assms(2)] rsect_def wsect_def put_inode_def)
qed

lemma put_inode_block:
  assumes "length B = FSSIZE" "\<forall>b < FSSIZE. length (B ! b) = BSIZE" "i < NINODES" "dinode_wf di"
  shows "length (put_inode B i di) = FSSIZE" "b < FSSIZE \<Longrightarrow> length (put_inode B i di ! b) = BSIZE"
    "nmeta \<le> b \<or> b < 33 \<Longrightarrow> put_inode B i di ! b = B ! b"
proof -
  have i: "33 + i div IPB < nmeta" "nmeta \<le> FSSIZE" using assms(3) by (simp_all add: mkfs_values)
  show "length (put_inode B i di) = FSSIZE" using assms(1) by (simp add: put_inode_def)
  show "length (put_inode B i di ! b) = BSIZE" if "b < FSSIZE"
    using assms that i by (simp add: put_inode_def nth_list_update length_put_dinode inode_block(3))
  show "put_inode B i di ! b = B ! b" if "nmeta \<le> b \<or> b < 33"
    using that i by (auto simp: put_inode_def)
qed

lemma inode_at_put:
  assumes "length B = FSSIZE" "\<forall>b < FSSIZE. length (B ! b) = BSIZE" "i < NINODES" "dinode_wf di" "j < NINODES"
  shows "inode_at (put_inode B i di) j = (if j = i then di else inode_at B j)"
proof (cases "j div IPB = i div IPB")
  case True
  have b: "33 + i div IPB < FSSIZE" using assms(3) by (simp add: mkfs_values)
  have "j mod IPB = i mod IPB \<longleftrightarrow> j = i" using True by (metis div_mult_mod_eq)
  then show ?thesis
    using get_put_dinode [OF assms(4) _ inode_block(3) inode_block(3), of "B ! (33 + i div IPB)" i j] assms(1,2) b True
    by (simp add: inode_at_eq [OF assms(5)] put_inode_def)
next
  case False
  then show ?thesis by (auto simp: inode_at_eq [OF assms(5)] put_inode_def)
qed

lemma amap_put_inode:
  assumes "layout B fb D U" "i < NINODES"
  shows "amap (put_inode B i di) (D j) k = amap B (D j) k"
proof -
  have "33 + i div IPB < nmeta" using assms(2) by (rule inode_block(2))
  then show ?thesis
    unfolding put_inode_def using layout_block(4) [OF assms(1)] by (intro amap_update [OF assms(1)]) fastforce
qed

lemma byte_at_put_inode:
  assumes l: "layout B fb D U" and i: "i < NINODES" "dinode_wf di" and n: "n div BSIZE \<in> U j"
  shows "byte_at (put_inode B i di) (D j) n = byte_at B (D j) n"
  using put_inode_block(3) [OF layoutD(1,2) [OF l] i] layout_block(4) [OF l n]
  by (simp add: byte_at_def amap_put_inode [OF l i(1)])

lemma amap_same_addrs: "di_addrs di = di_addrs di' \<Longrightarrow> amap B di k = amap B di' k"
  by (simp add: amap_def)

lemma byte_at_same_addrs: "di_addrs di = di_addrs di' \<Longrightarrow> byte_at B di n = byte_at B di' n"
  using amap_same_addrs [of di di' B] by (simp add: byte_at_def)

text \<open>\<open>extends\<close>: file \<open>i\<close> is longer by the bytes \<open>p\<close>, and nothing else has changed.\<close>

definition extends :: "nat \<Rightarrow> byte list \<Rightarrow> mkfs_state \<Rightarrow> (nat \<Rightarrow> dinode) \<Rightarrow> mkfs_state \<Rightarrow> (nat \<Rightarrow> dinode) \<Rightarrow> bool" where
  "extends i p s D s' D' \<longleftrightarrow>
     fs_image s' D' \<and> freeinode s' = freeinode s \<and>
     freeblock s' = freeblock s + card (slots (size_of (D i) + length p) - slots (size_of (D i))) \<and>
     size_of (D' i) = size_of (D i) + length p \<and> di_type (D' i) = di_type (D i) \<and>
     file_bytes (img s') (D' i) = file_bytes (img s) (D i) @ p \<and>
     (\<forall>j. j \<noteq> i \<longrightarrow> D' j = D j \<and> file_bytes (img s') (D j) = file_bytes (img s) (D j)) \<and> (\<forall>b < 33. img s' ! b = img s ! b)"

lemma extendsD:
  assumes "extends i p s D s' D'"
  shows "fs_image s' D'" "freeinode s' = freeinode s"
    "freeblock s' = freeblock s + card (slots (size_of (D i) + length p) - slots (size_of (D i)))"
    "size_of (D' i) = size_of (D i) + length p" "di_type (D' i) = di_type (D i)"
    "file_bytes (img s') (D' i) = file_bytes (img s) (D i) @ p"
    "j \<noteq> i \<Longrightarrow> D' j = D j" "j \<noteq> i \<Longrightarrow> file_bytes (img s') (D j) = file_bytes (img s) (D j)"
    "b < 33 \<Longrightarrow> img s' ! b = img s ! b"
  using assms unfolding extends_def by blast+

lemma store_inode:
  assumes l: "layout B fb D U" and i: "i < NINODES" and a: "di_addrs di = di_addrs (D i)"
  shows "dinode_wf di" "layout (put_inode B i di) fb (D(i := di)) U"
    "n div BSIZE \<in> U j \<Longrightarrow> byte_at (put_inode B i di) ((D(i := di)) j) n = byte_at B (D j) n"
proof -
  have wf: "dinode_wf ((D(i := di)) j)" for j using layoutD(6) [OF l] a by (auto simp: dinode_wf_def)
  show wdi: "dinode_wf di" using wf [of i] by simp
  have addrs: "di_addrs ((D(i := di)) j) = di_addrs (D j)" for j using a by simp
  note pb = put_inode_block [OF layoutD(1,2) [OF l] i wdi]
  have m: "amap (put_inode B i di) ((D(i := di)) j) k = amap B (D j) k" for j k
    using amap_put_inode [OF l i] amap_same_addrs [OF addrs] by simp
  show "layout (put_inode B i di) fb (D(i := di)) U" using layout_cong [OF l m wf pb(1,2)] pb(3) by blast
  show "byte_at (put_inode B i di) ((D(i := di)) j) n = byte_at B (D j) n" if "n div BSIZE \<in> U j"
    using byte_at_put_inode [OF l i wdi that] byte_at_same_addrs [OF addrs] by simp
qed

lemma unat_size: "m \<le> MAXFILE * BSIZE \<Longrightarrow> unat (of_nat m :: uint32) = m"
  by (simp add: mkfs_values unat_of_nat)

lemma iappend_ok:
  assumes im: "fs_image s D" and i: "i < NINODES" "i < freeinode s" and sz: "size_of (D i) + length p \<le> MAXFILE * BSIZE"
    and room: "freeblock s + card (slots (size_of (D i) + length p) - slots (size_of (D i))) \<le> FSSIZE"
  shows "\<exists>s' D'. iappend i p s = Ok () s' \<and> extends i p s D s' D'"
proof -
  let ?off = "size_of (D i)" and ?U = "\<lambda>j. slots (size_of (D j))"
  note l = fs_imageD(1) [OF im]
  obtain a s1 where r: "iappend_loop (D i) ?off p s = Ok ((D i)\<lparr>di_addrs := a\<rparr>, ?off + length p) s1"
      "appended i ?off p s D ?U s1 (D(i := (D i)\<lparr>di_addrs := a\<rparr>))"
    using iappend_loop_ok [OF l refl sz room] by blast
  define D1 where "D1 = D(i := (D i)\<lparr>di_addrs := a\<rparr>)"
  define di where "di = (D i)\<lparr>di_addrs := a, di_size := of_nat (?off + length p)\<rparr>"
  define D' where "D' = D(i := di)"
  note ap = appendedD [OF r(2) [folded D1_def]]
  note l1 = ap(3)
  have "di_size di = of_nat (?off + length p)" by (simp add: di_def del: of_nat_add)
  then have size: "size_of di = ?off + length p" by (simp only: unat_size [OF sz])
  have U: "?U(i := slots (?off + length p)) = (\<lambda>j. slots (size_of (D' j)))" by (rule ext) (simp add: D'_def size)
  have upd: "D1(i := di) = D'" by (simp add: D1_def D'_def)
  let ?B = "put_inode (img s1) i di"
  have "di_addrs di = di_addrs (D1 i)" by (simp add: D1_def di_def)
  note st = store_inode [OF l1 i(1) this, unfolded upd]
  note wdi = st(1) and pb = put_inode_block [OF layoutD(1,2) [OF l1] i(1) st(1)]
  have l2: "layout ?B (freeblock s1) D' (\<lambda>j. slots (size_of (D' j)))" using st(2) unfolding U .
  have at: "byte_at ?B (D' j) n = byte_at (img s1) (D1 j) n" if "n < size_of (D' j)" for j n
  proof -
    have "size_of (D' j) \<le> MAXFILE * BSIZE" using sz fs_imageD(3) [OF im] size by (simp add: D'_def)
    then show ?thesis using st(3) [of n j] slot_in [OF that file_block [OF that]] unfolding U by blast
  qed
  have old: "byte_at (img s1) (D1 j) n = byte_at (img s) (D j) n" if "n < size_of (D j)" for j n
    using that slot_in [OF that file_block [OF that fs_imageD(3) [OF im]]] file_block [OF that fs_imageD(3) [OF im]] by (intro ap(5)) auto
  have run: "iappend i p s = Ok () (s1\<lparr>img := ?B\<rparr>)"
    using winode_eq [OF layoutD(1) [OF l1] i(1)] by (simp add: iappend_def rinode_ok [OF im i(1)] r(1) di_def)
  have "inode_at ?B j = D' j" if "j < NINODES" for j
  proof -
    have "inode_at (img s1) j = inode_at (img s) j" using ap(4) inode_block(2) [OF that] by (simp add: inode_at_eq [OF that])
    then show ?thesis using inode_at_put [OF layoutD(1,2) [OF l1] i(1) wdi that] fs_imageD(2) [OF im that] by (simp add: D'_def)
  qed
  then have "fs_image (s1\<lparr>img := ?B\<rparr>) D'"
    unfolding fs_image_def using l2 sz size i(2) fs_imageD(3,4) [OF im] ap(1) by (auto simp: D'_def)
  moreover have "file_bytes ?B (D' i) = file_bytes (img s) (D i) @ p"
  proof (rule nth_equalityI)
    fix n assume "n < length (file_bytes ?B (D' i))"
    then have n: "n < ?off + length p" by (simp add: file_bytes_def D'_def size)
    then show "file_bytes ?B (D' i) ! n = (file_bytes (img s) (D i) @ p) ! n"
      using at [of n i] old [of n i] ap(6) [of "n - ?off"] by (auto simp: file_bytes_def nth_append D'_def size)
  qed (simp add: file_bytes_def D'_def size)
  moreover have "file_bytes ?B (D j) = file_bytes (img s) (D j)" if "j \<noteq> i" for j
    using that at [of _ j] old [of _ j] by (simp add: file_bytes_def D'_def)
  moreover have "?B ! b = img s ! b" if "b < 33" for b
    using that pb(3) ap(4) [of b] by (simp add: mkfs_values)
  ultimately have "extends i p s D (s1\<lparr>img := ?B\<rparr>) D'"
    unfolding extends_def using ap(1,2) size by (simp add: D'_def di_def)
  then show ?thesis using run by blast
qed

lemma extends_trans:
  assumes "extends i p s D s1 D1" "extends i q s1 D1 s2 D2"
  shows "extends i (p @ q) s D s2 D2"
proof -
  note a = extendsD [OF assms(1)] and b = extendsD [OF assms(2)]
  have "freeblock s2 = freeblock s + card (slots (size_of (D i) + length (p @ q)) - slots (size_of (D i)))"
    using a(3,4) b(3) card_slots_diff [of "size_of (D i)" "size_of (D i) + length p" "size_of (D i) + length (p @ q)"]
    by (simp add: add.assoc)
  then show ?thesis
    unfolding extends_def using a(1,2,4-6) a(7-9) b(1,2,4-6) b(7-9) by simp
qed

lemma extends_nil: "fs_image s D \<Longrightarrow> extends i [] s D s D"
  by (simp add: extends_def)

lemma appends_ok:
  assumes "fs_image s D" "i < NINODES" "i < freeinode s" "size_of (D i) + length (concat bs) \<le> MAXFILE * BSIZE"
    "freeblock s + card (slots (size_of (D i) + length (concat bs)) - slots (size_of (D i))) \<le> FSSIZE"
  shows "\<exists>s' D'. for_each (iappend i) bs s = Ok () s' \<and> extends i (concat bs) s D s' D'"
  using assms
proof (induction bs arbitrary: s D)
  case Nil
  then show ?case using extends_nil by auto
next
  case (Cons b bs)
  have c: "card (slots (size_of (D i) + length (concat (b # bs))) - slots (size_of (D i))) =
      card (slots (size_of (D i) + length b) - slots (size_of (D i))) +
      card (slots (size_of (D i) + length b + length (concat bs)) - slots (size_of (D i) + length b))"
    using card_slots_diff [of "size_of (D i)" "size_of (D i) + length b" "size_of (D i) + length (concat (b # bs))"] by (simp add: add.assoc)
  obtain s1 D1 where r: "iappend i b s = Ok () s1" "extends i b s D s1 D1"
    using iappend_ok [OF Cons.prems(1-3), of b] Cons.prems(4,5) c by auto
  note x = extendsD [OF r(2)]
  obtain s2 D2 where t: "for_each (iappend i) bs s1 = Ok () s2" "extends i (concat bs) s1 D1 s2 D2"
    using Cons.IH [OF x(1) Cons.prems(2)] x(2-4) Cons.prems(3-5) c by (auto simp: add.assoc)
  show ?case using r(1) t(1) extends_trans [OF r(2) t(2)] by auto
qed

subsection \<open>New files\<close>

definition new_dinode :: "uint16 \<Rightarrow> dinode" where
  "new_dinode t = \<lparr>di_type = t, di_major = 0, di_minor = 0, di_nlink = 1, di_size = 0, di_addrs = replicate (NDIRECT + 1) 0\<rparr>"

lemma amap_no_addrs: "di_addrs di = replicate (NDIRECT + 1) 0 \<Longrightarrow> amap B di k = 0"
proof -
  assume "di_addrs di = replicate (NDIRECT + 1) 0"
  then have "di_addrs di ! k = 0" if "k \<le> NDIRECT" for k using that by (simp del: replicate_Suc)
  then show ?thesis by (auto simp: amap_def)
qed

lemma slots_0: "slots 0 = {}"
  by (simp add: slots_def)

lemma mk_ialloc_ok:
  fixes s
  defines "i \<equiv> freeinode s"
  assumes im: "fs_image s D" and i: "freeinode s < NINODES"
  shows "\<exists>s'. mk_ialloc t s = Ok i s' \<and> fs_image s' (D(i := new_dinode t)) \<and> freeinode s' = i + 1 \<and> freeblock s' = freeblock s \<and>
    (\<forall>j. file_bytes (img s') (D j) = file_bytes (img s) (D j)) \<and> (\<forall>b < 33. img s' ! b = img s ! b)"
proof -
  note l = fs_imageD(1) [OF im]
  let ?B = "put_inode (img s) i (new_dinode t)" and ?D = "D(i := new_dinode t)"
  have iN: "i < NINODES" using i by (simp add: i_def)
  have wf: "dinode_wf (new_dinode t)" by (simp add: new_dinode_def dinode_wf_def)
  have z: "size_of (D i) = 0" "size_of (new_dinode t) = 0" using fs_imageD(4) [OF im] by (simp_all add: i_def new_dinode_def)
  note pb = put_inode_block [OF layoutD(1,2) [OF l] iN wf]
  have m: "amap ?B (?D j) k = amap (img s) (D j) k" if "k \<le> MAXFILE" for j k
  proof (cases "j = i")
    case True
    have "amap (img s) (D i) k = 0" using layout_slot [OF l that, of i] z(1) slots_0 by auto
    then show ?thesis using True amap_no_addrs [of "new_dinode t"] by (simp add: new_dinode_def)
  qed (use amap_put_inode [OF l iN] in simp)
  have U: "(\<lambda>j. slots (size_of (D j))) = (\<lambda>j. slots (size_of (?D j)))" using z by (intro ext) simp
  have wfs: "dinode_wf (?D j)" for j using wf layoutD(6) [OF l] by simp
  have "layout ?B (freeblock s) ?D (\<lambda>j. slots (size_of (?D j)))"
    using layout_cong [OF l m wfs pb(1,2)] pb(3) unfolding U by blast
  moreover have "inode_at ?B j = ?D j" if "j < NINODES" for j
    using inode_at_put [OF layoutD(1,2) [OF l] iN wf that] fs_imageD(2) [OF im that] by simp
  ultimately have "fs_image (s\<lparr>freeinode := i + 1, img := ?B\<rparr>) ?D"
    using fs_imageD(3,4) [OF im] z unfolding fs_image_def by (auto simp: i_def)
  moreover have "file_bytes ?B (D j) = file_bytes (img s) (D j)" for j
  proof -
    have "byte_at ?B (D j) n = byte_at (img s) (D j) n" if "n < size_of (D j)" for n
      using byte_at_put_inode [OF l iN wf] slot_in [OF that file_block [OF that fs_imageD(3) [OF im]]] by simp
    then show ?thesis by (simp add: file_bytes_def)
  qed
  moreover have "mk_ialloc t s = Ok i (s\<lparr>freeinode := i + 1, img := ?B\<rparr>)"
    using winode_eq [of "s\<lparr>freeinode := i + 1\<rparr>" i] layoutD(1) [OF l] iN
    by (simp add: mk_ialloc_def Let_def i_def new_dinode_def)
  ultimately show ?thesis using pb(3) by (intro exI [of _ "s\<lparr>freeinode := i + 1, img := ?B\<rparr>"]) (simp add: mkfs_values)
qed

lemma length_mk_dirent: "length (mk_dirent inum name) = 16"
proof -
  have f: "length (zero_fill n s) = n" if "length s = n" for n and s :: "byte list" using that by (induction n arbitrary: s) auto
  have "length (strncpy n s t) = n" if "length s = n" for n s t
    using that by (induction n arbitrary: s t) (auto simp: f)
  then show ?thesis by (simp add: mk_dirent_def dirent_bytes_def DIRSIZ_def del: strncpy.simps)
qed

text \<open>A file mkfs accepts: its name fits a directory entry and has no slash, and it can be read and is not too long.\<close>

definition good_file :: "(byte list \<Rightarrow> byte list list option) \<Rightarrow> byte list \<Rightarrow> bool" where
  "good_file reads a \<longleftrightarrow>
     47 \<notin> set (cstr (fst (stored_name a))) \<and> length (cstr (snd (stored_name a))) \<le> DIRSIZ \<and>
     (case reads a of None \<Rightarrow> False | Some bs \<Rightarrow> length (concat bs) \<le> MAXFILE * BSIZE)"

definition read_all :: "(byte list \<Rightarrow> byte list list option) \<Rightarrow> byte list \<Rightarrow> byte list" where
  "read_all reads a = (case reads a of None \<Rightarrow> [] | Some bs \<Rightarrow> concat bs)"

text \<open>What a new file leaves behind.\<close>

definition added :: "byte list \<Rightarrow> byte list \<Rightarrow> mkfs_state \<Rightarrow> (nat \<Rightarrow> dinode) \<Rightarrow> mkfs_state \<Rightarrow> (nat \<Rightarrow> dinode) \<Rightarrow> bool" where
  "added name p s D s' D' \<longleftrightarrow>
     fs_image s' D' \<and> freeinode s' = freeinode s + 1 \<and>
     freeblock s' = freeblock s + card (slots (size_of (D 1) + 16) - slots (size_of (D 1))) + card (slots (length p)) \<and>
     size_of (D' 1) = size_of (D 1) + 16 \<and> di_type (D' 1) = di_type (D 1) \<and>
     file_bytes (img s') (D' 1) = file_bytes (img s) (D 1) @ mk_dirent (freeinode s) name \<and>
     di_type (D' (freeinode s)) = T_FILE \<and> file_bytes (img s') (D' (freeinode s)) = p \<and>
     (\<forall>j. j \<noteq> 1 \<and> j \<noteq> freeinode s \<longrightarrow> D' j = D j \<and> file_bytes (img s') (D j) = file_bytes (img s) (D j)) \<and>
     (\<forall>b < 33. img s' ! b = img s ! b)"

lemma add_file_ok:
  assumes im: "fs_image s D" and i: "1 < freeinode s" "freeinode s < NINODES" and g: "good_file reads a"
    and sz: "size_of (D 1) + 16 \<le> MAXFILE * BSIZE"
    and room: "freeblock s + card (slots (size_of (D 1) + 16) - slots (size_of (D 1))) + card (slots (length (read_all reads a))) \<le> FSSIZE"
  shows "\<exists>s' D'. add_file reads 1 a s = Ok () s' \<and> added (snd (stored_name a)) (read_all reads a) s D s' D'"
proof -
  let ?i = "freeinode s" and ?e = "mk_dirent (freeinode s) (snd (stored_name a))"
  obtain bs where bs: "reads a = Some bs" "length (concat bs) \<le> MAXFILE * BSIZE" using g by (auto simp: good_file_def split: option.splits)
  have all: "read_all reads a = concat bs" using bs(1) by (simp add: read_all_def)
  obtain s1 where s1: "mk_ialloc T_FILE s = Ok ?i s1" "fs_image s1 (D(?i := new_dinode T_FILE))" "freeinode s1 = ?i + 1"
      "freeblock s1 = freeblock s" "\<forall>j. file_bytes (img s1) (D j) = file_bytes (img s) (D j)" "\<forall>b < 33. img s1 ! b = img s ! b"
    using mk_ialloc_ok [OF im i(2), of T_FILE] by blast
  define D1 where "D1 = D(?i := new_dinode T_FILE)"
  have D1: "D1 1 = D 1" "D1 ?i = new_dinode T_FILE" using i by (simp_all add: D1_def)
  obtain s2 D2 where s2: "iappend 1 ?e s1 = Ok () s2" "extends 1 ?e s1 D1 s2 D2"
    using iappend_ok [OF s1(2) [folded D1_def], of 1 ?e] i s1(3,4) sz room D1(1) by (auto simp: length_mk_dirent mkfs_values)
  note x = extendsD [OF s2(2)]
  have D2: "D2 ?i = new_dinode T_FILE" "size_of (D2 ?i) = 0" using x(7) [of ?i] D1(2) i by (simp_all add: new_dinode_def)
  obtain s3 D3 where s3: "for_each (iappend ?i) bs s2 = Ok () s3" "extends ?i (concat bs) s2 D2 s3 D3"
    using appends_ok [OF x(1) i(2), of bs] x(2,3) s1(3,4) D1 D2 room bs(2) by (auto simp: length_mk_dirent slots_0 all)
  note y = extendsD [OF s3(2)]
  have run: "add_file reads 1 a s = Ok () s3"
    using g bs s1(1) s2(1) s3(1) by (auto simp: add_file_def good_file_def case_prod_unfold Let_def)
  have "file_bytes (img s2) (D2 ?i) = []" using D2(2) by (simp add: file_bytes_def)
  then have own: "file_bytes (img s3) (D3 ?i) = concat bs" "di_type (D3 ?i) = T_FILE"
    using y(5,6) D2(1) by (simp_all add: new_dinode_def)
  have root: "D3 1 = D2 1" "file_bytes (img s3) (D3 1) = file_bytes (img s) (D 1) @ ?e"
    using y(7,8) [of 1] x(6) i D1(1) s1(5) by simp_all
  have others: "D3 j = D j \<and> file_bytes (img s3) (D j) = file_bytes (img s) (D j)" if "j \<noteq> 1" "j \<noteq> ?i" for j
    using that y(7,8) [of j] x(7,8) [of j] s1(5) by (simp add: D1_def)
  have "freeblock s3 = freeblock s + card (slots (size_of (D 1) + 16) - slots (size_of (D 1))) + card (slots (length (concat bs)))"
    using x(3) y(3) D1(1) D2(2) s1(4) by (simp add: length_mk_dirent slots_0)
  then have "added (snd (stored_name a)) (concat bs) s D s3 D3"
    unfolding added_def using y(1,2,9) x(2,4,5,9) s1(3,6) D1(1) own root others by (simp add: length_mk_dirent)
  then show ?thesis using run all by auto
qed

text \<open>The entries of the root directory for a list of files, the first of which gets inode \<open>f\<close>.\<close>

primrec dir_entries :: "nat \<Rightarrow> byte list list \<Rightarrow> byte list" where
  "dir_entries f [] = []"
| "dir_entries f (a # as) = mk_dirent f (snd (stored_name a)) @ dir_entries (f + 1) as"

lemma addedD:
  assumes "added name p s D s' D'"
  shows "fs_image s' D'" "freeinode s' = freeinode s + 1"
    "freeblock s' = freeblock s + card (slots (size_of (D 1) + 16) - slots (size_of (D 1))) + card (slots (length p))"
    "size_of (D' 1) = size_of (D 1) + 16" "di_type (D' 1) = di_type (D 1)"
    "file_bytes (img s') (D' 1) = file_bytes (img s) (D 1) @ mk_dirent (freeinode s) name"
    "di_type (D' (freeinode s)) = T_FILE" "file_bytes (img s') (D' (freeinode s)) = p"
    "j \<noteq> 1 \<Longrightarrow> j \<noteq> freeinode s \<Longrightarrow> D' j = D j \<and> file_bytes (img s') (D j) = file_bytes (img s) (D j)"
    "b < 33 \<Longrightarrow> img s' ! b = img s ! b"
  using assms unfolding added_def by blast+

lemma add_files_ok:
  assumes "fs_image s D" "1 < freeinode s" "freeinode s + length as \<le> NINODES" "list_all (good_file reads) as"
    "size_of (D 1) + 16 * length as \<le> MAXFILE * BSIZE"
    "freeblock s + card (slots (size_of (D 1) + 16 * length as) - slots (size_of (D 1))) +
      (\<Sum>a\<leftarrow>as. card (slots (length (read_all reads a)))) \<le> FSSIZE"
  shows "\<exists>s' D'. for_each (add_file reads 1) as s = Ok () s' \<and> fs_image s' D' \<and> size_of (D' 1) = size_of (D 1) + 16 * length as \<and>
    di_type (D' 1) = di_type (D 1) \<and> file_bytes (img s') (D' 1) = file_bytes (img s) (D 1) @ dir_entries (freeinode s) as \<and>
    (\<forall>k < length as. di_type (D' (freeinode s + k)) = T_FILE \<and>
      file_bytes (img s') (D' (freeinode s + k)) = read_all reads (as ! k)) \<and>
    (\<forall>j. j \<noteq> 1 \<and> j < freeinode s \<longrightarrow> D' j = D j \<and> file_bytes (img s') (D j) = file_bytes (img s) (D j)) \<and>
    (\<forall>b < 33. img s' ! b = img s ! b)"
  using assms
proof (induction as arbitrary: s D)
  case (Cons a as)
  let ?n = "size_of (D 1)"
  have c: "card (slots (?n + 16 * length (a # as)) - slots ?n) =
      card (slots (?n + 16) - slots ?n) + card (slots (?n + 16 + 16 * length as) - slots (?n + 16))"
    using card_slots_diff [of ?n "?n + 16" "?n + 16 * length (a # as)"] by (simp add: add.assoc)
  note p = Cons.prems
  obtain s1 D1 where r: "add_file reads 1 a s = Ok () s1" "added (snd (stored_name a)) (read_all reads a) s D s1 D1"
    using add_file_ok [OF p(1,2), of reads a] p(3-6) c by auto
  note x = addedD [OF r(2)]
  obtain s2 D2 where t: "for_each (add_file reads 1) as s1 = Ok () s2" "fs_image s2 D2"
      "size_of (D2 1) = size_of (D1 1) + 16 * length as" "di_type (D2 1) = di_type (D1 1)"
      "file_bytes (img s2) (D2 1) = file_bytes (img s1) (D1 1) @ dir_entries (freeinode s1) as"
      "\<forall>k < length as. di_type (D2 (freeinode s1 + k)) = T_FILE \<and> file_bytes (img s2) (D2 (freeinode s1 + k)) = read_all reads (as ! k)"
      "\<forall>j. j \<noteq> 1 \<and> j < freeinode s1 \<longrightarrow> D2 j = D1 j \<and> file_bytes (img s2) (D1 j) = file_bytes (img s1) (D1 j)"
      "\<forall>b < 33. img s2 ! b = img s1 ! b"
  proof -
    have "1 < freeinode s1" "freeinode s1 + length as \<le> NINODES" "list_all (good_file reads) as"
      "size_of (D1 1) + 16 * length as \<le> MAXFILE * BSIZE"
      "freeblock s1 + card (slots (size_of (D1 1) + 16 * length as) - slots (size_of (D1 1))) +
        (\<Sum>a\<leftarrow>as. card (slots (length (read_all reads a)))) \<le> FSSIZE"
      using p(2-6) x(2-4) c by simp_all
    from Cons.IH [OF x(1) this] show thesis by (elim exE conjE) (rule that)
  qed
  have "di_type (D2 (freeinode s + k)) = T_FILE \<and> file_bytes (img s2) (D2 (freeinode s + k)) = read_all reads ((a # as) ! k)"
    if "k < length (a # as)" for k
  proof (cases k)
    case 0
    have "D2 (freeinode s) = D1 (freeinode s)" "file_bytes (img s2) (D1 (freeinode s)) = file_bytes (img s1) (D1 (freeinode s))"
      using t(7) x(2) p(2) by auto
    then show ?thesis using 0 x(7,8) by simp
  next
    case (Suc k')
    then show ?thesis using t(6) x(2) that by simp
  qed
  moreover have "D2 j = D j \<and> file_bytes (img s2) (D j) = file_bytes (img s) (D j)" if "j \<noteq> 1" "j < freeinode s" for j
    using t(7) [rule_format, of j] x(2) x(9) [of j] that by auto
  moreover have "img s2 ! b = img s ! b" if "b < 33" for b using that t(8) x(10) by simp
  moreover have "for_each (add_file reads 1) (a # as) s = Ok () s2" using r(1) t(1) by simp
  ultimately show ?case using t(2-5) x(2,4-6) by (intro exI [of _ s2] exI [of _ D2]) simp
qed auto

subsection \<open>The bitmap\<close>

definition marks :: "nat \<Rightarrow> byte list" where
  "marks used = fold (\<lambda>i b. b[i div 8 := b ! (i div 8) OR push_bit (i mod 8) 1]) [0..<used] (replicate BSIZE 0)"

lemma marks_Suc: "marks (Suc u) = (marks u)[u div 8 := marks u ! (u div 8) OR push_bit (u mod 8) 1]"
  by (simp add: marks_def)

lemma length_marks: "length (marks u) = BSIZE"
  by (induction u) (simp_all add: marks_Suc, simp add: marks_def)

lemma bit_marks:
  assumes "b < BPB" "u \<le> BPB"
  shows "bit (marks u ! (b div 8)) (b mod 8) \<longleftrightarrow> b < u"
  using assms(2)
proof (induction u)
  case 0
  have "b div 8 < BSIZE" using assms(1) by (simp add: BPB_def BSIZE_def)
  then show ?case by (simp add: marks_def)
next
  case (Suc u)
  have l: "b div 8 < length (marks u)" "u div 8 < length (marks u)"
    using assms(1) Suc.prems by (simp_all add: length_marks BPB_def BSIZE_def)
  show ?case
  proof (cases "b div 8 = u div 8")
    case True
    have "b mod 8 = u mod 8 \<longleftrightarrow> b = u" using True by (metis div_mult_mod_eq)
    moreover have "bit (marks u ! (b div 8) OR push_bit (u mod 8) 1) (b mod 8) \<longleftrightarrow> bit (marks u ! (b div 8)) (b mod 8) \<or> b mod 8 = u mod 8"
      by (auto simp: bit_simps)
    ultimately show ?thesis using True Suc l by (auto simp: marks_Suc)
  next
    case False
    then have "b \<noteq> u" by auto
    then show ?thesis using False Suc by (auto simp: marks_Suc)
  qed
qed

lemma mk_balloc_eq:
  assumes "length (img s) = FSSIZE" "used \<le> FSSIZE"
  shows "mk_balloc used s = Ok () (s\<lparr>img := (img s)[46 := marks used]\<rparr>)"
proof -
  have "unat (sb_bmapstart mkfs_sb) = 46" by (simp add: mkfs_sb_def mkfs_consts)
  then show ?thesis using assms by (simp add: mk_balloc_def wsect_def marks_def mkfs_consts)
qed

subsection \<open>The number of blocks of a file\<close>

definition blocks_for :: "nat \<Rightarrow> nat" where
  "blocks_for n = (n + BSIZE - 1) div BSIZE + (if NDIRECT * BSIZE < n then 1 else 0)"

lemma card_slots:
  assumes "n \<le> MAXFILE * BSIZE"
  shows "card (slots n) = blocks_for n"
proof -
  have e: "k * BSIZE < n \<longleftrightarrow> k < (n + BSIZE - 1) div BSIZE" for k
    using less_eq_div_iff_mult_less_eq [of BSIZE "Suc k" "n + BSIZE - 1"] by (auto simp: mkfs_values less_eq_Suc_le)
  have m: "(n + BSIZE - 1) div BSIZE \<le> MAXFILE" using assms by (simp add: mkfs_values)
  have "{k. k < MAXFILE \<and> k * BSIZE < n} = {..<(n + BSIZE - 1) div BSIZE}"
    unfolding e using m by auto
  then have "slots n = (if NDIRECT * BSIZE < n then insert MAXFILE {..<(n + BSIZE - 1) div BSIZE} else {..<(n + BSIZE - 1) div BSIZE})"
    by (simp add: slots_def)
  then show ?thesis using m by (simp add: blocks_for_def)
qed

subsection \<open>The empty image\<close>

definition zero_dinode :: dinode where
  "zero_dinode = \<lparr>di_type = 0, di_major = 0, di_minor = 0, di_nlink = 0, di_size = 0, di_addrs = replicate (NDIRECT + 1) 0\<rparr>"

lemma fold_wsect:
  "fold (\<lambda>i. wsect i b) [0..<n] \<lparr>img = [], freeinode = fi, freeblock = fb\<rparr> = \<lparr>img = replicate n b, freeinode = fi, freeblock = fb\<rparr>"
  by (induction n) (simp_all add: wsect_def replicate_append_same)

lemma zero_inode: "k < IPB \<Longrightarrow> get_dinode (replicate BSIZE 0) k = zero_dinode"
proof -
  assume k: "k < IPB"
  have "map (\<lambda>i. get32 (replicate 64 (0 :: byte)) (12 + 4 * i)) [0..<13] = replicate 13 0"
    by (rule nth_equalityI) (simp_all add: get32_zeros)
  moreover have "take 64 (drop (k * 64) (replicate 1024 (0 :: byte))) = replicate 64 0" using k by (simp add: mkfs_values)
  ultimately show ?thesis
    by (simp add: get_dinode_def bytes_dinode_def zero_dinode_def mkfs_consts word16_def get32_zeros del: upt_Suc)
qed

definition blank_image :: mkfs_state where
  "blank_image = \<lparr>img = (replicate FSSIZE (replicate BSIZE 0))[1 := put_at (replicate BSIZE 0) 0 (superblock_bytes mkfs_sb)],
     freeinode = 1, freeblock = nmeta\<rparr>"

lemma blank_image_ok: "fs_image blank_image (\<lambda>_. zero_dinode)"
proof -
  let ?B = "img blank_image"
  have one: "Suc 0 < FSSIZE" by (simp add: mkfs_values)
  have sb: "length (put_at (replicate BSIZE 0) 0 (superblock_bytes mkfs_sb)) = BSIZE"
    by (simp add: superblock_bytes_def BSIZE_def)
  have a: "amap ?B zero_dinode k = 0" for k by (rule amap_no_addrs) (simp add: zero_dinode_def)
  have b: "?B ! b = replicate BSIZE 0" if "b < FSSIZE" "b \<noteq> 1" for b using that by (simp add: blank_image_def)
  have "layout ?B nmeta (\<lambda>_. zero_dinode) (\<lambda>_. {})"
    unfolding layout_def a
  proof (intro conjI)
    show "\<forall>b < FSSIZE. length (?B ! b) = BSIZE" using sb one by (auto simp: blank_image_def nth_list_update)
    show "\<forall>c. nmeta \<le> c \<and> c < FSSIZE \<longrightarrow> ?B ! c = replicate BSIZE 0" using b by (simp add: mkfs_values)
  qed (simp_all add: blank_image_def mkfs_values zero_dinode_def dinode_wf_def)
  moreover have "inode_at ?B j = zero_dinode" if "j < NINODES" for j
    using b [of "33 + j div IPB"] zero_inode [OF inode_block(3)] that by (simp add: inode_at_eq mkfs_values)
  ultimately show ?thesis
    unfolding fs_image_def by (simp add: zero_dinode_def slots_0 blank_image_def)
qed

lemma blank_superblock: "bytes_superblock (img blank_image ! 1) = mkfs_sb"
  by (simp add: blank_image_def mkfs_values put_at_def bytes_superblock_bytes)

subsection \<open>The whole program\<close>

text \<open>A change of the metadata leaves the files as they are.\<close>

lemma meta_change:
  assumes l: "layout B fb D U" and b: "\<And>b. nmeta \<le> b \<Longrightarrow> b < FSSIZE \<Longrightarrow> B' ! b = B ! b"
  shows "amap B' (D j) k = amap B (D j) k" "n div BSIZE \<in> U j \<Longrightarrow> byte_at B' (D j) n = byte_at B (D j) n"
proof -
  show m: "amap B' (D j) k = amap B (D j) k" for k
  proof (cases "MAXFILE \<in> U j")
    case True
    then show ?thesis using b layout_block(2,4) [OF l True] indirect_block(2) [OF l, of j] by (simp add: amap_def)
  next
    case False
    then show ?thesis using indirect_block(1) [OF l, of j] by (simp add: amap_def)
  qed
  show "byte_at B' (D j) n = byte_at B (D j) n" if "n div BSIZE \<in> U j"
    using b layout_block(2,4) [OF l that] m by (simp add: byte_at_def)
qed

text \<open>The last steps: the size of the root directory is rounded up and the bitmap is written.\<close>

lemma mkfs_end:
  assumes im: "fs_image s D"
  shows "\<exists>s'. andthen (rinode 1 s) (\<lambda>din s.
        let off = (unat (di_size din) div BSIZE + 1) * BSIZE in
        andthen (winode 1 (din\<lparr>di_size := of_nat off\<rparr>) s) (\<lambda>_ s. mk_balloc (freeblock s) s)) = Ok () s' \<and>
    freeblock s' = freeblock s \<and> length (img s') = FSSIZE \<and> img s' ! 1 = img s ! 1 \<and> img s' ! 46 = marks (freeblock s) \<and>
    di_type (inode_at (img s') 1) = di_type (D 1) \<and>
    take (size_of (D 1)) (file_bytes (img s') (inode_at (img s') 1)) = file_bytes (img s) (D 1) \<and>
    (\<forall>j < NINODES. j \<noteq> 1 \<longrightarrow> inode_at (img s') j = D j \<and> file_bytes (img s') (D j) = file_bytes (img s) (D j) \<and>
      (\<forall>k \<le> MAXFILE. amap (img s') (D j) k < freeblock s))"
proof -
  note l = fs_imageD(1) [OF im]
  let ?off = "(size_of (D 1) div BSIZE + 1) * BSIZE"
  define di where "di = (D 1)\<lparr>di_size := of_nat ?off\<rparr>"
  define B where "B = (put_inode (img s) 1 di)[46 := marks (freeblock s)]"
  have one: "1 < NINODES" by (simp add: mkfs_values)
  have wf: "dinode_wf di" using layoutD(6) [OF l] by (simp add: di_def dinode_wf_def)
  note pb = put_inode_block [OF layoutD(1,2) [OF l] one wf]
  have run: "andthen (rinode 1 s) (\<lambda>din s.
        let off = (unat (di_size din) div BSIZE + 1) * BSIZE in
        andthen (winode 1 (din\<lparr>di_size := of_nat off\<rparr>) s) (\<lambda>_ s. mk_balloc (freeblock s) s)) = Ok () (s\<lparr>img := B\<rparr>)"
    using rinode_ok [OF im one] winode_eq [OF layoutD(1) [OF l] one] mk_balloc_eq [of "s\<lparr>img := put_inode (img s) 1 di\<rparr>"] pb(1) layoutD(4) [OF l]
    by (simp add: Let_def di_def B_def del: of_nat_mult of_nat_add)
  have B46: "length B = FSSIZE" "B ! 46 = marks (freeblock s)" "B ! 1 = img s ! 1"
    using pb(1) pb(3) [of 1] by (simp_all add: B_def mkfs_values)
  have hi: "B ! b = img s ! b" if "nmeta \<le> b" "b < FSSIZE" for b using that pb(3) [of b] by (simp add: B_def mkfs_values)
  have ino: "inode_at B j = (if j = 1 then di else D j)" if "j < NINODES" for j
  proof -
    have "33 + j div IPB \<noteq> 46" using that by (simp add: mkfs_values)
    then have "inode_at B j = inode_at (put_inode (img s) 1 di) j" using that by (simp add: B_def inode_at_eq)
    then show ?thesis using inode_at_put [OF layoutD(1,2) [OF l] one wf that] fs_imageD(2) [OF im that] by simp
  qed
  have at: "byte_at B (D j) n = byte_at (img s) (D j) n" if "n < size_of (D j)" for j n
    using meta_change(2) [OF l hi] slot_in [OF that file_block [OF that fs_imageD(3) [OF im]]] by blast
  have "size_of (D 1) < ?off" by (simp add: mkfs_values)
  moreover have "?off < 2 ^ 32" using fs_imageD(3) [OF im, of 1] by (simp add: mkfs_values)
  then have "size_of di = ?off" by (simp add: di_def unat_of_nat del: of_nat_mult of_nat_add)
  ultimately have "take (size_of (D 1)) (file_bytes B di) = file_bytes (img s) (D 1)"
    using at [of _ 1] byte_at_same_addrs [of di "D 1"] by (simp add: file_bytes_def take_map di_def)
  moreover have "file_bytes B (D j) = file_bytes (img s) (D j)" for j using at by (simp add: file_bytes_def)
  moreover have "amap B (D j) k < freeblock s" if "k \<le> MAXFILE" for j k
    using meta_change(1) [OF l hi] layout_slot [OF l that, of j] layout_block(1) [OF l, of k j] layoutD(3) [OF l]
    by (cases "k \<in> slots (size_of (D j))") (simp_all add: mkfs_values)
  ultimately show ?thesis using run B46 ino one by (intro exI [of _ "s\<lparr>img := B\<rparr>"]) (simp add: di_def)
qed

lemma mkfs_start:
  "wsect 1 b (fold (\<lambda>i. wsect i (replicate BSIZE 0)) [0..<FSSIZE] \<lparr>img = [], freeinode = 1, freeblock = nmeta\<rparr>) =
     \<lparr>img = (replicate FSSIZE (replicate BSIZE 0))[1 := b], freeinode = 1, freeblock = nmeta\<rparr>"
  unfolding fold_wsect by (simp add: wsect_def mkfs_values)

lemma root_directory:
  assumes room: "nmeta + card (slots 32) \<le> FSSIZE"
  shows "\<exists>s D. andthen (mk_ialloc T_DIR blank_image) (\<lambda>rootino s.
        if of_nat rootino \<noteq> ROOTINO then Panic ''assert rootino''
        else andthen (iappend rootino (mk_dirent rootino (map of_char ''.'')) s) (\<lambda>_ s.
          andthen (iappend rootino (mk_dirent rootino (map of_char ''..'')) s) (\<lambda>_ s. k rootino s))) = k 1 s \<and>
    fs_image s D \<and> freeinode s = 2 \<and> freeblock s = nmeta + card (slots 32) \<and> size_of (D 1) = 32 \<and> di_type (D 1) = T_DIR \<and>
    file_bytes (img s) (D 1) = mk_dirent 1 (map of_char ''.'') @ mk_dirent 1 (map of_char ''..'') \<and> img s ! 1 = img blank_image ! 1"
proof -
  let ?d1 = "mk_dirent 1 (map of_char ''.'')" and ?d2 = "mk_dirent 1 (map of_char ''..'')" and ?D = "\<lambda>_ :: nat. zero_dinode"
  have one: "1 < NINODES" by (simp add: mkfs_values)
  have b: "freeinode blank_image = 1" "freeblock blank_image = nmeta" by (simp_all add: blank_image_def)
  obtain s1 where s1: "mk_ialloc T_DIR blank_image = Ok 1 s1" "fs_image s1 (?D(1 := new_dinode T_DIR))" "freeinode s1 = 2"
      "freeblock s1 = nmeta" "\<forall>b < 33. img s1 ! b = img blank_image ! b"
    using mk_ialloc_ok [OF blank_image_ok, of T_DIR] one unfolding b by auto
  define D1 where "D1 = ?D(1 := new_dinode T_DIR)"
  have z: "size_of (D1 1) = 0" "di_type (D1 1) = T_DIR" "file_bytes (img s1) (D1 1) = []"
    by (simp_all add: D1_def new_dinode_def file_bytes_def)
  have c: "card (slots 32) = card (slots 16) + card (slots 32 - slots 16)" using card_slots_diff [of 0 16 32] by (simp add: slots_0)
  obtain s2 D2 where s2: "iappend 1 ?d1 s1 = Ok () s2" "extends 1 ?d1 s1 D1 s2 D2"
    using iappend_ok [OF s1(2) [folded D1_def] one, of ?d1] s1(3,4) z(1) room c by (auto simp: length_mk_dirent slots_0 mkfs_values)
  note x = extendsD [OF s2(2), unfolded z length_mk_dirent]
  obtain s3 D3 where s3: "iappend 1 ?d2 s2 = Ok () s3" "extends 1 ?d2 s2 D2 s3 D3"
    using iappend_ok [OF x(1) one, of ?d2] x(2-4) s1(3,4) room c by (auto simp: length_mk_dirent slots_0 mkfs_values)
  note y = extendsD [OF s3(2), unfolded length_mk_dirent]
  show ?thesis
    using s1 s2(1) s3(1) x(2-6,9) y(1-6,9) c
    by (intro exI [of _ s3] exI [of _ D3]) (simp add: fs_consts slots_0)
qed

text \<open>The program up to its last steps.\<close>

lemma mkfs_run:
  assumes good: "list_all (good_file reads) files" and len: "length files + 2 \<le> NINODES"
    and room: "nmeta + card (slots (32 + 16 * length files)) + (\<Sum>a\<leftarrow>files. card (slots (length (read_all reads a)))) \<le> FSSIZE"
  shows "\<exists>s D. mkfs_main reads (prog # out # files) =
      andthen (rinode 1 s) (\<lambda>din s.
        let off = (unat (di_size din) div BSIZE + 1) * BSIZE in
        andthen (winode 1 (din\<lparr>di_size := of_nat off\<rparr>) s) (\<lambda>_ s. mk_balloc (freeblock s) s)) \<and>
    fs_image s D \<and> size_of (D 1) = 32 + 16 * length files \<and> di_type (D 1) = T_DIR \<and>
    file_bytes (img s) (D 1) = mk_dirent 1 (map of_char ''.'') @ mk_dirent 1 (map of_char ''..'') @ dir_entries 2 files \<and>
    (\<forall>k < length files. di_type (D (k + 2)) = T_FILE \<and> file_bytes (img s) (D (k + 2)) = read_all reads (files ! k)) \<and>
    bytes_superblock (img s ! 1) = mkfs_sb"
proof -
  have sz: "32 + 16 * length files \<le> MAXFILE * BSIZE" using len by (simp add: mkfs_values)
  have c: "card (slots (32 + 16 * length files)) = card (slots 32) + card (slots (32 + 16 * length files) - slots 32)"
    using card_slots_diff [of 0 32 "32 + 16 * length files"] by (simp add: slots_0)
  have rm: "nmeta + card (slots 32) \<le> FSSIZE" using room c by simp
  let ?k = "\<lambda>rootino s. andthen (for_each (add_file reads rootino) files s) (\<lambda>_ s.
      andthen (rinode rootino s) (\<lambda>din s.
      let off = (unat (di_size din) div BSIZE + 1) * BSIZE in
      andthen (winode rootino (din\<lparr>di_size := of_nat off\<rparr>) s) (\<lambda>_ s. mk_balloc (freeblock s) s)))"
  have d: "drop 2 (prog # out # files) = files" by (simp add: numeral_2_eq_2)
  have eq: "mkfs_main reads (prog # out # files) = andthen (mk_ialloc T_DIR blank_image) (\<lambda>rootino s.
      if of_nat rootino \<noteq> ROOTINO then Panic ''assert rootino''
      else andthen (iappend rootino (mk_dirent rootino (map of_char ''.'')) s) (\<lambda>_ s.
        andthen (iappend rootino (mk_dirent rootino (map of_char ''..'')) s) (\<lambda>_ s. ?k rootino s)))"
    unfolding mkfs_main_def Let_def mkfs_start blank_image_def [symmetric] d by simp
  obtain s D where r: "mkfs_main reads (prog # out # files) = ?k 1 s" "fs_image s D" "freeinode s = 2"
      "freeblock s = nmeta + card (slots 32)" "size_of (D 1) = 32" "di_type (D 1) = T_DIR"
      "file_bytes (img s) (D 1) = mk_dirent 1 (map of_char ''.'') @ mk_dirent 1 (map of_char ''..'')"
      "img s ! 1 = img blank_image ! 1"
    using root_directory [OF rm, of ?k] unfolding eq [symmetric] by (elim exE conjE) (rule that)
  obtain s1 D1 where t: "for_each (add_file reads 1) files s = Ok () s1" "fs_image s1 D1"
      "size_of (D1 1) = 32 + 16 * length files" "di_type (D1 1) = T_DIR"
      "file_bytes (img s1) (D1 1) = file_bytes (img s) (D 1) @ dir_entries 2 files"
      "\<forall>k < length files. di_type (D1 (2 + k)) = T_FILE \<and> file_bytes (img s1) (D1 (2 + k)) = read_all reads (files ! k)"
      "\<forall>b < 33. img s1 ! b = img s ! b"
    using add_files_ok [OF r(2), of files reads] r(3-6) good len sz room c by (auto simp: add.commute)
  have "bytes_superblock (img s1 ! 1) = mkfs_sb" using t(7) r(8) blank_superblock by simp
  then show ?thesis using r(1,7) t by (intro exI [of _ s1] exI [of _ D1]) (simp add: add.commute)
qed

text \<open>
  C8. The image builder: given files with names that fit a directory entry, that are short enough and for which
  there are enough inodes and blocks, \<open>mkfs\<close> succeeds, and in the image it writes the second block is the superblock
  the kernel reads, inode \<open>k + 2\<close> is a regular file with the bytes of the \<open>k\<close>-th file, the root directory starts
  with the entries for \<open>.\<close>, \<open>..\<close> and the files in order, the bitmap marks exactly the allocated blocks, and all the
  blocks of the files are among them.
\<close>

theorem mkfs_stores_files:
  assumes "list_all (good_file reads) files" "length files + 2 \<le> NINODES"
    "nmeta + blocks_for (32 + 16 * length files) + (\<Sum>a\<leftarrow>files. blocks_for (length (read_all reads a))) \<le> FSSIZE"
  shows "\<exists>s. mkfs_main reads (prog # out # files) = Ok () s \<and> length (img s) = FSSIZE \<and> bytes_superblock (img s ! 1) = mkfs_sb \<and>
    (\<forall>k < length files. di_type (inode_at (img s) (k + 2)) = T_FILE \<and>
      file_bytes (img s) (inode_at (img s) (k + 2)) = read_all reads (files ! k) \<and>
      (\<forall>q \<le> MAXFILE. amap (img s) (inode_at (img s) (k + 2)) q < freeblock s)) \<and>
    di_type (inode_at (img s) 1) = T_DIR \<and>
    take (32 + 16 * length files) (file_bytes (img s) (inode_at (img s) 1)) =
      mk_dirent 1 (map of_char ''.'') @ mk_dirent 1 (map of_char ''..'') @ dir_entries 2 files \<and>
    (\<forall>b < FSSIZE. bit (img s ! unat (sb_bmapstart mkfs_sb) ! (b div 8)) (b mod 8) \<longleftrightarrow> b < freeblock s)"
proof -
  have sz: "32 + 16 * length files \<le> MAXFILE * BSIZE" using assms(2) by (simp add: mkfs_values)
  have "length (read_all reads a) \<le> MAXFILE * BSIZE" if "a \<in> set files" for a
    using assms(1) that by (auto simp: list_all_iff good_file_def read_all_def split: option.splits)
  then have "(\<Sum>a\<leftarrow>files. card (slots (length (read_all reads a)))) = (\<Sum>a\<leftarrow>files. blocks_for (length (read_all reads a)))"
    by (intro arg_cong [of _ _ sum_list] map_cong) (simp_all add: card_slots)
  then have room: "nmeta + card (slots (32 + 16 * length files)) + (\<Sum>a\<leftarrow>files. card (slots (length (read_all reads a)))) \<le> FSSIZE"
    using assms(3) card_slots [OF sz] by simp
  obtain s D where t: "mkfs_main reads (prog # out # files) = andthen (rinode 1 s) (\<lambda>din s.
        let off = (unat (di_size din) div BSIZE + 1) * BSIZE in
        andthen (winode 1 (din\<lparr>di_size := of_nat off\<rparr>) s) (\<lambda>_ s. mk_balloc (freeblock s) s))"
      "fs_image s D" "size_of (D 1) = 32 + 16 * length files" "di_type (D 1) = T_DIR"
      "file_bytes (img s) (D 1) = mk_dirent 1 (map of_char ''.'') @ mk_dirent 1 (map of_char ''..'') @ dir_entries 2 files"
      "\<forall>k < length files. di_type (D (k + 2)) = T_FILE \<and> file_bytes (img s) (D (k + 2)) = read_all reads (files ! k)"
      "bytes_superblock (img s ! 1) = mkfs_sb"
    using mkfs_run [OF assms(1,2) room, of prog out] by (elim exE conjE) (rule that)
  obtain s2 where u: "mkfs_main reads (prog # out # files) = Ok () s2" "freeblock s2 = freeblock s" "length (img s2) = FSSIZE"
      "img s2 ! 1 = img s ! 1" "img s2 ! 46 = marks (freeblock s)" "di_type (inode_at (img s2) 1) = di_type (D 1)"
      "take (size_of (D 1)) (file_bytes (img s2) (inode_at (img s2) 1)) = file_bytes (img s) (D 1)"
      "\<forall>j < NINODES. j \<noteq> 1 \<longrightarrow> inode_at (img s2) j = D j \<and> file_bytes (img s2) (D j) = file_bytes (img s) (D j) \<and>
        (\<forall>k \<le> MAXFILE. amap (img s2) (D j) k < freeblock s)"
    using mkfs_end [OF t(2)] unfolding t(1) [symmetric] by (elim exE conjE) (rule that)
  have "unat (sb_bmapstart mkfs_sb) = 46" by (simp add: mkfs_sb_def mkfs_consts)
  moreover have "bit (marks (freeblock s) ! (b div 8)) (b mod 8) \<longleftrightarrow> b < freeblock s" if "b < FSSIZE" for b
    using that layoutD(4) [OF fs_imageD(1) [OF t(2)]] by (intro bit_marks) (simp_all add: mkfs_consts)
  moreover have "di_type (inode_at (img s2) (k + 2)) = T_FILE \<and>
      file_bytes (img s2) (inode_at (img s2) (k + 2)) = read_all reads (files ! k) \<and>
      (\<forall>q \<le> MAXFILE. amap (img s2) (inode_at (img s2) (k + 2)) q < freeblock s2)" if "k < length files" for k
    using u(2) u(8) [rule_format, of "k + 2"] t(6) [rule_format, OF that] that assms(2) by simp
  ultimately show ?thesis using u t(3-5,7) by (intro exI [of _ s2]) simp
qed

text \<open>Two files, \<open>README\<close> and \<open>user/_cat\<close>; the second is stored as \<open>cat\<close> and takes two blocks.\<close>

definition sample_reads :: "byte list \<Rightarrow> byte list list option" where
  "sample_reads = [[82, 69, 65, 68, 77, 69] \<mapsto> [[1, 2, 3]], [117, 115, 101, 114, 47, 95, 99, 97, 116] \<mapsto> [replicate 1024 7, replicate 100 8]]"

lemma sample_names:
  "stored_name ([82, 69, 65, 68, 77, 69]) = ([82, 69, 65, 68, 77, 69], [82, 69, 65, 68, 77, 69])"
  "stored_name ([117, 115, 101, 114, 47, 95, 99, 97, 116]) = ([95, 99, 97, 116], [99, 97, 116])"
  by code_simp+

theorem mkfs_stores_files_witness:
  "\<exists>s. mkfs_main sample_reads [[], [], [82, 69, 65, 68, 77, 69], [117, 115, 101, 114, 47, 95, 99, 97, 116]] = Ok () s \<and>
     bytes_superblock (img s ! 1) = mkfs_sb \<and> file_bytes (img s) (inode_at (img s) 2) = [1, 2, 3] \<and>
     file_bytes (img s) (inode_at (img s) 3) = replicate 1024 7 @ replicate 100 8 \<and>
     take 64 (file_bytes (img s) (inode_at (img s) 1)) =
       mk_dirent 1 (map of_char ''.'') @ mk_dirent 1 (map of_char ''..'') @ mk_dirent 2 ([82, 69, 65, 68, 77, 69]) @
       mk_dirent 3 ([99, 97, 116])"
proof -
  let ?fs = "[[82, 69, 65, 68, 77, 69], [117, 115, 101, 114, 47, 95, 99, 97, 116]] :: byte list list"
  have r: "read_all sample_reads ([82, 69, 65, 68, 77, 69]) = [1, 2, 3]"
    "read_all sample_reads ([117, 115, 101, 114, 47, 95, 99, 97, 116]) = replicate 1024 7 @ replicate 100 8"
    by (simp_all add: read_all_def sample_reads_def)
  have g: "list_all (good_file sample_reads) ?fs"
    by (simp add: good_file_def sample_names sample_reads_def mkfs_consts)
  have n: "length ?fs + 2 \<le> NINODES" by (simp add: mkfs_values)
  have room: "nmeta + blocks_for (32 + 16 * length ?fs) + (\<Sum>a\<leftarrow>?fs. blocks_for (length (read_all sample_reads a))) \<le> FSSIZE"
    by (simp add: r blocks_for_def mkfs_values)
  obtain s where s: "mkfs_main sample_reads ([] # [] # ?fs) = Ok () s" "bytes_superblock (img s ! 1) = mkfs_sb"
      "\<forall>k < length ?fs. di_type (inode_at (img s) (k + 2)) = T_FILE \<and>
        file_bytes (img s) (inode_at (img s) (k + 2)) = read_all sample_reads (?fs ! k) \<and>
        (\<forall>q \<le> MAXFILE. amap (img s) (inode_at (img s) (k + 2)) q < freeblock s)"
      "take (32 + 16 * length ?fs) (file_bytes (img s) (inode_at (img s) 1)) =
        mk_dirent 1 (map of_char ''.'') @ mk_dirent 1 (map of_char ''..'') @ dir_entries 2 ?fs"
    using mkfs_stores_files [OF g n room, of "[]" "[]"] by (elim exE conjE) (rule that)
  have "file_bytes (img s) (inode_at (img s) 2) = [1, 2, 3]"
    using s(3) [rule_format, of 0] r(1) by (simp add: numeral_2_eq_2)
  moreover have "file_bytes (img s) (inode_at (img s) 3) = replicate 1024 7 @ replicate 100 8"
    using s(3) [rule_format, of 1] r(2) by (simp add: numeral_3_eq_3)
  moreover have "32 + 16 * length ?fs = 64" "dir_entries 2 ?fs = mk_dirent 2 [82, 69, 65, 68, 77, 69] @ mk_dirent 3 [99, 97, 116]"
    by (simp_all add: sample_names)
  ultimately show ?thesis using s(1,2,4) by (intro exI [of _ s]) simp
qed

end
