(* ===== verification/Spec2Isabelle.thy ===== *)
theory Spec2Isabelle
  imports Ptv Grep Commit Boot Shelltext Uheap Lifecycle Usertools Mkfiles
begin

text \<open>
  A verification library for xv6-ptv: the xv6 kernel for RISC-V (\<open>src/kernel\<close>) with the added system call
  \<open>getprocs\<close>, the user programs (\<open>src/user\<close>), among them the process tree viewer \<open>ptv\<close>, and the builder of the disk
  image (\<open>src/mkfs\<close>).

  \<^bold>\<open>How code is modelled.\<close>  A C function is a function on a record of the state it uses; the records of the kernel
  extend each other, from the machine through locks, memory, processes, buffers, log, file system, console, files
  and disk to traps, so that a function of a lower layer runs on the state of every higher one.  It returns an
  \<open>outcome\<close> (theory \<open>Prelude\<close>): \<open>Ok\<close> with a result and a state, \<open>Panic\<close> with the message, \<open>Switch\<close> when the thread
  gives up the processor, and \<open>Spin\<close> when it waits for ever on a lock or a device.  \<open>andthen\<close> is the sequencing of
  statements.  What runs after a switch is a definition of its own, with the suffix \<open>_resume\<close> or \<open>_back\<close>.  Integers
  keep their width where it matters (words), memory is a function from addresses to bytes, and strings are byte
  lists.  User programs are the bytes they compute or the tree of the system calls they make.

  \<^bold>\<open>Foundations.\<close>
  \<^item> \<open>Prelude\<close>: outcomes, loops, words and bytes in memory.  \<open>Riscv\<close>: param.h, memlayout.h, the registers and page
    table macros of riscv.h.
  \<^item> \<open>Spinlock\<close> (spinlock.c): \<open>acquire\<close>, \<open>release\<close>, \<open>push_off\<close>, \<open>pop_off\<close>, \<open>holding\<close>; a step relation interleaves the
    harts, and the lemmas give mutual exclusion, the meaning of \<open>holding\<close> and the nesting of disabled interrupts.
  \<^item> \<open>Cstring\<close> (string.c) and \<open>Printf\<close> (printf.c, the synchronous half of uart.c): each routine against its
    specification on lists; the digits printed read back and fit their buffer.

  \<^bold>\<open>Memory.\<close>
  \<^item> \<open>Kalloc\<close> (kalloc.c): the free list threaded through memory; no page is lost or handed out twice, and \<open>kinit\<close>
    frees exactly the pages between the kernel and \<open>PHYSTOP\<close>.
  \<^item> \<open>Vm\<close> (vm.c) are the operations on page tables; \<open>Pagetable\<close> shows that \<open>mappages\<close> changes the address space as it
    should or fails for lack of a page; \<open>Uservm\<close> that \<open>copyin\<close> reads what \<open>copyout\<close> stored.

  \<^bold>\<open>Processes.\<close>
  \<^item> \<open>Proctab\<close> and \<open>Procmem\<close> (proc.c): the process table, sleep and wakeup without lost wakeups, the scheduler, kill,
    the memory of a process.  \<open>Proclife\<close>: fork, exit and wait; \<open>Lifecycle\<close>: an exiting child wakes its waiting parent.
  \<^item> \<open>Sysargs\<close>, \<open>Syscall\<close>, \<open>Sysproc\<close>, \<open>Sysfile\<close> (syscall.c, sysproc.c, sysfile.c): arguments, dispatch and all handlers.
    \<open>Getprocs\<close>: the records the new system call stores.  \<open>Exec\<close> (exec.c): loading a program.
  \<^item> \<open>Trap\<close> (trap.c, plic.c) and \<open>Boot\<close> (start.c, main.c, panic): entry to the kernel and its start.

  \<^bold>\<open>Files and devices.\<close>
  \<^item> \<open>Sleeplock\<close> (sleeplock.c): a lock goes to a process that was waiting for it.
  \<^item> \<open>Bio\<close> and \<open>Bcache\<close> (bio.c): the operations of the buffer cache and that they implement reads and writes of blocks.
  \<^item> \<open>Fsdefs\<close> (fs.h, stat.h, fcntl.h): the layout of the structures on disk.  \<open>Log\<close> and \<open>Commit\<close> (log.c): a crash at any
    write of a commit, followed by recovery, leaves all or nothing of the transaction; \<open>begin_op\<close> admits an operation
    only when the log has room for it; a log that is full makes \<open>commit\<close> panic.
  \<^item> \<open>Fs\<close> and \<open>Path\<close> (fs.c), \<open>File\<close> and \<open>Pipes\<close> (file.c, pipe.c): inodes, directories, paths, open files; a pipe is a
    first-in first-out queue.  \<open>Ringbuf\<close> holds the lemmas on circular buffers that pipes and the console share.
  \<^item> \<open>Console\<close> (console.c, uart.c): interrupt by interrupt the driver refines line editing on lists.
  \<^item> \<open>Virtio\<close> (virtio_disk.c): with a device that behaves as documented, the driver implements the transfer of a block.

  \<^bold>\<open>User programs and the image.\<close>
  \<^item> \<open>Ulib\<close> (ulib.c, printf.c), \<open>Ptv\<close> (ptv.c): \<open>dfs\<close> ends and prints the descendants of a process.  This theory joins
    \<open>Getprocs\<close> and \<open>Ptv\<close>: what \<open>ptv\<close> prints after the system call counts all the processes in use.
  \<^item> \<open>Grep\<close> (grep.c): the matcher against a language of regular expressions, and the lines that are selected.
  \<^item> \<open>Shell\<close>, \<open>Shellparse\<close>, \<open>Shelltext\<close> (sh.c): the parser returns on every line, with words of that line, and reads back
    every command from its text; a parsed command is run as a tree of system calls.
  \<^item> \<open>Umalloc\<close> and \<open>Uheap\<close> (umalloc.c): along every run the blocks of the program are disjoint and keep their bytes.
  \<^item> \<open>Usertools\<close> (cat.c, wc.c, echo.c, kill.c, ln.c, mkdir.c, rm.c, ls.c, init.c, the generator of grind.c).
  \<^item> \<open>Mkfs\<close> (mkfs.c), with \<open>Mkimage\<close> for the sharing of the blocks among the inodes and \<open>Mkfiles\<close> for the whole
    program: the image holds every file, the directory and the bitmap.

  \<^bold>\<open>Bounds.\<close>  Loops of the source end by structural recursion or a termination proof.  Three kinds of loops do not:
  the recursion of \<open>dfs\<close> is a partial function, which is shown to return on every table without a cycle of parents;
  the parser of the shell takes a fuel of six steps per byte of the line and six more, which is shown to be enough
  for every line; and the programs that read until the end of a file, or for ever, take the number of rounds they are
  followed for, of which one more than the length of the file is shown to be enough.  A loop that waits for another hart or a device is the
  outcome \<open>Spin\<close>, and one that sleeps is entered again when the process runs again.  The theorem on the user heap
  asks that the kernel keeps the break of the program below \<open>2^36\<close>, so that no header holds a size that does not fit.

  \<^bold>\<open>Parameters.\<close>  The contents of uninitialised locals, what the registers of devices return, the addresses of
  symbols of the linker, the results of \<open>sbrk\<close> in the allocator, the reads of \<open>grep\<close> and of \<open>mkfs\<close>.

  \<^bold>\<open>Not modelled.\<close>
  \<^item> The assembly (entry.S, swtch.S, trampoline.S, kernelvec.S): it saves registers and switches page tables below the
    level of C.  A trap and a switch are the places where the model hands over to another thread.
  \<^item> The printing of \<open>panic\<close>, \<open>r_sp\<close>, \<open>r_ra\<close> and \<open>sfence_vma\<close>, which touch no state of the model, and the fences, which
    are the atomicity of a step.
  \<^item> In the shell \<open>getcmd\<close> and the opening of the console, in grep the opening of its files, in the library the wrappers
    of \<open>exit\<close> and \<open>sbrk\<close>; the shell's allocations are taken to succeed.
  \<^item> The test programs (usertests.c, the rest of grind.c, forktest.c, stressfs.c, logstress.c and the small programs that
    leave orphans and zombies): sequences of system calls whose results are looked at by a person or a script.
  \<^item> Two harts interleave in the model of the spin locks only; everything above is a function of one hart, with the
    other processes acting where the thread switches or sleeps.
\<close>

section \<open>From the process table to the picture\<close>

text \<open>
  The kernel's process table as a tree: the pids of the processes in use are positive and differ, \<open>root\<close> is
  \<open>init\<close>, with pid 1 and no parent, and every other process has a parent in use that was created before it.
\<close>

definition in_use :: "(nat \<Rightarrow> proc) \<Rightarrow> nat list" where
  "in_use P = filter (\<lambda>p. p_state (P p) \<noteq> UNUSED) [0..<NPROC]"

definition proc_tree :: "(nat \<Rightarrow> proc) \<Rightarrow> nat \<Rightarrow> bool" where
  "proc_tree P root \<longleftrightarrow> root \<in> set (in_use P) \<and> p_pid (P root) = 1 \<and> p_parent (P root) = None \<and>
     inj_on (\<lambda>p. p_pid (P p)) (set (in_use P)) \<and> (\<forall>p\<in>set (in_use P). 1 \<le> p_pid (P p)) \<and>
     (\<forall>p\<in>set (in_use P). p \<noteq> root \<longrightarrow>
        (\<exists>q\<in>set (in_use P). p_parent (P p) = Some q \<and> p_pid (P q) < p_pid (P p)))"

text \<open>A list of records that describes the processes \<open>us\<close>.\<close>

definition describes :: "(nat \<Rightarrow> proc) \<Rightarrow> nat list \<Rightarrow> pinfo list \<Rightarrow> bool" where
  "describes P us ps \<longleftrightarrow> length ps = length us \<and> (\<forall>k < length us. pi_pid (ps ! k) = p_pid (P (us ! k)) \<and>
     pi_ppid (ps ! k) = (case p_parent (P (us ! k)) of Some q \<Rightarrow> p_pid (P q) | None \<Rightarrow> - 1))"

lemma below_extend:
  "below ps pid e j \<Longrightarrow> i < length ps \<Longrightarrow> pi_ppid (ps ! i) = pi_pid (ps ! j) \<Longrightarrow> below ps pid (Suc e) i"
  by (induction rule: below.induct) (auto intro: below.intros)

lemma tree_below:
  assumes tree: "proc_tree P root" and d: "describes P (in_use P) ps"
  shows "k < length ps \<Longrightarrow> pi_pid (ps ! k) \<noteq> 1 \<Longrightarrow> \<exists>e. below ps 1 e k"
proof (induction "nat (pi_pid (ps ! k))" arbitrary: k rule: less_induct)
  case less
  let ?us = "in_use P" and ?p = "in_use P ! k"
  have k: "k < length ?us" "pi_pid (ps ! k) = p_pid (P ?p)" using less.prems(1) d by (auto simp: describes_def)
  then have p: "?p \<in> set ?us" "?p \<noteq> root" using less.prems(2) tree by (auto simp: proc_tree_def)
  then obtain q where q: "q \<in> set ?us" "p_parent (P ?p) = Some q" "p_pid (P q) < p_pid (P ?p)" "1 \<le> p_pid (P q)"
    using tree by (auto simp: proc_tree_def)
  obtain j where j: "j < length ?us" "?us ! j = q" using q(1) by (auto simp: in_set_conv_nth)
  have pp: "pi_ppid (ps ! k) = pi_pid (ps ! j)" "pi_pid (ps ! j) = p_pid (P q)" "j < length ps"
    using d k(1) j q(2) by (auto simp: describes_def)
  show ?case
  proof (cases "pi_pid (ps ! j) = 1")
    case True
    then have "below ps 1 0 k" using less.prems(1) pp(1) by (intro below.child) simp_all
    then show ?thesis by blast
  next
    case False
    have "nat (pi_pid (ps ! j)) < nat (pi_pid (ps ! k))" using pp(2) q(3,4) k(2) by simp
    then obtain e where "below ps 1 e j" using less.hyps False pp(3) by blast
    then show ?thesis using below_extend less.prems(1) pp(1) by blast
  qed
qed

lemma tree_ranked:
  assumes tree: "proc_tree P root" and d: "describes P (in_use P) ps"
  shows "distinct (map pi_pid ps)" "\<forall>p\<in>set ps. nat (pi_ppid p + 1) < nat (pi_pid p + 1)"
    "\<exists>init\<in>set ps. pi_pid init = 1"
proof -
  let ?us = "in_use P"
  have len: "length ps = length ?us" and pid: "k < length ?us \<Longrightarrow> pi_pid (ps ! k) = p_pid (P (?us ! k))" for k
    using d by (simp_all add: describes_def)
  have "map pi_pid ps = map (\<lambda>p. p_pid (P p)) ?us" using len pid by (intro nth_equalityI) simp_all
  moreover have "distinct ?us" by (simp add: in_use_def)
  ultimately show "distinct (map pi_pid ps)" using tree by (simp add: distinct_map proc_tree_def)
  obtain k where "k < length ?us" "?us ! k = root" using tree by (auto simp: proc_tree_def in_set_conv_nth)
  then show "\<exists>init\<in>set ps. pi_pid init = 1" using tree pid [of k] len by (auto simp: proc_tree_def intro!: bexI [of _ "ps ! k"])
  show "\<forall>p\<in>set ps. nat (pi_ppid p + 1) < nat (pi_pid p + 1)"
  proof
    fix x assume "x \<in> set ps"
    then obtain k where k: "k < length ?us" "x = ps ! k" using len by (auto simp: in_set_conv_nth)
    let ?p = "?us ! k"
    have p: "?p \<in> set ?us" using k(1) by simp
    show "nat (pi_ppid x + 1) < nat (pi_pid x + 1)"
    proof (cases "?p = root")
      case True
      then show ?thesis using tree d k by (simp add: proc_tree_def describes_def)
    next
      case False
      then obtain q where "p_parent (P ?p) = Some q" "p_pid (P q) < p_pid (P ?p)" "1 \<le> p_pid (P ?p)"
        using tree p by (auto simp: proc_tree_def)
      then show ?thesis using d k by (simp add: describes_def)
    qed
  qed
qed


lemma sample_calling_tree:
  "in_use (procs sample_calling) = [0, 1]" "proc_tree (procs sample_calling) 0"
proof -
  have st: "p_state (procs sample_calling p) = (if p = 0 then RUNNING else if p = 1 then RUNNABLE else UNUSED)" for p
    by (simp add: sample_calling_def sample_user_def blank_proc_def)
  have "[0..<NPROC] = [0, 1] @ [2..<NPROC]" by (simp add: NPROC_def upt_rec)
  moreover have "filter (\<lambda>p. p_state (procs sample_calling p) \<noteq> UNUSED) [2..<NPROC] = []" by (simp add: st)
  ultimately show u: "in_use (procs sample_calling) = [0, 1]" by (simp add: in_use_def st)
  show "proc_tree (procs sample_calling) 0"
    unfolding proc_tree_def u by (simp add: inj_on_def sample_calling_def sample_user_def blank_proc_def)
qed


end
